(* ===== verification/Mg_Prelude.thy ===== *)
theory Mg_Prelude
  imports Main "HOL-Library.Word"
begin

text \<open>
  Generic material of the development: bytes and little-endian images of machine
  integers, NUL-terminated strings, C++'s truncating division, and the outcome of a
  call that may return, throw or have undefined behaviour.
\<close>

unbundle bit_operations_syntax

named_theorems wire_simps \<open>sizes and shapes of wire images\<close>
named_theorems buf_simps \<open>the effect of one buffer operation on a cursor buffer\<close>

type_synonym u8 = "8 word"
type_synonym u16 = "16 word"
type_synonym u32 = "32 word"
type_synonym u64 = "64 word"
type_synonym u128 = "128 word"
type_synonym bytes = "u8 list"

section \<open>Outcomes of a call\<close>

text \<open>
  A C++ call returns a value, leaves by an exception, or runs into undefined behaviour
  (a null or uninitialised pointer dereferenced, an access outside an array). The three
  are kept apart, so that ``does not throw'' and ``is defined'' can be stated.
\<close>

datatype exn =
    LengthError              \<comment> \<open>std::length_error, from a container\<close>
  | RuntimeError string      \<comment> \<open>std::runtime_error with its message\<close>
  | BadExpectedAccess string \<comment> \<open>std::bad_expected_access, from value() of an error\<close>
  | Abort                    \<comment> \<open>the end of the process by abort() or exit()\<close>

datatype 'a outcome = Ret 'a | Throw exn | Undef

fun obind :: "'a outcome \<Rightarrow> ('a \<Rightarrow> 'b outcome) \<Rightarrow> 'b outcome" where
  "obind (Ret x) f = f x"
| "obind (Throw e) f = Throw e"
| "obind Undef f = Undef"

lemma obind_eq_Ret [simp]: "obind m f = Ret y \<longleftrightarrow> (\<exists>x. m = Ret x \<and> f x = Ret y)"
  by (cases m) auto

lemma obind_assoc: "obind (obind m f) g = obind m (\<lambda>x. obind (f x) g)"
  by (cases m) auto

lemma obind_Ret_right [simp]: "obind m Ret = m"
  by (cases m) auto

lemma obind_cong [fundef_cong]:
  "m = m' \<Longrightarrow> (\<And>x. m' = Ret x \<Longrightarrow> f x = g x) \<Longrightarrow> obind m f = obind m' g"
  by (cases m') auto

text \<open>\<open>of_option\<close>: a pointer that must not be null.\<close>

fun deref :: "'a option \<Rightarrow> 'a outcome" where
  "deref None = Undef"
| "deref (Some x) = Ret x"

lemma deref_eq_Ret [simp]: "deref p = Ret x \<longleftrightarrow> p = Some x"
  by (cases p) auto

text \<open>A call of the operating system acts on a world of any type, and is logged.\<close>

type_synonym ('w, 'c) logged = "'w \<times> 'c list"

definition sys :: "'c \<Rightarrow> ('w \<Rightarrow> 'r \<times> 'w) \<Rightarrow> ('w, 'c) logged \<Rightarrow> 'r \<times> ('w, 'c) logged" where
  "sys c f s = (let (r, w) = f (fst s) in (r, (w, snd s @ [c])))"

section \<open>Truncating division\<close>

text \<open>C++'s \<open>/\<close> and \<open>%\<close> on signed integers round towards zero.\<close>

definition cdiv :: "int \<Rightarrow> int \<Rightarrow> int" where
  "cdiv a b = sgn a * sgn b * (\<bar>a\<bar> div \<bar>b\<bar>)"

definition cmod :: "int \<Rightarrow> int \<Rightarrow> int" where
  "cmod a b = a - cdiv a b * b"

lemma cdiv_nonneg: "0 \<le> a \<Longrightarrow> 0 < b \<Longrightarrow> cdiv a b = a div b"
  by (cases "a = 0") (simp_all add: cdiv_def)

lemma cmod_nonneg: "0 \<le> a \<Longrightarrow> 0 < b \<Longrightarrow> cmod a b = a mod b"
  by (simp add: cmod_def cdiv_nonneg minus_div_mult_eq_mod)

lemma cdiv_neg: "a < 0 \<Longrightarrow> 0 < b \<Longrightarrow> cdiv a b = - ((- a) div b)"
  by (simp add: cdiv_def)

lemma cmod_neg: "a < 0 \<Longrightarrow> 0 < b \<Longrightarrow> cmod a b = - ((- a) mod b)"
  using minus_div_mult_eq_mod [of "- a" b] by (simp add: cmod_def cdiv_neg)

lemma cdiv_cmod: "cdiv a b * b + cmod a b = a"
  by (simp add: cmod_def)

lemma cmod_abs_less: "0 < b \<Longrightarrow> \<bar>cmod a b\<bar> < b"
  by (cases "0 \<le> a") (simp_all add: cmod_nonneg cmod_neg)

section \<open>Little-endian images\<close>

text \<open>\<open>le n v\<close>: the \<open>n\<close> bytes an \<open>n\<close>-byte integer of value \<open>v\<close> (modulo
  \<open>256 ^ n\<close>) has in memory on the little-endian machines the code targets;
  \<open>unle\<close> reads such an image back.\<close>

fun le :: "nat \<Rightarrow> nat \<Rightarrow> bytes" where
  "le 0 v = []"
| "le (Suc n) v = word_of_nat v # le n (v div 256)"

fun unle :: "bytes \<Rightarrow> nat" where
  "unle [] = 0"
| "unle (b # bs) = unat b + 256 * unle bs"

lemma length_le [simp, wire_simps]: "length (le n v) = n"
  by (induction n arbitrary: v) auto

lemma unat_u8_of_nat: "unat (word_of_nat v :: u8) = v mod 256"
  by (simp add: unat_of_nat)

lemma unle_le: "unle (le n v) = v mod 256 ^ n"
proof (induction n arbitrary: v)
  case (Suc n)
  have "v mod (256 * 256 ^ n) = 256 * (v div 256 mod 256 ^ n) + v mod 256"
    by (simp add: mod_mult2_eq)
  then show ?case
    using Suc [of "v div 256"] by (simp add: unat_u8_of_nat)
qed simp

lemma unle_bound: "unle bs < 256 ^ length bs"
proof (induction bs)
  case (Cons b bs)
  have "unat b < 256"
    using unsigned_less [of b, where ?'a = nat] by simp
  with Cons show ?case by simp
qed simp

lemma le_unle: "length bs = n \<Longrightarrow> le n (unle bs) = bs"
proof (induction bs arbitrary: n)
  case (Cons b bs)
  have "unat b < 256"
    using unsigned_less [of b, where ?'a = nat] by simp
  then have "(unat b + 256 * unle bs) div 256 = unle bs"
    by simp
  moreover have "unat (word_of_nat (unat b + 256 * unle bs) :: u8) = unat b"
    using \<open>unat b < 256\<close> by (simp only: unat_u8_of_nat) simp
  then have "(word_of_nat (unat b + 256 * unle bs) :: u8) = b"
    by (simp only: word_unat_eq_iff)
  ultimately show ?case
    using Cons by (auto simp del: of_nat_add)
qed simp

lemma le_mod: "le n (v mod 256 ^ n) = le n v"
proof -
  have "le n (unle (le n v)) = le n v"
    by (simp add: le_unle)
  then show ?thesis by (simp add: unle_le)
qed

section \<open>Words in memory\<close>

text \<open>\<open>sizeof\<close>, the memory image of a machine integer and the read of one. Every type
  of the code has a width that is a multiple of eight bits (\<open>byte_sized\<close>).\<close>

definition sizeof :: "'a::len itself \<Rightarrow> nat" where
  "sizeof t = LENGTH('a) div 8"

definition byte_sized :: "'a::len itself \<Rightarrow> bool" where
  "byte_sized t \<longleftrightarrow> 8 * sizeof t = LENGTH('a)"

definition to_mem :: "'a::len word \<Rightarrow> bytes" where
  "to_mem w = le (sizeof TYPE('a)) (unat w)"

definition of_mem :: "bytes \<Rightarrow> 'a::len word" where
  "of_mem bs = word_of_nat (unle bs)"

lemma sizeof_words [simp, wire_simps]:
  "sizeof TYPE(8) = 1" "sizeof TYPE(16) = 2" "sizeof TYPE(32) = 4"
  "sizeof TYPE(64) = 8" "sizeof TYPE(128) = 16"
  by (simp_all add: sizeof_def)

lemma byte_sized_words [simp]:
  "byte_sized TYPE(8)" "byte_sized TYPE(16)" "byte_sized TYPE(32)"
  "byte_sized TYPE(64)" "byte_sized TYPE(128)"
  by (simp_all add: byte_sized_def)

lemma length_to_mem [simp, wire_simps]:
  "length (to_mem (w :: 'a::len word)) = sizeof TYPE('a)"
  by (simp add: to_mem_def)

lemma sizeof_pos: "byte_sized TYPE('a::len) \<Longrightarrow> 0 < sizeof TYPE('a)"
  by (cases "sizeof TYPE('a)") (auto simp: byte_sized_def)

lemma pow_256_sizeof: "byte_sized TYPE('a::len) \<Longrightarrow> (256::nat) ^ sizeof TYPE('a) = 2 ^ LENGTH('a)"
  using power_mult [of "2::nat" 8 "sizeof TYPE('a)"] by (simp add: byte_sized_def)

lemma of_mem_to_mem [simp]:
  "byte_sized TYPE('a::len) \<Longrightarrow> of_mem (to_mem (w :: 'a word)) = w"
  using unsigned_less [of w, where ?'a = nat] by (simp add: of_mem_def to_mem_def unle_le pow_256_sizeof)

lemma to_mem_of_mem:
  assumes "byte_sized TYPE('a::len)" "length bs = sizeof TYPE('a)"
  shows "to_mem (of_mem bs :: 'a word) = bs"
proof -
  have "unle bs < 2 ^ LENGTH('a)"
    using unle_bound [of bs] assms by (simp add: pow_256_sizeof)
  then have "unat (of_mem bs :: 'a word) = unle bs"
    by (simp add: of_mem_def unat_of_nat)
  with assms show ?thesis
    by (simp add: to_mem_def le_unle)
qed

text \<open>Arrays of machine integers.\<close>

fun words_of :: "nat \<Rightarrow> bytes \<Rightarrow> 'a::len word list" where
  "words_of 0 bs = []"
| "words_of (Suc n) bs =
     of_mem (take (sizeof TYPE('a)) bs) # words_of n (drop (sizeof TYPE('a)) bs)"

definition words_mem :: "'a::len word list \<Rightarrow> bytes" where
  "words_mem ws = concat (map to_mem ws)"

lemma words_mem_simps [simp]:
  "words_mem [] = []"
  "words_mem (w # ws) = to_mem w @ words_mem ws"
  "words_mem (us @ ws) = words_mem us @ words_mem ws"
  by (simp_all add: words_mem_def)

lemma length_words_mem [simp, wire_simps]:
  "length (words_mem (ws :: 'a::len word list)) = length ws * sizeof TYPE('a)"
  by (induction ws) auto

lemma length_words_of [simp]: "length (words_of n bs) = n"
  by (induction n arbitrary: bs) auto

lemma words_of_mem [simp]:
  "byte_sized TYPE('a::len) \<Longrightarrow> words_of (length ws) (words_mem ws @ t) = (ws :: 'a word list)"
  by (induction ws) auto

lemma words_mem_of:
  assumes "byte_sized TYPE('a::len)"
  shows "length bs = n * sizeof TYPE('a) \<Longrightarrow> words_mem (words_of n bs :: 'a word list) = bs"
  by (induction n arbitrary: bs) (auto simp: assms to_mem_of_mem)

lemma words_of_append:
  assumes "length s = m * sizeof TYPE('a)"
  shows "(words_of (m + n) (s @ t) :: 'a::len word list) = words_of m s @ words_of n t"
  using assms by (induction m arbitrary: s) auto

lemma take_words_mem:
  "take (k * sizeof TYPE('a)) (words_mem (ws :: 'a::len word list)) = words_mem (take k ws)"
proof (induction ws arbitrary: k)
  case (Cons w ws)
  then show ?case by (cases k) auto
qed simp

lemma drop_words_mem:
  "drop (k * sizeof TYPE('a)) (words_mem (ws :: 'a::len word list)) = words_mem (drop k ws)"
proof (induction ws arbitrary: k)
  case (Cons w ws)
  then show ?case by (cases k) auto
qed simp

section \<open>64-bit words as numbers\<close>

lemma unat_minus_nat: "k \<le> unat (w :: u64) \<Longrightarrow> unat (w - word_of_nat k) = unat w - k"
  by (metis le_unat_uoi unat_sub word_le_nat_alt)

lemma unat_word_of_nat64: "n < 2 ^ 64 \<Longrightarrow> unat (word_of_nat n :: u64) = n"
  by (simp add: unat_of_nat take_bit_nat_eq_self)

lemma unat_plus_nat: "unat (w :: u64) + unat v < 2 ^ 64 \<Longrightarrow> unat (w + v) = unat w + unat v"
  by (simp add: unat_word_ariths)

lemma unat_minus_word: "v \<le> (w :: u64) \<Longrightarrow> unat (w - v) = unat w - unat v"
  by (rule unat_sub)

lemma sint_nat64: "n < 2 ^ 63 \<Longrightarrow> sint (word_of_nat n :: u64) = int n"
  by (simp add: signed_of_nat signed_take_bit_int_eq_self)

lemma sint_small64:
  assumes "unat w < 2 ^ 63"
  shows "sint (w :: u64) = int (unat w)"
proof -
  have "word_of_nat (unat w) = w" by simp
  then show ?thesis using sint_nat64 [OF assms] by (simp only:)
qed

section \<open>NUL-terminated strings\<close>

text \<open>\<open>strnlen\<close> as in the C library: the distance to the first NUL among the first
  \<open>n\<close> bytes, or \<open>n\<close> when there is none.\<close>

definition strnlen :: "bytes \<Rightarrow> nat \<Rightarrow> nat" where
  "strnlen s n = length (takeWhile (\<lambda>c. c \<noteq> 0) (take n s))"

lemma strnlen_le: "strnlen s n \<le> n"
  using length_takeWhile_le [of "\<lambda>c. c \<noteq> 0" "take n s"] by (simp add: strnlen_def)

lemma strnlen_bound: "strnlen s n \<le> length s"
  using length_takeWhile_le [of "\<lambda>c. c \<noteq> 0" "take n s"] by (simp add: strnlen_def)

lemma strnlen_found:
  assumes "0 \<notin> set t" "length t < n"
  shows "strnlen (t @ 0 # r) n = length t"
proof -
  have "take n (t @ 0 # r) = t @ 0 # take (n - length t - 1) r"
    using assms(2) by (cases "n - length t") auto
  moreover have "takeWhile (\<lambda>c. c \<noteq> 0) (t @ 0 # u) = t" for u
    using assms(1) by (induction t) auto
  ultimately show ?thesis
    by (simp add: strnlen_def del: takeWhile_append take_append)
qed

lemma strnlen_none:
  assumes "0 \<notin> set s" "n = length s"
  shows "strnlen s n = n"
proof -
  have "takeWhile (\<lambda>c. c \<noteq> 0) s = s"
    using assms(1) by (auto simp: takeWhile_eq_all_conv)
  then show ?thesis
    using assms(2) by (simp only: strnlen_def take_all order_refl)
qed

end
