(* ===== verification/Mg_Core.thy ===== *)
theory Mg_Core
  imports Mg_Prelude
begin

text \<open>
  \<^verbatim>\<open>core/include/MgCore.H\<close>: alignment arithmetic and the three 64-bit wrappers
  \<open>Extent\<close> (a byte count), \<open>PageCount\<close> and \<open>Address\<close>. All arithmetic is on 64-bit
  words and wraps. \<open>Address\<close> and \<open>Extent\<close> are ordered by their value, as their
  comparison operators say.
\<close>

section \<open>Alignment\<close>

definition PAGE_SIZE :: u64 where
  "PAGE_SIZE = 4096"

definition is_aligned :: "u64 \<Rightarrow> u64 \<Rightarrow> bool" where
  "is_aligned v a \<longleftrightarrow> v AND (a - 1) = 0"

definition is_page_aligned :: "u64 \<Rightarrow> bool" where
  "is_page_aligned v = is_aligned v PAGE_SIZE"

definition is_power_of_two :: "u64 \<Rightarrow> bool" where
  "is_power_of_two v \<longleftrightarrow> (\<exists>k \<in> set [0..<64]. v = push_bit k 1)"

text \<open>The template argument \<open>Z\<close> is the first parameter.\<close>

definition align_up :: "u64 \<Rightarrow> u64 \<Rightarrow> u64" where
  "align_up Z v = (v + (Z - 1)) AND NOT (Z - 1)"

definition align_to_next_mltpl :: "u64 \<Rightarrow> u64 \<Rightarrow> u64" where
  "align_to_next_mltpl Z v = (v + Z) AND NOT (Z - 1)"

section \<open>Extent, PageCount, Address\<close>

datatype Extent = Extent (ext64: u64)

datatype PageCount = PageCount (pages64: u64)

datatype Address = Address (addr_u64: u64)

definition PG_SZ :: u64 where
  "PG_SZ = 4096"

definition extent_difference :: "Extent \<Rightarrow> Extent \<Rightarrow> Extent" where
  "extent_difference a b =
     Extent (if ext64 b > ext64 a then ext64 b - ext64 a else ext64 a - ext64 b)"

definition extent_add :: "Extent \<Rightarrow> Extent \<Rightarrow> Extent" where
  "extent_add a b = Extent (ext64 a + ext64 b)"

definition pages_from_bytes :: "Extent \<Rightarrow> PageCount" where
  "pages_from_bytes e = PageCount (ext64 e div PG_SZ)"

definition pages_from_bytes_align_up :: "Extent \<Rightarrow> PageCount" where
  "pages_from_bytes_align_up e = PageCount ((PG_SZ + ext64 e) div PG_SZ)"

definition bytes64 :: "PageCount \<Rightarrow> u64" where
  "bytes64 p = pages64 p * PG_SZ"

definition pages_sub :: "PageCount \<Rightarrow> PageCount \<Rightarrow> PageCount" where
  "pages_sub p q = PageCount (pages64 p - pages64 q)"

definition pages_add :: "PageCount \<Rightarrow> PageCount \<Rightarrow> PageCount" where
  "pages_add p q = PageCount (pages64 p + pages64 q)"

definition is_nil :: "Address \<Rightarrow> bool" where
  "is_nil a \<longleftrightarrow> addr_u64 a = 0"

definition addr_align_up :: "u64 \<Rightarrow> Address \<Rightarrow> Address" where
  "addr_align_up Z a = Address (align_up Z (addr_u64 a))"

definition addr_difference :: "Address \<Rightarrow> Address \<Rightarrow> Extent" where
  "addr_difference a b =
     Extent (if addr_u64 b > addr_u64 a then addr_u64 b - addr_u64 a else addr_u64 a - addr_u64 b)"

definition addr_plus :: "Address \<Rightarrow> Extent \<Rightarrow> Address" where
  "addr_plus a e = Address (addr_u64 a + ext64 e)"

definition addr_minus :: "Address \<Rightarrow> Extent \<Rightarrow> Address" where
  "addr_minus a e = (if addr_u64 a < ext64 e then Address 0 else Address (addr_u64 a - ext64 e))"

definition addr_add_pages :: "Address \<Rightarrow> PageCount \<Rightarrow> Address" where
  "addr_add_pages a p = Address (addr_u64 a + bytes64 p)"

definition addr_le :: "Address \<Rightarrow> Address \<Rightarrow> bool" where
  "addr_le a b \<longleftrightarrow> addr_u64 a \<le> addr_u64 b"

definition addr_lt :: "Address \<Rightarrow> Address \<Rightarrow> bool" where
  "addr_lt a b \<longleftrightarrow> addr_u64 a < addr_u64 b"

definition extent_le :: "Extent \<Rightarrow> Extent \<Rightarrow> bool" where
  "extent_le a b \<longleftrightarrow> ext64 a \<le> ext64 b"

definition extent_lt :: "Extent \<Rightarrow> Extent \<Rightarrow> bool" where
  "extent_lt a b \<longleftrightarrow> ext64 a < ext64 b"

instantiation Address :: linorder
begin

definition less_eq_Address :: "Address \<Rightarrow> Address \<Rightarrow> bool" where
  "less_eq_Address = addr_le"

definition less_Address :: "Address \<Rightarrow> Address \<Rightarrow> bool" where
  "less_Address = addr_lt"

instance
  by standard (auto simp: less_eq_Address_def less_Address_def addr_le_def addr_lt_def Address.expand)

end

instantiation Extent :: linorder
begin

definition less_eq_Extent :: "Extent \<Rightarrow> Extent \<Rightarrow> bool" where
  "less_eq_Extent = extent_le"

definition less_Extent :: "Extent \<Rightarrow> Extent \<Rightarrow> bool" where
  "less_Extent = extent_lt"

instance
  by standard (auto simp: less_eq_Extent_def less_Extent_def extent_le_def extent_lt_def Extent.expand)

end

section \<open>Lemmas\<close>

text \<open>For a power of two \<open>Z\<close>, masking with \<open>NOT (Z - 1)\<close> rounds down to a multiple.\<close>

lemma pow2_minus_1: "(2::u64) ^ k - 1 = mask k"
  by (simp add: mask_eq_exp_minus_1)

lemma and_not_mask: "(v :: u64) AND NOT (mask k) = push_bit k (drop_bit k v)"
  by (rule bit_word_eqI) (auto simp: bit_simps)

lemma unat_and_not_mask:
  "unat ((v :: u64) AND NOT (mask k)) = unat v div 2 ^ k * 2 ^ k"
proof -
  have "push_bit k (drop_bit k v) + take_bit k v = v"
    by (rule bits_ident)
  moreover have "unat (take_bit k v) = unat v mod 2 ^ k"
    by (simp only: unsigned_take_bit_eq) (simp add: take_bit_eq_mod)
  moreover have "take_bit k v \<le> v"
    using calculation(2) by (simp add: word_le_nat_alt)
  ultimately have "unat (push_bit k (drop_bit k v)) = unat v - unat v mod 2 ^ k"
    by (metis add_diff_cancel_right' unat_sub)
  then show ?thesis
    by (simp add: and_not_mask minus_mod_eq_div_mult)
qed

lemma unat_mask64:
  assumes "k < 64"
  shows "unat (mask k :: u64) = 2 ^ k - 1"
proof -
  have "(2::nat) ^ k < 2 ^ 64"
    using assms by (intro power_strict_increasing) auto
  then have "((2::nat) ^ k - 1) mod 2 ^ 64 = 2 ^ k - 1"
    by (intro mod_less) linarith
  then have "unat (word_of_nat (2 ^ k - 1) :: u64) = 2 ^ k - 1"
    by (simp only: unat_of_nat len_of_numeral_defs) simp
  moreover have "word_of_nat (2 ^ k - 1) = (mask k :: u64)"
    by (simp add: mask_eq_exp_minus_1)
  ultimately show ?thesis
    by (simp only:)
qed

lemma unat_align_up:
  assumes k: "k < 64" and v: "unat v + 2 ^ k \<le> 2 ^ 64"
  shows "unat (align_up (2 ^ k) v) = (unat v + (2 ^ k - 1)) div 2 ^ k * 2 ^ k"
proof -
  have m: "unat (mask k :: u64) = 2 ^ k - 1"
    using k by (rule unat_mask64)
  have "unat v + (2 ^ k - 1) < 2 ^ 64"
    using v by (simp add: less_eq_Suc_le)
  then have "unat (v + mask k) = unat v + (2 ^ k - 1)"
    by (simp add: unat_word_ariths m)
  then show ?thesis
    by (simp add: align_up_def pow2_minus_1 unat_and_not_mask)
qed

lemma align_to_next_mltpl_alt: "align_to_next_mltpl (2 ^ k) v = align_up (2 ^ k) (v + 1)"
  by (simp add: align_to_next_mltpl_def align_up_def)


lemma unat_pages_from_bytes_align_up:
  assumes "unat (ext64 e) + 4096 < 2 ^ 64"
  shows "unat (pages64 (pages_from_bytes_align_up e)) = unat (ext64 e) div 4096 + 1"
proof -
  have "unat (4096 + ext64 e) = 4096 + unat (ext64 e)"
    using assms by (simp add: unat_word_ariths)
  then show ?thesis
    by (simp add: pages_from_bytes_align_up_def PG_SZ_def unat_div)
qed

lemma div_up_4096:
  assumes "\<not> 4096 dvd (n :: nat)"
  shows "(n + 4095) div 4096 = n div 4096 + 1"
proof -
  obtain m where m: "n = Suc m" using assms by (cases n) auto
  then have "(n + 4095) div 4096 = m div 4096 + 1" using div_add_self2 [of 4096 m] by simp
  moreover have "n div 4096 = m div 4096"
    using assms by (simp add: m div_Suc dvd_eq_mod_eq_0)
  ultimately show ?thesis by simp
qed

section \<open>Properties\<close>

text \<open>\<open>align_up\<close> gives the least multiple of the alignment that is not below its argument, as long
  as that multiple is below $2^{64}$.\<close>

theorem align_up_least:
  assumes "k < 64" "unat v + 2 ^ k \<le> 2 ^ 64"
  shows "2 ^ k dvd unat (align_up (2 ^ k) v) \<and> unat v \<le> unat (align_up (2 ^ k) v) \<and>
    (\<forall>m. 2 ^ k dvd m \<and> unat v \<le> m \<longrightarrow> unat (align_up (2 ^ k) v) \<le> m)"
proof -
  let ?Z = "2 ^ k :: nat"
  have u: "unat (align_up (2 ^ k) v) = (unat v + (?Z - 1)) div ?Z * ?Z"
    by (rule unat_align_up [OF assms])
  have Z: "0 < ?Z" by simp
  have "unat v \<le> (unat v + (?Z - 1)) div ?Z * ?Z"
    using div_mult_mod_eq [of "unat v + (?Z - 1)" ?Z] mod_less_divisor [OF Z, of "unat v + (?Z - 1)"]
    by linarith
  moreover have "(unat v + (?Z - 1)) div ?Z * ?Z \<le> m" if m: "?Z dvd m" "unat v \<le> m" for m
  proof -
    obtain q where q: "m = q * ?Z" using m(1) by (metis dvdE mult.commute)
    have "(unat v + (?Z - 1)) div ?Z \<le> (q * ?Z + (?Z - 1)) div ?Z"
      using m(2) q by (intro div_le_mono) simp
    also have "(q * ?Z + (?Z - 1)) div ?Z = q"
      by (subst div_mult_self3) simp_all
    finally show ?thesis using q by simp
  qed
  ultimately show ?thesis unfolding u by auto
qed

text \<open>\<open>from_bytes_align_up\<close> does not round up to whole pages: a size that is already a multiple
  of the page size gets one page more than it needs.\<close>

theorem pages_align_up_one_too_many:
  assumes "unat (ext64 e) + 4096 < 2 ^ 64"
  shows "unat (pages64 (pages_from_bytes_align_up e)) =
    (unat (ext64 e) + 4095) div 4096 + (if 4096 dvd unat (ext64 e) then 1 else 0)"
proof (cases "4096 dvd unat (ext64 e)")
  case True
  then show ?thesis
    unfolding unat_pages_from_bytes_align_up [OF assms] by (auto elim!: dvdE)
next
  case False
  then have "(unat (ext64 e) + 4095) div 4096 = unat (ext64 e) div 4096 + 1" by (rule div_up_4096)
  then show ?thesis
    unfolding unat_pages_from_bytes_align_up [OF assms] using False by simp
qed

theorem align_up_least_witness: "4096 dvd unat (align_up 4096 5000) \<and> 5000 \<le> unat (align_up 4096 5000)"
  using align_up_least [of 12 5000] by simp

theorem pages_align_up_one_too_many_witness:
  "unat (pages64 (pages_from_bytes_align_up (Extent 8192))) = 3"
  using pages_align_up_one_too_many [of "Extent 8192"] by simp

end
