(* ===== verification/Mg_Io.thy ===== *)
theory Mg_Io
  imports Mg_Core
begin

text \<open>
  \<^verbatim>\<open>core/src/PosixWrappers.C\<close> and \<^verbatim>\<open>core/src/ReadFullyImpl.C\<close>: the wrappers of the system calls,
  \<open>read_fully\<close>, \<open>write_fully\<close> and the class \<open>FileDesc\<close>. A system call gives its result, where
  \<open>None\<close> stands for -1 (or \<open>MAP_FAILED\<close>), and the value it leaves in \<open>errno\<close>; the wrapper makes the
  one or the other of it, and every call is logged.
\<close>

section \<open>System calls and their wrappers\<close>

datatype io_call =
    IoOpen bytes
  | IoClose int
  | IoFstat int
  | IoRead int nat
  | IoWrite int bytes
  | IoFtruncate int u64
  | IoMemfd
  | IoMmap u64 u64 int int int u64
  | IoMunmap u64 u64
  | IoLseek int int int
  | IoSendfile int int u64 nat
  | IoEventfd int int
  | IoEpollCtl int int int u32
  | IoGetaddrinfo bytes bytes
  | IoSocket int int int
  | IoConnect int bytes
  | IoGetsockopt int int int
  | IoFreeaddrinfo

type_synonym ('w, 'r) syscall = "'w \<Rightarrow> ('r option \<times> int) \<times> 'w"

record 'w posix =
  px_open :: "bytes \<Rightarrow> ('w, int) syscall"
  px_close :: "int \<Rightarrow> ('w, int) syscall"
  px_fstat :: "int \<Rightarrow> ('w, u64) syscall"
  px_read :: "int \<Rightarrow> nat \<Rightarrow> ('w, bytes) syscall"
  px_write :: "int \<Rightarrow> bytes \<Rightarrow> ('w, nat) syscall"
  px_ftruncate :: "int \<Rightarrow> u64 \<Rightarrow> ('w, int) syscall"
  px_memfd_create :: "('w, int) syscall"
  px_mmap :: "u64 \<Rightarrow> u64 \<Rightarrow> int \<Rightarrow> int \<Rightarrow> int \<Rightarrow> u64 \<Rightarrow> ('w, u64) syscall"
  px_munmap :: "u64 \<Rightarrow> u64 \<Rightarrow> ('w, int) syscall"
  px_lseek :: "int \<Rightarrow> int \<Rightarrow> int \<Rightarrow> ('w, int) syscall"
  px_sendfile :: "int \<Rightarrow> int \<Rightarrow> u64 \<Rightarrow> nat \<Rightarrow> ('w, nat) syscall"
  px_eventfd :: "int \<Rightarrow> int \<Rightarrow> ('w, int) syscall"
  px_epoll_ctl :: "int \<Rightarrow> int \<Rightarrow> int \<Rightarrow> u32 \<Rightarrow> ('w, int) syscall"
  px_getaddrinfo_a :: "bytes \<Rightarrow> bytes \<Rightarrow> ('w, int) syscall"
  px_socket :: "int \<Rightarrow> int \<Rightarrow> int \<Rightarrow> ('w, int) syscall"
  px_connect :: "int \<Rightarrow> bytes \<Rightarrow> ('w, int) syscall"
  px_getsockopt :: "int \<Rightarrow> int \<Rightarrow> int \<Rightarrow> ('w, int) syscall"

type_synonym 'w io = "('w, io_call) logged"

definition expected :: "('w, 'r) syscall \<Rightarrow> 'w \<Rightarrow> (int + 'r) \<times> 'w" where
  "expected f w = (case f w of ((Some r, errno), w1) \<Rightarrow> (Inr r, w1) | ((None, errno), w1) \<Rightarrow> (Inl errno, w1))"

lemma sys_world: "fst (snd (sys c (expected f) w)) = snd (f (fst w))"
  by (simp add: sys_def expected_def split: prod.splits option.splits)

definition io_open :: "'w posix \<Rightarrow> bytes \<Rightarrow> 'w io \<Rightarrow> (int + int) \<times> 'w io" where
  "io_open px path = sys (IoOpen path) (expected (px_open px path))"

definition io_close :: "'w posix \<Rightarrow> int \<Rightarrow> 'w io \<Rightarrow> (int + int) \<times> 'w io" where
  "io_close px fd = sys (IoClose fd) (expected (px_close px fd))"

definition io_fstat :: "'w posix \<Rightarrow> int \<Rightarrow> 'w io \<Rightarrow> (int + u64) \<times> 'w io" where
  "io_fstat px fd = sys (IoFstat fd) (expected (px_fstat px fd))"

definition io_read :: "'w posix \<Rightarrow> int \<Rightarrow> nat \<Rightarrow> 'w io \<Rightarrow> (int + bytes) \<times> 'w io" where
  "io_read px fd n = sys (IoRead fd n) (expected (px_read px fd n))"

definition io_write :: "'w posix \<Rightarrow> int \<Rightarrow> bytes \<Rightarrow> 'w io \<Rightarrow> (int + nat) \<times> 'w io" where
  "io_write px fd bs = sys (IoWrite fd bs) (expected (px_write px fd bs))"

definition io_ftruncate :: "'w posix \<Rightarrow> int \<Rightarrow> u64 \<Rightarrow> 'w io \<Rightarrow> (int + int) \<times> 'w io" where
  "io_ftruncate px fd len = sys (IoFtruncate fd len) (expected (px_ftruncate px fd len))"

definition io_memfd_create :: "'w posix \<Rightarrow> 'w io \<Rightarrow> (int + int) \<times> 'w io" where
  "io_memfd_create px = sys IoMemfd (expected (px_memfd_create px))"

definition io_mmap :: "'w posix \<Rightarrow> u64 \<Rightarrow> u64 \<Rightarrow> int \<Rightarrow> int \<Rightarrow> int \<Rightarrow> u64 \<Rightarrow> 'w io \<Rightarrow> (int + u64) \<times> 'w io" where
  "io_mmap px addr len prot flags fd off =
     sys (IoMmap addr len prot flags fd off) (expected (px_mmap px addr len prot flags fd off))"

definition io_munmap :: "'w posix \<Rightarrow> u64 \<Rightarrow> u64 \<Rightarrow> 'w io \<Rightarrow> (int + int) \<times> 'w io" where
  "io_munmap px addr len = sys (IoMunmap addr len) (expected (px_munmap px addr len))"

definition io_lseek :: "'w posix \<Rightarrow> int \<Rightarrow> int \<Rightarrow> int \<Rightarrow> 'w io \<Rightarrow> (int + int) \<times> 'w io" where
  "io_lseek px fd off whence = sys (IoLseek fd off whence) (expected (px_lseek px fd off whence))"

definition io_sendfile :: "'w posix \<Rightarrow> int \<Rightarrow> int \<Rightarrow> u64 \<Rightarrow> nat \<Rightarrow> 'w io \<Rightarrow> (int + nat) \<times> 'w io" where
  "io_sendfile px out_fd in_fd off n = sys (IoSendfile out_fd in_fd off n) (expected (px_sendfile px out_fd in_fd off n))"

definition io_eventfd :: "'w posix \<Rightarrow> int \<Rightarrow> int \<Rightarrow> 'w io \<Rightarrow> (int + int) \<times> 'w io" where
  "io_eventfd px initval flags = sys (IoEventfd initval flags) (expected (px_eventfd px initval flags))"

text \<open>The event structure of \<open>epoll_ctl\<close> is represented by its flags, the one of \<open>getaddrinfo_a\<close> by host
  and service, an address by its bytes, and \<open>getsockopt\<close> gives the value of the option.\<close>

definition io_epoll_ctl :: "'w posix \<Rightarrow> int \<Rightarrow> int \<Rightarrow> int \<Rightarrow> u32 \<Rightarrow> 'w io \<Rightarrow> (int + int) \<times> 'w io" where
  "io_epoll_ctl px epfd op fd events = sys (IoEpollCtl epfd op fd events) (expected (px_epoll_ctl px epfd op fd events))"

definition io_getaddrinfo_a :: "'w posix \<Rightarrow> bytes \<Rightarrow> bytes \<Rightarrow> 'w io \<Rightarrow> (int + int) \<times> 'w io" where
  "io_getaddrinfo_a px host service = sys (IoGetaddrinfo host service) (expected (px_getaddrinfo_a px host service))"

definition io_socket :: "'w posix \<Rightarrow> int \<Rightarrow> int \<Rightarrow> int \<Rightarrow> 'w io \<Rightarrow> (int + int) \<times> 'w io" where
  "io_socket px domain type protocol = sys (IoSocket domain type protocol) (expected (px_socket px domain type protocol))"

definition io_connect :: "'w posix \<Rightarrow> int \<Rightarrow> bytes \<Rightarrow> 'w io \<Rightarrow> (int + int) \<times> 'w io" where
  "io_connect px fd addr = sys (IoConnect fd addr) (expected (px_connect px fd addr))"

definition io_getsockopt :: "'w posix \<Rightarrow> int \<Rightarrow> int \<Rightarrow> int \<Rightarrow> 'w io \<Rightarrow> (int + int) \<times> 'w io" where
  "io_getsockopt px fd level optname = sys (IoGetsockopt fd level optname) (expected (px_getsockopt px fd level optname))"

section \<open>read_fully, write_fully\<close>

abbreviation EINTR :: int where "EINTR \<equiv> 4"
abbreviation EIO :: int where "EIO \<equiv> 5"

text \<open>The loops, with what they have stored into (or taken from) the caller's buffer. \<open>len\<close> is a
  \<open>size_t\<close> that is compared as a \<open>ssize_t\<close>.\<close>

lemma ssize_measure: "int tot < s \<Longrightarrow> 0 < k \<Longrightarrow> nat s - (tot + k) < nat s - tot"
  by linarith

function read_loop :: "'w posix \<Rightarrow> int \<Rightarrow> u64 \<Rightarrow> nat \<Rightarrow> nat \<Rightarrow> bytes \<Rightarrow> 'w io \<Rightarrow> (int + nat) \<times> bytes \<times> 'w io" where
  "read_loop px fd len tot tries buf w =
     (if int tot < sint len
      then case io_read px fd (unat (len - word_of_nat tot)) w of
             (Inl e, w1) \<Rightarrow>
               if e = EINTR \<and> tries + 1 < 3 then read_loop px fd len tot (tries + 1) buf w1
               else (Inl e, buf, w1)
           | (Inr bs, w1) \<Rightarrow>
               if length bs = 0 then (Inr tot, buf, w1)
               else read_loop px fd len (tot + length bs) 0 (buf @ bs) w1
      else (Inr tot, buf, w))"
  by pat_completeness auto
termination
  by (relation "inv_image (less_than <*lex*> less_than)
      (\<lambda>(px, fd, len, tot, tries, buf, w). (nat (sint len) - tot, 3 - tries))") (auto simp: ssize_measure)

definition read_fully :: "'w posix \<Rightarrow> int \<Rightarrow> u64 \<Rightarrow> 'w io \<Rightarrow> (int + nat) \<times> bytes \<times> 'w io" where
  "read_fully px fd len w = read_loop px fd len 0 0 [] w"

function write_loop :: "'w posix \<Rightarrow> int \<Rightarrow> bytes \<Rightarrow> u64 \<Rightarrow> nat \<Rightarrow> nat \<Rightarrow> 'w io \<Rightarrow> (int + nat) \<times> 'w io" where
  "write_loop px fd buf len tot tries w =
     (if int tot < sint len
      then case io_write px fd (take (unat (len - word_of_nat tot)) (drop tot buf)) w of
             (Inl e, w1) \<Rightarrow>
               if e = EINTR \<and> tries + 1 < 3 then write_loop px fd buf len tot (tries + 1) w1
               else (Inl e, w1)
           | (Inr n, w1) \<Rightarrow>
               if n = 0
               then if tries + 1 < 3 then write_loop px fd buf len tot (tries + 1) w1
                    else (Inl EIO, w1)
               else write_loop px fd buf len (tot + n) 0 w1
      else (Inr tot, w))"
  by pat_completeness auto
termination
  by (relation "inv_image (less_than <*lex*> less_than)
      (\<lambda>(px, fd, buf, len, tot, tries, w). (nat (sint len) - tot, 3 - tries))") (auto simp: ssize_measure)

definition write_fully :: "'w posix \<Rightarrow> int \<Rightarrow> bytes \<Rightarrow> u64 \<Rightarrow> 'w io \<Rightarrow> (int + nat) \<times> 'w io" where
  "write_fully px fd buf len w = write_loop px fd buf len 0 0 w"

declare read_loop.simps [simp del] write_loop.simps [simp del]

section \<open>FileDesc\<close>

record file_desc =
  fd_path :: bytes
  fd_fd :: int
  fd_sz :: u64

definition fd_new :: "bytes \<Rightarrow> file_desc" where
  "fd_new path = \<lparr>fd_path = path, fd_fd = - 1, fd_sz = 0\<rparr>"

definition fd_stat_size :: "'w posix \<Rightarrow> file_desc \<Rightarrow> 'w io \<Rightarrow> int \<times> file_desc \<times> 'w io" where
  "fd_stat_size px f w =
     (case io_fstat px (fd_fd f) w of
        (Inl e, w1) \<Rightarrow> (- 1, f, w1)
      | (Inr st_size, w1) \<Rightarrow> (sint st_size, f\<lparr>fd_sz := st_size\<rparr>, w1))"

definition fd_open :: "'w posix \<Rightarrow> file_desc \<Rightarrow> 'w io \<Rightarrow> int \<times> file_desc \<times> 'w io" where
  "fd_open px f w =
     (case io_open px (fd_path f) w of
        (Inl e, w1) \<Rightarrow> (- 1, f, w1)
      | (Inr fd, w1) \<Rightarrow>
          let (sz, f1, w2) = fd_stat_size px (f\<lparr>fd_fd := fd\<rparr>) w1
          in (if sz < 0 then - 1 else 0, f1, w2))"

definition fd_close :: "'w posix \<Rightarrow> file_desc \<Rightarrow> 'w io \<Rightarrow> file_desc \<times> 'w io" where
  "fd_close px f w =
     (if fd_fd f \<noteq> - 1
      then let (res, w1) = io_close px (fd_fd f) w in (f\<lparr>fd_fd := - 1\<rparr>, w1)
      else (f, w))"

definition fd_set_size :: "'w posix \<Rightarrow> file_desc \<Rightarrow> Extent \<Rightarrow> 'w io \<Rightarrow> int \<times> file_desc \<times> 'w io" where
  "fd_set_size px f sz w =
     (case io_ftruncate px (fd_fd f) (ext64 sz) w of
        (Inl e, w1) \<Rightarrow> (- 1, f, w1)
      | (Inr r, w1) \<Rightarrow> (0, f\<lparr>fd_sz := ext64 sz\<rparr>, w1))"

definition fd_grow_to :: "'w posix \<Rightarrow> file_desc \<Rightarrow> Extent \<Rightarrow> 'w io \<Rightarrow> int \<times> file_desc \<times> 'w io" where
  "fd_grow_to px f sz w = (if fd_sz f < ext64 sz then fd_set_size px f sz w else (0, f, w))"

text \<open>\<open>move_from\<close> gives the object moved to and the one moved from; the descriptor the first one held
  is overwritten.\<close>

definition fd_move_from :: "file_desc \<Rightarrow> file_desc \<Rightarrow> file_desc \<times> file_desc" where
  "fd_move_from f rhs = (\<lparr>fd_path = fd_path rhs, fd_fd = fd_fd rhs, fd_sz = fd_sz rhs\<rparr>, fd_new [])"

section \<open>Properties\<close>

text \<open>A descriptor that delivers a stream: a call takes a prefix of what is left, at most as long
  as asked for, and nothing only at the end; a failed call takes nothing.\<close>

definition reads_stream :: "'w posix \<Rightarrow> int \<Rightarrow> ('w \<Rightarrow> bytes) \<Rightarrow> bool" where
  "reads_stream px fd left \<longleftrightarrow>
     (\<forall>n w. case px_read px fd n w of
        ((Some bs, e), w1) \<Rightarrow> left w = bs @ left w1 \<and> length bs \<le> n \<and> (bs = [] \<longrightarrow> 0 < n \<longrightarrow> left w = [])
      | ((None, e), w1) \<Rightarrow> left w1 = left w)"

lemma io_read_cases [consumes 1, case_names fail some]:
  assumes "reads_stream px fd left"
  obtains (fail) e w1 where "io_read px fd n w = (Inl e, w1)" "left (fst w1) = left (fst w)" "snd w1 = snd w @ [IoRead fd n]"
  | (some) bs w1 where "io_read px fd n w = (Inr bs, w1)" "left (fst w) = bs @ left (fst w1)"
      "length bs \<le> n" "bs = [] \<Longrightarrow> 0 < n \<Longrightarrow> left (fst w) = []" "snd w1 = snd w @ [IoRead fd n]"
proof -
  have "case px_read px fd n (fst w) of
      ((Some bs, e), w1) \<Rightarrow> left (fst w) = bs @ left w1 \<and> length bs \<le> n \<and> (bs = [] \<longrightarrow> 0 < n \<longrightarrow> left (fst w) = [])
    | ((None, e), w1) \<Rightarrow> left w1 = left (fst w)"
    using assms [unfolded reads_stream_def, rule_format, where n = n and w = "fst w"] .
  then show thesis
    by (auto simp: io_read_def sys_def expected_def split: prod.splits option.splits intro: fail some)
qed

text \<open>What a call of \<open>read_fully\<close> has done when it ends, \<open>buf\<close> being what it has stored.\<close>

definition read_done :: "('w \<Rightarrow> bytes) \<Rightarrow> int \<Rightarrow> u64 \<Rightarrow> bytes \<Rightarrow> (int + nat) \<times> bytes \<times> 'w io \<Rightarrow> bool" where
  "read_done left fd len all res \<longleftrightarrow>
     (case res of (r, buf, w) \<Rightarrow> all = buf @ left (fst w) \<and> length buf \<le> unat len \<and>
       (case r of
          Inr n \<Rightarrow> n = length buf \<and> (n = unat len \<or> left (fst w) = [])
        | Inl e \<Rightarrow> length buf < unat len \<and>
            (e = EINTR \<longrightarrow> (\<exists>l. snd w = l @ replicate 3 (IoRead fd (unat len - length buf))))))"

lemma read_loop_done:
  assumes "reads_stream px fd left" "unat len < 2 ^ 63"
  shows "tot = length buf \<Longrightarrow> tot \<le> unat len \<Longrightarrow> tries < 3 \<Longrightarrow> all = buf @ left (fst w) \<Longrightarrow>
    snd w = l @ replicate tries (IoRead fd (unat len - tot)) \<Longrightarrow>
    read_done left fd len all (read_loop px fd len tot tries buf w)"
  using assms
proof (induction px fd len tot tries buf w arbitrary: l rule: read_loop.induct)
  case (1 px fd len tot tries buf w)
  have len: "sint len = int (unat len)" by (rule sint_small64 [OF "1.prems"(7)])
  show ?case
  proof (cases "tot < unat len")
    case False
    then show ?thesis
      using "1.prems" by (simp add: read_loop.simps [of px] read_done_def len)
  next
    case True
    then have lt: "int tot < sint len" by (simp only: len of_nat_less_iff)
    have n: "unat (len - word_of_nat tot) = unat len - tot"
      using True by (intro unat_minus_nat) simp
    from "1.prems"(6) show ?thesis
    proof (cases rule: io_read_cases [where n = "unat len - tot" and w = w])
      case (fail e w1)
      show ?thesis
      proof (cases "e = EINTR \<and> tries + 1 < 3")
        case True
        have "read_done left fd len all (read_loop px fd len tot (tries + 1) buf w1)"
          using "1.IH"(1) [of "Inl e" w1 e l] lt n fail True "1.prems"
          by (simp add: replicate_append_same)
        then show ?thesis using lt n fail True by (simp add: read_loop.simps [of px fd len tot tries])
      next
        case False
        then have "read_loop px fd len tot tries buf w = (Inl e, buf, w1)"
          using lt n fail by (auto simp add: read_loop.simps [of px fd len tot tries])
        moreover have "e = EINTR \<Longrightarrow> snd w1 = l @ replicate 3 (IoRead fd (unat len - tot))"
        proof -
          assume "e = EINTR"
          then have "tries = 2" using False "1.prems"(3) by simp
          then show ?thesis using fail(3) "1.prems"(5) by (simp add: numeral_3_eq_3 numeral_2_eq_2)
        qed
        ultimately show ?thesis
          using fail(2) "1.prems"(1,4) True by (auto simp: read_done_def)
      qed
    next
      case (some bs w1)
      show ?thesis
      proof (cases "bs = []")
        case True
        then have "read_loop px fd len tot tries buf w = (Inr tot, buf, w1)"
          using lt n some by (simp add: read_loop.simps [of px fd len tot tries])
        then show ?thesis
          using some True "1.prems"(1,2,4) \<open>tot < unat len\<close> by (simp add: read_done_def)
      next
        case False
        have "read_done left fd len all (read_loop px fd len (tot + length bs) 0 (buf @ bs) w1)"
          using "1.IH"(2) [of "Inr bs" w1 bs "snd w1"] lt n some False "1.prems" by simp
        then show ?thesis using lt n some False by (simp add: read_loop.simps [of px fd len tot tries])
      qed
    qed
  qed
qed

text \<open>\<open>read_fully\<close> takes from a stream exactly what it stores: the bytes asked for, or all there
  are when the stream ends, however the system cuts the reads; when it fails the bytes already
  stored are the ones taken, and it gives up on interruption only after three reads in a row.\<close>

theorem read_fully_stream:
  assumes "reads_stream px fd left" "unat len < 2 ^ 63"
  shows "read_done left fd len (left w) (read_fully px fd len (w, log))"
  unfolding read_fully_def by (rule read_loop_done [OF assms, where l = log]) simp_all

section \<open>Witness\<close>

text \<open>A system in which every call succeeds and changes nothing.\<close>

definition ok_px :: "'w posix" where
  "ok_px = \<lparr>px_open = \<lambda>p w. ((Some 3, 0), w), px_close = \<lambda>fd w. ((Some 0, 0), w), px_fstat = \<lambda>fd w. ((Some 0, 0), w),
     px_read = \<lambda>fd n w. ((Some [], 0), w), px_write = \<lambda>fd bs w. ((Some (length bs), 0), w),
     px_ftruncate = \<lambda>fd n w. ((Some 0, 0), w), px_memfd_create = \<lambda>w. ((Some 4, 0), w),
     px_mmap = \<lambda>a l p f fd off w. ((Some a, 0), w), px_munmap = \<lambda>a l w. ((Some 0, 0), w),
     px_lseek = \<lambda>fd off wh w. ((Some 0, 0), w), px_sendfile = \<lambda>o_fd i_fd off n w. ((Some n, 0), w),
     px_eventfd = \<lambda>i f w. ((Some 5, 0), w), px_epoll_ctl = \<lambda>ep op fd ev w. ((Some 0, 0), w),
     px_getaddrinfo_a = \<lambda>h s w. ((Some 0, 0), w), px_socket = \<lambda>d t p w. ((Some 6, 0), w),
     px_connect = \<lambda>fd a w. ((Some 0, 0), w), px_getsockopt = \<lambda>fd l o_name w. ((Some 0, 0), w)\<rparr>"

text \<open>One whose world is the bytes still to be read and a number of interruptions to come before each
  read of at most two bytes.\<close>

definition slow_px :: "(bytes \<times> nat) posix" where
  "slow_px = ok_px\<lparr>px_read := \<lambda>fd n (s, k).
     if 0 < k then ((None, EINTR), (s, k - 1)) else ((Some (take (min n 2) s), 0), (drop (min n 2) s, 2))\<rparr>"

lemma slow_px_stream: "reads_stream slow_px fd fst"
  by (auto simp: reads_stream_def slow_px_def min_def)

theorem read_fully_stream_witness:
  "read_done fst 0 3 [1, 2, 3, 4] (read_fully slow_px 0 3 (([1, 2, 3, 4], 2), []))"
  using read_fully_stream [OF slow_px_stream, of 3 0 "([1, 2, 3, 4], 2)" "[]"] by simp

end
