(* ===== verification/Mg_Map.thy ===== *)
theory Mg_Map
  imports Mg_Io
begin

text \<open>
  \<^verbatim>\<open>core/include/MgMapTypes.H\<close> and \<^verbatim>\<open>core/src/MapTypes.C\<close>: a range of pages obtained from \<open>mmap\<close>
  (\<open>Mapping\<close>), and a reserved address range whose head is turned into usable memory as it is
  needed (\<open>ReservedMapping\<close>). Addresses and page counts are those of \<open>Mg_Core\<close>.
\<close>

section \<open>Mem\<close>

record mem =
  mem_ptr :: Address
  mem_sz :: u64

definition mem_default :: mem where
  "mem_default = \<lparr>mem_ptr = Address 0, mem_sz = 0\<rparr>"

text \<open>\<open>move_from\<close> gives the target and what is left of the source.\<close>

definition mem_move_from :: "mem \<Rightarrow> mem \<Rightarrow> mem \<times> mem" where
  "mem_move_from m rhs = (\<lparr>mem_ptr = mem_ptr rhs, mem_sz = mem_sz rhs\<rparr>, mem_default)"

text \<open>\<open>mem\<close> is what \<open>malloc\<close> or \<open>aligned_alloc\<close> gave.\<close>

definition mem_alloc :: "Address \<Rightarrow> mem \<Rightarrow> Extent \<Rightarrow> int \<times> mem" where
  "mem_alloc p dst sz =
     (if is_nil p then (- 1, dst) else (0, fst (mem_move_from dst \<lparr>mem_ptr = p, mem_sz = ext64 sz\<rparr>)))"

text \<open>\<open>release\<close> gives the pointer to free.\<close>

definition mem_release :: "mem \<Rightarrow> Address \<times> mem" where
  "mem_release m = (mem_ptr m, m\<lparr>mem_ptr := Address 0\<rparr>)"

section \<open>Mapping\<close>

abbreviation (input) PROT_NONE :: int where "PROT_NONE \<equiv> 0"
abbreviation (input) MAP_PRIVATE :: int where "MAP_PRIVATE \<equiv> 0x02"
abbreviation (input) MAP_FIXED :: int where "MAP_FIXED \<equiv> 0x10"
abbreviation (input) MAP_ANONYMOUS :: int where "MAP_ANONYMOUS \<equiv> 0x20"
abbreviation (input) MAP_NORESERVE :: int where "MAP_NORESERVE \<equiv> 0x4000"

record mapping =
  mp_addr :: Address
  mp_pages :: PageCount
  mp_prot :: int
  mp_flags :: int
  mp_fd :: int
  mp_offset :: u64

definition mp_default :: mapping where
  "mp_default = \<lparr>mp_addr = Address 0, mp_pages = PageCount 0, mp_prot = 0, mp_flags = 0, mp_fd = - 1, mp_offset = 0\<rparr>"

definition mp_new :: "Address \<Rightarrow> PageCount \<Rightarrow> mapping" where
  "mp_new addr pg_ct = mp_default\<lparr>mp_addr := addr, mp_pages := pg_ct\<rparr>"

definition mp_extent :: "mapping \<Rightarrow> Extent" where
  "mp_extent m = Extent (bytes64 (mp_pages m))"

definition mp_addr_at :: "mapping \<Rightarrow> Extent \<Rightarrow> Address" where
  "mp_addr_at m off = addr_plus (mp_addr m) off"

definition mp_end_addr :: "mapping \<Rightarrow> Address" where
  "mp_end_addr m = (if is_nil (mp_addr m) then Address 0 else addr_plus (mp_addr m) (mp_extent m))"

definition mp_unmap :: "'w posix \<Rightarrow> mapping \<Rightarrow> 'w io \<Rightarrow> int \<times> mapping \<times> 'w io" where
  "mp_unmap px m w =
     (if 0 < bytes64 (mp_pages m)
      then case io_munmap px (addr_u64 (mp_addr m)) (bytes64 (mp_pages m)) w of
             (Inl e, w1) \<Rightarrow> (- 1, m, w1)
           | (Inr r, w1) \<Rightarrow> (0, m\<lparr>mp_addr := Address 0, mp_pages := PageCount 0\<rparr>, w1)
      else (0, m, w))"

definition mp_move_from :: "'w posix \<Rightarrow> mapping \<Rightarrow> mapping \<Rightarrow> 'w io \<Rightarrow> mapping \<times> mapping \<times> 'w io" where
  "mp_move_from px m rhs w = (let (r, m1, w1) = mp_unmap px m w in (rhs, mp_default, w1))"

definition mp_set :: "Address \<Rightarrow> PageCount \<Rightarrow> int \<Rightarrow> int \<Rightarrow> int \<Rightarrow> u64 \<Rightarrow> mapping" where
  "mp_set addr pg_ct prot flags fd off =
     \<lparr>mp_addr = addr, mp_pages = pg_ct, mp_prot = prot, mp_flags = flags, mp_fd = fd, mp_offset = off\<rparr>"

definition mp_create_reservation :: "'w posix \<Rightarrow> mapping \<Rightarrow> PageCount \<Rightarrow> 'w io \<Rightarrow> int \<times> mapping \<times> 'w io" where
  "mp_create_reservation px dst pg_ct w =
     (let flags = MAP_ANONYMOUS OR MAP_PRIVATE OR MAP_NORESERVE
      in case io_mmap px 0 (bytes64 pg_ct) PROT_NONE flags (- 1) 0 w of
           (Inl e, w1) \<Rightarrow> (- 1, dst, w1)
         | (Inr p, w1) \<Rightarrow> (0, mp_set (Address p) pg_ct PROT_NONE flags (- 1) 0, w1))"

text \<open>The head of a donor: \<open>m_addr += ct\<close> and \<open>m_pages -= ct\<close>.\<close>

definition mp_give_head :: "mapping \<Rightarrow> PageCount \<Rightarrow> mapping" where
  "mp_give_head donor ct = donor\<lparr>mp_addr := addr_add_pages (mp_addr donor) ct, mp_pages := pages_sub (mp_pages donor) ct\<rparr>"

definition mp_create_mapping_from_resv :: "'w posix \<Rightarrow> mapping \<Rightarrow> mapping \<Rightarrow> PageCount \<Rightarrow> int \<Rightarrow> int \<Rightarrow> int \<Rightarrow> u64 \<Rightarrow>
    'w io \<Rightarrow> int \<times> mapping \<times> mapping \<times> 'w io" where
  "mp_create_mapping_from_resv px donor dst pg_ct prot flags fd off w =
     (case io_mmap px (addr_u64 (mp_addr donor)) (bytes64 pg_ct) prot flags fd off w of
        (Inl e, w1) \<Rightarrow> (- 1, donor, dst, w1)
      | (Inr p, w1) \<Rightarrow> (0, mp_give_head donor pg_ct, mp_set (Address p) pg_ct prot flags fd off, w1))"

text \<open>\<open>steal_head_pages\<close> on \<open>m\<close>; the results are \<open>m\<close> and the donor.\<close>

definition mp_steal_head_pages :: "'w posix \<Rightarrow> mapping \<Rightarrow> mapping \<Rightarrow> PageCount \<Rightarrow> 'w io \<Rightarrow> int \<times> mapping \<times> mapping \<times> 'w io" where
  "mp_steal_head_pages px m donor ct w =
     (if 0 = MAP_FIXED AND mp_flags m then (- 1, m, donor, w)
      else let off = (if 0 \<le> mp_fd m then bytes64 (mp_pages m) + mp_offset m else 0)
           in case io_mmap px (addr_u64 (mp_addr donor)) (bytes64 ct) (mp_prot m) (mp_flags m) (mp_fd m) off w of
                (Inl e, w1) \<Rightarrow> (- 1, m, donor, w1)
              | (Inr p, w1) \<Rightarrow> (0, m\<lparr>mp_pages := pages_add (mp_pages m) ct\<rparr>, mp_give_head donor ct, w1))"

section \<open>ReservedMapping\<close>

record reserved_mapping =
  rm_resv :: mapping
  rm_actv :: mapping

definition rm_default :: reserved_mapping where
  "rm_default = \<lparr>rm_resv = mp_default, rm_actv = mp_default\<rparr>"

definition rm_move_from :: "'w posix \<Rightarrow> reserved_mapping \<Rightarrow> reserved_mapping \<Rightarrow> 'w io \<Rightarrow>
    reserved_mapping \<times> reserved_mapping \<times> 'w io" where
  "rm_move_from px rm rhs w =
     (let (resv, rhs_resv, w1) = mp_move_from px (rm_resv rm) (rm_resv rhs) w;
          (actv, rhs_actv, w2) = mp_move_from px (rm_actv rm) (rm_actv rhs) w1
      in (\<lparr>rm_resv = resv, rm_actv = actv\<rparr>, \<lparr>rm_resv = rhs_resv, rm_actv = rhs_actv\<rparr>, w2))"

definition reserve_and_alloc :: "'w posix \<Rightarrow> reserved_mapping \<Rightarrow> PageCount \<Rightarrow> PageCount \<Rightarrow> int \<Rightarrow> int \<Rightarrow> int \<Rightarrow> u64 \<Rightarrow>
    'w io \<Rightarrow> int \<times> reserved_mapping \<times> 'w io" where
  "reserve_and_alloc px pair resv alloc prot flags fd off w =
     (let (err, r1, w1) = mp_create_reservation px (rm_resv pair) resv w
      in if err \<noteq> 0 then (err, pair\<lparr>rm_resv := r1\<rparr>, w1)
         else let (err, r2, a2, w2) = mp_create_mapping_from_resv px r1 (rm_actv pair) alloc prot (MAP_FIXED OR flags) fd off w1
              in if err \<noteq> 0
                 then let (u, r3, w3) = mp_unmap px r2 w2 in (err, \<lparr>rm_resv = r3, rm_actv = a2\<rparr>, w3)
                 else (0, \<lparr>rm_resv = r2, rm_actv = a2\<rparr>, w2))"

definition extend_active_to_include :: "'w posix \<Rightarrow> reserved_mapping \<Rightarrow> Address \<Rightarrow> 'w io \<Rightarrow>
    int \<times> reserved_mapping \<times> 'w io" where
  "extend_active_to_include px rm addr w =
     (if addr_u64 addr \<le> addr_u64 (mp_end_addr (rm_actv rm)) then (0, rm, w)
      else let diff = addr_difference (mp_end_addr (rm_actv rm)) addr;
               pages = pages_from_bytes_align_up diff;
               (err, actv, resv, w1) = mp_steal_head_pages px (rm_actv rm) (rm_resv rm) pages w
           in (err, \<lparr>rm_resv = resv, rm_actv = actv\<rparr>, w1))"

section \<open>The active part grows inside the reservation\<close>

definition rm_inv :: "u64 \<Rightarrow> nat \<Rightarrow> reserved_mapping \<Rightarrow> bool" where
  "rm_inv base npg rm \<longleftrightarrow>
     mp_addr (rm_actv rm) = Address base \<and> 4096 \<le> unat base \<and> unat base + npg * 4096 < 2 ^ 64 \<and>
     MAP_FIXED AND mp_flags (rm_actv rm) \<noteq> 0 \<and>
     unat (pages64 (mp_pages (rm_actv rm))) + unat (pages64 (mp_pages (rm_resv rm))) = npg \<and>
     unat (addr_u64 (mp_addr (rm_resv rm))) = unat base + unat (pages64 (mp_pages (rm_actv rm))) * 4096"

definition mmap_inside :: "nat \<Rightarrow> nat \<Rightarrow> io_call \<Rightarrow> bool" where
  "mmap_inside lo hi c \<longleftrightarrow>
     (case c of IoMmap a l prot flags fd off \<Rightarrow> lo \<le> unat a \<and> unat a + unat l \<le> hi | _ \<Rightarrow> True)"

lemma unat_bytes64: "unat (pages64 p) * 4096 < 2 ^ 64 \<Longrightarrow> unat (bytes64 p) = unat (pages64 p) * 4096"
  by (simp add: bytes64_def PG_SZ_def unat_word_ariths)

lemma io_mmap_log: "io_mmap px a l prot flags fd off w = (r, w1) \<Longrightarrow> snd w1 = snd w @ [IoMmap a l prot flags fd off]"
  by (auto simp: io_mmap_def sys_def split: prod.splits)

lemma rm_inv_end:
  assumes "rm_inv base npg rm"
  shows "unat (addr_u64 (mp_end_addr (rm_actv rm))) = unat base + unat (pages64 (mp_pages (rm_actv rm))) * 4096"
proof -
  let ?a = "unat (pages64 (mp_pages (rm_actv rm)))"
  have le: "unat base + ?a * 4096 < 2 ^ 64" "base \<noteq> 0"
    using assms by (auto simp: rm_inv_def)
  then have "unat (bytes64 (mp_pages (rm_actv rm))) = ?a * 4096" by (intro unat_bytes64) simp
  then show ?thesis
    using assms le by (simp add: rm_inv_def mp_end_addr_def mp_extent_def is_nil_def addr_plus_def unat_plus_nat)
qed

text \<open>The pages that \<open>extend_active_to_include\<close> asks for.\<close>

lemma extend_pages:
  assumes inv: "rm_inv base npg rm" and gt: "addr_u64 (mp_end_addr (rm_actv rm)) < addr_u64 addr"
  shows "unat (pages64 (pages_from_bytes_align_up (addr_difference (mp_end_addr (rm_actv rm)) addr))) =
    (unat (addr_u64 addr) - (unat base + unat (pages64 (mp_pages (rm_actv rm))) * 4096)) div 4096 + 1"
proof -
  let ?e = "addr_u64 (mp_end_addr (rm_actv rm))"
  have e: "unat ?e = unat base + unat (pages64 (mp_pages (rm_actv rm))) * 4096"
    by (rule rm_inv_end [OF inv])
  have u: "unat (addr_u64 addr - ?e) = unat (addr_u64 addr) - unat ?e"
    using gt by (intro unat_minus_word) simp
  have "unat (addr_u64 addr) < 2 ^ 64" "4096 \<le> unat base"
    using inv unsigned_less [of "addr_u64 addr", where ?'a = nat] by (simp_all add: rm_inv_def)
  moreover have "unat (addr_u64 addr) = unat (addr_u64 addr - ?e) + unat ?e"
    using u gt by (simp add: word_less_nat_alt)
  ultimately have "unat (addr_u64 addr - ?e) + 4096 < 2 ^ 64"
    using e by linarith
  then show ?thesis
    using gt u e by (simp add: addr_difference_def unat_pages_from_bytes_align_up)
qed

lemma extend_steals:
  assumes "\<not> addr_u64 addr \<le> addr_u64 (mp_end_addr (rm_actv rm))" "MAP_FIXED AND mp_flags (rm_actv rm) \<noteq> 0"
    and "io_mmap px (addr_u64 (mp_addr (rm_resv rm)))
      (bytes64 (pages_from_bytes_align_up (addr_difference (mp_end_addr (rm_actv rm)) addr))) (mp_prot (rm_actv rm))
      (mp_flags (rm_actv rm)) (mp_fd (rm_actv rm))
      (if 0 \<le> mp_fd (rm_actv rm) then bytes64 (mp_pages (rm_actv rm)) + mp_offset (rm_actv rm) else 0) w = (res, w1)"
  shows "extend_active_to_include px rm addr w =
    (let ct = pages_from_bytes_align_up (addr_difference (mp_end_addr (rm_actv rm)) addr)
     in case res of Inl e \<Rightarrow> (- 1, rm, w1)
        | Inr p \<Rightarrow> (0, \<lparr>rm_resv = mp_give_head (rm_resv rm) ct,
            rm_actv = (rm_actv rm)\<lparr>mp_pages := pages_add (mp_pages (rm_actv rm)) ct\<rparr>\<rparr>, w1))"
  using assms by (cases res) (simp_all add: extend_active_to_include_def Let_def mp_steal_head_pages_def)

lemma div_cover: "(x :: nat) \<le> c + ((x - c) div 4096 + 1) * 4096"
proof -
  have "x - c < ((x - c) div 4096 + 1) * 4096"
    using div_mult_mod_eq [of "x - c" 4096] mod_less_divisor [of 4096 "x - c", simplified] by simp
  then show ?thesis by linarith
qed

lemma extend_inside:
  assumes inv: "rm_inv base npg rm" and lim: "unat (addr_u64 addr) < unat base + npg * 4096"
    and ext: "extend_active_to_include px rm addr w = (r, rm', w')"
  shows "rm_inv base npg rm' \<and> (r = 0 \<longrightarrow> unat (addr_u64 addr) \<le> unat (addr_u64 (mp_end_addr (rm_actv rm')))) \<and>
    unat (pages64 (mp_pages (rm_actv rm))) \<le> unat (pages64 (mp_pages (rm_actv rm'))) \<and>
    (\<exists>new. snd w' = snd w @ new \<and> (\<forall>c \<in> set new. mmap_inside (unat base) (unat base + npg * 4096) c))"
proof (cases "addr_u64 addr \<le> addr_u64 (mp_end_addr (rm_actv rm))")
  case True
  then show ?thesis
    using inv ext by (simp add: extend_active_to_include_def word_le_nat_alt)
next
  case False
  let ?a = "pages64 (mp_pages (rm_actv rm))" and ?r = "pages64 (mp_pages (rm_resv rm))"
  let ?ct = "pages_from_bytes_align_up (addr_difference (mp_end_addr (rm_actv rm)) addr)"
  have e: "unat (addr_u64 (mp_end_addr (rm_actv rm))) = unat base + unat ?a * 4096"
    by (rule rm_inv_end [OF inv])
  have ct: "unat (pages64 ?ct) = (unat (addr_u64 addr) - (unat base + unat ?a * 4096)) div 4096 + 1"
    using False by (intro extend_pages [OF inv]) simp
  have tot: "unat ?a + unat ?r = npg" "unat base + npg * 4096 < 2 ^ 64"
    using inv by (simp_all add: rm_inv_def)
  then have "unat (addr_u64 addr) - (unat base + unat ?a * 4096) < unat ?r * 4096"
    using lim False e unfolding word_le_nat_alt by linarith
  then have le: "unat (pages64 ?ct) \<le> unat ?r"
    unfolding ct using less_mult_imp_div_less [of _ "unat ?r" 4096] by (simp add: Suc_le_eq)
  then have b: "unat (bytes64 ?ct) = unat (pages64 ?ct) * 4096"
    using tot by (intro unat_bytes64) linarith
  have adr: "unat (addr_u64 (mp_addr (rm_resv rm))) = unat base + unat ?a * 4096"
    using inv by (simp add: rm_inv_def)
  let ?off = "if 0 \<le> mp_fd (rm_actv rm) then bytes64 (mp_pages (rm_actv rm)) + mp_offset (rm_actv rm) else 0"
  obtain res w1 where res: "io_mmap px (addr_u64 (mp_addr (rm_resv rm))) (bytes64 ?ct) (mp_prot (rm_actv rm))
      (mp_flags (rm_actv rm)) (mp_fd (rm_actv rm)) ?off w = (res, w1)" by (metis surj_pair)
  have log: "\<exists>new. snd w1 = snd w @ new \<and> (\<forall>c \<in> set new. mmap_inside (unat base) (unat base + npg * 4096) c)"
  proof (intro exI conjI)
    show "\<forall>c \<in> set [IoMmap (addr_u64 (mp_addr (rm_resv rm))) (bytes64 ?ct) (mp_prot (rm_actv rm))
        (mp_flags (rm_actv rm)) (mp_fd (rm_actv rm)) ?off]. mmap_inside (unat base) (unat base + npg * 4096) c"
      using adr b le tot by (simp add: mmap_inside_def)
  qed (rule io_mmap_log [OF res])
  have flags: "MAP_FIXED AND mp_flags (rm_actv rm) \<noteq> 0" using inv by (simp add: rm_inv_def)
  note st = extend_steals [OF False flags res]
  show ?thesis
  proof (cases res)
    case (Inl err)
    then show ?thesis using st ext inv log by (simp add: Let_def)
  next
    case (Inr p)
    have rm': "rm' = \<lparr>rm_resv = mp_give_head (rm_resv rm) ?ct,
        rm_actv = (rm_actv rm)\<lparr>mp_pages := pages_add (mp_pages (rm_actv rm)) ?ct\<rparr>\<rparr>" "w' = w1"
      using st ext Inr by (simp_all add: Let_def)
    have n: "unat (?a + pages64 ?ct) = unat ?a + unat (pages64 ?ct)"
      "unat (?r - pages64 ?ct) = unat ?r - unat (pages64 ?ct)"
      "unat (addr_u64 (mp_addr (rm_resv rm)) + bytes64 ?ct) = unat base + unat ?a * 4096 + unat (pages64 ?ct) * 4096"
      using tot le adr b by (simp_all add: unat_plus_nat unat_minus_word word_le_nat_alt)
    have inv': "rm_inv base npg rm'"
      using inv n le tot
      by (simp add: rm_inv_def rm' mp_give_head_def pages_add_def pages_sub_def addr_add_pages_def algebra_simps)
    have "unat (addr_u64 addr) \<le> unat base + (unat ?a + unat (pages64 ?ct)) * 4096"
      using div_cover [of "unat (addr_u64 addr)" "unat base + unat ?a * 4096"] unfolding ct
      by (simp add: algebra_simps)
    then show ?thesis
      using inv' log rm_inv_end [OF inv'] n(1) by (simp add: rm' pages_add_def)
  qed
qed

text \<open>An address behind the end is mapped as well.\<close>

lemma extend_outside:
  assumes inv: "rm_inv base npg rm" and beyond: "unat base + npg * 4096 \<le> unat (addr_u64 addr)"
    and gt: "\<not> addr_u64 addr \<le> addr_u64 (mp_end_addr (rm_actv rm))"
    and ext: "extend_active_to_include px rm addr w = (r, rm', w')"
  shows "\<exists>c. snd w' = snd w @ [c] \<and> \<not> mmap_inside (unat base) (unat base + npg * 4096) c"
proof -
  let ?a = "pages64 (mp_pages (rm_actv rm))"
  let ?ct = "pages_from_bytes_align_up (addr_difference (mp_end_addr (rm_actv rm)) addr)"
  let ?x = "unat (addr_u64 addr)"
  have e: "unat (addr_u64 (mp_end_addr (rm_actv rm))) = unat base + unat ?a * 4096"
    by (rule rm_inv_end [OF inv])
  have ct: "unat (pages64 ?ct) = (?x - (unat base + unat ?a * 4096)) div 4096 + 1"
    using gt by (intro extend_pages [OF inv]) simp
  have adr: "unat (addr_u64 (mp_addr (rm_resv rm))) = unat base + unat ?a * 4096" "4096 \<le> unat base"
    and flags: "MAP_FIXED AND mp_flags (rm_actv rm) \<noteq> 0" using inv by (simp_all add: rm_inv_def)
  have "?x < 2 ^ 64" using unsigned_less [of "addr_u64 addr", where ?'a = nat] by simp
  moreover have "(?x - (unat base + unat ?a * 4096)) div 4096 * 4096 \<le> ?x - (unat base + unat ?a * 4096)" by (rule div_times_less_eq_dividend)
  ultimately have "unat (pages64 ?ct) * 4096 < 2 ^ 64" using adr(2) unfolding ct by (simp add: algebra_simps)
  then have b: "unat (bytes64 ?ct) = unat (pages64 ?ct) * 4096" by (rule unat_bytes64)
  let ?off = "if 0 \<le> mp_fd (rm_actv rm) then bytes64 (mp_pages (rm_actv rm)) + mp_offset (rm_actv rm) else 0"
  let ?c = "IoMmap (addr_u64 (mp_addr (rm_resv rm))) (bytes64 ?ct) (mp_prot (rm_actv rm)) (mp_flags (rm_actv rm)) (mp_fd (rm_actv rm)) ?off"
  obtain res w1 where res: "io_mmap px (addr_u64 (mp_addr (rm_resv rm))) (bytes64 ?ct) (mp_prot (rm_actv rm))
      (mp_flags (rm_actv rm)) (mp_fd (rm_actv rm)) ?off w = (res, w1)" by (metis surj_pair)
  have "?x < unat base + unat ?a * 4096 + unat (pages64 ?ct) * 4096"
    using div_mult_mod_eq [of "?x - (unat base + unat ?a * 4096)" 4096]
      mod_less_divisor [of 4096 "?x - (unat base + unat ?a * 4096)"] unfolding ct by (simp add: algebra_simps)
  then have "\<not> mmap_inside (unat base) (unat base + npg * 4096) ?c"
    using beyond adr b by (simp add: mmap_inside_def)
  moreover have "w' = w1" using extend_steals [OF gt flags res] ext by (cases res) (simp_all add: Let_def)
  ultimately show ?thesis using io_mmap_log [OF res] by blast
qed

section \<open>Properties\<close>

text \<open>\<open>mmap\<close> at a fixed address gives that address or fails.\<close>

definition fixed_px :: "'w posix \<Rightarrow> bool" where
  "fixed_px px \<longleftrightarrow> (\<forall>a l prot flags fd off w. MAP_FIXED AND flags \<noteq> 0 \<longrightarrow>
     (case px_mmap px a l prot flags fd off w of ((r, e), w1) \<Rightarrow> r \<in> {None, Some a}))"

lemma io_mmap_fixed:
  assumes "fixed_px px" "io_mmap px a l prot flags fd off w = (Inr p, w1)" "MAP_FIXED AND flags \<noteq> 0"
  shows "p = a"
proof -
  have "case px_mmap px a l prot flags fd off (fst w) of ((r, e), w1) \<Rightarrow> r \<in> {None, Some a}"
    using assms(1) [unfolded fixed_px_def, rule_format, OF assms(3)] by simp
  then show ?thesis
    using assms(2) by (auto simp: io_mmap_def sys_def expected_def split: prod.splits option.splits)
qed

lemma map_fixed_flag: "MAP_FIXED AND (MAP_FIXED OR flags) \<noteq> 0"
proof -
  have "MAP_FIXED AND (MAP_FIXED OR flags) = MAP_FIXED" by (rule bit_eqI) (auto simp: bit_simps)
  then show ?thesis by simp
qed

lemma reserve_inv:
  assumes px: "fixed_px px" and ok: "reserve_and_alloc px pair resv alloc prot flags fd off w = (0, rm, w1)"
    and le: "unat (pages64 alloc) \<le> unat (pages64 resv)"
    and b: "b = addr_u64 (mp_addr (rm_actv rm))" "4096 \<le> unat b" "unat b + unat (pages64 resv) * 4096 < 2 ^ 64"
  shows "rm_inv b (unat (pages64 resv)) rm \<and> (\<exists>c d. snd w1 = snd w @ [IoMmap 0 c PROT_NONE d (- 1) 0,
    IoMmap b (bytes64 alloc) prot (MAP_FIXED OR flags) fd off])"
proof -
  let ?f = "MAP_ANONYMOUS OR MAP_PRIVATE OR MAP_NORESERVE"
  from ok obtain p v q where
    1: "io_mmap px 0 (bytes64 resv) PROT_NONE ?f (- 1) 0 w = (Inr p, v)" and
    2: "io_mmap px p (bytes64 alloc) prot (MAP_FIXED OR flags) fd off v = (Inr q, w1)" and
    rm: "rm = \<lparr>rm_resv = mp_give_head (mp_set (Address p) resv PROT_NONE ?f (- 1) 0) alloc,
      rm_actv = mp_set (Address q) alloc prot (MAP_FIXED OR flags) fd off\<rparr>"
    by (auto simp: reserve_and_alloc_def mp_create_reservation_def mp_create_mapping_from_resv_def mp_set_def
        split: prod.splits sum.splits if_splits)
  have q: "q = p" by (rule io_mmap_fixed [OF px 2 map_fixed_flag])
  have bp: "b = p" using b(1) rm q by (simp add: mp_set_def)
  have n: "unat (bytes64 alloc) = unat (pages64 alloc) * 4096"
    using le b(3) by (intro unat_bytes64) linarith
  have "rm_inv p (unat (pages64 resv)) rm"
    using le b(2,3) n bp map_fixed_flag [of flags]
    by (simp add: rm_inv_def rm q mp_set_def mp_give_head_def pages_sub_def addr_add_pages_def unat_minus_word
        word_le_nat_alt unat_plus_nat)
  then show ?thesis
    using io_mmap_log [OF 1] io_mmap_log [OF 2] bp by auto
qed

fun rm_extends :: "'w posix \<Rightarrow> reserved_mapping \<Rightarrow> Address list \<Rightarrow> 'w io \<Rightarrow> int list \<times> reserved_mapping \<times> 'w io" where
  "rm_extends px rm [] w = ([], rm, w)"
| "rm_extends px rm (a # as) w =
     (let (r, rm1, w1) = extend_active_to_include px rm a w; (rs, rm2, w2) = rm_extends px rm1 as w1
      in (r # rs, rm2, w2))"

lemma extends_inside:
  assumes "rm_inv base npg rm" "\<forall>a \<in> set as. unat (addr_u64 a) < unat base + npg * 4096"
    and "rm_extends px rm as w = (rs, rm', w')"
  shows "rm_inv base npg rm' \<and> unat (pages64 (mp_pages (rm_actv rm))) \<le> unat (pages64 (mp_pages (rm_actv rm'))) \<and>
    (\<forall>(a, r) \<in> set (zip as rs). r = 0 \<longrightarrow> unat (addr_u64 a) \<le> unat (addr_u64 (mp_end_addr (rm_actv rm')))) \<and>
    (\<exists>new. snd w' = snd w @ new \<and> (\<forall>c \<in> set new. mmap_inside (unat base) (unat base + npg * 4096) c))"
  using assms
proof (induction as arbitrary: rm w rs)
  case (Cons a as)
  obtain r rm1 w1 where 1: "extend_active_to_include px rm a w = (r, rm1, w1)" by (metis prod_cases3)
  obtain rs1 where 2: "rm_extends px rm1 as w1 = (rs1, rm', w')" "rs = r # rs1"
    using Cons.prems(3) 1 by (auto split: prod.splits)
  note one = extend_inside [OF Cons.prems(1) _ 1]
  have lim: "unat (addr_u64 a) < unat base + npg * 4096" using Cons.prems(2) by simp
  have all: "\<forall>a \<in> set as. unat (addr_u64 a) < unat base + npg * 4096" using Cons.prems(2) by simp
  note more = Cons.IH [OF conjunct1 [OF one [OF lim]] all 2(1)]
  have "unat (addr_u64 (mp_end_addr (rm_actv rm1))) \<le> unat (addr_u64 (mp_end_addr (rm_actv rm')))"
    using rm_inv_end [of base npg rm1] rm_inv_end [of base npg rm'] one [OF lim] more by simp
  moreover obtain n1 n2 where "snd w' = snd w @ (n1 @ n2)"
    "\<forall>c \<in> set (n1 @ n2). mmap_inside (unat base) (unat base + npg * 4096) c"
    using one [OF lim] more by (metis Un_iff append.assoc set_append)
  ultimately show ?case
    using one [OF lim] more 2(2) by (auto intro: le_trans)
qed simp

lemma rm_extends_log: "rm_extends px rm as w = (rs, rm', w') \<Longrightarrow> \<exists>new. snd w' = snd w @ new"
proof (induction as arbitrary: rm w rs)
  case (Cons a as)
  obtain r rm1 w1 where 1: "extend_active_to_include px rm a w = (r, rm1, w1)" by (metis prod_cases3)
  obtain rs1 where 2: "rm_extends px rm1 as w1 = (rs1, rm', w')" using Cons.prems 1 by (auto split: prod.splits)
  have "\<exists>new. snd w1 = snd w @ new"
    using 1 by (auto simp: extend_active_to_include_def mp_steal_head_pages_def Let_def io_mmap_log
        split: if_splits prod.splits sum.splits dest!: io_mmap_log)
  then show ?case using Cons.IH [OF 2] by auto
qed simp

lemma extends_outside:
  assumes "rm_inv base npg rm" "a \<in> set as" "unat base + npg * 4096 < unat (addr_u64 a)"
    and "rm_extends px rm as w = (rs, rm', w')"
  shows "\<exists>c new. snd w' = snd w @ new \<and> c \<in> set new \<and> \<not> mmap_inside (unat base) (unat base + npg * 4096) c"
  using assms
proof (induction as arbitrary: rm w rs)
  case (Cons b as)
  obtain r rm1 w1 where 1: "extend_active_to_include px rm b w = (r, rm1, w1)" by (metis prod_cases3)
  obtain rs1 where 2: "rm_extends px rm1 as w1 = (rs1, rm', w')" using Cons.prems(4) 1 by (auto split: prod.splits)
  obtain n2 where n2: "snd w' = snd w1 @ n2" using rm_extends_log [OF 2] by blast
  consider (inside) "unat (addr_u64 b) < unat base + npg * 4096"
    | (there) "unat base + npg * 4096 \<le> unat (addr_u64 b)" "addr_u64 b \<le> addr_u64 (mp_end_addr (rm_actv rm))"
    | (outside) "unat base + npg * 4096 \<le> unat (addr_u64 b)" "\<not> addr_u64 b \<le> addr_u64 (mp_end_addr (rm_actv rm))"
    by linarith
  then show ?case
  proof cases
    case inside
    note one = extend_inside [OF Cons.prems(1) inside 1]
    have "a \<in> set as" using Cons.prems(2,3) inside by auto
    from Cons.IH [OF conjunct1 [OF one] this Cons.prems(3) 2] one show ?thesis by (fastforce simp: append_assoc)
  next
    case there
    have "unat (addr_u64 (mp_end_addr (rm_actv rm))) \<le> unat base + npg * 4096"
      using rm_inv_end [OF Cons.prems(1)] Cons.prems(1) by (simp add: rm_inv_def)
    then have "a \<in> set as" using Cons.prems(2,3) there(2) by (auto simp: word_le_nat_alt)
    moreover have "rm1 = rm" "w1 = w" using 1 there(2) by (simp_all add: extend_active_to_include_def)
    ultimately show ?thesis using Cons.IH [OF Cons.prems(1) _ Cons.prems(3)] 2 by simp
  next
    case outside
    obtain c where "snd w1 = snd w @ [c]" "\<not> mmap_inside (unat base) (unat base + npg * 4096) c"
      using extend_outside [OF Cons.prems(1) outside 1] by blast
    then show ?thesis using n2 by (intro exI [of _ c] exI [of _ "c # n2"]) simp
  qed
qed simp

text \<open>C26. After a successful \<open>reserve_and_alloc\<close> of no more active pages than reserved ones, extending to
  addresses below the end of the reservation, in any
  order, keeps the active part in front of the reserve, the two together as large as reserved;
  every call that succeeds includes its address; and no fixed mapping is made outside the
  reserved range. Extending to an address beyond the end, at any time, makes one outside.\<close>

theorem resv_stays_inside:
  assumes "fixed_px px" "reserve_and_alloc px pair resv alloc prot flags fd off (w, []) = (0, rm, w1)"
    and "unat (pages64 alloc) \<le> unat (pages64 resv)"
    and "b = addr_u64 (mp_addr (rm_actv rm))" "4096 \<le> unat b" "unat b + unat (pages64 resv) * 4096 < 2 ^ 64"
    and "rm_extends px rm as w1 = (rs, rm', w2, log)"
  shows "((\<forall>a \<in> set as. unat (addr_u64 a) < unat b + unat (pages64 resv) * 4096) \<longrightarrow>
      rm_inv b (unat (pages64 resv)) rm' \<and>
      (\<forall>(a, r) \<in> set (zip as rs). r = 0 \<longrightarrow> unat (addr_u64 a) \<le> unat (addr_u64 (mp_end_addr (rm_actv rm')))) \<and>
      (\<forall>c \<in> set (tl log). mmap_inside (unat b) (unat b + unat (pages64 resv) * 4096) c)) \<and>
    ((\<exists>a \<in> set as. unat b + unat (pages64 resv) * 4096 < unat (addr_u64 a)) \<longrightarrow>
      (\<exists>c \<in> set (tl log). \<not> mmap_inside (unat b) (unat b + unat (pages64 resv) * 4096) c))"
proof -
  note inv = reserve_inv [OF assms(1-6)]
  have "unat (bytes64 alloc) = unat (pages64 alloc) * 4096"
    using assms(3,6) by (intro unat_bytes64) linarith
  then have "mmap_inside (unat b) (unat b + unat (pages64 resv) * 4096)
      (IoMmap b (bytes64 alloc) prot (MAP_FIXED OR flags) fd off)"
    using assms(3) by (simp add: mmap_inside_def)
  then show ?thesis
    using extends_inside [OF conjunct1 [OF inv] _ assms(7)] extends_outside [OF conjunct1 [OF inv] _ _ assms(7)] inv by fastforce
qed

text \<open>Nothing stops the active part at the end of the reservation: to include the end address of a
  reservation that is used up in part, one page more is asked for than is left, the fixed mapping
  replaces whatever is mapped behind the reservation, and the count of reserved pages wraps.\<close>

theorem extend_overruns:
  assumes "rm_inv b npg rm" "0 < unat (pages64 (mp_pages (rm_resv rm)))" "unat b + (npg + 1) * 4096 < 2 ^ 64"
    and "px_mmap px = (\<lambda>a l prot flags fd off w. ((Some a, 0), w))"
  shows "\<exists>rm' log prot flags fd off.
    extend_active_to_include px rm (Address (b + word_of_nat npg * 4096)) (w, []) = (0, rm', w, log) \<and>
    log = [IoMmap (addr_u64 (mp_addr (rm_resv rm))) (bytes64 (mp_pages (rm_resv rm)) + 4096) prot flags fd off] \<and>
    pages64 (mp_pages (rm_resv rm')) = - 1"
proof -
  let ?a = "pages64 (mp_pages (rm_actv rm))" and ?r = "pages64 (mp_pages (rm_resv rm))"
  let ?x = "b + word_of_nat npg * 4096"
  let ?ct = "pages_from_bytes_align_up (addr_difference (mp_end_addr (rm_actv rm)) (Address ?x))"
  have npg: "unat (word_of_nat npg :: u64) = npg" "unat ?a + unat ?r = npg"
    using assms(1,3) by (auto simp: rm_inv_def intro: unat_word_of_nat64)
  have npg4: "npg * 4096 = unat ?a * 4096 + unat ?r * 4096"
    using npg(2) by (metis add_mult_distrib)
  have x: "unat ?x = unat b + npg * 4096"
    using assms(3) npg(1) by (simp add: unat_word_ariths)
  have e: "unat (addr_u64 (mp_end_addr (rm_actv rm))) = unat b + unat ?a * 4096"
    by (rule rm_inv_end [OF assms(1)])
  have gt: "addr_u64 (mp_end_addr (rm_actv rm)) < ?x"
    using x e npg(2) assms(2) by (simp add: word_less_nat_alt)
  have "unat (pages64 ?ct) = (unat ?x - (unat b + unat ?a * 4096)) div 4096 + 1"
    using gt extend_pages [OF assms(1), of "Address ?x"] by simp
  also have "unat ?x - (unat b + unat ?a * 4096) = unat ?r * 4096"
    using x npg4 by linarith
  finally have "unat (pages64 ?ct) = unat ?r + 1" by simp
  moreover have "unat (?r + 1) = unat ?r + 1"
  proof -
    have "unat ?r + 1 < 2 ^ 64" using npg(2) assms(3) unsigned_greater_eq [of ?a] by auto
    then show ?thesis using unat_plus_nat [of ?r 1] by simp
  qed
  ultimately have ct: "pages64 ?ct = ?r + 1" by (metis word_unat_eq_iff)
  have "bytes64 ?ct = bytes64 (mp_pages (rm_resv rm)) + 4096"
    by (simp add: bytes64_def PG_SZ_def ct algebra_simps)
  moreover have "pages64 (mp_pages (mp_give_head (rm_resv rm) ?ct)) = - 1"
    by (simp add: mp_give_head_def pages_sub_def ct)
  moreover have "MAP_FIXED AND mp_flags (rm_actv rm) \<noteq> 0" using assms(1) by (simp add: rm_inv_def)
  moreover have "io_mmap px c l p f fd off (w, []) = (Inr c, w, [IoMmap c l p f fd off])" for c l p f fd off
    by (simp add: io_mmap_def sys_def expected_def assms(4))
  ultimately show ?thesis
    using extend_steals [of "Address ?x" rm px "(w, [])"] gt by (simp add: Let_def not_le)
qed

section \<open>Witnesses\<close>

text \<open>A system that maps everything at \<open>0x10000\<close>.\<close>

definition easy_px :: "unit posix" where
  "easy_px = ok_px\<lparr>px_mmap := \<lambda>a l p f fd off w. ((Some (if MAP_FIXED AND f \<noteq> 0 then a else 0x10000), 0), w)\<rparr>"

lemma easy_px_fixed: "fixed_px easy_px"
  by (simp add: fixed_px_def easy_px_def ok_px_def)

text \<open>Eight pages reserved, one of them active.\<close>

definition easy_rm :: reserved_mapping where
  "easy_rm = fst (snd (reserve_and_alloc easy_px rm_default (PageCount 8) (PageCount 1) 3 2 (- 1) 0 ((), [])))"

lemma easy_rm_eq:
  "easy_rm = \<lparr>rm_resv = mp_set (Address 0x11000) (PageCount 7) 0 0x4022 (- 1) 0,
     rm_actv = mp_set (Address 0x10000) (PageCount 1) 3 0x12 (- 1) 0\<rparr>"
  by (simp add: easy_rm_def reserve_and_alloc_def mp_create_reservation_def mp_create_mapping_from_resv_def
      io_mmap_def sys_def expected_def easy_px_def ok_px_def mp_set_def mp_give_head_def addr_add_pages_def pages_sub_def
      bytes64_def PG_SZ_def)

lemma easy_reserve:
  "\<exists>log. reserve_and_alloc easy_px rm_default (PageCount 8) (PageCount 1) 3 2 (- 1) 0 ((), []) = (0, easy_rm, (), log)"
  by (simp add: easy_rm_eq reserve_and_alloc_def mp_create_reservation_def mp_create_mapping_from_resv_def
      io_mmap_def sys_def expected_def easy_px_def ok_px_def mp_set_def mp_give_head_def addr_add_pages_def pages_sub_def
      bytes64_def PG_SZ_def)

theorem resv_stays_inside_witness:
  "\<exists>log rs rm' log'. rm_extends easy_px easy_rm [Address 0x17FFF, Address 0x12345] ((), log) = (rs, rm', (), log') \<and>
     rm_inv 0x10000 8 rm' \<and> (\<forall>c \<in> set (tl log'). mmap_inside 0x10000 0x18000 c)"
proof -
  let ?as = "[Address 0x17FFF, Address 0x12345]"
  obtain log where 1: "reserve_and_alloc easy_px rm_default (PageCount 8) (PageCount 1) 3 2 (- 1) 0 ((), []) =
      (0, easy_rm, (), log)"
    using easy_reserve by blast
  obtain rs rm' log' where 2: "rm_extends easy_px easy_rm ?as ((), log) = (rs, rm', (), log')"
    by (metis old.unit.exhaust surj_pair)
  have "((\<forall>a \<in> set ?as. unat (addr_u64 a) < unat (0x10000 :: u64) + unat (pages64 (PageCount 8)) * 4096) \<longrightarrow>
      rm_inv 0x10000 (unat (pages64 (PageCount 8))) rm' \<and>
      (\<forall>(a, r) \<in> set (zip ?as rs). r = 0 \<longrightarrow> unat (addr_u64 a) \<le> unat (addr_u64 (mp_end_addr (rm_actv rm')))) \<and>
      (\<forall>c \<in> set (tl log'). mmap_inside (unat (0x10000 :: u64)) (unat (0x10000 :: u64) + unat (pages64 (PageCount 8)) * 4096) c)) \<and>
    ((\<exists>a \<in> set ?as. unat (0x10000 :: u64) + unat (pages64 (PageCount 8)) * 4096 < unat (addr_u64 a)) \<longrightarrow>
      (\<exists>c \<in> set (tl log'). \<not> mmap_inside (unat (0x10000 :: u64)) (unat (0x10000 :: u64) + unat (pages64 (PageCount 8)) * 4096) c))"
    by (rule resv_stays_inside [OF easy_px_fixed 1 _ _ _ _ 2]) (simp_all add: easy_rm_eq mp_set_def)
  then show ?thesis using 2 by auto
qed

lemma easy_rm_inv: "rm_inv 0x10000 8 easy_rm"
  by (simp add: rm_inv_def easy_rm_eq mp_set_def)

theorem extend_overruns_witness:
  "\<exists>rm' log. extend_active_to_include (easy_px\<lparr>px_mmap := \<lambda>a l prot flags fd off w. ((Some a, 0), w)\<rparr>) easy_rm
     (Address 0x18000) ((), []) = (0, rm', (), log) \<and> pages64 (mp_pages (rm_resv rm')) = - 1"
  using extend_overruns [OF easy_rm_inv, of "easy_px\<lparr>px_mmap := \<lambda>a l prot flags fd off w. ((Some a, 0), w)\<rparr>" "()"]
  by (simp add: easy_rm_eq mp_set_def) blast

end
