(* ===== verification/Mg_CircBuf.thy ===== *)
theory Mg_CircBuf
  imports Mg_Map
begin

text \<open>
  \<^verbatim>\<open>core/include/MgCircularBuffer.H\<close> and \<^verbatim>\<open>core/src/CircularBuffer.C\<close>: a ring buffer whose memory is
  mapped twice, one copy right behind the other, so that what is readable and what is writeable
  is always one range of addresses. The locale \<open>byte_fifo\<close> is the contract with a client, who
  stores at \<open>write_ptr\<close> and loads at \<open>read_ptr\<close>.
\<close>

section \<open>The class\<close>

record circ_buf =
  cb_map :: mapping
  cb_fd :: int
  cb_pos :: u64
  cb_len :: u64

definition cb_new :: "Address \<Rightarrow> PageCount \<Rightarrow> int \<Rightarrow> circ_buf" where
  "cb_new base pgs fd = \<lparr>cb_map = mp_new base pgs, cb_fd = fd, cb_pos = 0, cb_len = 0\<rparr>"

definition cb_moved_from :: circ_buf where
  "cb_moved_from = \<lparr>cb_map = mp_default, cb_fd = - 1, cb_pos = 0, cb_len = 0\<rparr>"

definition cb_is_mapped :: "circ_buf \<Rightarrow> bool" where
  "cb_is_mapped c \<longleftrightarrow> \<not> is_nil (mp_addr (cb_map c))"

definition cb_map_len :: "circ_buf \<Rightarrow> u64" where
  "cb_map_len c = ext64 (mp_extent (cb_map c)) div 2"

definition cb_magic_len :: "circ_buf \<Rightarrow> u64" where
  "cb_magic_len c = ext64 (mp_extent (cb_map c))"

definition cb_write_offset :: "circ_buf \<Rightarrow> u64" where
  "cb_write_offset c = cb_pos c + cb_len c"

definition cb_read_ptr :: "circ_buf \<Rightarrow> Address" where
  "cb_read_ptr c = mp_addr_at (cb_map c) (Extent (cb_pos c))"

definition cb_write_ptr :: "circ_buf \<Rightarrow> Address" where
  "cb_write_ptr c = mp_addr_at (cb_map c) (Extent (cb_write_offset c))"

definition cb_readable :: "circ_buf \<Rightarrow> u64" where
  "cb_readable c = cb_len c"

definition cb_writeable :: "circ_buf \<Rightarrow> u64" where
  "cb_writeable c = cb_map_len c - cb_len c"

definition cb_clear :: "circ_buf \<Rightarrow> circ_buf" where
  "cb_clear c = c\<lparr>cb_pos := 0, cb_len := 0\<rparr>"

definition cb_set_consumed :: "u64 \<Rightarrow> circ_buf \<Rightarrow> circ_buf" where
  "cb_set_consumed n c =
     (let p = cb_pos c + n
      in c\<lparr>cb_pos := (if cb_map_len c \<le> p then p - cb_map_len c else p), cb_len := cb_len c - n\<rparr>)"

definition cb_set_appended :: "u64 \<Rightarrow> circ_buf \<Rightarrow> circ_buf" where
  "cb_set_appended n c = c\<lparr>cb_len := cb_len c + n\<rparr>"

text \<open>The destructor closes the descriptor, then the one of the mapping unmaps.\<close>

definition cb_destroy :: "'w posix \<Rightarrow> circ_buf \<Rightarrow> 'w io \<Rightarrow> 'w io" where
  "cb_destroy px c w =
     (let w1 = (if 0 \<le> cb_fd c then snd (io_close px (cb_fd c) w) else w)
      in snd (snd (mp_unmap px (cb_map c) w1)))"

definition cb_move_from :: "'w posix \<Rightarrow> circ_buf \<Rightarrow> circ_buf \<Rightarrow> 'w io \<Rightarrow> circ_buf \<times> circ_buf \<times> 'w io" where
  "cb_move_from px c rhs w =
     (let (r, m1, w1) = mp_unmap px (cb_map c) w;
          (m2, rhs_map, w2) = mp_move_from px m1 (cb_map rhs) w1
      in (\<lparr>cb_map = m2, cb_fd = cb_fd rhs, cb_pos = cb_pos rhs, cb_len = cb_len rhs\<rparr>,
          \<lparr>cb_map = rhs_map, cb_fd = - 1, cb_pos = 0, cb_len = 0\<rparr>, w2))"

section \<open>init_circ_buffer\<close>

abbreviation (input) PROT_RW :: int where "PROT_RW \<equiv> 3"
abbreviation (input) MAP_SHARED :: int where "MAP_SHARED \<equiv> 1"

datatype circ_error =
    ReserveFailed int
  | MemfdFailed int
  | TruncateFailed int
  | MapFailed int
  | AddrDiffers u64 u64

text \<open>The destructors of \<open>MemFdCleanup\<close> and \<open>MMapCleanup\<close>.\<close>

definition mfd_cleanup :: "'w posix \<Rightarrow> int \<Rightarrow> 'w io \<Rightarrow> 'w io" where
  "mfd_cleanup px fd w = (if fd \<noteq> 0 then snd (io_close px fd w) else w)"

definition mmap_cleanup :: "'w posix \<Rightarrow> u64 \<Rightarrow> u64 \<Rightarrow> 'w io \<Rightarrow> 'w io" where
  "mmap_cleanup px base len w = (if base \<noteq> 0 \<and> 0 < len then snd (io_munmap px base len w) else w)"

definition init_circ_buffer :: "'w posix \<Rightarrow> PageCount \<Rightarrow> 'w io \<Rightarrow> (circ_error + circ_buf) \<times> 'w io" where
  "init_circ_buffer px map_pgs w =
     (let buf_len = bytes64 map_pgs
      in case io_mmap px 0 (2 * buf_len) PROT_NONE (MAP_PRIVATE OR MAP_ANONYMOUS) (- 1) 0 w of
           (Inl e, w1) \<Rightarrow> (Inl (ReserveFailed e), w1)
         | (Inr base, w1) \<Rightarrow>
             let unmap = mmap_cleanup px base (buf_len * 2)
             in case io_memfd_create px w1 of
                  (Inl e, w2) \<Rightarrow> (Inl (MemfdFailed e), unmap w2)
                | (Inr mfd, w2) \<Rightarrow>
                    let fail = (\<lambda>e w. (Inl e, unmap (mfd_cleanup px mfd w)))
                    in case io_ftruncate px mfd buf_len w2 of
                         (Inl e, w3) \<Rightarrow> fail (TruncateFailed e) w3
                       | (Inr r, w3) \<Rightarrow>
                           (case io_mmap px base buf_len PROT_RW (MAP_SHARED OR MAP_FIXED) mfd 0 w3 of
                              (Inl e, w4) \<Rightarrow> fail (MapFailed e) w4
                            | (Inr tmp, w4) \<Rightarrow>
                                if tmp \<noteq> base then fail (AddrDiffers base tmp) w4
                                else case io_mmap px (base + buf_len) buf_len PROT_RW (MAP_SHARED OR MAP_FIXED) mfd 0 w4 of
                                       (Inl e, w5) \<Rightarrow> fail (MapFailed e) w5
                                     | (Inr tmp, w5) \<Rightarrow>
                                         if tmp \<noteq> base + buf_len then fail (AddrDiffers base tmp) w5
                                         else (Inr (cb_new (Address base) (pages_from_bytes (Extent (buf_len * 2))) mfd), w5)))"

section \<open>Mapped memory and the client\<close>

text \<open>What an address shows of the files, by the calls in a log: of the mappings at a fixed address that cover it the last
  counts, when it is shared and can be written; a mapping the system has placed itself changes nothing that is
  mapped. The log is read backwards. Behind the end of the file there is nothing.\<close>

type_synonym files = "int \<Rightarrow> nat \<Rightarrow> u8"

definition in_map :: "u64 \<Rightarrow> u64 \<Rightarrow> u64 \<Rightarrow> bool" where
  "in_map a l x \<longleftrightarrow> unat (x - a) < unat l"

fun shown :: "io_call list \<Rightarrow> u64 \<Rightarrow> (int \<times> nat) option" where
  "shown [] x = None"
| "shown (IoMmap a l prot flags fd off # log) x =
     (if MAP_FIXED AND flags \<noteq> 0 \<and> in_map a l x
      then if prot = PROT_RW \<and> MAP_SHARED AND flags \<noteq> 0 then Some (fd, unat off + unat (x - a)) else None
      else shown log x)"
| "shown (IoMunmap a l # log) x = (if in_map a l x then None else shown log x)"
| "shown (_ # log) x = shown log x"

fun file_size :: "io_call list \<Rightarrow> int \<Rightarrow> nat" where
  "file_size [] fd = 0"
| "file_size (IoFtruncate f n # log) fd = (if f = fd then unat n else file_size log fd)"
| "file_size (_ # log) fd = file_size log fd"

definition mem_shows :: "io_call list \<Rightarrow> u64 \<Rightarrow> (int \<times> nat) option" where
  "mem_shows log x =
     (case shown (rev log) x of
        None \<Rightarrow> None
      | Some (fd, i) \<Rightarrow> if i < file_size (rev log) fd then Some (fd, i) else None)"

fun vm_store :: "io_call list \<Rightarrow> u64 \<Rightarrow> bytes \<Rightarrow> files \<Rightarrow> files outcome" where
  "vm_store log x [] fs = Ret fs"
| "vm_store log x (b # bs) fs =
     (case mem_shows log x of None \<Rightarrow> Undef | Some (fd, i) \<Rightarrow> vm_store log (x + 1) bs (fs(fd := (fs fd)(i := b))))"

fun vm_load :: "io_call list \<Rightarrow> u64 \<Rightarrow> nat \<Rightarrow> files \<Rightarrow> bytes outcome" where
  "vm_load log x 0 fs = Ret []"
| "vm_load log x (Suc n) fs =
     (case mem_shows log x of None \<Rightarrow> Undef | Some (fd, i) \<Rightarrow> obind (vm_load log (x + 1) n fs) (\<lambda>bs. Ret (fs fd i # bs)))"

text \<open>What a client does with the buffer, in the memory that the calls in \<open>log\<close> have mapped: bytes from a descriptor go to
  \<open>write_ptr\<close> and are appended; a reader takes them at \<open>read_ptr\<close> and consumes them.\<close>

definition cb_put :: "io_call list \<Rightarrow> bytes \<Rightarrow> circ_buf \<times> files \<Rightarrow> (circ_buf \<times> files) outcome" where
  "cb_put log bs = (\<lambda>(c, fs). obind (vm_store log (addr_u64 (cb_write_ptr c)) bs fs) (\<lambda>fs1.
     Ret (cb_set_appended (word_of_nat (length bs)) c, fs1)))"

definition cb_get :: "io_call list \<Rightarrow> nat \<Rightarrow> circ_buf \<times> files \<Rightarrow> (bytes \<times> circ_buf \<times> files) outcome" where
  "cb_get log n = (\<lambda>(c, fs). obind (vm_load log (addr_u64 (cb_read_ptr c)) n fs) (\<lambda>bs.
     Ret (bs, cb_set_consumed (word_of_nat n) c, fs)))"

section \<open>The contract\<close>

datatype fifo_op = Put bytes | Get nat

fun fifo_run :: "(bytes \<Rightarrow> 's \<Rightarrow> 's outcome) \<Rightarrow> (nat \<Rightarrow> 's \<Rightarrow> (bytes \<times> 's) outcome) \<Rightarrow> fifo_op list \<Rightarrow> 's \<Rightarrow>
    (bytes \<times> 's) outcome" where
  "fifo_run put get [] s = Ret ([], s)"
| "fifo_run put get (Put bs # ops) s = obind (put bs s) (\<lambda>s1. fifo_run put get ops s1)"
| "fifo_run put get (Get n # ops) s =
     obind (get n s) (\<lambda>(bs, s1). obind (fifo_run put get ops s1) (\<lambda>(out, s2). Ret (bs @ out, s2)))"

text \<open>The specification on a queue of at most \<open>cap\<close> bytes: \<open>None\<close> for a put that does not fit or
  a get of more than there is.\<close>

fun fifo_spec :: "nat \<Rightarrow> fifo_op list \<Rightarrow> bytes \<Rightarrow> (bytes \<times> bytes) option" where
  "fifo_spec cap [] q = Some ([], q)"
| "fifo_spec cap (Put bs # ops) q =
     (if length q + length bs \<le> cap then fifo_spec cap ops (q @ bs) else None)"
| "fifo_spec cap (Get n # ops) q =
     (if n \<le> length q
      then map_option (\<lambda>(out, q1). (take n q @ out, q1)) (fifo_spec cap ops (drop n q)) else None)"

locale byte_fifo =
  fixes put :: "bytes \<Rightarrow> 's \<Rightarrow> 's outcome"
    and get :: "nat \<Rightarrow> 's \<Rightarrow> (bytes \<times> 's) outcome"
    and queue :: "'s \<Rightarrow> bytes"
    and room :: "'s \<Rightarrow> nat"
    and ok :: "'s \<Rightarrow> bool"
  assumes put_ok: "ok s \<Longrightarrow> length bs \<le> room s \<Longrightarrow>
      \<exists>s'. put bs s = Ret s' \<and> ok s' \<and> queue s' = queue s @ bs \<and> room s' = room s - length bs"
    and get_ok: "ok s \<Longrightarrow> n \<le> length (queue s) \<Longrightarrow>
      \<exists>s'. get n s = Ret (take n (queue s), s') \<and> ok s' \<and> queue s' = drop n (queue s) \<and> room s' = room s + n"
begin

lemma run_refines:
  assumes "ok s" "fifo_spec (length (queue s) + room s) ops (queue s) = Some (out, q)"
  shows "\<exists>s'. fifo_run put get ops s = Ret (out, s') \<and> ok s' \<and> queue s' = q \<and>
    length (queue s') + room s' = length (queue s) + room s"
  using assms
proof (induction ops arbitrary: s out)
  case (Cons op ops)
  show ?case
  proof (cases op)
    case (Put bs)
    then have le: "length bs \<le> room s" using Cons.prems(2) by (simp split: if_splits)
    then obtain s1 where s1: "put bs s = Ret s1" "ok s1" "queue s1 = queue s @ bs" "room s1 = room s - length bs"
      using put_ok [OF Cons.prems(1)] by blast
    then show ?thesis
      using Cons.IH [OF s1(2)] Cons.prems(2) Put le by (simp split: if_splits)
  next
    case (Get n)
    then have le: "n \<le> length (queue s)" using Cons.prems(2) by (simp split: if_splits)
    then obtain s1 where s1: "get n s = Ret (take n (queue s), s1)" "ok s1" "queue s1 = drop n (queue s)" "room s1 = room s + n"
      using get_ok [OF Cons.prems(1)] by blast
    then obtain out1 where "fifo_spec (length (queue s1) + room s1) ops (queue s1) = Some (out1, q)" "out = take n (queue s) @ out1"
      using Cons.prems(2) Get le by (auto simp: add.commute)
    then show ?thesis
      using Cons.IH [OF s1(2)] Get le s1 by fastforce
  qed
qed simp

end

section \<open>The buffer meets the contract\<close>

text \<open>The bytes of a file, used as a ring of \<open>L\<close> bytes.\<close>

type_synonym ring = "nat \<Rightarrow> u8"

fun ring_store :: "nat \<Rightarrow> nat \<Rightarrow> bytes \<Rightarrow> ring \<Rightarrow> ring" where
  "ring_store L off [] r = r"
| "ring_store L off (b # bs) r = ring_store L (Suc off) bs (r(off mod L := b))"

definition ring_load :: "nat \<Rightarrow> nat \<Rightarrow> nat \<Rightarrow> ring \<Rightarrow> bytes" where
  "ring_load L off n r = map (\<lambda>i. r (i mod L)) [off..<off + n]"

lemma mod_window: "k < m \<Longrightarrow> m < k + L \<Longrightarrow> k mod L \<noteq> m mod (L :: nat)"
  using mod_eq_dvd_iff_nat [of k m L] by (auto dest: dvd_imp_le)

text \<open>A store of at most \<open>L\<close> bytes, seen through a window of \<open>L\<close> offsets.\<close>

lemma ring_store_nth:
  "off \<le> k \<Longrightarrow> k < off + length bs \<Longrightarrow> length bs \<le> L \<Longrightarrow> ring_store L off bs r (k mod L) = bs ! (k - off)"
  "k < off \<Longrightarrow> off + length bs \<le> k + L \<Longrightarrow> ring_store L off bs r (k mod L) = r (k mod L)"
proof (induction bs arbitrary: off r)
  case (Cons b bs)
  {
    case 1
    show ?case
    proof (cases "k = off")
      case True
      then show ?thesis using Cons.IH(2) [of "Suc off"] 1 by simp
    next
      case False
      then show ?thesis using Cons.IH(1) [of "Suc off"] 1 by (simp add: nth_Cons' Suc_diff_Suc)
    qed
  next
    case 2
    then show ?case using Cons.IH(2) [of "Suc off"] mod_window [of k off L] by simp
  }
qed simp_all

lemma ring_load_length [simp]: "length (ring_load L off n r) = n"
  by (simp add: ring_load_def)

lemma ring_load_nth: "i < n \<Longrightarrow> ring_load L off n r ! i = r ((off + i) mod L)"
  by (simp add: ring_load_def)

lemma ring_load_store:
  assumes "len + length bs \<le> L"
  shows "ring_load L pos (len + length bs) (ring_store L (pos + len) bs r) = ring_load L pos len r @ bs"
proof (rule nth_equalityI)
  fix i
  assume "i < length (ring_load L pos (len + length bs) (ring_store L (pos + len) bs r))"
  then have i: "i < len + length bs" by simp
  show "ring_load L pos (len + length bs) (ring_store L (pos + len) bs r) ! i = (ring_load L pos len r @ bs) ! i"
  proof (cases "i < len")
    case True
    then show ?thesis
      using i assms ring_store_nth(2) [of "pos + i" "pos + len" bs L r] by (simp add: ring_load_nth nth_append)
  next
    case False
    then show ?thesis
      using i assms ring_store_nth(1) [of "pos + len" "pos + i" bs L r] by (simp add: ring_load_nth nth_append)
  qed
qed simp

lemma ring_load_drop: "n \<le> len \<Longrightarrow> ring_load L (pos + n) (len - n) r = drop n (ring_load L pos len r)"
  by (rule nth_equalityI) (simp_all add: ring_load_nth algebra_simps)

lemma ring_load_take: "n \<le> len \<Longrightarrow> ring_load L pos n r = take n (ring_load L pos len r)"
  by (rule nth_equalityI) (simp_all add: ring_load_nth)

lemma ring_load_wrap: "L \<le> pos \<Longrightarrow> ring_load L (pos - L) n r = ring_load L pos n r"
  by (rule nth_equalityI) (simp_all add: ring_load_nth mod_if add.commute [of _ "pos - L"] le_mod_geq
      flip: mod_add_self2 [of "pos - L + _" L])

text \<open>The invariant.\<close>

definition cb_inv :: "circ_buf \<Rightarrow> bool" where
  "cb_inv c \<longleftrightarrow> unat (cb_magic_len c) = 2 * unat (cb_map_len c) \<and>
     unat (cb_pos c) < unat (cb_map_len c) \<and> unat (cb_len c) \<le> unat (cb_map_len c)"

text \<open>The memory of the buffer shows its file twice.\<close>

definition doubly :: "io_call list \<Rightarrow> circ_buf \<Rightarrow> bool" where
  "doubly log c \<longleftrightarrow> (\<forall>i < unat (cb_magic_len c).
     mem_shows log (addr_u64 (mp_addr (cb_map c)) + word_of_nat i) = Some (cb_fd c, i mod unat (cb_map_len c)))"

definition cb_queue :: "circ_buf \<times> files \<Rightarrow> bytes" where
  "cb_queue = (\<lambda>(c, fs). ring_load (unat (cb_map_len c)) (unat (cb_pos c)) (unat (cb_len c)) (fs (cb_fd c)))"

definition cb_room :: "circ_buf \<times> files \<Rightarrow> nat" where
  "cb_room = (\<lambda>(c, fs). unat (cb_writeable c))"

definition cb_ok :: "io_call list \<Rightarrow> circ_buf \<times> files \<Rightarrow> bool" where
  "cb_ok log = (\<lambda>(c, fs). cb_inv c \<and> doubly log c)"

lemma vm_store_ring:
  assumes "doubly log c" "off + length bs \<le> unat (cb_magic_len c)"
  shows "vm_store log (addr_u64 (mp_addr (cb_map c)) + word_of_nat off) bs fs =
    Ret (fs(cb_fd c := ring_store (unat (cb_map_len c)) off bs (fs (cb_fd c))))"
  using assms(2)
proof (induction bs arbitrary: off fs)
  case (Cons b bs)
  then have "off < unat (cb_magic_len c)" by simp
  then have "mem_shows log (addr_u64 (mp_addr (cb_map c)) + word_of_nat off) = Some (cb_fd c, off mod unat (cb_map_len c))"
    using assms(1) by (simp add: doubly_def)
  then show ?case using Cons.IH [of "Suc off"] Cons.prems by (auto simp: add_ac intro!: ext)
qed simp

lemma vm_load_ring:
  assumes "doubly log c" "off + n \<le> unat (cb_magic_len c)"
  shows "vm_load log (addr_u64 (mp_addr (cb_map c)) + word_of_nat off) n fs = Ret (ring_load (unat (cb_map_len c)) off n (fs (cb_fd c)))"
  using assms(2)
proof (induction n arbitrary: off)
  case 0
  then show ?case by (simp add: ring_load_def)
next
  case (Suc n)
  then have "off < unat (cb_magic_len c)" by simp
  then have "mem_shows log (addr_u64 (mp_addr (cb_map c)) + word_of_nat off) = Some (cb_fd c, off mod unat (cb_map_len c))"
    using assms(1) by (simp add: doubly_def)
  moreover have "ring_load L off (Suc n) r = r (off mod L) # ring_load L (Suc off) n r" for L and r :: ring
    by (simp add: ring_load_def upt_conv_Cons del: upt_Suc)
  ultimately show ?case using Suc.IH [of "Suc off"] Suc.prems by (simp add: add_ac)
qed

lemma cb_updates [simp]:
  "cb_map_len (c\<lparr>cb_len := n\<rparr>) = cb_map_len c" "cb_magic_len (c\<lparr>cb_len := n\<rparr>) = cb_magic_len c"
  "cb_map_len (c\<lparr>cb_pos := n\<rparr>) = cb_map_len c" "cb_magic_len (c\<lparr>cb_pos := n\<rparr>) = cb_magic_len c"
  by (simp_all add: cb_map_len_def cb_magic_len_def)

lemma cb_ptr: "addr_u64 (mp_addr_at (cb_map c) (Extent n)) = addr_u64 (mp_addr (cb_map c)) + word_of_nat (unat n)"
  by (simp add: mp_addr_at_def addr_plus_def)

lemma cb_moved [simp]:
  "cb_map (cb_set_appended n c) = cb_map c" "cb_fd (cb_set_appended n c) = cb_fd c"
  "cb_map (cb_set_consumed n c) = cb_map c" "cb_fd (cb_set_consumed n c) = cb_fd c"
  by (simp_all add: cb_set_appended_def cb_set_consumed_def Let_def)

lemma doubly_moved: "cb_map c' = cb_map c \<Longrightarrow> cb_fd c' = cb_fd c \<Longrightarrow> doubly log c' = doubly log c"
  by (simp add: doubly_def cb_magic_len_def cb_map_len_def)

lemma cb_inv_lim:
  assumes "cb_inv c"
  shows "2 * unat (cb_map_len c) < 2 ^ 64" "unat (cb_writeable c) = unat (cb_map_len c) - unat (cb_len c)"
    "unat (cb_write_offset c) = unat (cb_pos c) + unat (cb_len c)"
proof -
  show L: "2 * unat (cb_map_len c) < 2 ^ 64"
    using assms unsigned_less [of "cb_magic_len c", where ?'a = nat] by (simp add: cb_inv_def)
  show "unat (cb_writeable c) = unat (cb_map_len c) - unat (cb_len c)"
    using assms by (simp add: cb_writeable_def cb_inv_def unat_minus_word word_le_nat_alt)
  show "unat (cb_write_offset c) = unat (cb_pos c) + unat (cb_len c)"
    using assms L unfolding cb_write_offset_def cb_inv_def by (intro unat_plus_nat) linarith
qed

lemma cb_put_ok:
  assumes "cb_inv c" "length bs \<le> unat (cb_writeable c)" "doubly log c"
  shows "\<exists>c' fs'. cb_put log bs (c, fs) = Ret (c', fs') \<and> cb_inv c' \<and> doubly log c' \<and> cb_queue (c', fs') = cb_queue (c, fs) @ bs \<and>
    unat (cb_writeable c') = unat (cb_writeable c) - length bs"
proof -
  let ?L = "unat (cb_map_len c)" and ?c = "cb_set_appended (word_of_nat (length bs)) c"
  note lim = cb_inv_lim [OF assms(1)]
  have fit: "unat (cb_len c) + length bs \<le> ?L"
    using assms lim(2) unfolding cb_inv_def by linarith
  then have n: "unat (word_of_nat (length bs) :: u64) = length bs"
    using lim(1) by (intro unat_word_of_nat64) linarith
  then have len: "unat (cb_len ?c) = unat (cb_len c) + length bs"
    using fit lim(1) by (simp add: cb_set_appended_def unat_plus_nat)
  have inv: "cb_inv ?c"
    using assms(1) fit len by (simp add: cb_inv_def) (simp add: cb_set_appended_def)
  let ?fs = "fs(cb_fd c := ring_store ?L (unat (cb_pos c) + unat (cb_len c)) bs (fs (cb_fd c)))"
  have "vm_store log (addr_u64 (cb_write_ptr c)) bs fs = Ret ?fs"
    using assms(1) fit vm_store_ring [OF assms(3), of "unat (cb_pos c) + unat (cb_len c)" bs fs]
    by (simp add: cb_write_ptr_def cb_ptr lim(3) cb_inv_def)
  then have "cb_put log bs (c, fs) = Ret (?c, ?fs)"
    by (simp add: cb_put_def)
  moreover have "cb_queue (?c, ?fs) = cb_queue (c, fs) @ bs"
    using ring_load_store [OF fit] len by (simp add: cb_queue_def) (simp add: cb_set_appended_def)
  moreover have "unat (cb_writeable ?c) = unat (cb_writeable c) - length bs"
    using cb_inv_lim(2) [OF inv] lim(2) len by (simp add: cb_set_appended_def)
  moreover have "doubly log ?c" using assms(3) by (simp add: doubly_moved [of ?c c])
  ultimately show ?thesis using inv by blast
qed

lemma cb_get_ok:
  assumes "cb_inv c" "n \<le> unat (cb_len c)" "doubly log c"
  shows "\<exists>c'. cb_get log n (c, fs) = Ret (take n (cb_queue (c, fs)), c', fs) \<and> cb_inv c' \<and> doubly log c' \<and>
    cb_queue (c', fs) = drop n (cb_queue (c, fs)) \<and> unat (cb_writeable c') = unat (cb_writeable c) + n"
proof -
  let ?L = "unat (cb_map_len c)" and ?n = "word_of_nat n :: u64"
  let ?c = "cb_set_consumed ?n c"
  note lim = cb_inv_lim [OF assms(1)]
  have b: "unat (cb_pos c) < ?L" "unat (cb_len c) \<le> ?L" "unat (cb_magic_len c) = 2 * ?L"
    using assms(1) by (simp_all add: cb_inv_def)
  have n: "unat ?n = n"
    using assms(2) b lim(1) by (intro unat_word_of_nat64) linarith
  have p: "unat (cb_pos c + ?n) = unat (cb_pos c) + n"
    using assms(2) b lim(1) n by (subst unat_plus_nat) simp_all
  have pos: "unat (cb_pos ?c) = (if ?L \<le> unat (cb_pos c) + n then unat (cb_pos c) + n - ?L else unat (cb_pos c) + n)"
    using p by (simp add: cb_set_consumed_def Let_def word_le_nat_alt unat_minus_word)
  have len: "unat (cb_len ?c) = unat (cb_len c) - n"
    using assms(2) n by (simp add: cb_set_consumed_def Let_def unat_minus_word word_le_nat_alt)
  have same: "cb_map_len ?c = cb_map_len c" "cb_magic_len ?c = cb_magic_len c"
    by (simp_all add: cb_set_consumed_def Let_def)
  have inv: "cb_inv ?c"
    using assms(2) b pos len unfolding cb_inv_def same by (auto split: if_splits)
  have "cb_get log n (c, fs) = Ret (take n (cb_queue (c, fs)), ?c, fs)"
    using assms(2) b ring_load_take [OF assms(2), of ?L "unat (cb_pos c)" "fs (cb_fd c)"]
      vm_load_ring [OF assms(3), of "unat (cb_pos c)" n fs]
    by (simp add: cb_get_def cb_read_ptr_def cb_ptr cb_queue_def)
  moreover have "cb_queue (?c, fs) = drop n (cb_queue (c, fs))"
    using ring_load_drop [OF assms(2), of ?L "unat (cb_pos c)" "fs (cb_fd c)"] ring_load_wrap [of ?L "unat (cb_pos c) + n"] pos len
    by (simp add: cb_queue_def same)
  moreover have "doubly log ?c" using assms(3) by (simp add: doubly_moved [of ?c c])
  moreover have "unat (cb_writeable ?c) = unat (cb_writeable c) + n"
    using cb_inv_lim(2) [OF inv] lim(2) len assms(2) b by (simp add: same)
  ultimately show ?thesis using inv by blast
qed

interpretation cb: byte_fifo "cb_put log" "cb_get log" cb_queue cb_room "cb_ok log" for log :: "io_call list"
proof
  fix s :: "circ_buf \<times> files" and bs :: bytes
  assume "cb_ok log s" "length bs \<le> cb_room s"
  then show "\<exists>s'. cb_put log bs s = Ret s' \<and> cb_ok log s' \<and> cb_queue s' = cb_queue s @ bs \<and> cb_room s' = cb_room s - length bs"
    using cb_put_ok [of "fst s" bs log "snd s"] by (auto simp: cb_ok_def cb_room_def split: prod.splits)
next
  fix s :: "circ_buf \<times> files" and n
  assume "cb_ok log s" "n \<le> length (cb_queue s)"
  then show "\<exists>s'. cb_get log n s = Ret (take n (cb_queue s), s') \<and> cb_ok log s' \<and> cb_queue s' = drop n (cb_queue s) \<and>
      cb_room s' = cb_room s + n"
    using cb_get_ok [of "fst s" n log "snd s"] by (cases s) (fastforce simp: cb_ok_def cb_room_def cb_queue_def)
qed

section \<open>What is opened, closed and unmapped\<close>

definition io_closes :: "io_call list \<Rightarrow> int list" where
  "io_closes log = concat (map (\<lambda>c. case c of IoClose fd \<Rightarrow> [fd] | _ \<Rightarrow> []) log)"

definition io_sized :: "io_call list \<Rightarrow> int list" where
  "io_sized log = concat (map (\<lambda>c. case c of IoFtruncate fd n \<Rightarrow> [fd] | _ \<Rightarrow> []) log)"

definition io_unmaps :: "io_call list \<Rightarrow> u64 list" where
  "io_unmaps log = concat (map (\<lambda>c. case c of IoMunmap a l \<Rightarrow> [l] | _ \<Rightarrow> []) log)"

lemma io_lists [simp]:
  "io_closes [] = []" "io_sized [] = []" "io_unmaps [] = []"
  "io_closes (c # log) = (case c of IoClose fd \<Rightarrow> [fd] | _ \<Rightarrow> []) @ io_closes log"
  "io_sized (c # log) = (case c of IoFtruncate fd n \<Rightarrow> [fd] | _ \<Rightarrow> []) @ io_sized log"
  "io_unmaps (c # log) = (case c of IoMunmap a l \<Rightarrow> [l] | _ \<Rightarrow> []) @ io_unmaps log"
  "io_closes (l1 @ l2) = io_closes l1 @ io_closes l2" "io_sized (l1 @ l2) = io_sized l1 @ io_sized l2"
  "io_unmaps (l1 @ l2) = io_unmaps l1 @ io_unmaps l2"
  by (simp_all add: io_closes_def io_sized_def io_unmaps_def)

lemma sys_snd: "snd (snd (sys c f w)) = snd w @ [c]" "sys c f w = (r, w1) \<Longrightarrow> snd w1 = snd w @ [c]"
  "snd (sys c f w) = (w2, log) \<Longrightarrow> log = snd w @ [c]"
  by (auto simp: sys_def split: prod.splits)

lemma io_log [simp]:
  "snd (snd (io_close px fd w)) = snd w @ [IoClose fd]"
  "snd (snd (io_munmap px a l w)) = snd w @ [IoMunmap a l]"
  by (simp_all add: io_close_def io_munmap_def sys_snd)

lemma io_log_dest:
  "io_memfd_create px w = (r, w1) \<Longrightarrow> snd w1 = snd w @ [IoMemfd]"
  "io_ftruncate px fd n w = (q, w1) \<Longrightarrow> snd w1 = snd w @ [IoFtruncate fd n]"
  "io_munmap px a l w = (q, w1) \<Longrightarrow> snd w1 = snd w @ [IoMunmap a l]"
  "snd (io_close px fd w) = (w2, log) \<Longrightarrow> log = snd w @ [IoClose fd]"
  "snd (io_munmap px a l w) = (w2, log) \<Longrightarrow> log = snd w @ [IoMunmap a l]"
  by (simp_all add: io_memfd_create_def io_ftruncate_def io_close_def io_munmap_def sys_snd)

definition nonnull_px :: "'w posix \<Rightarrow> bool" where
  "nonnull_px px \<longleftrightarrow> (\<forall>a l prot flags fd off w. fst (fst (px_mmap px a l prot flags fd off w)) \<noteq> Some 0)"

lemma io_mmap_nonnull:
  assumes "nonnull_px px" "io_mmap px a l prot flags fd off w = (Inr p, w1)"
  shows "p \<noteq> 0"
proof -
  have "fst (fst (px_mmap px a l prot flags fd off (fst w))) \<noteq> Some 0"
    using assms(1) by (simp add: nonnull_px_def)
  then show ?thesis
    using assms(2) by (auto simp: io_mmap_def sys_def expected_def split: prod.splits option.splits)
qed

lemma io_mmap_dest:
  assumes "nonnull_px px"
  shows "io_mmap px a l prot flags fd off w = (Inr p, w1) \<Longrightarrow> p \<noteq> 0 \<and> snd w1 = snd w @ [IoMmap a l prot flags fd off]"
    "io_mmap px a l prot flags fd off w = (Inl e, w1) \<Longrightarrow> snd w1 = snd w @ [IoMmap a l prot flags fd off]"
  using io_mmap_nonnull [OF assms] io_mmap_log by blast+

lemma mp_unmap_closes: "io_closes (snd (snd (snd (mp_unmap px m w)))) = io_closes (snd w)"
  by (auto simp: mp_unmap_def split: prod.splits sum.splits dest!: io_log_dest(3))

lemma bytes64_twice:
  assumes "unat (pages64 pgs) * 8192 < 2 ^ 64"
  shows "unat (bytes64 pgs) = unat (pages64 pgs) * 4096" "unat (bytes64 pgs * 2) = unat (pages64 pgs) * 8192"
    "bytes64 (pages_from_bytes (Extent (bytes64 pgs * 2))) = bytes64 pgs * 2"
proof -
  show 1: "unat (bytes64 pgs) = unat (pages64 pgs) * 4096"
    using assms by (intro unat_bytes64) simp
  then show 2: "unat (bytes64 pgs * 2) = unat (pages64 pgs) * 8192"
    using assms by (simp add: unat_word_ariths)
  have "unat (bytes64 pgs * 2 div 4096) = unat (pages64 pgs) * 2"
    unfolding unat_div using 2 by simp
  then have "unat (bytes64 (pages_from_bytes (Extent (bytes64 pgs * 2)))) = unat (bytes64 pgs * 2)"
    using assms 2 by (subst unat_bytes64) (simp_all add: pages_from_bytes_def PG_SZ_def)
  then show "bytes64 (pages_from_bytes (Extent (bytes64 pgs * 2))) = bytes64 pgs * 2"
    by (simp add: word_unat_eq_iff)
qed

lemma init_success:
  assumes "init_circ_buffer px pgs w = (Inr c, w')"
  shows "\<exists>base fd. c = cb_new base (pages_from_bytes (Extent (bytes64 pgs * 2))) fd"
  using assms by (auto simp: init_circ_buffer_def Let_def split: prod.splits sum.splits if_splits)

lemma init_inv:
  assumes "init_circ_buffer px pgs w = (Inr c, w')" "0 < unat (pages64 pgs)" "unat (pages64 pgs) * 8192 < 2 ^ 64"
  shows "cb_inv c \<and> cb_map_len c = bytes64 pgs \<and> cb_len c = 0"
proof -
  obtain base fd where c: "c = cb_new base (pages_from_bytes (Extent (bytes64 pgs * 2))) fd"
    using init_success [OF assms(1)] by blast
  then have m: "cb_magic_len c = bytes64 pgs * 2"
    using bytes64_twice(3) [OF assms(3)] by (simp add: cb_magic_len_def cb_new_def mp_new_def mp_extent_def)
  then have "cb_map_len c = bytes64 pgs * 2 div 2"
    by (simp add: cb_map_len_def cb_magic_len_def)
  also have "\<dots> = bytes64 pgs"
    using bytes64_twice(1,2) [OF assms(3)] by (simp add: word_unat_eq_iff unat_div)
  finally show ?thesis
    using m bytes64_twice(1,2) [OF assms(3)] assms(2) c by (simp add: cb_inv_def cb_new_def)
qed

text \<open>The calls a successful \<open>init_circ_buffer\<close> has made, and what they map.\<close>

lemma init_steps:
  assumes "init_circ_buffer px pgs w = (Inr c, w')"
  shows "\<exists>base fd v1 v2 v3 v4 k. io_mmap px 0 (2 * bytes64 pgs) PROT_NONE (MAP_PRIVATE OR MAP_ANONYMOUS) (- 1) 0 w = (Inr base, v1) \<and>
    io_memfd_create px v1 = (Inr fd, v2) \<and> io_ftruncate px fd (bytes64 pgs) v2 = (Inr k, v3) \<and>
    io_mmap px base (bytes64 pgs) PROT_RW (MAP_SHARED OR MAP_FIXED) fd 0 v3 = (Inr base, v4) \<and>
    io_mmap px (base + bytes64 pgs) (bytes64 pgs) PROT_RW (MAP_SHARED OR MAP_FIXED) fd 0 v4 = (Inr (base + bytes64 pgs), w') \<and>
    c = cb_new (Address base) (pages_from_bytes (Extent (bytes64 pgs * 2))) fd"
proof -
  let ?L = "bytes64 pgs"
  obtain r1 v1 where 1: "io_mmap px 0 (2 * ?L) PROT_NONE (MAP_PRIVATE OR MAP_ANONYMOUS) (- 1) 0 w = (r1, v1)" by (metis surj_pair)
  obtain r2 v2 where 2: "io_memfd_create px v1 = (r2, v2)" by (metis surj_pair)
  note run = assms [unfolded init_circ_buffer_def Let_def 1 2 prod.case]
  obtain base fd where r: "r1 = Inr base" "r2 = Inr fd" using run 2 by (cases r1; cases r2; simp)
  note run = run [unfolded r sum.case 2 prod.case]
  obtain r3 v3 where 3: "io_ftruncate px fd ?L v2 = (r3, v3)" by (metis surj_pair)
  obtain r4 v4 where 4: "io_mmap px base ?L PROT_RW (MAP_SHARED OR MAP_FIXED) fd 0 v3 = (r4, v4)" by (metis surj_pair)
  obtain r5 v5 where 5: "io_mmap px (base + ?L) ?L PROT_RW (MAP_SHARED OR MAP_FIXED) fd 0 v4 = (r5, v5)" by (metis surj_pair)
  obtain k where k: "r3 = Inr k" "r4 = Inr base" "r5 = Inr (base + ?L)" "v5 = w'"
    "c = cb_new (Address base) (pages_from_bytes (Extent (?L * 2))) fd"
    using run 3 4 5 by (cases r3; cases r4; cases r5) (auto split: if_splits)
  show ?thesis using 1 2 3 4 5 unfolding r k by blast
qed

lemma init_calls:
  assumes "init_circ_buffer px pgs w = (Inr c, w')"
  shows "\<exists>base fd. c = cb_new (Address base) (pages_from_bytes (Extent (bytes64 pgs * 2))) fd \<and>
    snd w' = snd w @ [IoMmap 0 (2 * bytes64 pgs) PROT_NONE (MAP_PRIVATE OR MAP_ANONYMOUS) (- 1) 0, IoMemfd, IoFtruncate fd (bytes64 pgs),
      IoMmap base (bytes64 pgs) PROT_RW (MAP_SHARED OR MAP_FIXED) fd 0,
      IoMmap (base + bytes64 pgs) (bytes64 pgs) PROT_RW (MAP_SHARED OR MAP_FIXED) fd 0]"
proof -
  obtain base fd v1 v2 v3 v4 k where 
    io: "io_mmap px 0 (2 * bytes64 pgs) PROT_NONE (MAP_PRIVATE OR MAP_ANONYMOUS) (- 1) 0 w = (Inr base, v1)"
      "io_memfd_create px v1 = (Inr fd, v2)" "io_ftruncate px fd (bytes64 pgs) v2 = (Inr k, v3)"
      "io_mmap px base (bytes64 pgs) PROT_RW (MAP_SHARED OR MAP_FIXED) fd 0 v3 = (Inr base, v4)"
      "io_mmap px (base + bytes64 pgs) (bytes64 pgs) PROT_RW (MAP_SHARED OR MAP_FIXED) fd 0 v4 = (Inr (base + bytes64 pgs), w')"
    and c: "c = cb_new (Address base) (pages_from_bytes (Extent (bytes64 pgs * 2))) fd"
    using init_steps [OF assms] by blast
  have "snd w' = (((((snd w @ [IoMmap 0 (2 * bytes64 pgs) PROT_NONE (MAP_PRIVATE OR MAP_ANONYMOUS) (- 1) 0]) @ [IoMemfd]) @
      [IoFtruncate fd (bytes64 pgs)]) @ [IoMmap base (bytes64 pgs) PROT_RW (MAP_SHARED OR MAP_FIXED) fd 0]) @
      [IoMmap (base + bytes64 pgs) (bytes64 pgs) PROT_RW (MAP_SHARED OR MAP_FIXED) fd 0])"
    using io_mmap_log [OF io(1)] io_log_dest(1) [OF io(2)] io_log_dest(2) [OF io(3)] io_mmap_log [OF io(4)]
      io_mmap_log [OF io(5)] by metis
  then show ?thesis using c by (intro exI [of _ base] exI [of _ fd]) simp
qed

lemma init_doubly:
  assumes "init_circ_buffer px pgs w = (Inr c, w')" "0 < unat (pages64 pgs)" "unat (pages64 pgs) * 8192 < 2 ^ 64"
  shows "doubly (snd w') c"
proof -
  let ?L = "bytes64 pgs"
  obtain base fd where c: "c = cb_new (Address base) (pages_from_bytes (Extent (?L * 2))) fd"
    and log: "rev (snd w') = IoMmap (base + ?L) ?L PROT_RW (MAP_SHARED OR MAP_FIXED) fd 0 #
      IoMmap base ?L PROT_RW (MAP_SHARED OR MAP_FIXED) fd 0 # IoFtruncate fd ?L # IoMemfd #
      IoMmap 0 (2 * ?L) PROT_NONE (MAP_PRIVATE OR MAP_ANONYMOUS) (- 1) 0 # rev (snd w)"
    using init_calls [OF assms(1)] by auto
  note inv = init_inv [OF assms]
  have L: "unat (cb_magic_len c) = 2 * unat ?L" "cb_map_len c = ?L" "2 * unat ?L < 2 ^ 64"
    using inv bytes64_twice(1) [OF assms(3)] assms(3) by (auto simp: cb_inv_def)
  have "mem_shows (snd w') (base + word_of_nat i) = Some (fd, i mod unat ?L)" if i: "i < 2 * unat ?L" for i
  proof -
    have u: "unat (word_of_nat i :: u64) = i" using i L(3) by (intro unat_word_of_nat64) simp
    show ?thesis
    proof (cases "i < unat ?L")
      case True
      have "(word_of_nat i :: u64) < ?L" using True u by (simp add: word_less_nat_alt)
      have "unat (word_of_nat i - ?L) = i + (2 ^ 64 - unat ?L)"
        using True u L(3) by (simp add: unat_sub_if')
      then have "\<not> unat (word_of_nat i - ?L) < unat ?L" using L(3) by simp
      then show ?thesis using True u log by (simp add: mem_shows_def in_map_def)
    next
      case False
      then have d: "unat (word_of_nat i - ?L) = i - unat ?L" using u by (simp add: unat_minus_word word_le_nat_alt)
      moreover have "i mod unat ?L = i - unat ?L" "i - unat ?L < unat ?L" using False i by (simp_all add: mod_if)
      ultimately show ?thesis using False i log by (simp add: mem_shows_def in_map_def)
    qed
  qed
  then show ?thesis using c L by (simp add: doubly_def cb_new_def mp_new_def)
qed

section \<open>Properties\<close>

text \<open>C22. A ring buffer from \<open>init_circ_buffer\<close>, in the memory its calls of \<open>mmap\<close> have mapped, is a queue of bytes: for
  every sequence of puts that
  fit and gets of what is there, no access leaves the double mapping, however often it wraps
  around, and what comes out is what went in, in order.\<close>

theorem circ_fifo:
  assumes "init_circ_buffer px pgs w = (Inr c, w')" "0 < unat (pages64 pgs)" "unat (pages64 pgs) * 8192 < 2 ^ 64"
    and "fifo_spec (unat (bytes64 pgs)) ops [] = Some (out, q)"
  shows "\<exists>c' fs'. fifo_run (cb_put (snd w')) (cb_get (snd w')) ops (c, fs) = Ret (out, c', fs') \<and> cb_inv c' \<and> cb_queue (c', fs') = q"
proof -
  note inv = init_inv [OF assms(1-3)]
  have "cb_queue (c, fs) = []" "cb_room (c, fs) = unat (bytes64 pgs)"
    using inv by (simp_all add: cb_queue_def ring_load_def cb_room_def cb_writeable_def)
  then show ?thesis
    using cb.run_refines [of "snd w'" "(c, fs)" ops out q] inv init_doubly [OF assms(1-3)] assms(4) by (auto simp: cb_ok_def)
qed

text \<open>When \<open>init_circ_buffer\<close> fails, the reservation is unmapped as a whole if it was made, and the
  descriptor is closed if it was opened, unless it is 0, which the guard takes for none; on success
  both stay open.\<close>

theorem circ_init_releases:
  assumes "init_circ_buffer px pgs (w, []) = (r, w', log)" "nonnull_px px"
    and "0 < unat (pages64 pgs)" "unat (pages64 pgs) * 8192 < 2 ^ 64"
  shows "io_closes log = (if isl r then filter (\<lambda>fd. fd \<noteq> 0) (io_sized log) else []) \<and>
    io_unmaps log = (if isl r \<and> IoMemfd \<in> set log then [bytes64 pgs * 2] else [])"
proof -
  have len: "0 < bytes64 pgs * 2"
    using bytes64_twice(2) [OF assms(4)] assms(3) by (simp add: word_less_nat_alt)
  show ?thesis
    using assms(1) len
    by (auto simp: init_circ_buffer_def Let_def mfd_cleanup_def mmap_cleanup_def
        split: prod.splits sum.splits if_splits
        dest!: io_mmap_dest [OF assms(2)] io_log_dest)
qed

text \<open>Move assignment to a live buffer unmaps its memory but forgets its descriptor: when both
  objects are gone the one moved in has been closed and the old one has not.\<close>

theorem circ_move_leaks:
  assumes "0 \<le> cb_fd rhs" "cb_fd c \<noteq> cb_fd rhs" "cb_move_from px c rhs (w, []) = (c1, rhs1, w1)"
  shows "io_closes (snd (cb_destroy px c1 (cb_destroy px rhs1 w1))) = [cb_fd rhs]"
proof -
  have "cb_fd c1 = cb_fd rhs" "cb_fd rhs1 = - 1" "io_closes (snd w1) = []"
    using assms(3)
    by (auto simp: cb_move_from_def mp_move_from_def case_prod_unfold Let_def mp_unmap_closes simp del: split_paired_All)
  then show ?thesis
    using assms(1) by (simp add: cb_destroy_def Let_def case_prod_unfold mp_unmap_closes)
qed

section \<open>Witnesses\<close>

text \<open>One page, so a queue of 4096 bytes.\<close>

lemma easy_init: "\<exists>log. init_circ_buffer easy_px (PageCount 1) ((), []) = (Inr (cb_new (Address 0x10000) (PageCount 2) 4), (), log)"
  by (simp add: init_circ_buffer_def io_mmap_def io_memfd_create_def io_ftruncate_def sys_def expected_def easy_px_def ok_px_def
      bytes64_def PG_SZ_def pages_from_bytes_def)

theorem circ_fifo_witness:
  "\<exists>log c fs. init_circ_buffer easy_px (PageCount 1) ((), []) = (Inr (cb_new (Address 0x10000) (PageCount 2) 4), (), log) \<and>
   fifo_run (cb_put log) (cb_get log) [Put [1, 2, 3], Get 2, Put (replicate 4095 9), Get 4]
     (cb_new (Address 0x10000) (PageCount 2) 4, \<lambda>fd i. 0) = Ret ([1, 2, 3, 9, 9, 9], c, fs) \<and>
   cb_queue (c, fs) = replicate 4092 9"
proof -
  obtain log where init: "init_circ_buffer easy_px (PageCount 1) ((), []) = (Inr (cb_new (Address 0x10000) (PageCount 2) 4), (), log)"
    using easy_init by blast
  note run = circ_fifo [OF this]
  have "unat (bytes64 (PageCount 1)) = 4096" by (simp add: bytes64_def PG_SZ_def)
  moreover have "replicate 4095 (9 :: u8) = 9 # 9 # 9 # replicate 4092 9"
    by (simp flip: replicate_Suc)
  ultimately show ?thesis
    using run [of "[Put [1, 2, 3], Get 2, Put (replicate 4095 9), Get 4]" "[1, 2, 3, 9, 9, 9]" "replicate 4092 9" "\<lambda>fd i. 0"] init
    by auto
qed

text \<open>A system without room for the file.\<close>

definition full_px :: "unit posix" where
  "full_px = easy_px\<lparr>px_ftruncate := \<lambda>fd n w. ((None, 28), w),
     px_mmap := \<lambda>a l p f fd off w. ((Some (if MAP_FIXED AND f \<noteq> 0 \<and> a \<noteq> 0 then a else 0x10000), 0), w)\<rparr>"

lemma full_px_nonnull: "nonnull_px full_px"
  by (simp add: nonnull_px_def full_px_def)

theorem circ_init_releases_witness:
  "\<exists>log. init_circ_buffer full_px (PageCount 1) ((), []) = (Inl (TruncateFailed 28), (), log) \<and>
     io_closes log = [4] \<and> io_unmaps log = [8192]"
proof -
  let ?log = "[IoMmap 0 8192 0 34 (- 1) 0, IoMemfd, IoFtruncate 4 4096, IoClose 4, IoMunmap 0x10000 8192]"
  have r: "init_circ_buffer full_px (PageCount 1) ((), []) = (Inl (TruncateFailed 28), (), ?log)"
    by (simp add: init_circ_buffer_def io_mmap_def io_memfd_create_def io_ftruncate_def io_close_def io_munmap_def
        mfd_cleanup_def mmap_cleanup_def sys_def expected_def full_px_def easy_px_def ok_px_def bytes64_def PG_SZ_def)
  show ?thesis
    using circ_init_releases [OF r full_px_nonnull] r by (simp add: bytes64_def PG_SZ_def)
qed

theorem circ_move_leaks_witness:
  "io_closes (snd (cb_destroy easy_px (cb_new (Address 0x20000) (PageCount 2) 5) (cb_destroy easy_px cb_moved_from
     (snd (snd (cb_move_from easy_px (cb_new (Address 0x10000) (PageCount 2) 4) (cb_new (Address 0x20000) (PageCount 2) 5)
        ((), []))))))) = [5]"
proof -
  let ?c = "cb_new (Address 0x10000) (PageCount 2) 4" and ?r = "cb_new (Address 0x20000) (PageCount 2) 5"
  obtain w1 where "cb_move_from easy_px ?c ?r ((), []) = (?r, cb_moved_from, w1)"
    by (auto simp: cb_move_from_def mp_move_from_def case_prod_unfold Let_def cb_new_def cb_moved_from_def)
  then show ?thesis
    using circ_move_leaks [of ?r ?c easy_px "()" ?r cb_moved_from w1] by (simp add: cb_new_def)
qed

end
