(* ===== verification/Mg_FreeList.thy ===== *)
theory Mg_FreeList
  imports Mg_Prelude
begin

text \<open>
  \<^verbatim>\<open>core/include/MgFreeList.H\<close>, \<^verbatim>\<open>core/src/FreeList.C\<close>: a fixed pool of slot
  numbers kept as a stack in a heap array. \<open>m_next\<close> is the array index of the top of
  the stack and is \<open>UINT32_MAX\<close> (that is, \<open>- 1\<close>) when the stack is empty. The array
  is \<open>None\<close> for a null \<open>m_idcs\<close>. Writing or reading outside the array is \<open>Undef\<close>.
\<close>

section \<open>The model\<close>

record free_list =
  m_cap :: u32
  m_next :: u32
  m_idcs :: "u32 list option"

definition UINT32_MAX :: u32 where
  "UINT32_MAX = - 1"

text \<open>A default-constructed list, and what a move leaves behind.\<close>

definition fl_default :: free_list where
  "fl_default = \<lparr>m_cap = 0, m_next = 0, m_idcs = None\<rparr>"

definition fl_moved_from :: free_list where
  "fl_moved_from = \<lparr>m_cap = 0, m_next = UINT32_MAX, m_idcs = None\<rparr>"

text \<open>\<open>mem_ok\<close> is the answer of \<open>new uint32_t[cap]\<close>; the result is the return code
  and the list. The loop stores \<open>cap - 1 - i\<close> at every index \<open>i\<close>.\<close>

definition fl_alloc :: "bool \<Rightarrow> free_list \<Rightarrow> u32 \<Rightarrow> int \<times> free_list" where
  "fl_alloc mem_ok l cap =
     (if cap = 0 then (-1, l)
      else if \<not> mem_ok then (-1, l)
      else (0, \<lparr>m_cap = cap, m_next = cap - 1,
                m_idcs = Some (map (\<lambda>i. cap - 1 - word_of_nat i) [0..<unat cap])\<rparr>))"

definition fl_capacity :: "free_list \<Rightarrow> u32" where
  "fl_capacity l = m_cap l"

definition fl_size :: "free_list \<Rightarrow> u32" where
  "fl_size l = m_cap l - m_next l - 1"

definition fl_release :: "free_list \<Rightarrow> u32 \<Rightarrow> (u32 \<times> free_list) outcome" where
  "fl_release l idx =
     (if m_next l = m_cap l then Ret (UINT32_MAX, l)
      else let n = m_next l + 1
           in case m_idcs l of
                None \<Rightarrow> Undef
              | Some xs \<Rightarrow>
                  if unat n < length xs
                  then Ret (0, l\<lparr>m_next := n, m_idcs := Some (xs[unat n := idx])\<rparr>)
                  else Undef)"

definition fl_next_slot :: "free_list \<Rightarrow> (u32 \<times> free_list) outcome" where
  "fl_next_slot l =
     (if m_next l = UINT32_MAX then Ret (UINT32_MAX, l)
      else case m_idcs l of
             None \<Rightarrow> Undef
           | Some xs \<Rightarrow>
               let n = unat (m_next l)
               in if n < length xs
                  then Ret (xs ! n, l\<lparr>m_next := m_next l - 1, m_idcs := Some (xs[n := UINT32_MAX])\<rparr>)
                  else Undef)"

section \<open>The stack a list stands for\<close>

text \<open>\<open>fl_count\<close> is the number of free slots, \<open>fl_stack\<close> the free slots with the top of
  the stack first. \<open>fl_inv\<close> is the representation invariant.\<close>

definition fl_count :: "free_list \<Rightarrow> nat" where
  "fl_count l = unat (m_next l + 1)"

definition fl_stack :: "free_list \<Rightarrow> u32 list" where
  "fl_stack l = (case m_idcs l of None \<Rightarrow> [] | Some xs \<Rightarrow> rev (take (fl_count l) xs))"

definition fl_inv :: "free_list \<Rightarrow> bool" where
  "fl_inv l \<longleftrightarrow> (case m_idcs l of None \<Rightarrow> False
     | Some xs \<Rightarrow> length xs = unat (m_cap l) \<and> 0 < m_cap l \<and> fl_count l \<le> unat (m_cap l))"

lemma fl_invE:
  assumes "fl_inv l"
  obtains xs where "m_idcs l = Some xs" "length xs = unat (m_cap l)" "0 < m_cap l"
    "fl_count l \<le> unat (m_cap l)" "fl_stack l = rev (take (fl_count l) xs)"
  using assms by (auto simp: fl_inv_def fl_stack_def split: option.splits)

lemma fl_inv_length: "fl_inv l \<Longrightarrow> length (fl_stack l) = fl_count l"
  by (elim fl_invE) simp

lemma fl_empty_iff: "fl_inv l \<Longrightarrow> m_next l = UINT32_MAX \<longleftrightarrow> fl_stack l = []"
  by (auto simp: fl_inv_length fl_count_def UINT32_MAX_def unat_eq_0 add_eq_0_iff2
      simp flip: length_0_conv)

lemma fl_count_pos:
  assumes "m_next l \<noteq> UINT32_MAX"
  shows "fl_count l = Suc (unat (m_next l))"
proof -
  have "1 + m_next l \<noteq> 0"
    using assms by (auto simp: UINT32_MAX_def add_eq_0_iff)
  then show ?thesis
    by (simp add: fl_count_def unatSuc add.commute [of "m_next l"])
qed

text \<open>\<open>alloc\<close> gives the slots \<open>0 .. cap - 1\<close>, in this order.\<close>

lemma fl_alloc_ok:
  assumes "0 < cap"
  shows "fl_alloc True l cap =
      (0, \<lparr>m_cap = cap, m_next = cap - 1,
           m_idcs = Some (rev (map word_of_nat [0..<unat cap]))\<rparr>)"
proof -
  have "cap - 1 - word_of_nat i = word_of_nat (unat cap - 1 - i)" if "i < unat cap" for i
  proof -
    have "(word_of_nat (unat cap - 1 - i) :: u32) = word_of_nat (unat cap) - 1 - word_of_nat i"
      using that by (simp add: of_nat_diff)
    then show ?thesis by simp
  qed
  then have "map (\<lambda>i. cap - 1 - word_of_nat i) [0..<unat cap] = rev (map word_of_nat [0..<unat cap])"
    by (intro nth_equalityI) (simp_all add: rev_nth)
  then show ?thesis
    using assms by (simp add: fl_alloc_def)
qed

lemma fl_alloc_stack:
  assumes "0 < cap"
  shows "fl_inv (snd (fl_alloc True l cap)) \<and>
         fl_stack (snd (fl_alloc True l cap)) = map word_of_nat [0..<unat cap]"
  using assms by (simp add: fl_alloc_ok fl_inv_def fl_stack_def fl_count_def)

text \<open>\<open>next_slot\<close> pops.\<close>

lemma fl_next_slot_pop:
  assumes "fl_inv l" "fl_stack l = s # ss"
  obtains l' where "fl_next_slot l = Ret (s, l')" "fl_inv l'" "fl_stack l' = ss"
    "m_cap l' = m_cap l"
proof -
  from assms(1) obtain xs where xs: "m_idcs l = Some xs" "length xs = unat (m_cap l)"
    "0 < m_cap l" "fl_count l \<le> unat (m_cap l)" "fl_stack l = rev (take (fl_count l) xs)"
    by (rule fl_invE)
  have n: "m_next l \<noteq> UINT32_MAX"
    using assms fl_empty_iff by fastforce
  let ?n = "unat (m_next l)"
  have c: "fl_count l = Suc ?n"
    using n by (rule fl_count_pos)
  have lt: "?n < length xs"
    using xs c by simp
  let ?l = "l\<lparr>m_next := m_next l - 1, m_idcs := Some (xs[?n := UINT32_MAX])\<rparr>"
  have c': "fl_count ?l = ?n"
    by (simp add: fl_count_def)
  have "s # ss = rev (take (Suc ?n) xs)"
    using assms(2) xs c by simp
  then have "s = xs ! ?n" "ss = rev (take ?n xs)"
    using lt by (simp_all add: take_Suc_conv_app_nth)
  moreover have "fl_next_slot l = Ret (xs ! ?n, ?l)"
    using n xs lt by (simp add: fl_next_slot_def Let_def)
  moreover have "fl_inv ?l" "fl_stack ?l = rev (take ?n xs)"
    using xs lt c' by (simp_all add: fl_inv_def fl_stack_def)
  ultimately show thesis
    by (intro that [of ?l]) simp_all
qed

lemma fl_next_slot_empty:
  "fl_inv l \<Longrightarrow> fl_stack l = [] \<Longrightarrow> fl_next_slot l = Ret (UINT32_MAX, l)"
  using fl_empty_iff by (simp add: fl_next_slot_def)

text \<open>\<open>release\<close> pushes while a slot is outstanding. A pool of \<open>UINT32_MAX\<close> slots is
  excluded: there the guard \<open>m_next == m_cap\<close> also holds of the empty stack.\<close>

lemma fl_next_neq_cap:
  assumes "fl_inv l" "m_cap l \<noteq> UINT32_MAX"
  shows "m_next l \<noteq> m_cap l"
proof
  assume eq: "m_next l = m_cap l"
  then have "fl_count l = Suc (unat (m_cap l))"
    using assms(2) fl_count_pos [of l] by simp
  with assms(1) show False
    by (elim fl_invE) simp
qed

lemma fl_release_push:
  assumes "fl_inv l" "m_cap l \<noteq> UINT32_MAX" "length (fl_stack l) < unat (m_cap l)"
  obtains l' where "fl_release l s = Ret (0, l')" "fl_inv l'" "fl_stack l' = s # fl_stack l"
    "m_cap l' = m_cap l"
proof -
  from assms(1) obtain xs where xs: "m_idcs l = Some xs" "length xs = unat (m_cap l)"
    "0 < m_cap l" "fl_count l \<le> unat (m_cap l)" "fl_stack l = rev (take (fl_count l) xs)"
    by (rule fl_invE)
  let ?n = "fl_count l"
  have lt: "?n < length xs"
    using assms xs by simp
  let ?l = "l\<lparr>m_next := m_next l + 1, m_idcs := Some (xs[?n := s])\<rparr>"
  have "unat (m_next l + 1) = ?n"
    by (simp add: fl_count_def)
  then have "fl_release l s = Ret (0, ?l)"
    using xs lt fl_next_neq_cap [OF assms(1,2)] by (simp add: fl_release_def Let_def)
  moreover have c: "fl_count ?l = Suc ?n"
  proof -
    have "m_next ?l \<noteq> UINT32_MAX"
    proof
      assume "m_next ?l = UINT32_MAX"
      then have "?n = unat UINT32_MAX"
        by (simp add: fl_count_def)
      moreover have "unat (m_cap l) \<le> unat UINT32_MAX"
        by (simp add: UINT32_MAX_def flip: word_le_nat_alt)
      ultimately show False
        using lt xs by simp
    qed
    then show ?thesis
      using fl_count_pos [of ?l] by (simp add: fl_count_def)
  qed
  moreover have "fl_inv ?l"
    using xs lt c by (simp add: fl_inv_def)
  moreover have "fl_stack ?l = s # fl_stack l"
    using xs lt c by (simp add: fl_stack_def take_Suc_conv_app_nth)
  ultimately show thesis
    by (intro that [of ?l]) simp_all
qed

text \<open>The guard of \<open>release\<close> is one too late: on a list with every slot free it writes one
  element past the array.\<close>

lemma fl_release_full:
  assumes "fl_inv l" "m_cap l \<noteq> UINT32_MAX" "length (fl_stack l) = unat (m_cap l)"
  shows "fl_release l s = Undef"
proof -
  from assms(1) obtain xs where xs: "m_idcs l = Some xs" "length xs = unat (m_cap l)"
    "fl_count l \<le> unat (m_cap l)"
    by (rule fl_invE)
  have "unat (m_next l + 1) = length xs"
    using assms xs fl_inv_length [OF assms(1)] by (simp add: fl_count_def)
  then show ?thesis
    using xs fl_next_neq_cap [OF assms(1,2)] by (simp add: fl_release_def Let_def)
qed

section \<open>The contract of a slot pool\<close>

text \<open>A client that takes slots and gives back only slots it holds. The pool promises a
  stack of free slots; the client then never holds a slot twice.\<close>

locale slot_pool =
  fixes acquire :: "'p \<Rightarrow> (u32 \<times> 'p) outcome"
    and release :: "'p \<Rightarrow> u32 \<Rightarrow> (u32 \<times> 'p) outcome"
    and stack :: "'p \<Rightarrow> u32 list"
    and cap :: "'p \<Rightarrow> nat"
    and inv :: "'p \<Rightarrow> bool"
    and none :: u32
  assumes acquire_pop: "inv p \<Longrightarrow> stack p = s # ss \<Longrightarrow>
      \<exists>p'. acquire p = Ret (s, p') \<and> inv p' \<and> stack p' = ss \<and> cap p' = cap p"
    and acquire_empty: "inv p \<Longrightarrow> stack p = [] \<Longrightarrow> acquire p = Ret (none, p)"
    and release_push: "inv p \<Longrightarrow> length (stack p) < cap p \<Longrightarrow>
      \<exists>p'. release p s = Ret (0, p') \<and> inv p' \<and> stack p' = s # stack p \<and> cap p' = cap p"
begin

text \<open>Free and held slots together are the slots \<open>0 .. cap - 1\<close>, each once.\<close>

definition shared :: "'p \<Rightarrow> u32 list \<Rightarrow> bool" where
  "shared p held \<longleftrightarrow> inv p \<and> distinct (stack p @ held) \<and>
     set (stack p @ held) = word_of_nat ` {..<cap p} \<and> length (stack p) + length held = cap p"

lemma shared_acquire:
  assumes "shared p held"
  shows "if length held = cap p then acquire p = Ret (none, p)
         else \<exists>s p'. acquire p = Ret (s, p') \<and> s \<notin> set held \<and> s \<in> set (stack p) \<and>
                shared p' (s # held) \<and> cap p' = cap p"
proof (cases "stack p")
  case Nil
  then show ?thesis
    using assms acquire_empty by (simp add: shared_def)
next
  case (Cons s ss)
  then obtain p' where "acquire p = Ret (s, p')" "inv p'" "stack p' = ss" "cap p' = cap p"
    using assms acquire_pop unfolding shared_def by blast
  with Cons assms show ?thesis
    by (auto simp: shared_def)
qed

lemma shared_release:
  assumes "shared p held" "s \<in> set held"
  shows "\<exists>p'. release p s = Ret (0, p') \<and> shared p' (remove1 s held) \<and> cap p' = cap p"
proof -
  obtain n where held: "length held = Suc n"
    using assms(2) by (cases held) auto
  then have "length (stack p) < cap p"
    using assms(1) unfolding shared_def by linarith
  then obtain p' where p': "release p s = Ret (0, p')" "inv p'" "stack p' = s # stack p"
    "cap p' = cap p"
    using assms(1) release_push unfolding shared_def by blast
  have "length (remove1 s held) = length held - 1"
    using assms(2) by (simp add: length_remove1)
  moreover have "set (remove1 s held) = set held - {s}"
    using assms(1) by (simp add: shared_def set_remove1_eq)
  ultimately have "shared p' (remove1 s held)"
    using p' assms held unfolding shared_def by auto
  with p' show ?thesis
    by blast
qed

end

definition fl_usable :: "free_list \<Rightarrow> bool" where
  "fl_usable l \<longleftrightarrow> fl_inv l \<and> m_cap l \<noteq> UINT32_MAX"

interpretation fl: slot_pool fl_next_slot fl_release fl_stack "\<lambda>l. unat (m_cap l)" fl_usable UINT32_MAX
proof unfold_locales
  fix l s ss
  assume "fl_usable l" "fl_stack l = s # ss"
  then show "\<exists>l'. fl_next_slot l = Ret (s, l') \<and> fl_usable l' \<and> fl_stack l' = ss \<and>
      unat (m_cap l') = unat (m_cap l)"
    unfolding fl_usable_def by (metis fl_next_slot_pop)
next
  fix l
  assume "fl_usable l" "fl_stack l = []"
  then show "fl_next_slot l = Ret (UINT32_MAX, l)"
    by (simp add: fl_usable_def fl_next_slot_empty)
next
  fix l s
  assume "fl_usable l" "length (fl_stack l) < unat (m_cap l)"
  then show "\<exists>l'. fl_release l s = Ret (0, l') \<and> fl_usable l' \<and> fl_stack l' = s # fl_stack l \<and>
      unat (m_cap l') = unat (m_cap l)"
    unfolding fl_usable_def by (metis fl_release_push)
qed

section \<open>Runs of a client\<close>

text \<open>A client starts from a fresh pool, takes slots, and releases slots it holds.\<close>

inductive fl_run :: "u32 \<Rightarrow> free_list \<Rightarrow> u32 list \<Rightarrow> bool" for cap :: u32 where
  start: "fl_alloc True l cap = (0, l') \<Longrightarrow> fl_run cap l' []"
| take: "fl_run cap l held \<Longrightarrow> fl_next_slot l = Ret (s, l') \<Longrightarrow> s \<noteq> UINT32_MAX \<Longrightarrow>
    fl_run cap l' (s # held)"
| give: "fl_run cap l held \<Longrightarrow> s \<in> set held \<Longrightarrow> fl_release l s = Ret (0, l') \<Longrightarrow>
    fl_run cap l' (remove1 s held)"


lemma fl_run_shared:
  assumes "fl_run cap l held" "0 < cap" "cap \<noteq> UINT32_MAX"
  shows "fl.shared l held \<and> m_cap l = cap"
  using assms
proof (induction rule: fl_run.induct)
  case (start l0 l')
  then have l': "m_cap l' = cap" "fl_inv l'" "fl_stack l' = map word_of_nat [0..<unat cap]"
    using fl_alloc_stack [of cap l0] by (auto simp: fl_alloc_ok)
  have "inj_on (word_of_nat :: nat \<Rightarrow> u32) {0..<unat cap}"
  proof (rule inj_onI)
    fix i j
    assume *: "i \<in> {0..<unat cap}" "j \<in> {0..<unat cap}" "(word_of_nat i :: u32) = word_of_nat j"
    moreover have "unat cap < 2 ^ 32"
      using unsigned_less [of cap, where ?'a = nat] by simp
    ultimately have "i < 2 ^ 32" "j < 2 ^ 32"
      by auto
    with arg_cong [OF *(3), of unat] show "i = j"
      by (simp add: unat_of_nat)
  qed
  moreover have "fl_usable l'"
    using l' start by (simp add: fl_usable_def)
  ultimately show ?case
    using l' by (simp add: fl.shared_def distinct_map atLeast0LessThan)
next
  case (take l held s l')
  then have "fl.shared l held" "m_cap l = cap"
    by auto
  with fl.shared_acquire [of l held] take.hyps show ?case
    by (auto split: if_splits dest: iffD2 [OF word_unat_eq_iff])
next
  case (give l held s l')
  then have "fl.shared l held" "m_cap l = cap"
    by auto
  with fl.shared_release [of l held s] give.hyps show ?case
    by (auto dest: iffD2 [OF word_unat_eq_iff])
qed

text \<open>C23. A client of a \<open>FreeList\<close> that releases only slots it holds never holds a slot
  twice, holds only slots below the capacity, is refused exactly when it holds them all,
  and otherwise gets a slot it does not hold; \<open>size()\<close> is the number of slots it holds.\<close>

theorem free_list_exclusive:
  assumes "fl_run cap l held" "0 < cap" "cap \<noteq> UINT32_MAX"
  shows "distinct held \<and> (\<forall>s \<in> set held. s < cap) \<and> unat (fl_size l) = length held \<and>
    (if length held = unat cap then fl_next_slot l = Ret (UINT32_MAX, l)
     else \<exists>s l'. fl_next_slot l = Ret (s, l') \<and> s < cap \<and> s \<notin> set held \<and> fl_run cap l' (s # held))"
proof -
  have sh: "fl.shared l held" "m_cap l = cap"
    using fl_run_shared [OF assms] by auto
  have "fl_run cap l held"
    by (rule assms(1))
  have below: "s < cap" if "s \<in> set (fl_stack l @ held)" for s
  proof -
    from that obtain i where i: "i < unat cap" "s = word_of_nat i"
      using sh by (auto simp: fl.shared_def)
    moreover have "unat (word_of_nat i :: u32) \<le> i"
      by (simp add: unat_of_nat)
    ultimately show ?thesis
      by (simp add: word_less_nat_alt)
  qed
  have inv: "fl_inv l" "length (fl_stack l) + length held = unat cap"
    using sh by (simp_all add: fl.shared_def fl_usable_def)
  have "fl_size l = cap - (m_next l + 1)"
    using sh by (simp add: fl_size_def)
  moreover have "unat (m_next l + 1) = length (fl_stack l)"
    using fl_inv_length [OF inv(1)] by (simp add: fl_count_def)
  ultimately have size: "unat (fl_size l) = length held"
    using inv(2) by (simp add: unat_sub word_le_nat_alt)
  have next_slot: "if length held = unat cap then fl_next_slot l = Ret (UINT32_MAX, l)
     else \<exists>s l'. fl_next_slot l = Ret (s, l') \<and> s < cap \<and> s \<notin> set held \<and> fl_run cap l' (s # held)"
  proof (cases "length held = unat cap")
    case True
    then show ?thesis
      using fl.shared_acquire [OF sh(1)] sh(2) by simp
  next
    case False
    then obtain s l' where s: "fl_next_slot l = Ret (s, l')" "s \<notin> set held" "s \<in> set (fl_stack l)"
      using fl.shared_acquire [OF sh(1)] sh(2) by auto
    have lt: "s < cap"
      using below s(3) by simp
    then have "s \<noteq> UINT32_MAX"
      using assms(3) unfolding UINT32_MAX_def by (metis word_n1_ge not_less)
    with s lt assms(1) show ?thesis
      using False by (auto intro: fl_run.take)
  qed
  show ?thesis
    using sh(1) below size next_slot by (auto simp: fl.shared_def)
qed

theorem free_list_exclusive_witness:
  "\<exists>l. fl_run 2 l [0] \<and> distinct [0::u32] \<and> (\<exists>l'. fl_next_slot l = Ret (1, l'))"
proof -
  let ?l0 = "snd (fl_alloc True fl_default 2)"
  let ?l1 = "\<lparr>m_cap = 2, m_next = 0, m_idcs = Some [1, UINT32_MAX]\<rparr>"
  have a: "fl_alloc True fl_default 2 = (0, ?l0)"
    by (simp add: fl_alloc_def)
  have "fl_next_slot ?l0 = Ret (0, ?l1)"
    by (simp add: fl_alloc_def fl_next_slot_def UINT32_MAX_def upt_conv_Cons Let_def)
  then have run: "fl_run 2 ?l1 [0]"
    by (intro fl_run.take [OF fl_run.start]) (auto simp: fl_alloc_def UINT32_MAX_def)
  have "distinct [0::u32] \<and> (\<forall>s \<in> set [0]. s < (2::u32)) \<and> unat (fl_size ?l1) = length [0::u32] \<and>
    (if length [0::u32] = unat (2::u32) then fl_next_slot ?l1 = Ret (UINT32_MAX, ?l1)
     else \<exists>s l'. fl_next_slot ?l1 = Ret (s, l') \<and> s < 2 \<and> s \<notin> set [0] \<and> fl_run 2 l' (s # [0]))"
    by (rule free_list_exclusive [OF run]) (simp_all add: UINT32_MAX_def)
  moreover have "fl_next_slot ?l1 = Ret (1, ?l1\<lparr>m_next := UINT32_MAX, m_idcs := Some [UINT32_MAX, UINT32_MAX]\<rparr>)"
    by (simp add: fl_next_slot_def UINT32_MAX_def)
  ultimately show ?thesis
    using run by blast
qed

text \<open>A release into a list with every slot free (one release too many) is not refused:
  it stores one element past the end of the array.\<close>

theorem free_list_release_overrun:
  assumes "0 < cap" "cap \<noteq> UINT32_MAX"
  shows "fl_release (snd (fl_alloc True l cap)) s = Undef"
  using fl_alloc_stack [OF assms(1), of l] assms
  by (intro fl_release_full) (simp_all add: fl_alloc_ok)

theorem free_list_release_overrun_witness:
  "fl_release (snd (fl_alloc True fl_default 4)) 3 = Undef"
  by (rule free_list_release_overrun) (simp_all add: UINT32_MAX_def)

end
