(* ===== verification/Kdb_Types.thy ===== *)
theory Kdb_Types
  imports Mg_Prelude
begin

text \<open>
  The type system of \<^verbatim>\<open>ipc++/include/MgKdbType.H\<close> and the constructors, accessors and
  setters of \<^verbatim>\<open>ipc++/src/KdbType.C\<close>. A class derived from \<open>KdbBase\<close> is a constructor of
  \<open>kobj\<close>; the sixteen integral atom classes form \<open>katom\<close> and the sixteen integral vector
  classes \<open>kvec\<close>, since \<open>KdbType.C\<close> reads and writes each of the two groups through one
  template. A \<open>std::vector\<close> member is its elements with the capacity, which the readers use
  as the number of elements still to come. A \<open>std::unique_ptr\<close> that may be null is an option.
  \<open>float\<close> and \<open>double\<close> members are kept, as in the code, as the integer with their bits;
  a GUID's sixteen bytes are a 128-bit word, lowest byte first.
\<close>

section \<open>Sizes and enumerations\<close>

abbreviation SZ_BYTE :: nat where "SZ_BYTE \<equiv> 1"
abbreviation SZ_SHORT :: nat where "SZ_SHORT \<equiv> 2"
abbreviation SZ_INT :: nat where "SZ_INT \<equiv> 4"
abbreviation SZ_LONG :: nat where "SZ_LONG \<equiv> 8"
abbreviation SZ_GUID :: nat where "SZ_GUID \<equiv> 16"
abbreviation SZ_VEC_META :: nat where "SZ_VEC_META \<equiv> 5"
abbreviation SZ_VEC_HDR :: nat where "SZ_VEC_HDR \<equiv> 6"
abbreviation SZ_MSG_HDR :: nat where "SZ_MSG_HDR \<equiv> 8"
abbreviation SZ_JNL_HDR :: nat where "SZ_JNL_HDR \<equiv> 8"

datatype KdbType =
    EXCEPTION | TIME_ATOM | SECOND_ATOM | MINUTE_ATOM | TIMESPAN_ATOM | DATETIME_ATOM
  | DATE_ATOM | MONTH_ATOM | TIMESTAMP_ATOM | SYMBOL_ATOM | CHAR_ATOM | FLOAT_ATOM
  | REAL_ATOM | LONG_ATOM | INT_ATOM | SHORT_ATOM | BYTE_ATOM | GUID_ATOM | BOOL_ATOM | LIST
  | BOOL_VECTOR | GUID_VECTOR | BYTE_VECTOR | SHORT_VECTOR | INT_VECTOR | LONG_VECTOR
  | REAL_VECTOR | FLOAT_VECTOR | CHAR_VECTOR | SYMBOL_VECTOR | TIMESTAMP_VECTOR
  | MONTH_VECTOR | DATE_VECTOR | DATETIME_VECTOR | TIMESPAN_VECTOR | MINUTE_VECTOR
  | SECOND_VECTOR | TIME_VECTOR | TABLE | DICT | FUNCTION | UNARY_PRIMITIVE
  | BINARY_PRIMITIVE | TERNARY_PRIMITIVE | PROJECTION | STEP_DICT | UNSET_TYPE

fun kdb_type_code :: "KdbType \<Rightarrow> int" where
  "kdb_type_code EXCEPTION = -128"
| "kdb_type_code TIME_ATOM = -19"
| "kdb_type_code SECOND_ATOM = -18"
| "kdb_type_code MINUTE_ATOM = -17"
| "kdb_type_code TIMESPAN_ATOM = -16"
| "kdb_type_code DATETIME_ATOM = -15"
| "kdb_type_code DATE_ATOM = -14"
| "kdb_type_code MONTH_ATOM = -13"
| "kdb_type_code TIMESTAMP_ATOM = -12"
| "kdb_type_code SYMBOL_ATOM = -11"
| "kdb_type_code CHAR_ATOM = -10"
| "kdb_type_code FLOAT_ATOM = -9"
| "kdb_type_code REAL_ATOM = -8"
| "kdb_type_code LONG_ATOM = -7"
| "kdb_type_code INT_ATOM = -6"
| "kdb_type_code SHORT_ATOM = -5"
| "kdb_type_code BYTE_ATOM = -4"
| "kdb_type_code GUID_ATOM = -2"
| "kdb_type_code BOOL_ATOM = -1"
| "kdb_type_code LIST = 0"
| "kdb_type_code BOOL_VECTOR = 1"
| "kdb_type_code GUID_VECTOR = 2"
| "kdb_type_code BYTE_VECTOR = 4"
| "kdb_type_code SHORT_VECTOR = 5"
| "kdb_type_code INT_VECTOR = 6"
| "kdb_type_code LONG_VECTOR = 7"
| "kdb_type_code REAL_VECTOR = 8"
| "kdb_type_code FLOAT_VECTOR = 9"
| "kdb_type_code CHAR_VECTOR = 10"
| "kdb_type_code SYMBOL_VECTOR = 11"
| "kdb_type_code TIMESTAMP_VECTOR = 12"
| "kdb_type_code MONTH_VECTOR = 13"
| "kdb_type_code DATE_VECTOR = 14"
| "kdb_type_code DATETIME_VECTOR = 15"
| "kdb_type_code TIMESPAN_VECTOR = 16"
| "kdb_type_code MINUTE_VECTOR = 17"
| "kdb_type_code SECOND_VECTOR = 18"
| "kdb_type_code TIME_VECTOR = 19"
| "kdb_type_code TABLE = 98"
| "kdb_type_code DICT = 99"
| "kdb_type_code FUNCTION = 100"
| "kdb_type_code UNARY_PRIMITIVE = 101"
| "kdb_type_code BINARY_PRIMITIVE = 102"
| "kdb_type_code TERNARY_PRIMITIVE = 103"
| "kdb_type_code PROJECTION = 104"
| "kdb_type_code STEP_DICT = 127"
| "kdb_type_code UNSET_TYPE = 256"

definition all_kdb_types :: "KdbType list" where
  "all_kdb_types =
    [EXCEPTION, TIME_ATOM, SECOND_ATOM, MINUTE_ATOM, TIMESPAN_ATOM, DATETIME_ATOM, DATE_ATOM
     , MONTH_ATOM, TIMESTAMP_ATOM, SYMBOL_ATOM, CHAR_ATOM, FLOAT_ATOM, REAL_ATOM, LONG_ATOM
     , INT_ATOM, SHORT_ATOM, BYTE_ATOM, GUID_ATOM, BOOL_ATOM, LIST, BOOL_VECTOR, GUID_VECTOR
     , BYTE_VECTOR, SHORT_VECTOR, INT_VECTOR, LONG_VECTOR, REAL_VECTOR, FLOAT_VECTOR
     , CHAR_VECTOR, SYMBOL_VECTOR, TIMESTAMP_VECTOR, MONTH_VECTOR, DATE_VECTOR
     , DATETIME_VECTOR, TIMESPAN_VECTOR, MINUTE_VECTOR, SECOND_VECTOR, TIME_VECTOR, TABLE
     , DICT, FUNCTION, UNARY_PRIMITIVE, BINARY_PRIMITIVE, TERNARY_PRIMITIVE, PROJECTION
     , STEP_DICT, UNSET_TYPE]"

text \<open>\<open>static_cast<int8_t>(typ)\<close> and the cast back, which names no type when no enumerator
  has the value.\<close>

definition i8typ :: "KdbType \<Rightarrow> u8" where
  "i8typ t = word_of_int (kdb_type_code t)"

definition kdb_type_of_i8 :: "u8 \<Rightarrow> KdbType option" where
  "kdb_type_of_i8 b = map_of (map (\<lambda>t. (kdb_type_code t, t)) all_kdb_types) (sint b)"

text \<open>\<open>KdbUtil::isAtom\<close> and \<open>KdbUtil::isVec\<close> on a type byte.\<close>

definition isAtom :: "u8 \<Rightarrow> bool" where
  "isAtom typ \<longleftrightarrow> kdb_type_code TIME_ATOM \<le> sint typ \<and> sint typ < kdb_type_code LIST"

definition isVec :: "u8 \<Rightarrow> bool" where
  "isVec typ \<longleftrightarrow> kdb_type_code LIST < sint typ \<and> sint typ \<le> kdb_type_code TIME_VECTOR"

text \<open>An attribute is the int8 read from the wire, cast to the enumeration.\<close>

type_synonym KdbAttr = u8

abbreviation ATTR_NONE :: KdbAttr where "ATTR_NONE \<equiv> 0"
abbreviation ATTR_SORTED :: KdbAttr where "ATTR_SORTED \<equiv> 1"
abbreviation ATTR_UNIQUE :: KdbAttr where "ATTR_UNIQUE \<equiv> 2"
abbreviation ATTR_PARTED :: KdbAttr where "ATTR_PARTED \<equiv> 3"
abbreviation ATTR_GROUPED :: KdbAttr where "ATTR_GROUPED \<equiv> 4"

datatype KdbMsgType = ASYNC | SYNC | RESPONSE

fun msg_type_i8 :: "KdbMsgType \<Rightarrow> u8" where
  "msg_type_i8 ASYNC = 0"
| "msg_type_i8 SYNC = 1"
| "msg_type_i8 RESPONSE = 2"

datatype ReadResult =
  RD_UNSET | RD_OK | RD_INCOMPLETE | RD_ERR_IPC | RD_ERR_LOGIC | RD_ERR_ALLOC

datatype WriteResult = WR_UNSET | WR_OK | WR_INCOMPLETE

text \<open>The enumerator of \<open>KdbUnary\<close> that stands for an elided argument.\<close>

definition ELIDED_VALUE :: u8 where
  "ELIDED_VALUE = 0xff"

section \<open>std::vector\<close>

text \<open>The elements with the capacity. \<open>reserve\<close> on an empty vector, or construction at a
  size followed by \<open>resize(0)\<close>, gives exactly the requested capacity, and an insertion that
  does not fit grows it by the larger of size and insertion (libstdc++).\<close>

record 'a vec =
  v_cap :: nat
  v_vals :: "'a list"

definition vec_reserved :: "nat \<Rightarrow> 'a vec" where
  "vec_reserved cap = \<lparr>v_cap = cap, v_vals = []\<rparr>"

definition vec_of :: "'a list \<Rightarrow> 'a vec" where
  "vec_of xs = \<lparr>v_cap = length xs, v_vals = xs\<rparr>"

definition vec_append :: "'a vec \<Rightarrow> 'a list \<Rightarrow> 'a vec" where
  "vec_append v ys =
     (let n = length (v_vals v); k = length ys
      in \<lparr>v_cap = (if n + k \<le> v_cap v then v_cap v else n + max n k), v_vals = v_vals v @ ys\<rparr>)"

text \<open>\<open>_vec_set_value\<close>, and \<open>KdbGuidVector::setGuid\<close>, which is the same function written out.\<close>

definition vec_set_value :: "'a vec \<Rightarrow> nat \<Rightarrow> 'a \<Rightarrow> 'a vec outcome" where
  "vec_set_value v idx val =
     (if idx > length (v_vals v) then Throw (RuntimeError ''idx.oob'')
      else if idx = length (v_vals v) then Ret (vec_append v [val])
      else Ret (v\<lparr>v_vals := (v_vals v)[idx := val]\<rparr>))"

definition vec_wire_sz :: "'a::len word vec \<Rightarrow> nat" where
  "vec_wire_sz v = SZ_VEC_HDR + length (v_vals v) * sizeof TYPE('a)"

section \<open>Integral atoms\<close>

datatype katom =
    KdbTimeAtom u32
  | KdbSecondAtom u32
  | KdbMinuteAtom u32
  | KdbTimespanAtom u64
  | KdbDateAtom u32
  | KdbMonthAtom u32
  | KdbTimestampAtom u64
  | KdbCharAtom u8
  | KdbFloatAtom u64
  | KdbRealAtom u32
  | KdbLongAtom u64
  | KdbIntAtom u32
  | KdbShortAtom u16
  | KdbGuidAtom u128
  | KdbByteAtom u8
  | KdbBoolAtom u8

fun atom_typ :: "katom \<Rightarrow> KdbType" where
  "atom_typ (KdbTimeAtom x) = TIME_ATOM"
| "atom_typ (KdbSecondAtom x) = SECOND_ATOM"
| "atom_typ (KdbMinuteAtom x) = MINUTE_ATOM"
| "atom_typ (KdbTimespanAtom x) = TIMESPAN_ATOM"
| "atom_typ (KdbDateAtom x) = DATE_ATOM"
| "atom_typ (KdbMonthAtom x) = MONTH_ATOM"
| "atom_typ (KdbTimestampAtom x) = TIMESTAMP_ATOM"
| "atom_typ (KdbCharAtom x) = CHAR_ATOM"
| "atom_typ (KdbFloatAtom x) = FLOAT_ATOM"
| "atom_typ (KdbRealAtom x) = REAL_ATOM"
| "atom_typ (KdbLongAtom x) = LONG_ATOM"
| "atom_typ (KdbIntAtom x) = INT_ATOM"
| "atom_typ (KdbShortAtom x) = SHORT_ATOM"
| "atom_typ (KdbGuidAtom x) = GUID_ATOM"
| "atom_typ (KdbByteAtom x) = BYTE_ATOM"
| "atom_typ (KdbBoolAtom x) = BOOL_ATOM"

text \<open>The memory image of \<open>m_val\<close>, and the store of an image into it.\<close>

fun atom_mem :: "katom \<Rightarrow> bytes" where
  "atom_mem (KdbTimeAtom x) = to_mem x"
| "atom_mem (KdbSecondAtom x) = to_mem x"
| "atom_mem (KdbMinuteAtom x) = to_mem x"
| "atom_mem (KdbTimespanAtom x) = to_mem x"
| "atom_mem (KdbDateAtom x) = to_mem x"
| "atom_mem (KdbMonthAtom x) = to_mem x"
| "atom_mem (KdbTimestampAtom x) = to_mem x"
| "atom_mem (KdbCharAtom x) = to_mem x"
| "atom_mem (KdbFloatAtom x) = to_mem x"
| "atom_mem (KdbRealAtom x) = to_mem x"
| "atom_mem (KdbLongAtom x) = to_mem x"
| "atom_mem (KdbIntAtom x) = to_mem x"
| "atom_mem (KdbShortAtom x) = to_mem x"
| "atom_mem (KdbGuidAtom x) = to_mem x"
| "atom_mem (KdbByteAtom x) = to_mem x"
| "atom_mem (KdbBoolAtom x) = to_mem x"

fun atom_store :: "katom \<Rightarrow> bytes \<Rightarrow> katom" where
  "atom_store (KdbTimeAtom x) bs = KdbTimeAtom (of_mem bs)"
| "atom_store (KdbSecondAtom x) bs = KdbSecondAtom (of_mem bs)"
| "atom_store (KdbMinuteAtom x) bs = KdbMinuteAtom (of_mem bs)"
| "atom_store (KdbTimespanAtom x) bs = KdbTimespanAtom (of_mem bs)"
| "atom_store (KdbDateAtom x) bs = KdbDateAtom (of_mem bs)"
| "atom_store (KdbMonthAtom x) bs = KdbMonthAtom (of_mem bs)"
| "atom_store (KdbTimestampAtom x) bs = KdbTimestampAtom (of_mem bs)"
| "atom_store (KdbCharAtom x) bs = KdbCharAtom (of_mem bs)"
| "atom_store (KdbFloatAtom x) bs = KdbFloatAtom (of_mem bs)"
| "atom_store (KdbRealAtom x) bs = KdbRealAtom (of_mem bs)"
| "atom_store (KdbLongAtom x) bs = KdbLongAtom (of_mem bs)"
| "atom_store (KdbIntAtom x) bs = KdbIntAtom (of_mem bs)"
| "atom_store (KdbShortAtom x) bs = KdbShortAtom (of_mem bs)"
| "atom_store (KdbGuidAtom x) bs = KdbGuidAtom (of_mem bs)"
| "atom_store (KdbByteAtom x) bs = KdbByteAtom (of_mem bs)"
| "atom_store (KdbBoolAtom x) bs = KdbBoolAtom (of_mem bs)"

text \<open>The default constructors.\<close>

fun new_atom :: "KdbType \<Rightarrow> katom option" where
  "new_atom TIME_ATOM = Some (KdbTimeAtom 0)"
| "new_atom SECOND_ATOM = Some (KdbSecondAtom 0)"
| "new_atom MINUTE_ATOM = Some (KdbMinuteAtom 0)"
| "new_atom TIMESPAN_ATOM = Some (KdbTimespanAtom 0)"
| "new_atom DATE_ATOM = Some (KdbDateAtom 0)"
| "new_atom MONTH_ATOM = Some (KdbMonthAtom 0)"
| "new_atom TIMESTAMP_ATOM = Some (KdbTimestampAtom 0)"
| "new_atom CHAR_ATOM = Some (KdbCharAtom 0)"
| "new_atom FLOAT_ATOM = Some (KdbFloatAtom 0)"
| "new_atom REAL_ATOM = Some (KdbRealAtom 0)"
| "new_atom LONG_ATOM = Some (KdbLongAtom 0)"
| "new_atom INT_ATOM = Some (KdbIntAtom 0)"
| "new_atom SHORT_ATOM = Some (KdbShortAtom 0)"
| "new_atom GUID_ATOM = Some (KdbGuidAtom 0)"
| "new_atom BYTE_ATOM = Some (KdbByteAtom 0)"
| "new_atom BOOL_ATOM = Some (KdbBoolAtom 0)"
| "new_atom _ = None"

section \<open>Integral vectors\<close>

datatype kvec =
    KdbBoolVector KdbAttr "u8 vec"
  | KdbGuidVector KdbAttr "u128 vec"
  | KdbByteVector KdbAttr "u8 vec"
  | KdbShortVector KdbAttr "u16 vec"
  | KdbIntVector KdbAttr "u32 vec"
  | KdbLongVector KdbAttr "u64 vec"
  | KdbRealVector KdbAttr "u32 vec"
  | KdbFloatVector KdbAttr "u64 vec"
  | KdbCharVector KdbAttr "u8 vec"
  | KdbTimestampVector KdbAttr "u64 vec"
  | KdbMonthVector KdbAttr "u32 vec"
  | KdbDateVector KdbAttr "u32 vec"
  | KdbTimespanVector KdbAttr "u64 vec"
  | KdbMinuteVector KdbAttr "u32 vec"
  | KdbSecondVector KdbAttr "u32 vec"
  | KdbTimeVector KdbAttr "u32 vec"

fun vec_typ :: "kvec \<Rightarrow> KdbType" where
  "vec_typ (KdbBoolVector a v) = BOOL_VECTOR"
| "vec_typ (KdbGuidVector a v) = GUID_VECTOR"
| "vec_typ (KdbByteVector a v) = BYTE_VECTOR"
| "vec_typ (KdbShortVector a v) = SHORT_VECTOR"
| "vec_typ (KdbIntVector a v) = INT_VECTOR"
| "vec_typ (KdbLongVector a v) = LONG_VECTOR"
| "vec_typ (KdbRealVector a v) = REAL_VECTOR"
| "vec_typ (KdbFloatVector a v) = FLOAT_VECTOR"
| "vec_typ (KdbCharVector a v) = CHAR_VECTOR"
| "vec_typ (KdbTimestampVector a v) = TIMESTAMP_VECTOR"
| "vec_typ (KdbMonthVector a v) = MONTH_VECTOR"
| "vec_typ (KdbDateVector a v) = DATE_VECTOR"
| "vec_typ (KdbTimespanVector a v) = TIMESPAN_VECTOR"
| "vec_typ (KdbMinuteVector a v) = MINUTE_VECTOR"
| "vec_typ (KdbSecondVector a v) = SECOND_VECTOR"
| "vec_typ (KdbTimeVector a v) = TIME_VECTOR"

fun vec_attr :: "kvec \<Rightarrow> KdbAttr" where
  "vec_attr (KdbBoolVector a v) = a"
| "vec_attr (KdbGuidVector a v) = a"
| "vec_attr (KdbByteVector a v) = a"
| "vec_attr (KdbShortVector a v) = a"
| "vec_attr (KdbIntVector a v) = a"
| "vec_attr (KdbLongVector a v) = a"
| "vec_attr (KdbRealVector a v) = a"
| "vec_attr (KdbFloatVector a v) = a"
| "vec_attr (KdbCharVector a v) = a"
| "vec_attr (KdbTimestampVector a v) = a"
| "vec_attr (KdbMonthVector a v) = a"
| "vec_attr (KdbDateVector a v) = a"
| "vec_attr (KdbTimespanVector a v) = a"
| "vec_attr (KdbMinuteVector a v) = a"
| "vec_attr (KdbSecondVector a v) = a"
| "vec_attr (KdbTimeVector a v) = a"

fun kvec_count :: "kvec \<Rightarrow> nat" where
  "kvec_count (KdbBoolVector a v) = length (v_vals v)"
| "kvec_count (KdbGuidVector a v) = length (v_vals v)"
| "kvec_count (KdbByteVector a v) = length (v_vals v)"
| "kvec_count (KdbShortVector a v) = length (v_vals v)"
| "kvec_count (KdbIntVector a v) = length (v_vals v)"
| "kvec_count (KdbLongVector a v) = length (v_vals v)"
| "kvec_count (KdbRealVector a v) = length (v_vals v)"
| "kvec_count (KdbFloatVector a v) = length (v_vals v)"
| "kvec_count (KdbCharVector a v) = length (v_vals v)"
| "kvec_count (KdbTimestampVector a v) = length (v_vals v)"
| "kvec_count (KdbMonthVector a v) = length (v_vals v)"
| "kvec_count (KdbDateVector a v) = length (v_vals v)"
| "kvec_count (KdbTimespanVector a v) = length (v_vals v)"
| "kvec_count (KdbMinuteVector a v) = length (v_vals v)"
| "kvec_count (KdbSecondVector a v) = length (v_vals v)"
| "kvec_count (KdbTimeVector a v) = length (v_vals v)"

fun kvec_cap :: "kvec \<Rightarrow> nat" where
  "kvec_cap (KdbBoolVector a v) = v_cap v"
| "kvec_cap (KdbGuidVector a v) = v_cap v"
| "kvec_cap (KdbByteVector a v) = v_cap v"
| "kvec_cap (KdbShortVector a v) = v_cap v"
| "kvec_cap (KdbIntVector a v) = v_cap v"
| "kvec_cap (KdbLongVector a v) = v_cap v"
| "kvec_cap (KdbRealVector a v) = v_cap v"
| "kvec_cap (KdbFloatVector a v) = v_cap v"
| "kvec_cap (KdbCharVector a v) = v_cap v"
| "kvec_cap (KdbTimestampVector a v) = v_cap v"
| "kvec_cap (KdbMonthVector a v) = v_cap v"
| "kvec_cap (KdbDateVector a v) = v_cap v"
| "kvec_cap (KdbTimespanVector a v) = v_cap v"
| "kvec_cap (KdbMinuteVector a v) = v_cap v"
| "kvec_cap (KdbSecondVector a v) = v_cap v"
| "kvec_cap (KdbTimeVector a v) = v_cap v"

fun kvec_width :: "kvec \<Rightarrow> nat" where
  "kvec_width (KdbBoolVector a v) = sizeof TYPE(8)"
| "kvec_width (KdbGuidVector a v) = sizeof TYPE(128)"
| "kvec_width (KdbByteVector a v) = sizeof TYPE(8)"
| "kvec_width (KdbShortVector a v) = sizeof TYPE(16)"
| "kvec_width (KdbIntVector a v) = sizeof TYPE(32)"
| "kvec_width (KdbLongVector a v) = sizeof TYPE(64)"
| "kvec_width (KdbRealVector a v) = sizeof TYPE(32)"
| "kvec_width (KdbFloatVector a v) = sizeof TYPE(64)"
| "kvec_width (KdbCharVector a v) = sizeof TYPE(8)"
| "kvec_width (KdbTimestampVector a v) = sizeof TYPE(64)"
| "kvec_width (KdbMonthVector a v) = sizeof TYPE(32)"
| "kvec_width (KdbDateVector a v) = sizeof TYPE(32)"
| "kvec_width (KdbTimespanVector a v) = sizeof TYPE(64)"
| "kvec_width (KdbMinuteVector a v) = sizeof TYPE(32)"
| "kvec_width (KdbSecondVector a v) = sizeof TYPE(32)"
| "kvec_width (KdbTimeVector a v) = sizeof TYPE(32)"

fun kvec_mem :: "kvec \<Rightarrow> bytes" where
  "kvec_mem (KdbBoolVector a v) = words_mem (v_vals v)"
| "kvec_mem (KdbGuidVector a v) = words_mem (v_vals v)"
| "kvec_mem (KdbByteVector a v) = words_mem (v_vals v)"
| "kvec_mem (KdbShortVector a v) = words_mem (v_vals v)"
| "kvec_mem (KdbIntVector a v) = words_mem (v_vals v)"
| "kvec_mem (KdbLongVector a v) = words_mem (v_vals v)"
| "kvec_mem (KdbRealVector a v) = words_mem (v_vals v)"
| "kvec_mem (KdbFloatVector a v) = words_mem (v_vals v)"
| "kvec_mem (KdbCharVector a v) = words_mem (v_vals v)"
| "kvec_mem (KdbTimestampVector a v) = words_mem (v_vals v)"
| "kvec_mem (KdbMonthVector a v) = words_mem (v_vals v)"
| "kvec_mem (KdbDateVector a v) = words_mem (v_vals v)"
| "kvec_mem (KdbTimespanVector a v) = words_mem (v_vals v)"
| "kvec_mem (KdbMinuteVector a v) = words_mem (v_vals v)"
| "kvec_mem (KdbSecondVector a v) = words_mem (v_vals v)"
| "kvec_mem (KdbTimeVector a v) = words_mem (v_vals v)"

text \<open>The constructors \<open>T(cap, attr)\<close>.\<close>

fun new_vec :: "KdbType \<Rightarrow> nat \<Rightarrow> KdbAttr \<Rightarrow> kvec option" where
  "new_vec BOOL_VECTOR cap a = Some (KdbBoolVector a (vec_reserved cap))"
| "new_vec GUID_VECTOR cap a = Some (KdbGuidVector a (vec_reserved cap))"
| "new_vec BYTE_VECTOR cap a = Some (KdbByteVector a (vec_reserved cap))"
| "new_vec SHORT_VECTOR cap a = Some (KdbShortVector a (vec_reserved cap))"
| "new_vec INT_VECTOR cap a = Some (KdbIntVector a (vec_reserved cap))"
| "new_vec LONG_VECTOR cap a = Some (KdbLongVector a (vec_reserved cap))"
| "new_vec REAL_VECTOR cap a = Some (KdbRealVector a (vec_reserved cap))"
| "new_vec FLOAT_VECTOR cap a = Some (KdbFloatVector a (vec_reserved cap))"
| "new_vec CHAR_VECTOR cap a = Some (KdbCharVector a (vec_reserved cap))"
| "new_vec TIMESTAMP_VECTOR cap a = Some (KdbTimestampVector a (vec_reserved cap))"
| "new_vec MONTH_VECTOR cap a = Some (KdbMonthVector a (vec_reserved cap))"
| "new_vec DATE_VECTOR cap a = Some (KdbDateVector a (vec_reserved cap))"
| "new_vec TIMESPAN_VECTOR cap a = Some (KdbTimespanVector a (vec_reserved cap))"
| "new_vec MINUTE_VECTOR cap a = Some (KdbMinuteVector a (vec_reserved cap))"
| "new_vec SECOND_VECTOR cap a = Some (KdbSecondVector a (vec_reserved cap))"
| "new_vec TIME_VECTOR cap a = Some (KdbTimeVector a (vec_reserved cap))"
| "new_vec _ cap a = None"

fun kvec_wireSz :: "kvec \<Rightarrow> nat" where
  "kvec_wireSz (KdbBoolVector a v) = vec_wire_sz v"
| "kvec_wireSz (KdbGuidVector a v) = vec_wire_sz v"
| "kvec_wireSz (KdbByteVector a v) = vec_wire_sz v"
| "kvec_wireSz (KdbShortVector a v) = vec_wire_sz v"
| "kvec_wireSz (KdbIntVector a v) = vec_wire_sz v"
| "kvec_wireSz (KdbLongVector a v) = vec_wire_sz v"
| "kvec_wireSz (KdbRealVector a v) = vec_wire_sz v"
| "kvec_wireSz (KdbFloatVector a v) = vec_wire_sz v"
| "kvec_wireSz (KdbCharVector a v) = vec_wire_sz v"
| "kvec_wireSz (KdbTimestampVector a v) = vec_wire_sz v"
| "kvec_wireSz (KdbMonthVector a v) = vec_wire_sz v"
| "kvec_wireSz (KdbDateVector a v) = vec_wire_sz v"
| "kvec_wireSz (KdbTimespanVector a v) = vec_wire_sz v"
| "kvec_wireSz (KdbMinuteVector a v) = vec_wire_sz v"
| "kvec_wireSz (KdbSecondVector a v) = vec_wire_sz v"
| "kvec_wireSz (KdbTimeVector a v) = vec_wire_sz v"

text \<open>The setters \<open>setBool\<close>, \<open>setGuid\<close>, \<dots>, \<open>setMillis\<close>: the value is given as its memory
  image, for \<open>setBool\<close> of a \<open>bool\<close>, which it stores as 0 or 1.\<close>

fun kvec_set :: "kvec \<Rightarrow> nat \<Rightarrow> bytes \<Rightarrow> kvec outcome" where
  "kvec_set (KdbBoolVector a v) idx x =
     obind (vec_set_value v idx (if of_mem x = (0::u8) then 0 else 1)) (\<lambda>v'. Ret (KdbBoolVector a v'))"
| "kvec_set (KdbGuidVector a v) idx x = obind (vec_set_value v idx (of_mem x)) (\<lambda>v'. Ret (KdbGuidVector a v'))"
| "kvec_set (KdbByteVector a v) idx x = obind (vec_set_value v idx (of_mem x)) (\<lambda>v'. Ret (KdbByteVector a v'))"
| "kvec_set (KdbShortVector a v) idx x = obind (vec_set_value v idx (of_mem x)) (\<lambda>v'. Ret (KdbShortVector a v'))"
| "kvec_set (KdbIntVector a v) idx x = obind (vec_set_value v idx (of_mem x)) (\<lambda>v'. Ret (KdbIntVector a v'))"
| "kvec_set (KdbLongVector a v) idx x = obind (vec_set_value v idx (of_mem x)) (\<lambda>v'. Ret (KdbLongVector a v'))"
| "kvec_set (KdbRealVector a v) idx x = obind (vec_set_value v idx (of_mem x)) (\<lambda>v'. Ret (KdbRealVector a v'))"
| "kvec_set (KdbFloatVector a v) idx x = obind (vec_set_value v idx (of_mem x)) (\<lambda>v'. Ret (KdbFloatVector a v'))"
| "kvec_set (KdbCharVector a v) idx x = obind (vec_set_value v idx (of_mem x)) (\<lambda>v'. Ret (KdbCharVector a v'))"
| "kvec_set (KdbTimestampVector a v) idx x = obind (vec_set_value v idx (of_mem x)) (\<lambda>v'. Ret (KdbTimestampVector a v'))"
| "kvec_set (KdbMonthVector a v) idx x = obind (vec_set_value v idx (of_mem x)) (\<lambda>v'. Ret (KdbMonthVector a v'))"
| "kvec_set (KdbDateVector a v) idx x = obind (vec_set_value v idx (of_mem x)) (\<lambda>v'. Ret (KdbDateVector a v'))"
| "kvec_set (KdbTimespanVector a v) idx x = obind (vec_set_value v idx (of_mem x)) (\<lambda>v'. Ret (KdbTimespanVector a v'))"
| "kvec_set (KdbMinuteVector a v) idx x = obind (vec_set_value v idx (of_mem x)) (\<lambda>v'. Ret (KdbMinuteVector a v'))"
| "kvec_set (KdbSecondVector a v) idx x = obind (vec_set_value v idx (of_mem x)) (\<lambda>v'. Ret (KdbSecondVector a v'))"
| "kvec_set (KdbTimeVector a v) idx x = obind (vec_set_value v idx (of_mem x)) (\<lambda>v'. Ret (KdbTimeVector a v'))"

section \<open>Symbol vectors\<close>

text \<open>The symbols lie nose to tail in \<open>m_data\<close>, each with its NUL; \<open>m_locs\<close> holds offset and
  length (with the NUL) of each. Both fields of a \<open>LocInfo\<close> are 32 bits wide.\<close>

datatype LocInfo = LocInfo (c_off: u32) (c_len: u32)

record symvec =
  sv_attr :: KdbAttr
  sv_cap :: nat
  sv_locs :: "LocInfo list"
  sv_data :: bytes

text \<open>\<open>KdbSymbolVector(cap, attr)\<close>.\<close>

definition sv_new :: "nat \<Rightarrow> KdbAttr \<Rightarrow> symvec" where
  "sv_new cap attr = \<lparr>sv_attr = attr, sv_cap = cap, sv_locs = [], sv_data = []\<rparr>"

text \<open>\<open>KdbSymbolVector(vals, attr)\<close>: a first pass lays out the locations, a second copies
  the characters.\<close>

fun sv_locs_from :: "nat \<Rightarrow> bytes list \<Rightarrow> LocInfo list" where
  "sv_locs_from cap [] = []"
| "sv_locs_from cap (v # vs) =
     LocInfo (word_of_nat cap) (word_of_nat (length v + SZ_BYTE)) #
     sv_locs_from (cap + (length v + SZ_BYTE)) vs"

definition sv_of_vals :: "bytes list \<Rightarrow> KdbAttr \<Rightarrow> symvec" where
  "sv_of_vals vals attr =
     \<lparr>sv_attr = attr, sv_cap = length vals, sv_locs = sv_locs_from 0 vals,
      sv_data = concat (map (\<lambda>v. v @ [0]) vals)\<rparr>"

definition sv_push_loc :: "symvec \<Rightarrow> nat \<Rightarrow> bytes \<Rightarrow> symvec" where
  "sv_push_loc v len cs =
     (let n = length (sv_locs v)
      in v\<lparr>sv_cap := (if n + 1 \<le> sv_cap v then sv_cap v else n + max n 1),
           sv_locs := sv_locs v @ [LocInfo (word_of_nat (length (sv_data v))) (word_of_nat len)],
           sv_data := sv_data v @ cs\<rparr>)"

definition sv_push :: "symvec \<Rightarrow> bytes \<Rightarrow> symvec" where
  "sv_push v s = sv_push_loc v (length s + SZ_BYTE) (s @ [0])"

definition loc_view :: "bytes \<Rightarrow> LocInfo \<Rightarrow> bytes outcome" where
  "loc_view data l =
     (let off = unat (c_off l); len = unat (c_len l - 1)
      in if off + len \<le> length data then Ret (take len (drop off data)) else Undef)"

definition sv_getString :: "symvec \<Rightarrow> nat \<Rightarrow> bytes outcome" where
  "sv_getString v idx =
     (if idx \<ge> length (sv_locs v) then Throw (RuntimeError ''idx.oob'')
      else loc_view (sv_data v) (sv_locs v ! idx))"

fun sv_index_from :: "bytes \<Rightarrow> bytes \<Rightarrow> int \<Rightarrow> LocInfo list \<Rightarrow> int outcome" where
  "sv_index_from data col i [] = Ret (-1)"
| "sv_index_from data col i (l # ls) =
     obind (loc_view data l) (\<lambda>sv. if sv = col then Ret i else sv_index_from data col (i + 1) ls)"

definition sv_indexOf :: "symvec \<Rightarrow> bytes \<Rightarrow> int outcome" where
  "sv_indexOf v col = sv_index_from (sv_data v) col 0 (sv_locs v)"

definition sv_wireSz :: "symvec \<Rightarrow> nat" where
  "sv_wireSz v = SZ_VEC_HDR + length (sv_data v)"

section \<open>The objects\<close>

datatype kobj =
    KdbException bytes
  | KdbAtom katom
  | KdbSymbolAtom bytes
  | KdbVector kvec
  | KdbSymbolVector symvec
  | KdbList KdbAttr nat "kobj list"               \<comment> \<open>attribute, capacity, elements\<close>
  | KdbTable "kobj option" "kobj option"          \<comment> \<open>\<open>m_cols\<close>, \<open>m_vals\<close>\<close>
  | KdbDict "kobj option" "kobj option"           \<comment> \<open>\<open>m_keys\<close>, \<open>m_vals\<close>\<close>
  | KdbFunction "u8 vec"
  | KdbUnaryPrimitive u8
  | KdbBinaryPrimitive u8
  | KdbTernaryPrimitive u8
  | KdbProjection nat "kobj list"                 \<comment> \<open>capacity, function and arguments\<close>

text \<open>\<open>m_typ\<close>. A step dictionary is read into a \<open>KdbDict\<close>, whose type is \<open>DICT\<close>.\<close>

fun m_typ :: "kobj \<Rightarrow> KdbType" where
  "m_typ (KdbException _) = EXCEPTION"
| "m_typ (KdbAtom a) = atom_typ a"
| "m_typ (KdbSymbolAtom _) = SYMBOL_ATOM"
| "m_typ (KdbVector v) = vec_typ v"
| "m_typ (KdbSymbolVector _) = SYMBOL_VECTOR"
| "m_typ (KdbList _ _ _) = LIST"
| "m_typ (KdbTable _ _) = TABLE"
| "m_typ (KdbDict _ _) = DICT"
| "m_typ (KdbFunction _) = FUNCTION"
| "m_typ (KdbUnaryPrimitive _) = UNARY_PRIMITIVE"
| "m_typ (KdbBinaryPrimitive _) = BINARY_PRIMITIVE"
| "m_typ (KdbTernaryPrimitive _) = TERNARY_PRIMITIVE"
| "m_typ (KdbProjection _ _) = PROJECTION"

text \<open>\<open>count()\<close>, an unsigned 64-bit number; \<open>-1\<close> for what is no sequence.\<close>

fun obj_count :: "kobj \<Rightarrow> u64" where
  "obj_count (KdbVector v) = word_of_nat (kvec_count v)"
| "obj_count (KdbSymbolVector v) = word_of_nat (length (sv_locs v))"
| "obj_count (KdbList _ _ xs) = word_of_nat (length xs)"
| "obj_count (KdbTable _ vals) =
     (case vals of
        None \<Rightarrow> 0
      | Some (KdbList _ _ []) \<Rightarrow> 0
      | Some (KdbList _ _ (x # xs)) \<Rightarrow> obj_count x
      | Some _ \<Rightarrow> 0)"
| "obj_count (KdbDict keys _) = (case keys of None \<Rightarrow> 0 | Some k \<Rightarrow> obj_count k)"
| "obj_count _ = - 1"

text \<open>\<open>wireSz()\<close>: the bytes the object takes on the wire. Tables and dictionaries
  dereference both their pointers.\<close>

fun wireSz :: "kobj \<Rightarrow> nat outcome" and wireSz_sum :: "nat \<Rightarrow> kobj list \<Rightarrow> nat outcome" where
  "wireSz (KdbException msg) = Ret (SZ_BYTE + length msg + SZ_BYTE)"
| "wireSz (KdbAtom a) = Ret (SZ_BYTE + length (atom_mem a))"
| "wireSz (KdbSymbolAtom val) = Ret (SZ_BYTE + length val + SZ_BYTE)"
| "wireSz (KdbVector v) = Ret (kvec_wireSz v)"
| "wireSz (KdbSymbolVector v) = Ret (sv_wireSz v)"
| "wireSz (KdbList _ _ xs) = wireSz_sum SZ_VEC_HDR xs"
| "wireSz (KdbTable None vals) = Undef"
| "wireSz (KdbTable (Some c) None) = Undef"
| "wireSz (KdbTable (Some c) (Some v)) =
     obind (wireSz c) (\<lambda>m. obind (wireSz v) (\<lambda>n. Ret (SZ_BYTE + SZ_BYTE + SZ_BYTE + m + n)))"
| "wireSz (KdbDict None vals) = Undef"
| "wireSz (KdbDict (Some k) None) = Undef"
| "wireSz (KdbDict (Some k) (Some v)) =
     obind (wireSz k) (\<lambda>m. obind (wireSz v) (\<lambda>n. Ret (SZ_BYTE + m + n)))"
| "wireSz (KdbFunction v) = Ret (SZ_BYTE + SZ_BYTE + SZ_VEC_HDR + length (v_vals v))"
| "wireSz (KdbUnaryPrimitive _) = Ret (SZ_BYTE + SZ_BYTE)"
| "wireSz (KdbBinaryPrimitive _) = Ret (SZ_BYTE + SZ_BYTE)"
| "wireSz (KdbTernaryPrimitive _) = Ret (SZ_BYTE + SZ_BYTE)"
| "wireSz (KdbProjection _ xs) = wireSz_sum (SZ_BYTE + SZ_INT) xs"
| "wireSz_sum sz [] = Ret sz"
| "wireSz_sum sz (x # xs) = obind (wireSz x) (\<lambda>n. wireSz_sum (sz + n) xs)"

section \<open>Lists, tables, dictionaries, functions, projections\<close>

fun list_push :: "kobj \<Rightarrow> kobj \<Rightarrow> kobj" where
  "list_push (KdbList attr cap xs) x =
     KdbList attr (v_cap (vec_append \<lparr>v_cap = cap, v_vals = xs\<rparr> [x])) (xs @ [x])"
| "list_push k x = k"

text \<open>\<open>new1dSequence\<close>: from a type, and from a type character.\<close>

definition new1dSequence :: "KdbType \<Rightarrow> nat \<Rightarrow> KdbAttr \<Rightarrow> kobj outcome" where
  "new1dSequence typ cap attr =
     (case typ of
        LIST \<Rightarrow> Ret (KdbList attr cap [])
      | SYMBOL_VECTOR \<Rightarrow> Ret (KdbSymbolVector (sv_new cap attr))
      | _ \<Rightarrow> (case new_vec typ cap attr of
                Some v \<Rightarrow> Ret (KdbVector v)
              | None \<Rightarrow> Throw (RuntimeError ''nyi sequence-type'')))"

definition seq_type_chars :: "(char \<times> KdbType) list" where
  "seq_type_chars =
     [(CHR '' '', LIST), (CHR ''*'', LIST), (CHR ''b'', BOOL_VECTOR), (CHR ''g'', GUID_VECTOR),
      (CHR ''x'', BYTE_VECTOR), (CHR ''h'', SHORT_VECTOR), (CHR ''i'', INT_VECTOR),
      (CHR ''j'', LONG_VECTOR), (CHR ''e'', REAL_VECTOR), (CHR ''f'', FLOAT_VECTOR),
      (CHR ''c'', CHAR_VECTOR), (CHR ''s'', SYMBOL_VECTOR), (CHR ''p'', TIMESTAMP_VECTOR),
      (CHR ''m'', MONTH_VECTOR), (CHR ''d'', DATE_VECTOR), (CHR ''n'', TIMESPAN_VECTOR),
      (CHR ''u'', MINUTE_VECTOR), (CHR ''v'', SECOND_VECTOR), (CHR ''t'', TIME_VECTOR)]"

definition new1dSequence_char :: "char \<Rightarrow> nat \<Rightarrow> KdbAttr \<Rightarrow> kobj outcome" where
  "new1dSequence_char c cap attr =
     (case map_of seq_type_chars c of
        Some t \<Rightarrow> new1dSequence t cap attr
      | None \<Rightarrow> Throw (RuntimeError ''nyi sequence-type''))"

text \<open>\<open>KdbTable(typs, cols)\<close>: the column names go into a symbol vector, and each column is an
  empty sequence of its type.\<close>

fun table_cols :: "symvec \<Rightarrow> kobj \<Rightarrow> (char \<times> bytes) list \<Rightarrow> (symvec \<times> kobj) outcome" where
  "table_cols names vals [] = Ret (names, vals)"
| "table_cols names vals ((t, c) # tcs) =
     obind (new1dSequence_char t 0 ATTR_NONE)
       (\<lambda>col. table_cols (sv_push names c) (list_push vals col) tcs)"

definition table_new :: "string \<Rightarrow> bytes list \<Rightarrow> kobj outcome" where
  "table_new typs cols =
     (if length typs \<noteq> length cols then Throw (RuntimeError ''types.length != cols.length'')
      else if length cols = 0 then Throw (RuntimeError ''names.size == 0'')
      else obind (table_cols (sv_new (length cols) ATTR_NONE) (KdbList ATTR_NONE (length cols) [])
             (zip typs cols))
             (\<lambda>(names, vals). Ret (KdbTable (Some (KdbSymbolVector names)) (Some vals))))"

text \<open>\<open>KdbTable(names, cols...)\<close> for columns that exist already.\<close>

definition table_of_cols :: "bytes list \<Rightarrow> kobj list \<Rightarrow> kobj outcome" where
  "table_of_cols names cols =
     (if length names \<noteq> length cols then Throw (RuntimeError ''names.length != cols.length'')
      else if length names = 0 then Throw (RuntimeError ''names.size == 0'')
      else Ret (KdbTable
             (Some (KdbSymbolVector (foldl sv_push (sv_new (length names) ATTR_NONE) names)))
             (Some (foldl list_push (KdbList ATTR_NONE (length names) []) cols))))"

text \<open>\<open>lookupCol\<close>: the column of that name, which must have the requested type.\<close>

fun lookupCol :: "kobj \<Rightarrow> bytes \<Rightarrow> KdbType \<Rightarrow> kobj outcome" where
  "lookupCol (KdbTable (Some (KdbSymbolVector names)) (Some (KdbList attr cap vals))) name typ =
     obind (sv_indexOf names name)
       (\<lambda>idx. if idx < 0 then Throw (RuntimeError ''No such column'')
         else if length vals \<le> nat idx then Undef
         else if m_typ (vals ! nat idx) \<noteq> typ then Throw (RuntimeError ''Bad cast'')
         else Ret (vals ! nat idx))"
| "lookupCol _ name typ = Undef"

fun dict_key_type :: "kobj \<Rightarrow> KdbType option" where
  "dict_key_type (KdbDict keys vals) = map_option m_typ keys"
| "dict_key_type _ = None"

fun dict_value_type :: "kobj \<Rightarrow> KdbType option" where
  "dict_value_type (KdbDict keys vals) = map_option m_typ vals"
| "dict_value_type _ = None"

definition function_new :: "nat \<Rightarrow> kobj" where
  "function_new cap = KdbFunction (vec_reserved cap)"

definition function_of :: "bytes \<Rightarrow> kobj" where
  "function_of src = KdbFunction (vec_append (vec_reserved (length src)) src)"

definition projection_new :: "nat \<Rightarrow> kobj" where
  "projection_new cap = KdbProjection cap []"

definition projection_of :: "bytes \<Rightarrow> nat \<Rightarrow> kobj" where
  "projection_of src n_args =
     KdbProjection (n_args + 1) (function_of src # replicate n_args (KdbUnaryPrimitive ELIDED_VALUE))"

fun setArg :: "kobj \<Rightarrow> nat \<Rightarrow> kobj \<Rightarrow> kobj outcome" where
  "setArg (KdbProjection cap xs) idx val =
     (if idx + 1 < length xs then Ret (KdbProjection cap (xs[idx + 1 := val])) else Undef)"
| "setArg _ idx val = Undef"

section \<open>Lemmas\<close>

lemma kdb_type_of_i8_code:
  "sint b = kdb_type_code t \<Longrightarrow> kdb_type_of_i8 b = Some t"
  by (cases t) (simp_all add: kdb_type_of_i8_def all_kdb_types_def)

lemma sint_i8typ: "t \<noteq> UNSET_TYPE \<Longrightarrow> sint (i8typ t) = kdb_type_code t"
  by (cases t) (simp_all add: i8typ_def)

lemma kdb_type_of_i8typ [simp]: "t \<noteq> UNSET_TYPE \<Longrightarrow> kdb_type_of_i8 (i8typ t) = Some t"
  by (simp add: kdb_type_of_i8_code sint_i8typ)

lemma m_typ_set [simp]: "m_typ k \<noteq> UNSET_TYPE"
  by (cases k rule: m_typ.cases) (auto elim: atom_typ.elims vec_typ.elims)

end
