(* ===== verification/Kdb_Buf.thy ===== *)
theory Kdb_Buf
  imports Kdb_Types
begin

text \<open>
  \<open>ReadBuf\<close> and \<open>WriteBuf\<close> of \<^verbatim>\<open>ipc++\<close>: a window on memory with an offset and a signed
  cursor. The cursor is the position in the message relative to where this call resumes: it
  is negative while an object skips what an earlier call has handled already, and the buffer
  is ``active'' once it is not. Offsets and lengths are unbounded here, which is exact for
  messages below \<open>2 ^ 63\<close> bytes.
\<close>

section \<open>ReadBuf\<close>

text \<open>\<open>rb_src\<close> is the memory at \<open>m_src\<close>, of which the first \<open>rb_len\<close> bytes may be used.\<close>

record rbuf =
  rb_src :: bytes
  rb_len :: nat
  rb_off :: nat
  rb_csr :: int

definition rb_new :: "bytes \<Rightarrow> nat \<Rightarrow> int \<Rightarrow> rbuf" where
  "rb_new src len csr = \<lparr>rb_src = src, rb_len = len, rb_off = 0, rb_csr = csr\<rparr>"

definition rb_wf :: "rbuf \<Rightarrow> bool" where
  "rb_wf b \<longleftrightarrow> rb_off b \<le> rb_len b \<and> rb_len b \<le> length (rb_src b)"

text \<open>Advance the offset by \<open>k\<close> and the cursor by \<open>z\<close>.\<close>

definition rb_move :: "nat \<Rightarrow> int \<Rightarrow> rbuf \<Rightarrow> rbuf" where
  "rb_move k z b = b\<lparr>rb_off := rb_off b + k, rb_csr := rb_csr b + z\<rparr>"

definition rb_adj :: "nat \<Rightarrow> rbuf \<Rightarrow> rbuf" where
  "rb_adj n b = rb_move n (int n) b"

definition rb_ffwd :: "nat \<Rightarrow> rbuf \<Rightarrow> rbuf" where
  "rb_ffwd n b = rb_move 0 (int n) b"

definition rb_remaining :: "rbuf \<Rightarrow> nat" where
  "rb_remaining b = rb_len b - rb_off b"

definition rb_canRead :: "rbuf \<Rightarrow> nat \<Rightarrow> bool" where
  "rb_canRead b n \<longleftrightarrow> n \<le> rb_remaining b"

definition rb_active :: "rbuf \<Rightarrow> bool" where
  "rb_active b \<longleftrightarrow> 0 \<le> rb_csr b"

definition rb_setLength :: "nat \<Rightarrow> rbuf \<Rightarrow> rbuf" where
  "rb_setLength n b = b\<lparr>rb_len := n\<rparr>"

definition rb_rewind :: "rbuf \<Rightarrow> rbuf" where
  "rb_rewind b = b\<lparr>rb_csr := - int (rb_off b)\<rparr>"

text \<open>\<open>peek<T>\<close> and \<open>read<T>\<close>: the bytes of the object read; a read past the memory is the
  caller's to exclude.\<close>

definition rb_peek :: "nat \<Rightarrow> rbuf \<Rightarrow> bytes" where
  "rb_peek n b = take n (drop (rb_off b) (rb_src b))"

definition rb_read :: "nat \<Rightarrow> rbuf \<Rightarrow> bytes \<times> rbuf" where
  "rb_read n b = (rb_peek n b, rb_adj n b)"

definition rb_readSym :: "bytes \<Rightarrow> rbuf \<Rightarrow> ReadResult \<times> bytes \<times> rbuf" where
  "rb_readSym str b =
     (let rem = rb_remaining b
      in if 0 < rem
         then let src = drop (rb_off b) (rb_src b); str_len = strnlen src rem
              in if rem = str_len then (RD_INCOMPLETE, str, b)
                 else (RD_OK, take str_len src, rb_adj (str_len + SZ_BYTE) b)
         else (RD_INCOMPLETE, str, b))"

fun rb_readSyms_loop :: "nat \<Rightarrow> nat \<Rightarrow> symvec \<Rightarrow> rbuf \<Rightarrow> ReadResult \<times> symvec \<times> rbuf" where
  "rb_readSyms_loop 0 rem v b = (RD_OK, v, b)"
| "rb_readSyms_loop (Suc n) rem v b =
     (let src = drop (rb_off b) (rb_src b); str_len = strnlen src rem
      in if rem = str_len then (RD_INCOMPLETE, v, b)
         else rb_readSyms_loop n (rem - (str_len + SZ_BYTE))
                (sv_push_loc v (str_len + SZ_BYTE) (take (str_len + SZ_BYTE) src))
                (rb_adj (str_len + SZ_BYTE) b))"

definition rb_readSyms :: "nat \<Rightarrow> symvec \<Rightarrow> rbuf \<Rightarrow> ReadResult \<times> symvec \<times> rbuf" where
  "rb_readSyms rqd v b =
     (if 0 < rb_remaining b then rb_readSyms_loop rqd (rb_remaining b) v b
      else (RD_INCOMPLETE, v, b))"

text \<open>The bytes still to be read.\<close>

definition rb_avail :: "rbuf \<Rightarrow> bytes" where
  "rb_avail b = take (rb_remaining b) (drop (rb_off b) (rb_src b))"

lemma rb_move_simps [simp, buf_simps]:
  "rb_src (rb_move k z b) = rb_src b"
  "rb_len (rb_move k z b) = rb_len b"
  "rb_off (rb_move k z b) = rb_off b + k"
  "rb_csr (rb_move k z b) = rb_csr b + z"
  "rb_remaining (rb_move k z b) = rb_remaining b - k"
  by (simp_all add: rb_move_def rb_remaining_def)

lemma rb_move_move [simp, buf_simps]:
  "rb_move k z (rb_move k' z' b) = rb_move (k' + k) (z' + z) b"
  by (simp add: rb_move_def)

lemma rb_move_0 [simp]: "rb_move 0 0 b = b"
  by (simp add: rb_move_def)

lemma rb_active_move: "rb_active (rb_move k z b) \<longleftrightarrow> 0 \<le> rb_csr b + z"
  by (simp add: rb_active_def)

lemma length_rb_avail [simp]: "rb_wf b \<Longrightarrow> length (rb_avail b) = rb_remaining b"
  by (auto simp: rb_avail_def rb_wf_def rb_remaining_def)

lemma rb_wf_move: "rb_wf b \<Longrightarrow> k \<le> rb_remaining b \<Longrightarrow> rb_wf (rb_move k z b)"
  by (auto simp: rb_wf_def rb_remaining_def)

lemma rb_avail_move: "rb_avail (rb_move k z b) = drop k (rb_avail b)"
  by (simp add: rb_avail_def drop_take add.commute)

lemma rb_peek_avail: "n \<le> rb_remaining b \<Longrightarrow> rb_peek n b = take n (rb_avail b)"
  by (simp add: rb_peek_def rb_avail_def)

lemma strnlen_take: "strnlen (take m s) m = strnlen s m"
  by (simp add: strnlen_def)

lemma rb_readSym_avail:
  assumes "rb_wf b"
  shows "rb_readSym str b =
    (if 0 \<in> set (rb_avail b)
     then let t = takeWhile (\<lambda>c. c \<noteq> 0) (rb_avail b)
          in (RD_OK, t, rb_move (length t + 1) (int (length t + 1)) b)
     else (RD_INCOMPLETE, str, b))"
proof -
  let ?t = "takeWhile (\<lambda>c. c \<noteq> 0) (rb_avail b)"
  have len: "strnlen (drop (rb_off b) (rb_src b)) (rb_remaining b) = length ?t"
    by (simp add: strnlen_def rb_avail_def)
  have t: "take (length ?t) (drop (rb_off b) (rb_src b)) = ?t"
  proof -
    have "length ?t \<le> rb_remaining b"
      using length_takeWhile_le [of "\<lambda>c. c \<noteq> 0" "rb_avail b"] assms by simp
    then have "take (length ?t) (drop (rb_off b) (rb_src b)) = take (length ?t) (rb_avail b)"
      by (simp add: rb_avail_def)
    then show ?thesis
      by (metis takeWhile_eq_take)
  qed
  have "rb_remaining b = length ?t \<longleftrightarrow> 0 \<notin> set (rb_avail b)"
  proof
    assume "rb_remaining b = length ?t"
    then have "?t = rb_avail b"
      using assms by (metis length_rb_avail takeWhile_eq_take take_all order_refl)
    then show "0 \<notin> set (rb_avail b)"
      using takeWhile_eq_all_conv [of "\<lambda>c. c \<noteq> 0" "rb_avail b"] by fastforce
  next
    assume "0 \<notin> set (rb_avail b)"
    then have "?t = rb_avail b"
      by (auto simp: takeWhile_eq_all_conv)
    then show "rb_remaining b = length ?t"
      using assms by (simp only: length_rb_avail)
  qed
  moreover have "0 \<in> set (rb_avail b) \<Longrightarrow> 0 < rb_remaining b"
    using assms by (cases "rb_avail b") (auto simp flip: length_rb_avail)
  ultimately show ?thesis
    unfolding rb_readSym_def Let_def len t by (auto simp: rb_adj_def)
qed

section \<open>WriteBuf\<close>

text \<open>\<open>wb_out\<close> is the memory written so far, so that \<open>m_off\<close> is its length.\<close>

record wbuf =
  wb_cap :: nat
  wb_csr :: int
  wb_out :: bytes

definition wb_new :: "nat \<Rightarrow> int \<Rightarrow> wbuf" where
  "wb_new cap csr = \<lparr>wb_cap = cap, wb_csr = csr, wb_out = []\<rparr>"

definition wb_remaining :: "wbuf \<Rightarrow> nat" where
  "wb_remaining b = wb_cap b - length (wb_out b)"

definition wb_canWrite :: "wbuf \<Rightarrow> nat \<Rightarrow> bool" where
  "wb_canWrite b n \<longleftrightarrow> length (wb_out b) + n \<le> wb_cap b"

definition wb_active :: "wbuf \<Rightarrow> bool" where
  "wb_active b \<longleftrightarrow> 0 \<le> wb_csr b"

definition wb_ffwd :: "nat \<Rightarrow> wbuf \<Rightarrow> wbuf" where
  "wb_ffwd n b = b\<lparr>wb_csr := wb_csr b + int n\<rparr>"

text \<open>Store bytes at \<open>m_dst + m_off\<close> and advance offset and cursor (\<open>adj\<close>).\<close>

definition wb_put :: "bytes \<Rightarrow> wbuf \<Rightarrow> wbuf" where
  "wb_put bs b = b\<lparr>wb_out := wb_out b @ bs, wb_csr := wb_csr b + int (length bs)\<rparr>"

text \<open>\<open>write<T>\<close> of a value with memory image \<open>bs\<close>.\<close>

definition wb_write :: "bytes \<Rightarrow> wbuf \<Rightarrow> bool \<times> wbuf" where
  "wb_write bs b = (if wb_remaining b < length bs then (False, b) else (True, wb_put bs b))"

definition wb_writeTyp :: "KdbType \<Rightarrow> wbuf \<Rightarrow> bool \<times> wbuf" where
  "wb_writeTyp typ b = wb_write [i8typ typ] b"

definition wb_writeAtt :: "KdbAttr \<Rightarrow> wbuf \<Rightarrow> bool \<times> wbuf" where
  "wb_writeAtt att b = wb_write [att] b"

definition wb_writeHdr :: "KdbType \<Rightarrow> KdbAttr \<Rightarrow> nat \<Rightarrow> wbuf \<Rightarrow> bool \<times> wbuf" where
  "wb_writeHdr typ att len b =
     (if wb_remaining b < SZ_VEC_HDR then (False, b)
      else let b1 = snd (wb_write [i8typ typ] b);
               b2 = snd (wb_write [att] b1);
               b3 = snd (wb_write (le SZ_INT len) b2)
           in (True, b3))"

definition wb_writeSym :: "bytes \<Rightarrow> wbuf \<Rightarrow> bool \<times> wbuf" where
  "wb_writeSym sv b =
     (if wb_remaining b < length sv + SZ_BYTE then (False, b)
      else (True, wb_put [0] (wb_put sv b)))"

text \<open>\<open>writeAry\<close> of an array with element size \<open>E\<close> and memory \<open>ary\<close>: the elements
  \<open>off, \<dots>, off + elm - 1\<close>. Reading past the array's memory is undefined.\<close>

definition wb_writeAry :: "nat \<Rightarrow> bytes \<Rightarrow> nat \<Rightarrow> nat \<Rightarrow> wbuf \<Rightarrow> (nat \<times> wbuf) outcome" where
  "wb_writeAry E ary off cap b =
     (if off \<ge> cap then Ret (0, b)
      else let elm = min (cap - off) (wb_remaining b div E)
           in if (off + elm) * E \<le> length ary
              then Ret (elm, wb_put (take (elm * E) (drop (off * E) ary)) b)
              else Undef)"

definition wb_wf :: "wbuf \<Rightarrow> bool" where
  "wb_wf b \<longleftrightarrow> length (wb_out b) \<le> wb_cap b"

lemma wb_put_simps [simp, buf_simps]:
  "wb_cap (wb_put bs b) = wb_cap b"
  "wb_csr (wb_put bs b) = wb_csr b + int (length bs)"
  "wb_out (wb_put bs b) = wb_out b @ bs"
  "wb_remaining (wb_put bs b) = wb_remaining b - length bs"
  by (simp_all add: wb_put_def wb_remaining_def)

lemma wb_ffwd_simps [simp, buf_simps]:
  "wb_cap (wb_ffwd n b) = wb_cap b"
  "wb_csr (wb_ffwd n b) = wb_csr b + int n"
  "wb_out (wb_ffwd n b) = wb_out b"
  "wb_remaining (wb_ffwd n b) = wb_remaining b"
  by (simp_all add: wb_ffwd_def wb_remaining_def)

lemma wb_put_put [simp, buf_simps]: "wb_put t (wb_put s b) = wb_put (s @ t) b"
  by (simp add: wb_put_def)

lemma wb_put_Nil [simp]: "wb_put [] b = b"
  by (simp add: wb_put_def)

lemma wb_ffwd_0 [simp]: "wb_ffwd 0 b = b"
  by (simp add: wb_ffwd_def)

lemma wb_ffwd_ffwd [simp]: "wb_ffwd m (wb_ffwd n b) = wb_ffwd (n + m) b"
  by (simp add: wb_ffwd_def)

lemma wb_canWrite_remaining: "wb_wf b \<Longrightarrow> wb_canWrite b n \<longleftrightarrow> n \<le> wb_remaining b"
  by (auto simp: wb_canWrite_def wb_remaining_def wb_wf_def)

lemma wb_wf_put: "n \<le> wb_remaining b \<Longrightarrow> wb_wf b \<Longrightarrow> length bs \<le> n \<Longrightarrow> wb_wf (wb_put bs b)"
  by (auto simp: wb_wf_def wb_remaining_def)

lemma wb_wf_ffwd [simp]: "wb_wf (wb_ffwd n b) = wb_wf b"
  by (simp add: wb_wf_def)

lemma wb_writeHdr_eq:
  "wb_writeHdr typ att len b =
     (if wb_remaining b < SZ_VEC_HDR then (False, b)
      else (True, wb_put (i8typ typ # att # le SZ_INT len) b))"
  by (simp add: wb_writeHdr_def wb_write_def Let_def)

end
