(* ===== verification/Kdb_Write.thy ===== *)
theory Kdb_Write
  imports Kdb_Buf
begin

text \<open>
  The \<open>write\<close> methods of \<^verbatim>\<open>ipc++/src/KdbType.C\<close> and the message writer. \<open>units\<close> is their
  abstract specification: the wire image of an object as the list of pieces that are written
  whole or not at all. The methods refine \<open>emit\<close>, which sends those pieces until the buffer
  is full, and the writer on top of them sends a message through any sequence of buffers.
\<close>

section \<open>The write methods\<close>

definition writeIntAtom :: "katom \<Rightarrow> wbuf \<Rightarrow> WriteResult \<times> wbuf" where
  "writeIntAtom a b =
     (let SZ_ATM = SZ_BYTE + length (atom_mem a)
      in if \<not> wb_active b then (WR_OK, wb_ffwd SZ_ATM b)
         else if \<not> wb_canWrite b SZ_ATM then (WR_INCOMPLETE, b)
         else (WR_OK, snd (wb_write (atom_mem a) (snd (wb_writeTyp (atom_typ a) b)))))"

text \<open>\<open>KdbException::write\<close> and \<open>KdbSymbolAtom::write\<close>.\<close>

definition writeStrAtom :: "KdbType \<Rightarrow> bytes \<Rightarrow> wbuf \<Rightarrow> WriteResult \<times> wbuf" where
  "writeStrAtom typ val b =
     (let SZ_ATM = SZ_BYTE + length val + SZ_BYTE
      in if \<not> wb_active b then (WR_OK, wb_ffwd SZ_ATM b)
         else if \<not> wb_canWrite b SZ_ATM then (WR_INCOMPLETE, b)
         else (WR_OK, snd (wb_writeSym val (snd (wb_writeTyp typ b)))))"

text \<open>The vector header, or the skip over it.\<close>

definition write_vec_hdr :: "KdbType \<Rightarrow> KdbAttr \<Rightarrow> nat \<Rightarrow> wbuf \<Rightarrow> bool \<times> wbuf" where
  "write_vec_hdr typ attr n b =
     (if wb_active b then wb_writeHdr typ attr n b else (True, wb_ffwd SZ_VEC_HDR b))"

definition writeIntVector :: "kvec \<Rightarrow> wbuf \<Rightarrow> (WriteResult \<times> wbuf) outcome" where
  "writeIntVector v b =
     (let (ok, b1) = write_vec_hdr (vec_typ v) (vec_attr v) (kvec_count v) b
      in if \<not> ok then Ret (WR_INCOMPLETE, b1)
         else let n = kvec_count v; E = kvec_width v; off = wb_csr b1;
                  skp = (if off < 0 then min (nat (- off)) (n * E) div E else 0);
                  b2 = (if 0 < skp then wb_ffwd (skp * E) b1 else b1)
              in if skp < n
                 then obind (wb_writeAry E (kvec_mem v) skp n b2)
                        (\<lambda>(wrt, b3). Ret (if skp + wrt < n then WR_INCOMPLETE else WR_OK, b3))
                 else Ret (WR_OK, b2))"

definition writeSymVector :: "symvec \<Rightarrow> wbuf \<Rightarrow> (WriteResult \<times> wbuf) outcome" where
  "writeSymVector v b =
     (let (ok, b1) = write_vec_hdr SYMBOL_VECTOR (sv_attr v) (length (sv_locs v)) b
      in if \<not> ok then Ret (WR_INCOMPLETE, b1)
         else let n = length (sv_data v); off = wb_csr b1;
                  skp = (if off < 0 then min (nat (- off)) n else 0);
                  b2 = (if off < 0 then wb_ffwd skp b1 else b1)
              in if skp < n
                 then obind (wb_writeAry 1 (sv_data v) skp n b2)
                        (\<lambda>(wrt, b3). Ret (if wrt + skp < n then WR_INCOMPLETE else WR_OK, b3))
                 else Ret (WR_OK, b2))"

definition write_function_hdr :: "nat \<Rightarrow> wbuf \<Rightarrow> bool \<times> wbuf" where
  "write_function_hdr n b =
     (let SZ_PROLOGUE = SZ_BYTE + SZ_BYTE + SZ_VEC_HDR
      in if wb_active b
         then if \<not> wb_canWrite b SZ_PROLOGUE then (False, b)
              else (True, snd (wb_writeHdr CHAR_VECTOR ATTR_NONE n
                            (snd (wb_writeAtt ATTR_NONE (snd (wb_writeTyp FUNCTION b))))))
         else (True, wb_ffwd SZ_PROLOGUE b))"

definition writeFunction :: "u8 vec \<Rightarrow> wbuf \<Rightarrow> (WriteResult \<times> wbuf) outcome" where
  "writeFunction v b =
     (let (ok, b1) = write_function_hdr (length (v_vals v)) b
      in if \<not> ok then Ret (WR_INCOMPLETE, b1)
         else let n = length (v_vals v); off = wb_csr b1;
                  skp = (if off \<ge> 0 then 0 else min (nat (- off)) n);
                  b2 = (if 0 < skp then wb_ffwd skp b1 else b1)
              in obind (wb_writeAry 1 (words_mem (v_vals v)) skp (v_cap v) b2)
                   (\<lambda>(wrt, b3). Ret (if skp + wrt = n then WR_OK else WR_INCOMPLETE, b3)))"

definition writePrimitive :: "KdbType \<Rightarrow> u8 \<Rightarrow> wbuf \<Rightarrow> WriteResult \<times> wbuf" where
  "writePrimitive typ val b =
     (if wb_active b
      then if \<not> wb_canWrite b (SZ_BYTE + SZ_BYTE) then (WR_INCOMPLETE, b)
           else (WR_OK, snd (wb_write [val] (snd (wb_writeTyp typ b))))
      else (WR_OK, wb_ffwd (SZ_BYTE + SZ_BYTE) b))"

text \<open>The headers of tables and projections.\<close>

definition write_table_hdr :: "wbuf \<Rightarrow> bool \<times> wbuf" where
  "write_table_hdr b =
     (let SZ_TBL_HDR = SZ_BYTE + SZ_BYTE + SZ_BYTE
      in if wb_active b
         then if \<not> wb_canWrite b SZ_TBL_HDR then (False, b)
              else (True, snd (wb_writeTyp DICT (snd (wb_writeAtt ATTR_NONE (snd (wb_writeTyp TABLE b))))))
         else (True, wb_ffwd SZ_TBL_HDR b))"

definition write_projection_hdr :: "nat \<Rightarrow> wbuf \<Rightarrow> bool \<times> wbuf" where
  "write_projection_hdr n b =
     (let SZ_HDR = SZ_BYTE + SZ_INT
      in if wb_active b
         then if \<not> wb_canWrite b SZ_HDR then (False, b)
              else (True, snd (wb_write (le SZ_INT n) (snd (wb_writeTyp PROJECTION b))))
         else (True, wb_ffwd SZ_HDR b))"

text \<open>\<open>wr_then\<close>: go on only after a complete write.\<close>

definition wr_then ::
  "(WriteResult \<times> wbuf) outcome \<Rightarrow> (wbuf \<Rightarrow> (WriteResult \<times> wbuf) outcome) \<Rightarrow> (WriteResult \<times> wbuf) outcome" where
  "wr_then m f = obind m (\<lambda>(wr, b). if wr \<noteq> WR_OK then Ret (wr, b) else f b)"

lemma wr_then_cong [fundef_cong]:
  "m = m' \<Longrightarrow> (\<And>b. m' = Ret (WR_OK, b) \<Longrightarrow> f b = g b) \<Longrightarrow> wr_then m f = wr_then m' g"
  unfolding wr_then_def by (rule obind_cong) (auto split: prod.splits)

fun kwrite :: "kobj \<Rightarrow> wbuf \<Rightarrow> (WriteResult \<times> wbuf) outcome"
  and kwrite_elems :: "kobj list \<Rightarrow> wbuf \<Rightarrow> (WriteResult \<times> wbuf) outcome" where
  "kwrite (KdbException msg) b = Ret (writeStrAtom EXCEPTION msg b)"
| "kwrite (KdbAtom a) b = Ret (writeIntAtom a b)"
| "kwrite (KdbSymbolAtom val) b = Ret (writeStrAtom SYMBOL_ATOM val b)"
| "kwrite (KdbVector v) b = writeIntVector v b"
| "kwrite (KdbSymbolVector v) b = writeSymVector v b"
| "kwrite (KdbList attr cap xs) b =
     (let (ok, b1) = write_vec_hdr LIST attr (length xs) b
      in if \<not> ok then Ret (WR_INCOMPLETE, b1) else kwrite_elems xs b1)"
| "kwrite (KdbTable None vals) b =
     (let (ok, b1) = write_table_hdr b in if \<not> ok then Ret (WR_INCOMPLETE, b1) else Undef)"
| "kwrite (KdbTable (Some c) None) b =
     (let (ok, b1) = write_table_hdr b
      in if \<not> ok then Ret (WR_INCOMPLETE, b1) else wr_then (kwrite c b1) (\<lambda>b2. Undef))"
| "kwrite (KdbTable (Some c) (Some v)) b =
     (let (ok, b1) = write_table_hdr b
      in if \<not> ok then Ret (WR_INCOMPLETE, b1) else wr_then (kwrite c b1) (\<lambda>b2. kwrite v b2))"
| "kwrite (KdbDict None vals) b =
     (let (ok, b1) = (if wb_active b then wb_writeTyp DICT b else (True, wb_ffwd SZ_BYTE b))
      in if \<not> ok then Ret (WR_INCOMPLETE, b1) else Undef)"
| "kwrite (KdbDict (Some k) None) b =
     (let (ok, b1) = (if wb_active b then wb_writeTyp DICT b else (True, wb_ffwd SZ_BYTE b))
      in if \<not> ok then Ret (WR_INCOMPLETE, b1) else wr_then (kwrite k b1) (\<lambda>b2. Undef))"
| "kwrite (KdbDict (Some k) (Some v)) b =
     (let (ok, b1) = (if wb_active b then wb_writeTyp DICT b else (True, wb_ffwd SZ_BYTE b))
      in if \<not> ok then Ret (WR_INCOMPLETE, b1) else wr_then (kwrite k b1) (\<lambda>b2. kwrite v b2))"
| "kwrite (KdbFunction v) b = writeFunction v b"
| "kwrite (KdbUnaryPrimitive v) b = Ret (writePrimitive UNARY_PRIMITIVE v b)"
| "kwrite (KdbBinaryPrimitive v) b = Ret (writePrimitive BINARY_PRIMITIVE v b)"
| "kwrite (KdbTernaryPrimitive v) b = Ret (writePrimitive TERNARY_PRIMITIVE v b)"
| "kwrite (KdbProjection cap xs) b =
     (let (ok, b1) = write_projection_hdr (length xs) b
      in if \<not> ok then Ret (WR_INCOMPLETE, b1) else kwrite_elems xs b1)"
| "kwrite_elems [] b = Ret (WR_OK, b)"
| "kwrite_elems (x # xs) b = wr_then (kwrite x b) (\<lambda>b1. kwrite_elems xs b1)"

section \<open>The wire image as indivisible pieces\<close>

fun chunks :: "nat \<Rightarrow> nat \<Rightarrow> bytes \<Rightarrow> bytes list" where
  "chunks E 0 m = []"
| "chunks E (Suc n) m = take E m # chunks E n (drop E m)"

definition vec_hdr :: "KdbType \<Rightarrow> KdbAttr \<Rightarrow> nat \<Rightarrow> bytes" where
  "vec_hdr typ attr n = i8typ typ # attr # le SZ_INT n"

fun units :: "kobj \<Rightarrow> bytes list" and units_list :: "kobj list \<Rightarrow> bytes list"
  and units_opt :: "kobj option \<Rightarrow> bytes list" where
  "units (KdbException msg) = [i8typ EXCEPTION # msg @ [0]]"
| "units (KdbAtom a) = [i8typ (atom_typ a) # atom_mem a]"
| "units (KdbSymbolAtom val) = [i8typ SYMBOL_ATOM # val @ [0]]"
| "units (KdbVector v) =
     vec_hdr (vec_typ v) (vec_attr v) (kvec_count v) # chunks (kvec_width v) (kvec_count v) (kvec_mem v)"
| "units (KdbSymbolVector v) =
     vec_hdr SYMBOL_VECTOR (sv_attr v) (length (sv_locs v)) # chunks 1 (length (sv_data v)) (sv_data v)"
| "units (KdbList attr cap xs) = vec_hdr LIST attr (length xs) # units_list xs"
| "units (KdbTable cols vals) =
     [i8typ TABLE, ATTR_NONE, i8typ DICT] # units_opt cols @ units_opt vals"
| "units (KdbDict keys vals) = [i8typ DICT] # units_opt keys @ units_opt vals"
| "units (KdbFunction v) =
     (i8typ FUNCTION # ATTR_NONE # vec_hdr CHAR_VECTOR ATTR_NONE (length (v_vals v))) #
     chunks 1 (length (v_vals v)) (words_mem (v_vals v))"
| "units (KdbUnaryPrimitive v) = [[i8typ UNARY_PRIMITIVE, v]]"
| "units (KdbBinaryPrimitive v) = [[i8typ BINARY_PRIMITIVE, v]]"
| "units (KdbTernaryPrimitive v) = [[i8typ TERNARY_PRIMITIVE, v]]"
| "units (KdbProjection cap xs) = (i8typ PROJECTION # le SZ_INT (length xs)) # units_list xs"
| "units_list [] = []"
| "units_list (x # xs) = units x @ units_list xs"
| "units_opt None = []"
| "units_opt (Some x) = units x"

definition enc :: "kobj \<Rightarrow> bytes" where
  "enc x = concat (units x)"

text \<open>The objects the code can write: a table holds a symbol vector and a list, both parts of
  a dictionary are present, and the text of a function fills its vector.\<close>

fun is_symvec :: "kobj option \<Rightarrow> bool" where
  "is_symvec (Some (KdbSymbolVector v)) = True"
| "is_symvec _ = False"

fun is_list :: "kobj option \<Rightarrow> bool" where
  "is_list (Some (KdbList attr cap xs)) = True"
| "is_list _ = False"

fun kwf :: "kobj \<Rightarrow> bool" and kwf_list :: "kobj list \<Rightarrow> bool" and kwf_opt :: "kobj option \<Rightarrow> bool" where
  "kwf (KdbException msg) = True"
| "kwf (KdbAtom a) = True"
| "kwf (KdbSymbolAtom val) = True"
| "kwf (KdbVector v) = True"
| "kwf (KdbSymbolVector v) = True"
| "kwf (KdbList attr cap xs) = kwf_list xs"
| "kwf (KdbTable cols vals) = (is_symvec cols \<and> is_list vals \<and> kwf_opt vals)"
| "kwf (KdbDict keys vals) = (kwf_opt keys \<and> kwf_opt vals)"
| "kwf (KdbFunction v) = (v_cap v = length (v_vals v))"
| "kwf (KdbUnaryPrimitive v) = True"
| "kwf (KdbBinaryPrimitive v) = True"
| "kwf (KdbTernaryPrimitive v) = True"
| "kwf (KdbProjection cap xs) = kwf_list xs"
| "kwf_list [] = True"
| "kwf_list (x # xs) = (kwf x \<and> kwf_list xs)"
| "kwf_opt None = False"
| "kwf_opt (Some x) = kwf x"

text \<open>\<open>emit\<close>: skip the pieces sent before, send the following ones while they fit.\<close>

fun emit :: "bytes list \<Rightarrow> wbuf \<Rightarrow> WriteResult \<times> wbuf" where
  "emit [] b = (WR_OK, b)"
| "emit (u # us) b =
     (if wb_csr b < 0 then emit us (wb_ffwd (length u) b)
      else if length u \<le> wb_remaining b then emit us (wb_put u b)
      else (WR_INCOMPLETE, b))"

text \<open>A cursor is aligned when it stands between two pieces, or behind them.\<close>

fun aligned :: "int \<Rightarrow> bytes list \<Rightarrow> bool" where
  "aligned c [] = True"
| "aligned c (u # us) = (0 \<le> c \<or> (int (length u) \<le> - c \<and> aligned (c + int (length u)) us))"

definition wsum :: "bytes list \<Rightarrow> nat" where
  "wsum us = length (concat us)"

lemma wsum_simps [simp, wire_simps]:
  "wsum [] = 0" "wsum (u # us) = length u + wsum us" "wsum (us @ vs) = wsum us + wsum vs"
  by (simp_all add: wsum_def)

lemma aligned_nonneg [simp]: "0 \<le> c \<Longrightarrow> aligned c us"
  by (cases us) auto

lemma aligned_append [simp]:
  "aligned c (us @ vs) \<longleftrightarrow> aligned c us \<and> aligned (c + int (wsum us)) vs"
  by (induction us arbitrary: c) (auto simp: algebra_simps)

lemma emit_wf: "wb_wf b \<Longrightarrow> wb_wf (snd (emit us b))"
  by (induction us arbitrary: b) (auto simp: wb_wf_put)

lemma emit_ok_csr: "emit us b = (WR_OK, b') \<Longrightarrow> wb_csr b' = wb_csr b + int (wsum us)"
  by (induction us arbitrary: b) (auto split: if_splits)

lemma emit_cap: "wb_cap (snd (emit us b)) = wb_cap b"
  by (induction us arbitrary: b) auto

lemma emit_result: "fst (emit us b) = WR_OK \<or> fst (emit us b) = WR_INCOMPLETE"
  by (induction us arbitrary: b) auto

lemma emit_append:
  "Ret (emit (us @ vs) b) = wr_then (Ret (emit us b)) (\<lambda>b'. Ret (emit vs b'))"
  by (induction us arbitrary: b) (auto simp: wr_then_def)

lemma emit_Cons:
  "Ret (emit (u # us) b) = wr_then (Ret (emit [u] b)) (\<lambda>b'. Ret (emit us b'))"
  using emit_append [of "[u]" us b] by simp

text \<open>Sequencing two refined writers.\<close>

lemma wr_then_emit:
  assumes m: "m = Ret (emit us b)" and b: "wb_wf b"
    and f: "\<And>b'. wb_wf b' \<Longrightarrow> wb_csr b' = wb_csr b + int (wsum us) \<Longrightarrow> f b' = Ret (emit vs b')"
  shows "wr_then m f = Ret (emit (us @ vs) b)"
proof (cases "fst (emit us b) = WR_OK")
  case True
  then obtain b' where e: "emit us b = (WR_OK, b')"
    by (cases "emit us b") auto
  then have "f b' = Ret (emit vs b')"
    using f [of b'] emit_wf [OF b, of us] emit_ok_csr [OF e] by simp
  with e m show ?thesis by (simp add: emit_append wr_then_def)
next
  case False
  with m show ?thesis by (auto simp: emit_append wr_then_def split: prod.splits)
qed

section \<open>The methods refine the specification\<close>

lemma length_chunks [simp]: "length (chunks E n m) = n"
  by (induction n arbitrary: m) auto

lemma concat_chunks: "length m = n * E \<Longrightarrow> concat (chunks E n m) = m"
  by (induction n arbitrary: m) auto

lemma wsum_chunks: "length m = n * E \<Longrightarrow> wsum (chunks E n m) = n * E"
  by (simp add: wsum_def concat_chunks)

lemma drop_chunks: "k \<le> n \<Longrightarrow> drop k (chunks E n m) = chunks E (n - k) (drop (k * E) m)"
proof (induction k arbitrary: n m)
  case (Suc k)
  then obtain n' where "n = Suc n'" by (cases n) auto
  with Suc show ?case by (simp add: add.commute)
qed simp

lemma kvec_mem_length [simp, wire_simps]: "length (kvec_mem v) = kvec_count v * kvec_width v"
  by (cases v) simp_all

lemma kvec_width_pos [simp]: "0 < kvec_width v"
  by (cases v) simp_all

lemma kvec_wireSz_eq: "kvec_wireSz v = SZ_VEC_HDR + kvec_count v * kvec_width v"
  by (cases v) (simp_all add: vec_wire_sz_def)

lemma length_vec_hdr [simp, wire_simps]: "length (vec_hdr t a n) = SZ_VEC_HDR"
  by (simp add: vec_hdr_def)

text \<open>\<open>writeAry\<close> sends the elements that fit.\<close>

lemma emit_chunks_active:
  assumes "0 < E" "length m = n * E" "0 \<le> wb_csr b"
  shows "emit (chunks E n m) b =
    (if n \<le> wb_remaining b div E then WR_OK else WR_INCOMPLETE,
     wb_put (take (min n (wb_remaining b div E) * E) m) b)"
  using assms
proof (induction n arbitrary: m b)
  case (Suc n)
  let ?r = "wb_remaining b"
  have m: "length (take E m) = E" "length (drop E m) = n * E"
    using Suc.prems by auto
  show ?case
  proof (cases "E \<le> ?r")
    case True
    then have d: "?r div E = Suc ((?r - E) div E)"
      using Suc.prems(1) by (simp add: le_div_geq)
    have "emit (chunks E (Suc n) m) b = emit (chunks E n (drop E m)) (wb_put (take E m) b)"
      using True m Suc.prems by simp
    also have "\<dots> = (if n \<le> (?r - E) div E then WR_OK else WR_INCOMPLETE,
        wb_put (take E m @ take (min n ((?r - E) div E) * E) (drop E m)) b)"
      using Suc.prems m by (subst Suc.IH) (simp_all add: min_def)
    also have "take E m @ take (min n ((?r - E) div E) * E) (drop E m) =
        take (min (Suc n) (?r div E) * E) m"
      unfolding d min_Suc_Suc by (simp add: take_add)
    finally show ?thesis by (simp add: d)
  next
    case False
    then show ?thesis using Suc.prems m by simp
  qed
qed simp

lemma emit_skip_chunks:
  assumes "length m = n * E" "k \<le> n" "wb_csr b + int (k * E) \<le> 0" "0 < E"
  shows "emit (chunks E n m) b = emit (chunks E (n - k) (drop (k * E) m)) (wb_ffwd (k * E) b)"
  using assms
proof (induction k arbitrary: n m b)
  case (Suc k)
  then obtain n' where n: "n = Suc n'" by (cases n) auto
  have "int (Suc k * E) = int E + int (k * E)"
    by simp
  then have "wb_csr b < 0" and le: "wb_csr (wb_ffwd E b) + int (k * E) \<le> 0"
    using Suc.prems(3,4) by (simp_all del: mult_Suc of_nat_mult)
  moreover have "emit (chunks E n' (drop E m)) (wb_ffwd E b) =
    emit (chunks E (n' - k) (drop (k * E) (drop E m))) (wb_ffwd (k * E) (wb_ffwd E b))"
    using Suc.prems n le by (intro Suc.IH) auto
  ultimately show ?case using n Suc.prems by (simp add: add.commute)
qed simp

lemma aligned_chunks:
  assumes "aligned c (chunks E n m)" "length m = n * E" "c < 0"
  shows "n * E \<le> nat (- c) \<or> (\<exists>k\<le>n. nat (- c) = k * E)"
  using assms
proof (induction n arbitrary: c m)
  case (Suc n)
  have E: "int E \<le> - c" and al: "aligned (c + int E) (chunks E n (drop E m))"
    using Suc.prems by auto
  show ?case
  proof (cases "c + int E < 0")
    case True
    have "nat (- c) = E + nat (- (c + int E))"
      using E by simp
    then show ?thesis
      using Suc.IH [OF al _ True] Suc.prems(2) by (auto intro: exI [of _ "Suc _"])
  next
    case False
    then have "nat (- c) = 1 * E" using E by simp
    then show ?thesis by (metis Suc_le_mono One_nat_def le0)
  qed
qed simp

lemma write_ary_emit:
  assumes m: "length m = n * E" "0 < E" and al: "aligned (wb_csr b) (chunks E n m)"
    and skp: "skp = (if wb_csr b < 0 then min (nat (- wb_csr b)) (n * E) div E else 0)"
    and le: "skp \<le> n"
  shows "obind (wb_writeAry E m skp n (wb_ffwd (skp * E) b))
      (\<lambda>(wrt, b3). Ret (if skp + wrt < n then WR_INCOMPLETE else WR_OK, b3)) = Ret (emit (chunks E n m) b)"
proof -
  have done_case: "emit (chunks E n m) b = (WR_OK, wb_ffwd (n * E) b)" if "wb_csr b + int (n * E) \<le> 0"
    using emit_skip_chunks [OF m(1) order_refl that m(2)] by simp
  have go: ?thesis if c: "wb_csr b + int (skp * E) = 0 \<or> 0 \<le> wb_csr b \<and> skp = 0"
  proof -
    let ?b = "wb_ffwd (skp * E) b" and ?m = "drop (skp * E) m"
    have len: "length ?m = (n - skp) * E"
      using m by (simp add: diff_mult_distrib)
    have e: "emit (chunks E n m) b = emit (chunks E (n - skp) ?m) ?b"
      using c emit_skip_chunks [OF m(1) le _ m(2)] by auto
    also have "\<dots> = (if n - skp \<le> wb_remaining b div E then WR_OK else WR_INCOMPLETE,
        wb_put (take (min (n - skp) (wb_remaining b div E) * E) ?m) ?b)"
      using c by (subst emit_chunks_active [OF m(2) len]) auto
    finally have e: "emit (chunks E n m) b = \<dots>" .
    show ?thesis
    proof (cases "skp < n")
      case True
      have "(skp + min (n - skp) (wb_remaining b div E)) * E \<le> length m"
        unfolding m(1) using True min.cobounded1 [of "n - skp" "wb_remaining b div E"]
        by (intro mult_le_mono1) linarith
      moreover have "skp + min (n - skp) (wb_remaining b div E) < n \<longleftrightarrow> \<not> n - skp \<le> wb_remaining b div E"
        using True by linarith
      ultimately show ?thesis
        using True by (simp add: wb_writeAry_def Let_def e)
    next
      case False
      with le m e show ?thesis by (simp add: wb_writeAry_def)
    qed
  qed
  show ?thesis
  proof (cases "wb_csr b < 0")
    case True
    from aligned_chunks [OF al m(1) True] show ?thesis
    proof
      assume "n * E \<le> nat (- wb_csr b)"
      then have "wb_csr b + int (n * E) \<le> 0" "skp = n"
        using True m(2) skp by (simp_all del: of_nat_mult)
      then show ?thesis
        by (simp only: done_case) (simp add: wb_writeAry_def)
    next
      assume "\<exists>k\<le>n. nat (- wb_csr b) = k * E"
      then obtain k where k: "k \<le> n" "nat (- wb_csr b) = k * E" by blast
      then have "skp = k"
        using True m(2) by (simp add: skp min_absorb1 del: One_nat_def)
      then show ?thesis using k True by (intro go) (simp del: of_nat_mult)
    qed
  next
    case False
    then show ?thesis using skp by (intro go) auto
  qed
qed

lemma wb_writeAry_end [simp]: "n \<le> off \<Longrightarrow> wb_writeAry E m off n b = Ret (0, b)"
  by (simp add: wb_writeAry_def)

lemma write_vec_hdr_emit:
  "wb_wf b \<Longrightarrow> write_vec_hdr t a n b = (case emit [vec_hdr t a n] b of (r, b') \<Rightarrow> (r = WR_OK, b'))"
  by (simp add: write_vec_hdr_def wb_writeHdr_eq wb_active_def vec_hdr_def)

text \<open>One lemma per kind of object.\<close>

lemma writeIntAtom_emit:
  "wb_wf b \<Longrightarrow> writeIntAtom a b = emit [i8typ (atom_typ a) # atom_mem a] b"
  by (simp add: writeIntAtom_def wb_active_def wb_canWrite_remaining wb_writeTyp_def wb_write_def Let_def)

lemma writeStrAtom_emit:
  "wb_wf b \<Longrightarrow> writeStrAtom t s b = emit [i8typ t # s @ [0]] b"
  by (simp add: writeStrAtom_def wb_active_def wb_canWrite_remaining wb_writeTyp_def wb_write_def
      wb_writeSym_def Let_def)

lemma writePrimitive_emit:
  "wb_wf b \<Longrightarrow> writePrimitive t v b = emit [[i8typ t, v]] b"
  by (simp add: writePrimitive_def wb_active_def wb_canWrite_remaining wb_writeTyp_def wb_write_def)

lemma write_table_hdr_emit:
  "wb_wf b \<Longrightarrow> write_table_hdr b =
     (case emit [[i8typ TABLE, ATTR_NONE, i8typ DICT]] b of (r, b') \<Rightarrow> (r = WR_OK, b'))"
  by (simp add: write_table_hdr_def wb_active_def wb_canWrite_remaining wb_writeTyp_def wb_writeAtt_def
      wb_write_def Let_def)

lemma write_projection_hdr_emit:
  "wb_wf b \<Longrightarrow> write_projection_hdr n b =
     (case emit [i8typ PROJECTION # le SZ_INT n] b of (r, b') \<Rightarrow> (r = WR_OK, b'))"
  by (simp add: write_projection_hdr_def wb_active_def wb_canWrite_remaining wb_writeTyp_def
      wb_write_def Let_def)

lemma write_dict_typ_emit:
  "(if wb_active b then wb_writeTyp DICT b else (True, wb_ffwd SZ_BYTE b)) =
     (case emit [[i8typ DICT]] b of (r, b') \<Rightarrow> (r = WR_OK, b'))"
  by (auto simp: wb_active_def wb_writeTyp_def wb_write_def)

text \<open>A header followed by the rest of the object.\<close>

lemma hdr_then_emit:
  assumes h: "h = (case emit [u] b of (r, b') \<Rightarrow> (r = WR_OK, b'))" and b: "wb_wf b"
    and f: "\<And>b'. wb_wf b' \<Longrightarrow> wb_csr b' = wb_csr b + int (length u) \<Longrightarrow> f b' = Ret (emit us b')"
  shows "(let (ok, b1) = h in if \<not> ok then Ret (WR_INCOMPLETE, b1) else f b1) = Ret (emit (u # us) b)"
proof -
  have "wr_then (Ret (emit [u] b)) f = Ret (emit ([u] @ us) b)"
    by (rule wr_then_emit) (auto intro: b f)
  then show ?thesis
    using emit_result [of "[u]" b] by (auto simp: h wr_then_def split: prod.splits simp del: emit.simps)
qed

lemma writeIntVector_emit:
  assumes "wb_wf b" "aligned (wb_csr b) (units (KdbVector v))"
  shows "writeIntVector v b = Ret (emit (units (KdbVector v)) b)"
  unfolding writeIntVector_def units.simps
proof (rule hdr_then_emit [OF write_vec_hdr_emit [OF assms(1)] assms(1)])
  fix b' assume b': "wb_wf b'"
    "wb_csr b' = wb_csr b + int (length (vec_hdr (vec_typ v) (vec_attr v) (kvec_count v)))"
  define skp where "skp = (if wb_csr b' < 0
    then min (nat (- wb_csr b')) (kvec_count v * kvec_width v) div kvec_width v else 0)"
  have "aligned (wb_csr b') (chunks (kvec_width v) (kvec_count v) (kvec_mem v))"
    using assms(2) b'(2) by auto
  moreover have le: "skp \<le> kvec_count v"
    using div_le_mono [OF min.cobounded2 [of "nat (- wb_csr b')" "kvec_count v * kvec_width v"],
        of "kvec_width v"] by (simp add: skp_def)
  ultimately have *: "obind (wb_writeAry (kvec_width v) (kvec_mem v) skp (kvec_count v) (wb_ffwd (skp * kvec_width v) b'))
      (\<lambda>(wrt, b3). Ret (if skp + wrt < kvec_count v then WR_INCOMPLETE else WR_OK, b3)) =
      Ret (emit (chunks (kvec_width v) (kvec_count v) (kvec_mem v)) b')"
    by (intro write_ary_emit) (auto simp: skp_def)
  have ff: "(if 0 < skp then wb_ffwd (skp * kvec_width v) b' else b') = wb_ffwd (skp * kvec_width v) b'"
    by simp
  show "(let n = kvec_count v; E = kvec_width v; off = wb_csr b';
             skp = if off < 0 then min (nat (- off)) (n * E) div E else 0;
             b2 = if 0 < skp then wb_ffwd (skp * E) b' else b'
         in if skp < n
            then obind (wb_writeAry E (kvec_mem v) skp n b2)
                  (\<lambda>(wrt, b3). Ret (if skp + wrt < n then WR_INCOMPLETE else WR_OK, b3))
            else Ret (WR_OK, b2)) =
        Ret (emit (chunks (kvec_width v) (kvec_count v) (kvec_mem v)) b')"
    unfolding Let_def skp_def [symmetric] ff
    using * le by (cases "skp < kvec_count v") (simp_all only: if_True if_False, simp)
qed

lemma writeSymVector_emit:
  assumes "wb_wf b" "aligned (wb_csr b) (units (KdbSymbolVector v))"
  shows "writeSymVector v b = Ret (emit (units (KdbSymbolVector v)) b)"
  unfolding writeSymVector_def units.simps
proof (rule hdr_then_emit [OF write_vec_hdr_emit [OF assms(1)] assms(1)])
  fix b' assume b': "wb_wf b'"
    "wb_csr b' = wb_csr b + int (length (vec_hdr SYMBOL_VECTOR (sv_attr v) (length (sv_locs v))))"
  let ?n = "length (sv_data v)"
  define skp where "skp = (if wb_csr b' < 0 then min (nat (- wb_csr b')) ?n else 0)"
  have "aligned (wb_csr b') (chunks 1 ?n (sv_data v))"
    using assms(2) b'(2) by auto
  moreover have le: "skp \<le> ?n" by (simp add: skp_def)
  ultimately have *: "obind (wb_writeAry 1 (sv_data v) skp ?n (wb_ffwd (skp * 1) b'))
      (\<lambda>(wrt, b3). Ret (if skp + wrt < ?n then WR_INCOMPLETE else WR_OK, b3)) =
      Ret (emit (chunks 1 ?n (sv_data v)) b')"
    by (intro write_ary_emit) (auto simp: skp_def)
  have ff: "(if wb_csr b' < 0 then wb_ffwd skp b' else b') = wb_ffwd skp b'"
    by (simp add: skp_def)
  show "(let n = ?n; off = wb_csr b';
             skp = if off < 0 then min (nat (- off)) n else 0;
             b2 = if off < 0 then wb_ffwd skp b' else b'
         in if skp < n
            then obind (wb_writeAry 1 (sv_data v) skp n b2)
                  (\<lambda>(wrt, b3). Ret (if wrt + skp < n then WR_INCOMPLETE else WR_OK, b3))
            else Ret (WR_OK, b2)) = Ret (emit (chunks 1 ?n (sv_data v)) b')"
    unfolding Let_def skp_def [symmetric] ff add.commute [of _ skp]
    using * le by (cases "skp < ?n") (simp_all only: if_True if_False mult_1_right, simp)
qed

lemma write_function_hdr_emit:
  "wb_wf b \<Longrightarrow> write_function_hdr n b =
     (case emit [i8typ FUNCTION # ATTR_NONE # vec_hdr CHAR_VECTOR ATTR_NONE n] b of (r, b') \<Rightarrow> (r = WR_OK, b'))"
  by (simp add: write_function_hdr_def wb_active_def wb_canWrite_remaining wb_writeTyp_def wb_writeAtt_def
      wb_write_def wb_writeHdr_eq Let_def vec_hdr_def)

lemma writeAry_bound:
  "wb_writeAry E m off n b = Ret (wrt, b') \<Longrightarrow> off \<le> n \<Longrightarrow> off + wrt \<le> n"
  by (auto simp: wb_writeAry_def Let_def split: if_splits)

lemma writeFunction_emit:
  assumes "wb_wf b" "aligned (wb_csr b) (units (KdbFunction v))" "v_cap v = length (v_vals v)"
  shows "writeFunction v b = Ret (emit (units (KdbFunction v)) b)"
  unfolding writeFunction_def units.simps
proof (rule hdr_then_emit [OF write_function_hdr_emit [OF assms(1)] assms(1)])
  let ?n = "length (v_vals v)" and ?m = "words_mem (v_vals v)"
  fix b' assume b': "wb_wf b'" "wb_csr b' = wb_csr b +
    int (length (i8typ FUNCTION # ATTR_NONE # vec_hdr CHAR_VECTOR ATTR_NONE ?n))"
  define skp where "skp = (if wb_csr b' < 0 then min (nat (- wb_csr b')) ?n else 0)"
  have "aligned (wb_csr b') (chunks 1 ?n ?m)"
    using assms(2) b'(2) by (auto simp: add.commute)
  moreover have le: "skp \<le> ?n" by (simp add: skp_def)
  ultimately have *: "obind (wb_writeAry 1 ?m skp ?n (wb_ffwd (skp * 1) b'))
      (\<lambda>(wrt, b3). Ret (if skp + wrt < ?n then WR_INCOMPLETE else WR_OK, b3)) = Ret (emit (chunks 1 ?n ?m) b')"
    by (intro write_ary_emit) (auto simp: skp_def)
  have skp: "(if wb_csr b' \<ge> 0 then 0 else min (nat (- wb_csr b')) ?n) = skp"
    by (simp add: skp_def)
  have ff: "(if 0 < skp then wb_ffwd skp b' else b') = wb_ffwd (skp * 1) b'"
    by simp
  have res: "obind (wb_writeAry 1 ?m skp ?n d) (\<lambda>(wrt, b3). Ret (if skp + wrt = ?n then WR_OK else WR_INCOMPLETE, b3)) =
    obind (wb_writeAry 1 ?m skp ?n d) (\<lambda>(wrt, b3). Ret (if skp + wrt < ?n then WR_INCOMPLETE else WR_OK, b3))" for d
    by (rule obind_cong) (auto dest: writeAry_bound [OF _ le])
  show "(let n = ?n; off = wb_csr b'; skp = if off \<ge> 0 then 0 else min (nat (- off)) n;
             b2 = if 0 < skp then wb_ffwd skp b' else b'
         in obind (wb_writeAry 1 ?m skp (v_cap v) b2)
              (\<lambda>(wrt, b3). Ret (if skp + wrt = n then WR_OK else WR_INCOMPLETE, b3))) =
        Ret (emit (chunks 1 ?n ?m) b')"
    unfolding Let_def skp ff assms(3) res by (rule *)
qed

lemma units_opt_some: "kwf_opt p \<Longrightarrow> \<exists>x. p = Some x \<and> kwf x"
  by (cases p) auto

lemma kwf_symvec: "is_symvec p \<Longrightarrow> \<exists>v. p = Some (KdbSymbolVector v)"
  by (cases p rule: is_symvec.cases) auto

lemma aligned_tail:
  "aligned c (u # us) \<Longrightarrow> c' = c + int (length u) \<Longrightarrow> aligned c' us"
  by auto

lemma two_parts_emit:
  assumes h: "h = (case emit [u] b of (r, b') \<Rightarrow> (r = WR_OK, b'))" and b: "wb_wf b"
    and al: "aligned (wb_csr b) (u # us @ vs)"
    and f: "\<And>b'. wb_wf b' \<Longrightarrow> aligned (wb_csr b') us \<Longrightarrow> f b' = Ret (emit us b')"
    and g: "\<And>b'. wb_wf b' \<Longrightarrow> aligned (wb_csr b') vs \<Longrightarrow> g b' = Ret (emit vs b')"
  shows "(let (ok, b1) = h in if \<not> ok then Ret (WR_INCOMPLETE, b1) else wr_then (f b1) (\<lambda>b2. g b2)) =
    Ret (emit (u # us @ vs) b)"
proof (rule hdr_then_emit [OF h b])
  fix b1 assume b1: "wb_wf b1" "wb_csr b1 = wb_csr b + int (length u)"
  then have "aligned (wb_csr b1) us" and vs: "aligned (wb_csr b1 + int (wsum us)) vs"
    using aligned_tail [OF al b1(2)] by auto
  then show "wr_then (f b1) (\<lambda>b2. g b2) = Ret (emit (us @ vs) b1)"
    using b1(1) by (intro wr_then_emit f g) auto
qed

lemma kwrite_emit:
  "kwf x \<Longrightarrow> (\<And>b. wb_wf b \<Longrightarrow> aligned (wb_csr b) (units x) \<Longrightarrow> kwrite x b = Ret (emit (units x) b))"
  "kwf_list xs \<Longrightarrow> (\<And>b. wb_wf b \<Longrightarrow> aligned (wb_csr b) (units_list xs) \<Longrightarrow>
     kwrite_elems xs b = Ret (emit (units_list xs) b))"
  "kwf_opt p \<Longrightarrow> (\<And>b. wb_wf b \<Longrightarrow> aligned (wb_csr b) (units_opt p) \<Longrightarrow>
     kwrite (the p) b = Ret (emit (units_opt p) b))"
proof (induction x and xs and p rule: kwf_kwf_list_kwf_opt.induct)
  case (6 attr cap xs)
  then show ?case
    unfolding kwrite.simps units.simps
    by (intro hdr_then_emit [OF write_vec_hdr_emit]) (auto simp del: length_vec_hdr)
next
  case (7 cols vals)
  then obtain c v where cv: "cols = Some (KdbSymbolVector c)" "vals = Some v"
    using units_opt_some kwf_symvec by (metis kwf.simps(7))
  show ?case
    unfolding cv kwrite.simps(9) units.simps(7) units_opt.simps
    by (rule two_parts_emit [OF write_table_hdr_emit [OF 7(3)] 7(3)])
      (use 7 cv writeSymVector_emit in \<open>auto simp del: units.simps(5) emit.simps\<close>)
next
  case (8 keys vals)
  then obtain k v where kv: "keys = Some k" "vals = Some v"
    using units_opt_some by (metis kwf.simps(8))
  show ?case
    unfolding kv kwrite.simps(12) units.simps(8) units_opt.simps
    by (rule two_parts_emit [OF write_dict_typ_emit 8(4)])
      (use 8 kv in \<open>auto simp del: emit.simps\<close>)
next
  case (13 cap xs)
  then show ?case
    unfolding kwrite.simps units.simps
    by (intro hdr_then_emit [OF write_projection_hdr_emit]) (auto simp: add.commute)
next
  case (15 x xs)
  then show ?case
    unfolding kwrite_elems.simps units_list.simps
    by (intro wr_then_emit) auto
qed (simp_all add: writeIntAtom_emit writeStrAtom_emit writePrimitive_emit writeIntVector_emit
      writeSymVector_emit writeFunction_emit del: emit.simps(2) units.simps(4,5,9)
      add: units.simps(1-3,10-12))

text \<open>C3. Every \<open>write\<close> method sends the pieces of its object, in order, skipping exactly those
  the cursor says were sent before, until one does not fit: an object is never written in part
  beyond a piece boundary and the calls resume where the last one stopped.\<close>

theorem kwrite_refines:
  assumes "kwf x" "wb_wf b" "aligned (wb_csr b) (units x)"
  shows "kwrite x b = Ret (emit (units x) b)"
  using kwrite_emit(1) assms .

section \<open>Sizes\<close>

lemma chunks_nonempty: "length m = n * E \<Longrightarrow> 0 < E \<Longrightarrow> [] \<notin> set (chunks E n m)"
  by (induction n arbitrary: m) auto

lemma units_nonempty:
  "[] \<notin> set (units x)" "[] \<notin> set (units_list xs)" "[] \<notin> set (units_opt p)"
  by (induction x and xs and p rule: units_units_list_units_opt.induct)
    (auto simp: vec_hdr_def dest: chunks_nonempty [THEN notE, rotated 2])

lemma wireSz_enc:
  "kwf x \<Longrightarrow> wireSz x = Ret (wsum (units x))"
  "kwf_list xs \<Longrightarrow> (\<And>n. wireSz_sum n xs = Ret (n + wsum (units_list xs)))"
  "kwf_opt p \<Longrightarrow> wireSz (the p) = Ret (wsum (units_opt p))"
proof (induction x and xs and p rule: kwf_kwf_list_kwf_opt.induct)
  case (7 cols vals)
  then obtain c v where cv: "cols = Some (KdbSymbolVector c)" "vals = Some v"
    using units_opt_some kwf_symvec by (metis kwf.simps(7))
  then show ?case using 7
    by (auto simp: sv_wireSz_def wsum_chunks)
next
  case (8 keys vals)
  then obtain k v where kv: "keys = Some k" "vals = Some v"
    using units_opt_some by (metis kwf.simps(8))
  then show ?case using 8 by auto
qed (auto simp: kvec_wireSz_eq wsum_chunks sv_wireSz_def)

text \<open>C35. \<open>wireSz\<close> is the number of bytes \<open>write\<close> sends: the length of the wire image.\<close>

theorem wireSz_exact:
  assumes "kwf x"
  shows "wireSz x = Ret (length (enc x))"
  using wireSz_enc(1) [OF assms] by (simp add: enc_def wsum_def)

text \<open>How many pieces fit into \<open>r\<close> bytes.\<close>

fun fit :: "nat \<Rightarrow> bytes list \<Rightarrow> nat" where
  "fit r [] = 0"
| "fit r (u # us) = (if length u \<le> r then Suc (fit (r - length u) us) else 0)"

lemma fit_le: "fit r us \<le> length us"
  by (induction us arbitrary: r) auto

lemma fit_bound: "wsum (take (fit r us) us) \<le> r"
proof (induction us arbitrary: r)
  case (Cons u us)
  have "wsum (take (fit (r - length u) us) us) \<le> r - length u"
    by (rule Cons.IH)
  then show ?case by (cases "length u \<le> r") simp_all
qed simp

lemma fit_progress: "us \<noteq> [] \<Longrightarrow> (\<And>u. u \<in> set us \<Longrightarrow> length u \<le> r) \<Longrightarrow> 0 < fit r us"
  by (cases us) auto

lemma emit_active:
  "0 \<le> wb_csr b \<Longrightarrow> emit us b =
    (if fit (wb_remaining b) us = length us then WR_OK else WR_INCOMPLETE,
     wb_put (concat (take (fit (wb_remaining b) us) us)) b)"
  by (induction us arbitrary: b) auto

lemma emit_resume:
  "k \<le> length us \<Longrightarrow> wb_csr b = - int (wsum (take k us)) \<Longrightarrow>
   emit us b = emit (drop k us) (wb_ffwd (wsum (take k us)) b)"
proof (induction k arbitrary: us b)
  case (Suc k)
  then obtain u us' where us: "us = u # us'" by (cases us) auto
  show ?case
  proof (cases "wb_csr b < 0")
    case True
    have "emit us' (wb_ffwd (length u) b) =
      emit (drop k us') (wb_ffwd (wsum (take k us')) (wb_ffwd (length u) b))"
      using Suc us by (intro Suc.IH) auto
    then show ?thesis using True us by simp
  next
    case False
    then have "length u + wsum (take k us') = 0"
      using Suc.prems us by (simp only: wsum_simps take_Suc_Cons)
    then have 0: "length u = 0" "wsum (take k us') = 0" "wb_csr b = 0"
      using Suc.prems us by simp_all
    have "emit us' b = emit (drop k us') (wb_ffwd (wsum (take k us')) b)"
      using Suc.prems 0 us by (intro Suc.IH) auto
    then show ?thesis using 0 us by simp
  qed
qed simp

lemma aligned_at: "k \<le> length us \<Longrightarrow> aligned (- int (wsum (take k us))) us"
proof (induction us arbitrary: k)
  case (Cons u us)
  then show ?case by (cases k) auto
qed simp

text \<open>A table with one integer column \<open>a\<close>, for the witnesses.\<close>

definition sample_table :: kobj where
  "sample_table = KdbTable (Some (KdbSymbolVector (sv_of_vals [[97]] ATTR_NONE)))
     (Some (KdbList ATTR_NONE 1 [KdbVector (KdbIntVector ATTR_NONE (vec_of [1, 2]))]))"

lemma sample_table_kwf [simp]: "kwf sample_table"
  by (simp add: sample_table_def)

lemma sample_table_units:
  "units sample_table =
     [[98, 0, 99], [11, 0, 1, 0, 0, 0], [97], [0], [0, 0, 1, 0, 0, 0], [6, 0, 2, 0, 0, 0],
      [1, 0, 0, 0], [2, 0, 0, 0]]"
  by code_simp

theorem kwrite_refines_witness:
  "kwrite sample_table (wb_new 10 (-9)) = Ret (emit (units sample_table) (wb_new 10 (-9)))"
  by (rule kwrite_refines) (simp_all add: sample_table_units wb_new_def wb_wf_def)

theorem wireSz_exact_witness: "wireSz sample_table = Ret (length (enc sample_table))"
  by (rule wireSz_exact) simp

end
