(* ===== verification/Kdb_Read.thy ===== *)
theory Kdb_Read
  imports Kdb_Write
begin

text \<open>
  \<open>newInstance\<close> and the \<open>read\<close> methods of \<^verbatim>\<open>ipc++/src/KdbType.C\<close>. A read works on the object
  an earlier call left behind and on a buffer whose cursor is minus the bytes that call and
  those before it have consumed; it skips over them and goes on. The mutual recursion of the
  methods ends because every object allocated on the way consumes at least one byte of the
  buffer, which the termination proof below establishes.
\<close>

section \<open>Reading leaves\<close>

definition skip_hdr :: "nat \<Rightarrow> rbuf \<Rightarrow> rbuf" where
  "skip_hdr n b = (if \<not> rb_active b then rb_ffwd n b else b)"

definition readIntAtom :: "katom \<Rightarrow> rbuf \<Rightarrow> ReadResult \<times> katom \<times> rbuf" where
  "readIntAtom a b =
     (let b1 = skip_hdr SZ_BYTE b; n = length (atom_mem a)
      in if rb_active b1
         then if rb_remaining b1 < n then (RD_INCOMPLETE, a, b1)
              else let (bs, b2) = rb_read n b1 in (RD_OK, atom_store a bs, b2)
         else (RD_OK, a, rb_ffwd n b1))"

text \<open>\<open>KdbException::read\<close> and \<open>KdbSymbolAtom::read\<close>.\<close>

definition readStrAtom :: "bytes \<Rightarrow> rbuf \<Rightarrow> ReadResult \<times> bytes \<times> rbuf" where
  "readStrAtom val b =
     (let b1 = skip_hdr SZ_BYTE b
      in if rb_active b1 then rb_readSym val b1
         else (RD_OK, val, rb_ffwd (length val + SZ_BYTE) b1))"

text \<open>\<open>ReadBuf::read(std::vector<T> &, count)\<close> for elements of \<open>E\<close> bytes.\<close>

definition rb_readVec :: "nat \<Rightarrow> nat \<Rightarrow> rbuf \<Rightarrow> nat \<times> bytes \<times> rbuf" where
  "rb_readVec E count b =
     (let rqd = E * count
      in if rb_remaining b < rqd then (0, [], b) else (count, rb_peek rqd b, rb_adj (E * count) b))"

text \<open>\<open>m_vec.insert(end, \<dots>)\<close> of the elements whose memory is \<open>bs\<close>.\<close>

definition vec_insert :: "'a::len word vec \<Rightarrow> bytes \<Rightarrow> 'a word vec" where
  "vec_insert v bs = vec_append v (words_of (length bs div sizeof TYPE('a)) bs)"

fun kvec_insert :: "kvec \<Rightarrow> bytes \<Rightarrow> kvec" where
  "kvec_insert (KdbBoolVector a v) bs = KdbBoolVector a (vec_insert v bs)"
| "kvec_insert (KdbGuidVector a v) bs = KdbGuidVector a (vec_insert v bs)"
| "kvec_insert (KdbByteVector a v) bs = KdbByteVector a (vec_insert v bs)"
| "kvec_insert (KdbShortVector a v) bs = KdbShortVector a (vec_insert v bs)"
| "kvec_insert (KdbIntVector a v) bs = KdbIntVector a (vec_insert v bs)"
| "kvec_insert (KdbLongVector a v) bs = KdbLongVector a (vec_insert v bs)"
| "kvec_insert (KdbRealVector a v) bs = KdbRealVector a (vec_insert v bs)"
| "kvec_insert (KdbFloatVector a v) bs = KdbFloatVector a (vec_insert v bs)"
| "kvec_insert (KdbCharVector a v) bs = KdbCharVector a (vec_insert v bs)"
| "kvec_insert (KdbTimestampVector a v) bs = KdbTimestampVector a (vec_insert v bs)"
| "kvec_insert (KdbMonthVector a v) bs = KdbMonthVector a (vec_insert v bs)"
| "kvec_insert (KdbDateVector a v) bs = KdbDateVector a (vec_insert v bs)"
| "kvec_insert (KdbTimespanVector a v) bs = KdbTimespanVector a (vec_insert v bs)"
| "kvec_insert (KdbMinuteVector a v) bs = KdbMinuteVector a (vec_insert v bs)"
| "kvec_insert (KdbSecondVector a v) bs = KdbSecondVector a (vec_insert v bs)"
| "kvec_insert (KdbTimeVector a v) bs = KdbTimeVector a (vec_insert v bs)"

definition readIntVector :: "kvec \<Rightarrow> rbuf \<Rightarrow> ReadResult \<times> kvec \<times> rbuf" where
  "readIntVector v b =
     (let b1 = skip_hdr SZ_VEC_HDR b; E = kvec_width v; cap = kvec_cap v; len = kvec_count v;
          b2 = rb_ffwd (E * len) b1
      in if len = cap then (RD_OK, v, b2)
         else let elm = min (cap - len) (rb_remaining b2 div E)
              in if 0 < elm
                 then let (got, bs, b3) = rb_readVec E elm b2; v' = kvec_insert v bs
                      in if elm \<noteq> got then (RD_INCOMPLETE, v, b2)
                         else (if kvec_cap v = kvec_count v' then RD_OK else RD_INCOMPLETE, v', b3)
                 else (if kvec_cap v = len then RD_OK else RD_INCOMPLETE, v, b2))"

definition readSymVector :: "symvec \<Rightarrow> rbuf \<Rightarrow> ReadResult \<times> symvec \<times> rbuf" where
  "readSymVector v b =
     (let b1 = skip_hdr (SZ_BYTE + SZ_VEC_META) b; cap = sv_cap v; len = length (sv_locs v);
          rqd = cap - len; b2 = rb_ffwd (length (sv_data v)) b1
      in if len = cap then (RD_OK, v, b2) else rb_readSyms rqd v b2)"

definition readFunction :: "u8 vec \<Rightarrow> rbuf \<Rightarrow> ReadResult \<times> u8 vec \<times> rbuf" where
  "readFunction v b =
     (let b1 = skip_hdr (SZ_BYTE + SZ_BYTE + SZ_VEC_HDR) b; len = length (v_vals v);
          b2 = rb_ffwd len b1
      in if len = v_cap v then (RD_OK, v, b2)
         else let rqd = v_cap v - len; elm = min rqd (rb_remaining b2)
              in if 0 < elm
                 then let (got, bs, b3) = rb_readVec 1 elm b2
                      in (if rqd = got then RD_OK else RD_INCOMPLETE, vec_insert v bs, b3)
                 else (RD_INCOMPLETE, v, b2))"

definition readPrimitive :: "u8 \<Rightarrow> rbuf \<Rightarrow> ReadResult \<times> u8 \<times> rbuf" where
  "readPrimitive val b =
     (let b1 = skip_hdr SZ_BYTE b
      in if rb_active b1
         then if \<not> rb_canRead b1 SZ_BYTE then (RD_INCOMPLETE, val, b1)
              else let (bs, b2) = rb_read SZ_BYTE b1 in (RD_OK, hd bs, b2)
         else (RD_OK, val, rb_ffwd SZ_BYTE b1))"

section \<open>newInstance\<close>

text \<open>The instance made (\<open>*ptr\<close>) is given when the result is \<open>RD_OK\<close>.\<close>

type_synonym made = "(ReadResult \<times> kobj option \<times> rbuf) outcome"

definition newAtomFromType :: "kobj \<Rightarrow> rbuf \<Rightarrow> made" where
  "newAtomFromType t b = Ret (RD_OK, Some t, snd (rb_read SZ_BYTE b))"

text \<open>\<open>newVec32<T>\<close>; \<open>mk\<close> is the constructor of \<open>T\<close>, whose \<open>std::vector\<close> member throws when a
  negative count has become a huge unsigned one.\<close>

definition newVec32 :: "(nat \<Rightarrow> KdbAttr \<Rightarrow> kobj) \<Rightarrow> rbuf \<Rightarrow> made" where
  "newVec32 mk b =
     (if \<not> rb_canRead b SZ_VEC_HDR then Ret (RD_INCOMPLETE, None, b)
      else let (_, b1) = rb_read SZ_BYTE b; (att, b2) = rb_read SZ_BYTE b1;
               (len, b3) = rb_read SZ_INT b2; n = (of_mem len :: u32)
           in if sint n < 0 then Throw LengthError else Ret (RD_OK, Some (mk (unat n) (hd att)), b3))"

definition table_alloc :: "rbuf \<Rightarrow> made" where
  "table_alloc b =
     (if \<not> rb_canRead b (SZ_BYTE + SZ_BYTE + SZ_BYTE) then Ret (RD_INCOMPLETE, None, b)
      else let (_, b1) = rb_read SZ_BYTE b; (_, b2) = rb_read SZ_BYTE b1; (_, b3) = rb_read SZ_BYTE b2
           in Ret (RD_OK, Some (KdbTable None None), b3))"

definition function_alloc :: "rbuf \<Rightarrow> made" where
  "function_alloc b =
     (let SZ_PROLOGUE = SZ_BYTE + SZ_BYTE + SZ_VEC_HDR
      in if \<not> rb_canRead b SZ_PROLOGUE then Ret (RD_INCOMPLETE, None, b)
         else let (_, b1) = rb_read SZ_BYTE b; (_, b2) = rb_read SZ_BYTE b1;
                  (ctyp, b3) = rb_read SZ_BYTE b2; (_, b4) = rb_read SZ_BYTE b3;
                  (len, b5) = rb_read SZ_INT b4; n = (of_mem len :: u32)
              in if hd ctyp \<noteq> i8typ CHAR_VECTOR \<or> sint n < 0 then Ret (RD_ERR_IPC, None, b5)
                 else Ret (RD_OK, Some (function_new (unat n)), b5))"

definition projection_alloc :: "rbuf \<Rightarrow> made" where
  "projection_alloc b =
     (if \<not> rb_canRead b (SZ_BYTE + SZ_INT) then Ret (RD_INCOMPLETE, None, b)
      else let (_, b1) = rb_read SZ_BYTE b; (len, b2) = rb_read SZ_INT b1; n = (of_mem len :: u32)
           in if sint n < 0 then Ret (RD_ERR_IPC, None, b2)
              else Ret (RD_OK, Some (projection_new (unat n)), b2))"

text \<open>The switch of \<open>newInstance\<close>; the last three lines are its default.\<close>

fun new_by_type :: "KdbType \<Rightarrow> rbuf \<Rightarrow> made" where
  "new_by_type EXCEPTION = newAtomFromType (KdbException [])"
| "new_by_type TIME_ATOM = newAtomFromType (KdbAtom (KdbTimeAtom 0))"
| "new_by_type SECOND_ATOM = newAtomFromType (KdbAtom (KdbSecondAtom 0))"
| "new_by_type MINUTE_ATOM = newAtomFromType (KdbAtom (KdbMinuteAtom 0))"
| "new_by_type TIMESPAN_ATOM = newAtomFromType (KdbAtom (KdbTimespanAtom 0))"
| "new_by_type DATE_ATOM = newAtomFromType (KdbAtom (KdbDateAtom 0))"
| "new_by_type MONTH_ATOM = newAtomFromType (KdbAtom (KdbMonthAtom 0))"
| "new_by_type TIMESTAMP_ATOM = newAtomFromType (KdbAtom (KdbTimestampAtom 0))"
| "new_by_type SYMBOL_ATOM = newAtomFromType (KdbSymbolAtom [])"
| "new_by_type CHAR_ATOM = newAtomFromType (KdbAtom (KdbCharAtom 0))"
| "new_by_type FLOAT_ATOM = newAtomFromType (KdbAtom (KdbFloatAtom 0))"
| "new_by_type REAL_ATOM = newAtomFromType (KdbAtom (KdbRealAtom 0))"
| "new_by_type LONG_ATOM = newAtomFromType (KdbAtom (KdbLongAtom 0))"
| "new_by_type INT_ATOM = newAtomFromType (KdbAtom (KdbIntAtom 0))"
| "new_by_type SHORT_ATOM = newAtomFromType (KdbAtom (KdbShortAtom 0))"
| "new_by_type BYTE_ATOM = newAtomFromType (KdbAtom (KdbByteAtom 0))"
| "new_by_type GUID_ATOM = newAtomFromType (KdbAtom (KdbGuidAtom 0))"
| "new_by_type BOOL_ATOM = newAtomFromType (KdbAtom (KdbBoolAtom 0))"
| "new_by_type LIST = newVec32 (\<lambda>n att. KdbList att n [])"
| "new_by_type BOOL_VECTOR = newVec32 (\<lambda>n att. KdbVector (KdbBoolVector att (vec_reserved n)))"
| "new_by_type GUID_VECTOR = newVec32 (\<lambda>n att. KdbVector (KdbGuidVector att (vec_reserved n)))"
| "new_by_type BYTE_VECTOR = newVec32 (\<lambda>n att. KdbVector (KdbByteVector att (vec_reserved n)))"
| "new_by_type SHORT_VECTOR = newVec32 (\<lambda>n att. KdbVector (KdbShortVector att (vec_reserved n)))"
| "new_by_type INT_VECTOR = newVec32 (\<lambda>n att. KdbVector (KdbIntVector att (vec_reserved n)))"
| "new_by_type LONG_VECTOR = newVec32 (\<lambda>n att. KdbVector (KdbLongVector att (vec_reserved n)))"
| "new_by_type REAL_VECTOR = newVec32 (\<lambda>n att. KdbVector (KdbRealVector att (vec_reserved n)))"
| "new_by_type FLOAT_VECTOR = newVec32 (\<lambda>n att. KdbVector (KdbFloatVector att (vec_reserved n)))"
| "new_by_type CHAR_VECTOR = newVec32 (\<lambda>n att. KdbVector (KdbCharVector att (vec_reserved n)))"
| "new_by_type SYMBOL_VECTOR = newVec32 (\<lambda>n att. KdbSymbolVector (sv_new n att))"
| "new_by_type TIMESTAMP_VECTOR = newVec32 (\<lambda>n att. KdbVector (KdbTimestampVector att (vec_reserved n)))"
| "new_by_type MONTH_VECTOR = newVec32 (\<lambda>n att. KdbVector (KdbMonthVector att (vec_reserved n)))"
| "new_by_type DATE_VECTOR = newVec32 (\<lambda>n att. KdbVector (KdbDateVector att (vec_reserved n)))"
| "new_by_type TIMESPAN_VECTOR = newVec32 (\<lambda>n att. KdbVector (KdbTimespanVector att (vec_reserved n)))"
| "new_by_type MINUTE_VECTOR = newVec32 (\<lambda>n att. KdbVector (KdbMinuteVector att (vec_reserved n)))"
| "new_by_type SECOND_VECTOR = newVec32 (\<lambda>n att. KdbVector (KdbSecondVector att (vec_reserved n)))"
| "new_by_type TIME_VECTOR = newVec32 (\<lambda>n att. KdbVector (KdbTimeVector att (vec_reserved n)))"
| "new_by_type TABLE = table_alloc"
| "new_by_type DICT = newAtomFromType (KdbDict None None)"
| "new_by_type FUNCTION = function_alloc"
| "new_by_type UNARY_PRIMITIVE = newAtomFromType (KdbUnaryPrimitive 0)"
| "new_by_type BINARY_PRIMITIVE = newAtomFromType (KdbBinaryPrimitive 0)"
| "new_by_type TERNARY_PRIMITIVE = newAtomFromType (KdbTernaryPrimitive 0)"
| "new_by_type PROJECTION = projection_alloc"
| "new_by_type STEP_DICT = newAtomFromType (KdbDict None None)"
| "new_by_type DATETIME_ATOM = (\<lambda>b. Ret (RD_ERR_LOGIC, None, b))"
| "new_by_type DATETIME_VECTOR = (\<lambda>b. Ret (RD_ERR_LOGIC, None, b))"
| "new_by_type UNSET_TYPE = (\<lambda>b. Ret (RD_ERR_LOGIC, None, b))"

text \<open>The branch of \<open>newInstance\<close> for an active cursor.\<close>

definition new_active :: "rbuf \<Rightarrow> made" where
  "new_active b =
     (if \<not> rb_canRead b SZ_BYTE then Ret (RD_INCOMPLETE, None, b)
      else case kdb_type_of_i8 (hd (rb_peek SZ_BYTE b)) of
             None \<Rightarrow> Ret (RD_ERR_LOGIC, None, b)
           | Some t \<Rightarrow> new_by_type t b)"

text \<open>\<open>newInstance(buf, &obj)\<close> with a local \<open>obj\<close> that no one has set: without an active cursor
  it would be dereferenced.\<close>

definition new_local :: "rbuf \<Rightarrow> made" where
  "new_local b = (if rb_active b then new_active b else Undef)"

text \<open>The step of \<open>KdbTable::read\<close> and \<open>KdbDict::read\<close> before each part: with an active cursor
  the part is made, and for a table its type checked.\<close>

definition read_part :: "KdbType option \<Rightarrow> kobj option \<Rightarrow> rbuf \<Rightarrow> made" where
  "read_part rq p b =
     (if rb_active b
      then obind (new_active b)
             (\<lambda>(rr, ptr, b1).
                if rr \<noteq> RD_OK then Ret (rr, p, b1)
                else obind (deref ptr)
                       (\<lambda>x. if rq \<noteq> None \<and> rq \<noteq> Some (m_typ x) then Ret (RD_ERR_IPC, p, b1)
                            else Ret (RD_OK, Some x, b1)))
      else Ret (RD_OK, p, b))"

section \<open>Bytes left\<close>

text \<open>Every reader only moves the buffer forward.\<close>

definition rb_after :: "rbuf \<Rightarrow> rbuf \<Rightarrow> bool" where
  "rb_after b b' \<longleftrightarrow> rb_src b' = rb_src b \<and> rb_len b' = rb_len b \<and>
     (\<exists>k \<le> rb_remaining b. rb_off b' = rb_off b + k)"

lemma rb_after_refl [simp, intro]: "rb_after b b"
  by (auto simp: rb_after_def)

lemma rb_after_move [intro]: "k \<le> rb_remaining b \<Longrightarrow> rb_after b (rb_move k z b)"
  by (auto simp: rb_after_def)

lemma rb_after_trans [trans]: "rb_after a b \<Longrightarrow> rb_after b c \<Longrightarrow> rb_after a c"
  by (fastforce simp: rb_after_def rb_remaining_def)

lemma rb_after_remaining: "rb_after b b' \<Longrightarrow> rb_remaining b' \<le> rb_remaining b"
  by (auto simp: rb_after_def rb_remaining_def)

lemma rb_after_wf: "rb_after b b' \<Longrightarrow> rb_wf b \<Longrightarrow> rb_wf b'"
  by (auto simp: rb_after_def rb_wf_def rb_remaining_def)

lemma rb_after_ffwd [simp, intro]: "rb_after b (rb_ffwd n b)" "rb_after b (skip_hdr n b)"
  by (auto simp: rb_ffwd_def skip_hdr_def)

lemma rb_after_ffwd_iff [simp]: "rb_after (rb_ffwd n b) b' = rb_after b b'"
  "rb_after (skip_hdr n b) b' = rb_after b b'"
  by (auto simp: rb_after_def rb_ffwd_def skip_hdr_def rb_remaining_def)

lemma rb_after_ffwd_right [simp]: "rb_after b (rb_ffwd n c) = rb_after b c"
  "rb_after b (skip_hdr n c) = rb_after b c"
  by (auto simp: rb_after_def rb_ffwd_def skip_hdr_def)

lemma rb_after_move_trans: "rb_after (rb_move k z b) b' \<Longrightarrow> k \<le> rb_remaining b \<Longrightarrow> rb_after b b'"
  using rb_after_trans rb_after_move by blast

lemma remaining_ffwd [simp]: "rb_remaining (rb_ffwd n b) = rb_remaining b"
  "rb_remaining (skip_hdr n b) = rb_remaining b"
  by (auto simp: rb_ffwd_def skip_hdr_def)

lemma readIntAtom_after: "readIntAtom a b = (r, a', b') \<Longrightarrow> rb_after b b'"
  by (auto simp: readIntAtom_def rb_read_def rb_adj_def Let_def skip_hdr_def rb_ffwd_def split: if_splits)

lemma rb_readSym_after: "rb_readSym s b = (r, s', b') \<Longrightarrow> rb_after b b'"
  using strnlen_le [of "drop (rb_off b) (rb_src b)" "rb_remaining b"]
  by (auto simp: rb_readSym_def rb_adj_def Let_def split: if_splits)

lemma readStrAtom_after: "readStrAtom s b = (r, s', b') \<Longrightarrow> rb_after b b'"
  by (auto simp: readStrAtom_def Let_def dest: rb_readSym_after split: if_splits)

lemma rb_readSyms_loop_after:
  "rb_readSyms_loop n m v b = (r, v', b') \<Longrightarrow> m = rb_remaining b \<Longrightarrow> rb_after b b'"
proof (induction n m v b rule: rb_readSyms_loop.induct)
  case (2 n m v b)
  let ?k = "strnlen (drop (rb_off b) (rb_src b)) m"
  have k: "?k \<le> m" by (rule strnlen_le)
  show ?case
  proof (cases "m = ?k")
    case True
    then show ?thesis using 2(2) by (simp add: Let_def)
  next
    case False
    then have "rb_after (rb_adj (?k + SZ_BYTE) b) b'"
      using 2(2,3) by (intro 2(1) [OF refl refl]) (simp_all add: Let_def rb_adj_def)
    then show ?thesis
      unfolding rb_adj_def by (rule rb_after_move_trans) (use k False 2(3) in simp)
  qed
qed simp

lemma readSymVector_after: "readSymVector v b = (r, v', b') \<Longrightarrow> rb_after b b'"
  by (auto simp: readSymVector_def rb_readSyms_def Let_def dest: rb_readSyms_loop_after split: if_splits)

lemma rb_readVec_after: "rb_readVec E n b = (k, bs, b') \<Longrightarrow> rb_after b b'"
  by (auto simp: rb_readVec_def rb_adj_def Let_def split: if_splits)

lemma readIntVector_after: "readIntVector v b = (r, v', b') \<Longrightarrow> rb_after b b'"
  by (auto simp: readIntVector_def Let_def dest: rb_readVec_after split: if_splits prod.splits)

lemma readFunction_after: "readFunction v b = (r, v', b') \<Longrightarrow> rb_after b b'"
  by (auto simp: readFunction_def Let_def dest: rb_readVec_after split: if_splits prod.splits)

lemma readPrimitive_after: "readPrimitive v b = (r, v', b') \<Longrightarrow> rb_after b b'"
  by (auto simp: readPrimitive_def rb_read_def rb_adj_def rb_canRead_def Let_def skip_hdr_def rb_ffwd_def
      split: if_splits)

lemmas leaf_after = readIntAtom_after readStrAtom_after readIntVector_after readSymVector_after
  readFunction_after readPrimitive_after

text \<open>\<open>newInstance\<close> consumes at least one byte when it makes an instance.\<close>

definition makes :: "rbuf \<Rightarrow> made \<Rightarrow> bool" where
  "makes b m \<longleftrightarrow> (\<forall>r p b'. m = Ret (r, p, b') \<longrightarrow>
     rb_after b b' \<and> (r = RD_OK \<longrightarrow> p \<noteq> None \<and> rb_remaining b' < rb_remaining b))"

lemma makes_leaf:
  "rb_canRead b SZ_BYTE \<Longrightarrow> makes b (newAtomFromType t b)"
  "makes b (newVec32 mk b)" "makes b (table_alloc b)" "makes b (function_alloc b)"
  "makes b (projection_alloc b)" "makes b (Ret (RD_ERR_LOGIC, None, b))"
  by (auto simp: makes_def newAtomFromType_def newVec32_def table_alloc_def function_alloc_def
      projection_alloc_def rb_read_def rb_adj_def rb_canRead_def Let_def split: if_splits)

lemma makes_by_type: "rb_canRead b SZ_BYTE \<Longrightarrow> makes b (new_by_type t b)"
  by (cases t) (simp_all add: makes_leaf)

lemma makes_active: "makes b (new_active b)"
  using makes_leaf(6) makes_by_type [of b]
  by (auto simp: new_active_def makes_def simp del: One_nat_def split: option.splits)

lemma new_local_after:
  "new_local b = Ret (r, p, b') \<Longrightarrow> rb_after b b'"
  "new_local b = Ret (RD_OK, p, b') \<Longrightarrow> rb_remaining b' < rb_remaining b"
  using makes_active [of b] by (auto simp: new_local_def makes_def split: if_splits)

lemma read_part_after:
  "read_part rq p b = Ret (r, p', b') \<Longrightarrow> rb_after b b'"
  "read_part rq p b = Ret (RD_OK, p', b') \<Longrightarrow> (p' = p \<and> b' = b) \<or> rb_remaining b' < rb_remaining b"
  using makes_active [of b] by (auto simp: read_part_def makes_def split: if_splits)

section \<open>The read methods\<close>

text \<open>What a read gives: its result, the object as it is then, and the buffer. \<open>rd_then\<close> goes on
  after \<open>RD_OK\<close> and otherwise returns with what has been read (\<open>k\<close>); \<open>rd_map\<close> puts the object
  back into the one that holds it.\<close>

type_synonym 'x rd = "(ReadResult \<times> 'x \<times> rbuf) outcome"

definition rd_map :: "('x \<Rightarrow> 'y) \<Rightarrow> 'x rd \<Rightarrow> 'y rd" where
  "rd_map g m = obind m (\<lambda>(r, x, b). Ret (r, g x, b))"

definition rd_then :: "'x rd \<Rightarrow> ('x \<Rightarrow> 'y) \<Rightarrow> ('x \<Rightarrow> rbuf \<Rightarrow> 'y rd) \<Rightarrow> 'y rd" where
  "rd_then m k f = obind m (\<lambda>(r, x, b). if r \<noteq> RD_OK then Ret (r, k x, b) else f x b)"

lemma rd_then_cong [fundef_cong]:
  "m = m' \<Longrightarrow> k = k' \<Longrightarrow> (\<And>x b. m' = Ret (RD_OK, x, b) \<Longrightarrow> f x b = g x b) \<Longrightarrow> rd_then m k f = rd_then m' k' g"
  unfolding rd_then_def by (rule obind_cong) (auto split: prod.splits)

function kread :: "kobj \<Rightarrow> rbuf \<Rightarrow> kobj rd"
  and kread_elems :: "kobj list \<Rightarrow> rbuf \<Rightarrow> kobj list rd"
  and kread_more :: "nat \<Rightarrow> kobj list \<Rightarrow> rbuf \<Rightarrow> kobj list rd"
  and kread_parts :: "KdbType option \<Rightarrow> KdbType option \<Rightarrow> kobj option \<Rightarrow> kobj option \<Rightarrow> rbuf \<Rightarrow>
    (kobj option \<times> kobj option) rd" where
  "kread (KdbException msg) b = rd_map KdbException (Ret (readStrAtom msg b))"
| "kread (KdbAtom a) b = rd_map KdbAtom (Ret (readIntAtom a b))"
| "kread (KdbSymbolAtom val) b = rd_map KdbSymbolAtom (Ret (readStrAtom val b))"
| "kread (KdbVector v) b = rd_map KdbVector (Ret (readIntVector v b))"
| "kread (KdbSymbolVector v) b = rd_map KdbSymbolVector (Ret (readSymVector v b))"
| "kread (KdbList attr cap xs) b =
     rd_map (KdbList attr cap)
       (rd_then (kread_elems xs (skip_hdr (SZ_BYTE + SZ_VEC_META) b)) (\<lambda>xs1. xs1)
          (\<lambda>xs1 b1. kread_more (cap - length xs1) xs1 b1))"
| "kread (KdbTable cols vals) b =
     rd_map (\<lambda>(p, q). KdbTable p q)
       (kread_parts (Some SYMBOL_VECTOR) (Some LIST) cols vals (skip_hdr (SZ_BYTE + SZ_BYTE + SZ_BYTE) b))"
| "kread (KdbDict keys vals) b =
     rd_map (\<lambda>(p, q). KdbDict p q) (kread_parts None None keys vals (skip_hdr SZ_BYTE b))"
| "kread (KdbFunction v) b = rd_map KdbFunction (Ret (readFunction v b))"
| "kread (KdbUnaryPrimitive v) b = rd_map KdbUnaryPrimitive (Ret (readPrimitive v b))"
| "kread (KdbBinaryPrimitive v) b = rd_map KdbBinaryPrimitive (Ret (readPrimitive v b))"
| "kread (KdbTernaryPrimitive v) b = rd_map KdbTernaryPrimitive (Ret (readPrimitive v b))"
| "kread (KdbProjection cap xs) b =
     rd_map (KdbProjection cap)
       (rd_then (kread_elems xs (skip_hdr (SZ_BYTE + SZ_INT) b)) (\<lambda>xs1. xs1)
          (\<lambda>xs1 b1. kread_more (cap - length xs1) xs1 b1))"
| "kread_elems [] b = Ret (RD_OK, [], b)"
| "kread_elems (x # xs) b =
     rd_then (kread x b) (\<lambda>x1. x1 # xs) (\<lambda>x1 b1. rd_map (\<lambda>xs1. x1 # xs1) (kread_elems xs b1))"
| "kread_more 0 xs b = Ret (RD_OK, xs, b)"
| "kread_more (Suc n) xs b =
     rd_then (new_local b) (\<lambda>_. xs)
       (\<lambda>obj b1. obind (deref obj)
          (\<lambda>x. rd_then (kread x b1) (\<lambda>x1. xs @ [x1]) (\<lambda>x1 b2. kread_more n (xs @ [x1]) b2)))"
| "kread_parts rq1 rq2 p q b =
     rd_then (read_part rq1 p b) (\<lambda>p1. (p1, q))
       (\<lambda>p1 b1. obind (deref p1)
          (\<lambda>x. rd_then (kread x b1) (\<lambda>x1. (Some x1, q))
             (\<lambda>x1 b2. rd_then (read_part rq2 q b2) (\<lambda>q1. (Some x1, q1))
                (\<lambda>q1 b3. obind (deref q1) (\<lambda>y. rd_map (\<lambda>y1. (Some x1, Some y1)) (kread y b3))))))"
  by pat_completeness auto

text \<open>\<open>moves b m\<close>: whatever \<open>m\<close> returns, its buffer is \<open>b\<close> moved forward.\<close>

definition moves :: "rbuf \<Rightarrow> 'x rd \<Rightarrow> bool" where
  "moves b m \<longleftrightarrow> (\<forall>r x b'. m = Ret (r, x, b') \<longrightarrow> rb_after b b')"

lemma moves_Ret: "moves b (Ret (r, x, b')) = rb_after b b'"
  by (simp add: moves_def)

lemma moves_map [simp]: "moves b (rd_map g m) = moves b m"
  by (auto simp: moves_def rd_map_def)

lemma moves_deref: "(\<And>x. p = Some x \<Longrightarrow> moves b (f x)) \<Longrightarrow> moves b (obind (deref p) f)"
  by (cases p) (simp_all add: moves_def)

lemma moves_then:
  assumes "moves b m" "\<And>x b'. m = Ret (RD_OK, x, b') \<Longrightarrow> moves b' (f x b')"
  shows "moves b (rd_then m k f)"
  using assms rb_after_trans unfolding moves_def rd_then_def
  by (cases m) (fastforce split: if_splits)+

lemma moves_skip [simp]: "moves (skip_hdr n b) m = moves b m"
  by (simp add: moves_def)

lemma moves_leaf:
  "moves b (Ret (readIntAtom a b))" "moves b (Ret (readStrAtom s b))" "moves b (Ret (readIntVector v b))"
  "moves b (Ret (readSymVector sv b))" "moves b (Ret (readFunction f b))" "moves b (Ret (readPrimitive p b))"
  by (auto simp: moves_def dest: leaf_after)

lemma moves_new_local: "moves b (new_local b)"
  by (auto simp: moves_def dest: new_local_after)

lemma moves_read_part: "moves b (read_part rq p b)"
  by (auto simp: moves_def dest: read_part_after)

lemma kread_partial_moves:
  "kread_kread_elems_kread_more_kread_parts_dom (Inl (Inl (x, b))) \<Longrightarrow> moves b (kread x b)"
  "kread_kread_elems_kread_more_kread_parts_dom (Inl (Inr (xs, b))) \<Longrightarrow> moves b (kread_elems xs b)"
  "kread_kread_elems_kread_more_kread_parts_dom (Inr (Inl (n, ys, b))) \<Longrightarrow> moves b (kread_more n ys b)"
  "kread_kread_elems_kread_more_kread_parts_dom (Inr (Inr (rq1, rq2, p, q, b))) \<Longrightarrow>
     moves b (kread_parts rq1 rq2 p q b)"
proof (induction x b and xs b and n ys b and rq1 rq2 p q b
    rule: kread_kread_elems_kread_more_kread_parts.pinduct)
  case (6 attr cap xs b)
  then show ?case by (simp add: kread.psimps moves_then)
next
  case (13 cap xs b)
  then show ?case by (simp add: kread.psimps moves_then)
next
  case (15 x xs b)
  then show ?case by (simp add: kread_elems.psimps moves_then)
next
  case (17 n xs b)
  then show ?case
    by (simp add: kread_more.psimps) (intro moves_then moves_deref moves_new_local; simp)
next
  case (18 rq1 rq2 p q b)
  then show ?case
    by (simp add: kread_parts.psimps) (intro moves_then moves_deref moves_read_part; simp)
qed (simp_all add: kread.psimps kread_elems.psimps kread_more.psimps moves_leaf moves_Ret)

fun rd_size :: "(kobj \<times> rbuf + kobj list \<times> rbuf) + (nat \<times> kobj list \<times> rbuf +
    KdbType option \<times> KdbType option \<times> kobj option \<times> kobj option \<times> rbuf) \<Rightarrow> nat" where
  "rd_size (Inl (Inl (x, b))) = 2 * size x + 1"
| "rd_size (Inl (Inr (xs, b))) = 2 * size_list size xs + 1"
| "rd_size (Inr (Inl (n, ys, b))) = 0"
| "rd_size (Inr (Inr (rq1, rq2, p, q, b))) = 2 * (size_option size p + size_option size q)"

fun rd_left :: "(kobj \<times> rbuf + kobj list \<times> rbuf) + (nat \<times> kobj list \<times> rbuf +
    KdbType option \<times> KdbType option \<times> kobj option \<times> kobj option \<times> rbuf) \<Rightarrow> nat" where
  "rd_left (Inl (Inl (x, b))) = rb_remaining b"
| "rd_left (Inl (Inr (xs, b))) = rb_remaining b"
| "rd_left (Inr (Inl (n, ys, b))) = rb_remaining b"
| "rd_left (Inr (Inr (rq1, rq2, p, q, b))) = rb_remaining b"

lemma moves_le: "m = Ret (r, x, b') \<Longrightarrow> moves b m \<Longrightarrow> rb_remaining b' \<le> rb_remaining b"
  by (simp add: moves_def rb_after_remaining)

lemma partial_le:
  "kread x b = Ret (r, x', b') \<Longrightarrow>
     kread_kread_elems_kread_more_kread_parts_dom (Inl (Inl (x, b))) \<Longrightarrow>
     rb_remaining b' < rb_remaining b \<or> rb_remaining b' = rb_remaining b"
  "kread_elems xs (skip_hdr n b) = Ret (r, xs', b') \<Longrightarrow>
     kread_kread_elems_kread_more_kread_parts_dom (Inl (Inr (xs, skip_hdr n b))) \<Longrightarrow>
     rb_remaining b' < rb_remaining b \<or> rb_remaining b' = rb_remaining b"
  using moves_le [OF _ kread_partial_moves(1)] moves_le [OF _ kread_partial_moves(2), of xs "skip_hdr n b"]
  by (fastforce simp: le_less)+

lemma read_part_left:
  "read_part rq p b = Ret (RD_OK, Some x, b') \<Longrightarrow>
    (rb_remaining b' = rb_remaining b \<and> p = Some x) \<or> rb_remaining b' < rb_remaining b"
  using read_part_after(2) by fastforce

termination kread
proof (relation "measures [rd_left, rd_size]", simp_all add: partial_le, goal_cases)
  case 1
  then show ?case by (auto dest: new_local_after(2))
next
  case (2 b x ba xa xb bb)
  then show ?case using new_local_after(2) [OF 2(1)] partial_le(1) [OF 2(3,4)] by auto
next
  case (3 rq1 p q b x ba xa)
  then show ?case using read_part_left [OF 3(1)] by auto
next
  case (4 rq1 rq2 p q b x ba xa xb bb xc bc xd)
  then show ?case
    using read_part_left [OF 4(1)] partial_le(1) [OF 4(3,6)] read_part_left [OF 4(4)] by auto
qed

declare kread_parts.simps [simp del]

lemma kread_moves:
  "moves b (kread x b)" "moves b (kread_elems xs b)" "moves b (kread_more n ys b)"
  "moves b (kread_parts rq1 rq2 p q b)"
proof (induction x b and xs b and n ys b and rq1 rq2 p q b rule: kread_kread_elems_kread_more_kread_parts.induct)
  case (17 n xs b)
  then show ?case by simp (intro moves_then moves_deref moves_new_local; simp)
next
  case (18 rq1 rq2 p q b)
  then show ?case
    by (simp add: kread_parts.simps) (intro moves_then moves_deref moves_read_part; simp)
qed (simp_all add: moves_leaf moves_Ret moves_then)

text \<open>C36. Whatever bytes arrive, a \<open>read\<close> ends, and it stays inside the buffer: the offset only
  grows and never passes the length, and the memory is not changed.\<close>

theorem kread_in_bounds:
  assumes "rb_wf b" "kread x b = Ret (r, x', b')"
  shows "rb_wf b' \<and> rb_src b' = rb_src b \<and> rb_len b' = rb_len b \<and> rb_off b \<le> rb_off b'"
  using kread_moves(1) [of b x] assms rb_after_wf by (auto simp: moves_def rb_after_def)

theorem kread_in_bounds_witness:
  "rb_wf (case kread (KdbList ATTR_NONE 2 []) (rb_new [250, 1, 0, 0, 0, 255, 1] 7 0) of Ret (r, x, b) \<Rightarrow> b)"
proof -
  let ?b = "rb_new [250, 1, 0, 0, 0, 255, 1] 7 0"
  have *: "kread (KdbList ATTR_NONE 2 []) ?b = Ret (RD_OK,
      KdbList ATTR_NONE 2 [KdbAtom (KdbIntAtom 1), KdbAtom (KdbBoolAtom 1)], rb_move 7 7 ?b)"
    by code_simp
  have "rb_wf ?b" by (simp add: rb_new_def rb_wf_def)
  from kread_in_bounds [OF this *] show ?thesis unfolding * by simp
qed

end
