(* ===== verification/Kdb_Resume.thy ===== *)
theory Kdb_Resume
  imports Kdb_Read
begin

text \<open>
  The readers against the writers. An object that arrives in pieces, however its wire image is
  cut, is rebuilt exactly: after each piece the reader holds a part of the object (\<open>part\<close>) that
  stands for the bytes consumed so far, it asks for more as long as bytes are missing and then
  returns the object itself, having consumed its image and nothing that follows.
\<close>

section \<open>Objects as they are received\<close>

text \<open>The strings of a symbol vector.\<close>

definition sv_vals :: "symvec \<Rightarrow> bytes list" where
  "sv_vals v = map (\<lambda>l. take (unat (c_len l - 1)) (drop (unat (c_off l)) (sv_data v))) (sv_locs v)"

definition sv_can :: "symvec \<Rightarrow> bool" where
  "sv_can v \<longleftrightarrow> v = sv_of_vals (sv_vals v) (sv_attr v) \<and> length (sv_vals v) < 2 ^ 31 \<and>
     (\<forall>s \<in> set (sv_vals v). 0 \<notin> set s)"

text \<open>Objects the readers can rebuild: no NUL inside a string, counts that fit the signed 32-bit
  field, and capacities equal to the counts, as the readers leave them.\<close>

fun kcan :: "kobj \<Rightarrow> bool" and kcan_list :: "kobj list \<Rightarrow> bool" and kcan_opt :: "kobj option \<Rightarrow> bool" where
  "kcan (KdbException msg) = (0 \<notin> set msg)"
| "kcan (KdbAtom a) = True"
| "kcan (KdbSymbolAtom val) = (0 \<notin> set val)"
| "kcan (KdbVector v) = (kvec_cap v = kvec_count v \<and> kvec_count v < 2 ^ 31)"
| "kcan (KdbSymbolVector v) = sv_can v"
| "kcan (KdbList attr cap xs) = (cap = length xs \<and> length xs < 2 ^ 31 \<and> kcan_list xs)"
| "kcan (KdbTable cols vals) = (is_symvec cols \<and> is_list vals \<and> kcan_opt cols \<and> kcan_opt vals)"
| "kcan (KdbDict keys vals) = (kcan_opt keys \<and> kcan_opt vals)"
| "kcan (KdbFunction v) = (v_cap v = length (v_vals v) \<and> length (v_vals v) < 2 ^ 31)"
| "kcan (KdbUnaryPrimitive v) = True"
| "kcan (KdbBinaryPrimitive v) = True"
| "kcan (KdbTernaryPrimitive v) = True"
| "kcan (KdbProjection cap xs) = (cap = length xs \<and> length xs < 2 ^ 31 \<and> kcan_list xs)"
| "kcan_list [] = True"
| "kcan_list (x # xs) = (kcan x \<and> kcan_list xs)"
| "kcan_opt None = False"
| "kcan_opt (Some x) = kcan x"

lemma kcan_kwf: "kcan x \<Longrightarrow> kwf x" "kcan_list xs \<Longrightarrow> kwf_list xs" "kcan_opt p \<Longrightarrow> kwf_opt p"
  by (induction x and xs and p rule: kcan_kcan_list_kcan_opt.induct) auto

lemma kcan_list_iff: "kcan_list xs \<longleftrightarrow> (\<forall>x \<in> set xs. kcan x)"
  by (induction xs) auto

text \<open>What \<open>newInstance\<close> makes for the object, and how many bytes it consumes.\<close>

fun hsize :: "kobj \<Rightarrow> nat" where
  "hsize (KdbVector v) = SZ_VEC_HDR"
| "hsize (KdbSymbolVector v) = SZ_VEC_HDR"
| "hsize (KdbList attr cap xs) = SZ_VEC_HDR"
| "hsize (KdbTable cols vals) = 3"
| "hsize (KdbFunction v) = SZ_BYTE + SZ_BYTE + SZ_VEC_HDR"
| "hsize (KdbProjection cap xs) = SZ_BYTE + SZ_INT"
| "hsize _ = SZ_BYTE"

fun kvec_take :: "nat \<Rightarrow> kvec \<Rightarrow> kvec" where
  "kvec_take k (KdbBoolVector a v) = KdbBoolVector a (v\<lparr>v_vals := take k (v_vals v)\<rparr>)"
| "kvec_take k (KdbGuidVector a v) = KdbGuidVector a (v\<lparr>v_vals := take k (v_vals v)\<rparr>)"
| "kvec_take k (KdbByteVector a v) = KdbByteVector a (v\<lparr>v_vals := take k (v_vals v)\<rparr>)"
| "kvec_take k (KdbShortVector a v) = KdbShortVector a (v\<lparr>v_vals := take k (v_vals v)\<rparr>)"
| "kvec_take k (KdbIntVector a v) = KdbIntVector a (v\<lparr>v_vals := take k (v_vals v)\<rparr>)"
| "kvec_take k (KdbLongVector a v) = KdbLongVector a (v\<lparr>v_vals := take k (v_vals v)\<rparr>)"
| "kvec_take k (KdbRealVector a v) = KdbRealVector a (v\<lparr>v_vals := take k (v_vals v)\<rparr>)"
| "kvec_take k (KdbFloatVector a v) = KdbFloatVector a (v\<lparr>v_vals := take k (v_vals v)\<rparr>)"
| "kvec_take k (KdbCharVector a v) = KdbCharVector a (v\<lparr>v_vals := take k (v_vals v)\<rparr>)"
| "kvec_take k (KdbTimestampVector a v) = KdbTimestampVector a (v\<lparr>v_vals := take k (v_vals v)\<rparr>)"
| "kvec_take k (KdbMonthVector a v) = KdbMonthVector a (v\<lparr>v_vals := take k (v_vals v)\<rparr>)"
| "kvec_take k (KdbDateVector a v) = KdbDateVector a (v\<lparr>v_vals := take k (v_vals v)\<rparr>)"
| "kvec_take k (KdbTimespanVector a v) = KdbTimespanVector a (v\<lparr>v_vals := take k (v_vals v)\<rparr>)"
| "kvec_take k (KdbMinuteVector a v) = KdbMinuteVector a (v\<lparr>v_vals := take k (v_vals v)\<rparr>)"
| "kvec_take k (KdbSecondVector a v) = KdbSecondVector a (v\<lparr>v_vals := take k (v_vals v)\<rparr>)"
| "kvec_take k (KdbTimeVector a v) = KdbTimeVector a (v\<lparr>v_vals := take k (v_vals v)\<rparr>)"

definition sv_part :: "bytes list \<Rightarrow> KdbAttr \<Rightarrow> nat \<Rightarrow> symvec" where
  "sv_part vals attr k = (sv_of_vals (take k vals) attr)\<lparr>sv_cap := length vals\<rparr>"

fun fresh :: "kobj \<Rightarrow> kobj" where
  "fresh (KdbException msg) = KdbException []"
| "fresh (KdbAtom a) = KdbAtom (the (new_atom (atom_typ a)))"
| "fresh (KdbSymbolAtom val) = KdbSymbolAtom []"
| "fresh (KdbVector v) = KdbVector (kvec_take 0 v)"
| "fresh (KdbSymbolVector v) = KdbSymbolVector (sv_part (sv_vals v) (sv_attr v) 0)"
| "fresh (KdbList attr cap xs) = KdbList attr cap []"
| "fresh (KdbTable cols vals) = KdbTable None None"
| "fresh (KdbDict keys vals) = KdbDict None None"
| "fresh (KdbFunction v) = KdbFunction (v\<lparr>v_vals := []\<rparr>)"
| "fresh (KdbUnaryPrimitive v) = KdbUnaryPrimitive 0"
| "fresh (KdbBinaryPrimitive v) = KdbBinaryPrimitive 0"
| "fresh (KdbTernaryPrimitive v) = KdbTernaryPrimitive 0"
| "fresh (KdbProjection cap xs) = KdbProjection cap []"

lemma length_sv_locs_from [simp]: "length (sv_locs_from n vals) = length vals"
  by (induction vals arbitrary: n) auto

lemma sv_of_vals_sel [simp]:
  "sv_attr (sv_of_vals vals a) = a" "sv_cap (sv_of_vals vals a) = length vals"
  "length (sv_locs (sv_of_vals vals a)) = length vals"
  "sv_data (sv_of_vals vals a) = concat (map (\<lambda>s. s @ [0]) vals)"
  by (simp_all add: sv_of_vals_def)

lemma sv_canE:
  assumes "sv_can v"
  obtains vals where "v = sv_of_vals vals (sv_attr v)" "sv_vals v = vals" "length vals < 2 ^ 31"
    "\<And>s. s \<in> set vals \<Longrightarrow> 0 \<notin> set s"
  using assms unfolding sv_can_def by blast

lemma sv_can_cap: "sv_can v \<Longrightarrow> sv_cap v = length (sv_locs v)"
  by (elim sv_canE) (metis sv_of_vals_sel(2,3))

section \<open>The stream behind a buffer\<close>

text \<open>The unread bytes of the buffer are the first ones of \<open>s\<close>.\<close>

definition feeds :: "bytes \<Rightarrow> rbuf \<Rightarrow> bool" where
  "feeds s b \<longleftrightarrow> rb_wf b \<and> rb_avail b = take (rb_remaining b) s"

lemma feeds_len: "feeds s b \<Longrightarrow> rb_remaining b \<le> length s"
  by (metis feeds_def length_rb_avail length_take min.cobounded1)

lemma feeds_peek: "feeds s b \<Longrightarrow> k \<le> rb_remaining b \<Longrightarrow> rb_peek k b = take k s"
  by (simp add: feeds_def rb_peek_avail)

lemma feeds_move: "feeds s b \<Longrightarrow> k \<le> rb_remaining b \<Longrightarrow> feeds (drop k s) (rb_move k z b)"
  by (simp add: feeds_def rb_wf_move rb_avail_move drop_take)

lemma feeds_move': "feeds (s @ t) b \<Longrightarrow> length s \<le> rb_remaining b \<Longrightarrow> k = length s \<Longrightarrow> feeds t (rb_move k z b)"
  using feeds_move [of "s @ t" b "length s" z] by simp

lemma feeds_ffwd [simp]: "feeds s (rb_ffwd n b) = feeds s b" "feeds s (skip_hdr n b) = feeds s b"
proof -
  have "feeds s (rb_ffwd n b) = feeds s b" for n
    by (simp add: feeds_def rb_ffwd_def rb_wf_def rb_avail_def rb_move_def rb_remaining_def)
  then show "feeds s (rb_ffwd n b) = feeds s b" "feeds s (skip_hdr n b) = feeds s b"
    by (simp_all add: skip_hdr_def)
qed

lemma feeds_read:
  "feeds (s @ t) b \<Longrightarrow> length s \<le> rb_remaining b \<Longrightarrow> k = length s \<Longrightarrow>
     rb_read k b = (s, rb_move k (int k) b)"
  by (simp add: rb_read_def rb_adj_def feeds_peek)

section \<open>newInstance\<close>

lemma of_mem_le_4: "n < 2 ^ 31 \<Longrightarrow> sint (of_mem (le SZ_INT n) :: u32) = int n \<and> unat (of_mem (le SZ_INT n) :: u32) = n"
  by (simp add: of_mem_def unle_le unat_of_nat signed_of_nat signed_take_bit_int_eq_self)

lemma newVec32_hdr:
  assumes "feeds (vec_hdr t a n @ rest) b" "n < 2 ^ 31"
  shows "newVec32 mk b = (if SZ_VEC_HDR \<le> rb_remaining b
    then Ret (RD_OK, Some (mk n a), rb_adj SZ_VEC_HDR b) else Ret (RD_INCOMPLETE, None, b))"
proof (cases "SZ_VEC_HDR \<le> rb_remaining b")
  case True
  have f: "feeds ([i8typ t] @ [a] @ le SZ_INT n @ rest) b"
    using assms(1) by (simp add: vec_hdr_def)
  then have r1: "rb_read SZ_BYTE b = ([i8typ t], rb_move 1 1 b)"
    using True by (subst feeds_read) auto
  have f1: "feeds ([a] @ le SZ_INT n @ rest) (rb_move 1 1 b)"
    using feeds_move' [OF f] True by simp
  then have r2: "rb_read SZ_BYTE (rb_move 1 1 b) = ([a], rb_move 2 2 b)"
    using True by (subst feeds_read) auto
  have f2: "feeds (le SZ_INT n @ rest) (rb_move 2 2 b)"
    using feeds_move' [OF f1, of 1 1] True by (simp add: numeral_2_eq_2)
  then have r3: "rb_read SZ_INT (rb_move 2 2 b) = (le SZ_INT n, rb_move 6 6 b)"
    using True by (subst feeds_read) auto
  show ?thesis
    using True of_mem_le_4 [OF assms(2)] r1 r2 r3
    by (simp add: newVec32_def Let_def rb_canRead_def rb_adj_def)
next
  case False
  then show ?thesis by (simp add: newVec32_def rb_canRead_def)
qed

lemma newAtom_hdr:
  "newAtomFromType t b = Ret (RD_OK, Some t, rb_adj SZ_BYTE b)"
  by (simp add: newAtomFromType_def rb_read_def)

lemma table_alloc_hdr:
  "table_alloc b = (if 3 \<le> rb_remaining b then Ret (RD_OK, Some (KdbTable None None), rb_adj 3 b)
     else Ret (RD_INCOMPLETE, None, b))"
  by (simp add: table_alloc_def rb_canRead_def rb_read_def rb_adj_def)

lemma function_alloc_hdr:
  assumes "feeds ((i8typ FUNCTION # ATTR_NONE # vec_hdr CHAR_VECTOR ATTR_NONE n) @ rest) b" "n < 2 ^ 31"
  shows "function_alloc b = (if 8 \<le> rb_remaining b
    then Ret (RD_OK, Some (function_new n), rb_adj 8 b) else Ret (RD_INCOMPLETE, None, b))"
proof (cases "8 \<le> rb_remaining b")
  case True
  have f: "feeds ([i8typ FUNCTION, 0] @ [i8typ CHAR_VECTOR] @ [0] @ le SZ_INT n @ rest) b"
    using assms(1) by (simp add: vec_hdr_def)
  have f1: "feeds ([i8typ CHAR_VECTOR] @ [0] @ le SZ_INT n @ rest) (rb_move 2 2 b)"
    using feeds_move' [OF f, of 2 2] True by simp
  then have r1: "rb_read SZ_BYTE (rb_move 2 2 b) = ([i8typ CHAR_VECTOR], rb_move 3 3 b)"
    using True by (subst feeds_read) auto
  have f2: "feeds ([i8typ CHAR_VECTOR, 0] @ le SZ_INT n @ rest) (rb_move 2 2 b)"
    using f1 by simp
  have "feeds (le SZ_INT n @ rest) (rb_move 4 4 b)"
    using feeds_move' [OF f2, of 2 2] True by simp
  then have r2: "rb_read SZ_INT (rb_move 4 4 b) = (le SZ_INT n, rb_move 8 8 b)"
    using True by (subst feeds_read) auto
  show ?thesis
    using True of_mem_le_4 [OF assms(2)] r1 r2
    by (simp add: function_alloc_def Let_def rb_canRead_def rb_adj_def rb_read_def numeral_2_eq_2 [symmetric])
next
  case False
  then show ?thesis by (simp add: function_alloc_def rb_canRead_def)
qed

lemma projection_alloc_hdr:
  assumes "feeds ((i8typ PROJECTION # le SZ_INT n) @ rest) b" "n < 2 ^ 31"
  shows "projection_alloc b = (if 5 \<le> rb_remaining b
    then Ret (RD_OK, Some (projection_new n), rb_adj 5 b) else Ret (RD_INCOMPLETE, None, b))"
proof (cases "5 \<le> rb_remaining b")
  case True
  have f: "feeds ([i8typ PROJECTION] @ le SZ_INT n @ rest) b"
    using assms(1) by simp
  have "feeds (le SZ_INT n @ rest) (rb_move 1 1 b)"
    using feeds_move' [OF f] True by simp
  then have "rb_read SZ_INT (rb_move 1 1 b) = (le SZ_INT n, rb_move 5 5 b)"
    using True by (subst feeds_read) auto
  then show ?thesis
    using True of_mem_le_4 [OF assms(2)]
    by (simp add: projection_alloc_def Let_def rb_canRead_def rb_adj_def rb_read_def)
next
  case False
  then show ?thesis by (simp add: projection_alloc_def rb_canRead_def)
qed

lemma new_active_type:
  assumes "feeds (i8typ t # s) b" "t \<noteq> UNSET_TYPE"
  shows "new_active b = (if 1 \<le> rb_remaining b then new_by_type t b else Ret (RD_INCOMPLETE, None, b))"
proof (cases "1 \<le> rb_remaining b")
  case True
  then have "rb_peek SZ_BYTE b = [i8typ t]"
    using feeds_peek [OF assms(1)] by simp
  with True assms(2) show ?thesis by (simp add: new_active_def rb_canRead_def)
next
  case False
  then show ?thesis by (simp add: new_active_def rb_canRead_def)
qed

lemma new_by_type_atom:
  "new_by_type (atom_typ a) = newAtomFromType (KdbAtom (the (new_atom (atom_typ a))))"
  by (cases a) simp_all

lemma new_by_type_vec:
  "kvec_cap v = kvec_count v \<Longrightarrow> n = kvec_count v \<Longrightarrow>
    \<exists>mk. new_by_type (vec_typ v) = newVec32 mk \<and> mk n (vec_attr v) = KdbVector (kvec_take 0 v)"
  by (cases v) (auto simp: vec_reserved_def)

lemma enc_Cons: "enc x = i8typ (m_typ x) # tl (enc x)"
  by (cases x rule: m_typ.cases) (simp_all add: enc_def vec_hdr_def)

text \<open>\<open>newInstance\<close> consumes the header of the object it meets, or nothing.\<close>

lemma new_active_fresh:
  assumes "kcan x" "feeds (enc x @ rest) b"
  shows "new_active b = (if hsize x \<le> rb_remaining b
    then Ret (RD_OK, Some (fresh x), rb_adj (hsize x) b) else Ret (RD_INCOMPLETE, None, b))"
proof -
  have "feeds (i8typ (m_typ x) # tl (enc x) @ rest) b"
    using assms(2) by (metis append_Cons enc_Cons)
  then have na: "new_active b =
      (if 1 \<le> rb_remaining b then new_by_type (m_typ x) b else Ret (RD_INCOMPLETE, None, b))"
    by (rule new_active_type) simp
  have nv: "newVec32 mk b = (if SZ_VEC_HDR \<le> rb_remaining b
      then Ret (RD_OK, Some (mk n a), rb_adj SZ_VEC_HDR b) else Ret (RD_INCOMPLETE, None, b))"
    if "enc x = vec_hdr t a n @ s" "n < 2 ^ 31" for mk t a n s
    using assms(2) that by (intro newVec32_hdr) auto
  show ?thesis
  proof (cases x)
    case (KdbVector v)
    then obtain mk where mk: "new_by_type (vec_typ v) = newVec32 mk"
      "mk (kvec_count v) (vec_attr v) = KdbVector (kvec_take 0 v)"
      using new_by_type_vec [OF _ refl, of v] assms(1) by auto
    have "newVec32 mk b = (if SZ_VEC_HDR \<le> rb_remaining b
        then Ret (RD_OK, Some (mk (kvec_count v) (vec_attr v)), rb_adj SZ_VEC_HDR b)
        else Ret (RD_INCOMPLETE, None, b))"
      using assms(1) KdbVector by (intro nv) (auto simp: enc_def)
    with mk na KdbVector show ?thesis by simp
  next
    case (KdbSymbolVector v)
    obtain vals where v: "sv_vals v = vals" "length vals < 2 ^ 31" "length (sv_locs v) = length vals"
    proof -
      from assms(1) KdbSymbolVector have "sv_can v" by simp
      then show thesis
        by (auto elim!: sv_canE intro: that simp: sv_vals_def)
    qed
    have "newVec32 (\<lambda>n att. KdbSymbolVector (sv_new n att)) b = (if SZ_VEC_HDR \<le> rb_remaining b
        then Ret (RD_OK, Some (KdbSymbolVector (sv_new (length vals) (sv_attr v))), rb_adj SZ_VEC_HDR b)
        else Ret (RD_INCOMPLETE, None, b))"
      using v KdbSymbolVector by (intro nv) (auto simp: enc_def)
    with na v(1) KdbSymbolVector show ?thesis
      by (simp add: sv_new_def sv_part_def sv_of_vals_def)
  next
    case (KdbList attr cap xs)
    have "newVec32 (\<lambda>n att. KdbList att n []) b = (if SZ_VEC_HDR \<le> rb_remaining b
        then Ret (RD_OK, Some (KdbList attr (length xs) []), rb_adj SZ_VEC_HDR b)
        else Ret (RD_INCOMPLETE, None, b))"
      using assms(1) KdbList by (intro nv) (auto simp: enc_def)
    with na assms(1) KdbList show ?thesis by simp
  next
    case (KdbFunction v)
    have "function_alloc b = (if 8 \<le> rb_remaining b
        then Ret (RD_OK, Some (function_new (length (v_vals v))), rb_adj 8 b) else Ret (RD_INCOMPLETE, None, b))"
      using assms KdbFunction by (intro function_alloc_hdr) (auto simp: enc_def)
    with na assms(1) KdbFunction show ?thesis by (simp add: function_new_def vec_reserved_def)
  next
    case (KdbProjection cap xs)
    have "projection_alloc b = (if 5 \<le> rb_remaining b
        then Ret (RD_OK, Some (projection_new (length xs)), rb_adj 5 b) else Ret (RD_INCOMPLETE, None, b))"
      using assms KdbProjection by (intro projection_alloc_hdr) (auto simp: enc_def)
    with na assms(1) KdbProjection show ?thesis by (simp add: projection_new_def)
  qed (use na in \<open>simp_all add: new_by_type_atom newAtom_hdr table_alloc_hdr\<close>)
qed

section \<open>Reading a part of an image\<close>

text \<open>\<open>stands h c b\<close>: the buffer stands at the byte \<open>c\<close> of an image, either because its cursor
  says so, or because the first \<open>h\<close> bytes have been read in this very call. \<open>adv c c' b\<close> is the
  buffer when the bytes up to \<open>c'\<close> are consumed. \<open>reads P full N c b m\<close>: \<open>m\<close> is the result of
  reading an image of \<open>N\<close> bytes from there: the whole object when its bytes are all present, and
  otherwise a part of it with a request for more.\<close>

definition stands :: "nat \<Rightarrow> nat \<Rightarrow> rbuf \<Rightarrow> bool" where
  "stands h c b \<longleftrightarrow> h \<le> c \<and> (rb_csr b = - int c \<or> (0 \<le> rb_csr b \<and> c = h))"

definition adv :: "nat \<Rightarrow> nat \<Rightarrow> rbuf \<Rightarrow> rbuf" where
  "adv c c' b = rb_move (c' - c) (int (if rb_csr b < 0 then c' else c' - c)) b"

definition reads :: "('y \<Rightarrow> nat \<Rightarrow> bool) \<Rightarrow> 'y \<Rightarrow> nat \<Rightarrow> nat \<Rightarrow> rbuf \<Rightarrow> 'y rd \<Rightarrow> bool" where
  "reads P full N c b m \<longleftrightarrow>
     (if N - c \<le> rb_remaining b then m = Ret (RD_OK, full, adv c N b)
      else \<exists>y c'. m = Ret (RD_INCOMPLETE, y, adv c c' b) \<and> P y c' \<and> c \<le> c' \<and> c' - c \<le> rb_remaining b)"

lemma readsI_full:
  "N - c \<le> rb_remaining b \<Longrightarrow> m = Ret (RD_OK, full, adv c N b) \<Longrightarrow> reads P full N c b m"
  by (simp add: reads_def)

lemma readsI_part:
  "\<not> N - c \<le> rb_remaining b \<Longrightarrow> m = Ret (RD_INCOMPLETE, y, adv c c' b) \<Longrightarrow> P y c' \<Longrightarrow> c \<le> c' \<Longrightarrow>
   c' - c \<le> rb_remaining b \<Longrightarrow> reads P full N c b m"
  by (auto simp: reads_def)

lemma reads_map:
  "reads P full N c b m \<Longrightarrow> full' = g full \<Longrightarrow> (\<And>y c'. P y c' \<Longrightarrow> P' (g y) c') \<Longrightarrow>
   reads P' full' N c b (rd_map g m)"
  by (auto simp: reads_def rd_map_def split: if_splits)

lemma reads_mono: "reads P full N c b m \<Longrightarrow> (\<And>y c'. P y c' \<Longrightarrow> P' y c') \<Longrightarrow> reads P' full N c b m"
  unfolding reads_def by (cases "N - c \<le> rb_remaining b") (simp, simp, blast)

text \<open>The header skipped by a cursor that is not active yet.\<close>

lemma adv_skip:
  assumes "stands h c b" "c \<le> c'"
  shows "adv (c - h) (c' - h) (skip_hdr h b) = adv c c' b"
proof -
  have h: "h \<le> c" using assms(1) by (simp add: stands_def)
  consider "rb_csr b = - int c" "0 < c" | "0 \<le> rb_csr b" "c = h"
    using assms(1) by (fastforce simp: stands_def)
  then show ?thesis
    using h assms(2)
    by cases (auto simp: adv_def skip_hdr_def rb_active_def rb_ffwd_def of_nat_diff)
qed

lemma stands_skip:
  assumes "stands h c b"
  shows "stands 0 (c - h) (skip_hdr h b)"
  using assms by (auto simp: stands_def skip_hdr_def rb_active_def rb_ffwd_def of_nat_diff)

lemma reads_hdr:
  assumes "stands h c b" "c \<le> N + h" "reads P full N (c - h) (skip_hdr h b) m"
    "\<And>y c'. P y c' \<Longrightarrow> P' y (h + c')"
  shows "reads P' full (N + h) c b m"
proof -
  have h: "h \<le> c" using assms(1) by (simp add: stands_def)
  have d: "N - (c - h) = N + h - c" using h by simp
  show ?thesis
  proof (cases "N + h - c \<le> rb_remaining b")
    case True
    then have "m = Ret (RD_OK, full, adv (c - h) (N + h - h) (skip_hdr h b))"
      using assms(3) d by (simp add: reads_def)
    then show ?thesis
      using True adv_skip [OF assms(1,2)] by (intro readsI_full) simp_all
  next
    case False
    then obtain y c' where y: "m = Ret (RD_INCOMPLETE, y, adv (c - h) c' (skip_hdr h b))" "P y c'"
      "c - h \<le> c'" "c' - (c - h) \<le> rb_remaining b"
      using assms(3) d by (auto simp: reads_def)
    have "adv (c - h) (h + c' - h) (skip_hdr h b) = adv c (h + c') b"
      using y(3) h by (intro adv_skip assms(1)) simp
    then show ?thesis
      using False y assms(4) [OF y(2)] h by (intro readsI_part [of _ _ _ _ _ "h + c'"]) auto
  qed
qed

text \<open>Two images in a row.\<close>

lemma csr_adv: "stands h c b \<Longrightarrow> c \<le> c' \<Longrightarrow> 0 \<le> rb_csr (adv c c' b)"
  by (auto simp: stands_def adv_def)

lemma remaining_adv [simp]: "rb_remaining (adv c c' b) = rb_remaining b - (c' - c)"
  by (simp add: adv_def)

lemma adv_adv:
  assumes "stands h c b" "c \<le> N"
  shows "adv 0 c' (adv c N b) = adv c (N + c') b"
  using csr_adv [OF assms] assms by (auto simp: adv_def stands_def of_nat_diff)

lemma feeds_adv: "feeds (drop c s) b \<Longrightarrow> c' - c \<le> rb_remaining b \<Longrightarrow> c \<le> c' \<Longrightarrow> feeds (drop c' s) (adv c c' b)"
  using feeds_move [of "drop c s" b "c' - c"] by (simp add: adv_def)

lemma reads_then:
  assumes m: "reads P1 full1 N1 c b m" and c: "stands h c b" "c \<le> N1"
    and f: "N1 - c \<le> rb_remaining b \<Longrightarrow> reads P2 full2 N2 0 (adv c N1 b) (f full1 (adv c N1 b))"
    and P1: "\<And>y c'. P1 y c' \<Longrightarrow> P (k y) c'" and P2: "\<And>z c'. P2 z c' \<Longrightarrow> P z (N1 + c')"
  shows "reads P full2 (N1 + N2) c b (rd_then m k f)"
proof (cases "N1 - c \<le> rb_remaining b")
  case True
  then have m: "m = Ret (RD_OK, full1, adv c N1 b)" using m by (simp add: reads_def)
  note f = f [OF True]
  show ?thesis
  proof (cases "N1 + N2 - c \<le> rb_remaining b")
    case True
    then show ?thesis
      using f m adv_adv [OF c, of N2] c(2)
      by (intro readsI_full) (auto simp: reads_def rd_then_def)
  next
    case False
    then have "\<not> N2 - 0 \<le> rb_remaining (adv c N1 b)"
      using True c(2) by simp
    then obtain z c' where z: "f full1 (adv c N1 b) = Ret (RD_INCOMPLETE, z, adv 0 c' (adv c N1 b))"
      "P2 z c'" "c' \<le> rb_remaining b - (N1 - c)"
      using f unfolding reads_def by auto
    then show ?thesis
      using False m adv_adv [OF c, of c'] c(2) P2 [OF z(2)] True
      by (intro readsI_part [of _ _ _ _ z "N1 + c'"]) (auto simp: rd_then_def)
  qed
next
  case False
  then obtain y c' where "m = Ret (RD_INCOMPLETE, y, adv c c' b)" "P1 y c'" "c \<le> c'" "c' - c \<le> rb_remaining b"
    using m by (auto simp: reads_def)
  with False show ?thesis
    by (intro readsI_part [of _ _ _ _ "k y" c']) (auto simp: rd_then_def P1)
qed

lemma reads_skip_then:
  assumes m: "m = Ret (RD_OK, full1, rb_ffwd N1 b)" and c: "rb_csr b = - int (N1 + c)"
    and f: "reads P2 full2 N2 c (rb_ffwd N1 b) (f full1 (rb_ffwd N1 b))"
    and N2: "c \<le> N2" and P2: "\<And>z c'. P2 z c' \<Longrightarrow> P z (N1 + c')"
  shows "reads P full2 (N1 + N2) (N1 + c) b (rd_then m k f)"
proof -
  have a: "adv c c' (rb_ffwd N1 b) = adv (N1 + c) (N1 + c') b" if "c \<le> c'" for c'
    using that c by (cases "N1 + c = 0") (auto simp: adv_def rb_ffwd_def)
  show ?thesis
  proof (cases "N2 - c \<le> rb_remaining b")
    case True
    then show ?thesis
      using m f a [OF N2] by (intro readsI_full) (auto simp: reads_def rd_then_def)
  next
    case False
    then obtain z c' where z: "f full1 (rb_ffwd N1 b) = Ret (RD_INCOMPLETE, z, adv c c' (rb_ffwd N1 b))"
      "P2 z c'" "c \<le> c'" "c' - c \<le> rb_remaining b"
      using f by (auto simp: reads_def)
    then show ?thesis
      using False m a [OF z(3)] P2 [OF z(2)]
      by (intro readsI_part [of _ _ _ _ z "N1 + c'"]) (auto simp: rd_then_def)
  qed
qed

section \<open>Wire images\<close>

definition enc_list :: "kobj list \<Rightarrow> bytes" where
  "enc_list xs = concat (map enc xs)"

lemma enc_list_simps [simp]: "enc_list [] = []" "enc_list (x # xs) = enc x @ enc_list xs"
  by (simp_all add: enc_list_def)

lemma concat_units_list: "concat (units_list xs) = enc_list xs"
  by (induction xs) (simp_all add: enc_def)

lemma enc_simps [simp]:
  "enc (KdbException s) = i8typ EXCEPTION # s @ [0]"
  "enc (KdbAtom a) = i8typ (atom_typ a) # atom_mem a"
  "enc (KdbSymbolAtom s) = i8typ SYMBOL_ATOM # s @ [0]"
  "enc (KdbVector v) = vec_hdr (vec_typ v) (vec_attr v) (kvec_count v) @ kvec_mem v"
  "enc (KdbSymbolVector sv) = vec_hdr SYMBOL_VECTOR (sv_attr sv) (length (sv_locs sv)) @ sv_data sv"
  "enc (KdbList attr cap xs) = vec_hdr LIST attr (length xs) @ enc_list xs"
  "enc (KdbTable (Some x) (Some y)) = [i8typ TABLE, 0, i8typ DICT] @ enc x @ enc y"
  "enc (KdbDict (Some x) (Some y)) = [i8typ DICT] @ enc x @ enc y"
  "enc (KdbFunction f) = (i8typ FUNCTION # ATTR_NONE # vec_hdr CHAR_VECTOR ATTR_NONE (length (v_vals f))) @
     words_mem (v_vals f)"
  "enc (KdbUnaryPrimitive p) = [i8typ UNARY_PRIMITIVE, p]"
  "enc (KdbBinaryPrimitive p) = [i8typ BINARY_PRIMITIVE, p]"
  "enc (KdbTernaryPrimitive p) = [i8typ TERNARY_PRIMITIVE, p]"
  "enc (KdbProjection cap xs) = (i8typ PROJECTION # le SZ_INT (length xs)) @ enc_list xs"
  by (simp_all add: enc_def concat_chunks concat_units_list)

lemma hsize_pos [simp]: "0 < hsize x"
  by (cases x) simp_all

lemma hsize_le: "kcan x \<Longrightarrow> hsize x \<le> length (enc x)"
  by (cases x) (auto dest!: units_opt_some [OF kcan_kwf(3)])

lemma length_enc_pos [simp]: "0 < length (enc x)"
  using enc_Cons [of x] by (metis length_greater_0_conv list.distinct(1))

section \<open>Skipping what has been read\<close>

definition skips :: "kobj \<Rightarrow> bool" where
  "skips x \<longleftrightarrow> (\<forall>b. rb_csr b \<le> - int (length (enc x)) \<longrightarrow> kread x b = Ret (RD_OK, x, rb_ffwd (length (enc x)) b))"

lemma ffwd_simps [simp]:
  "rb_csr (rb_ffwd n b) = rb_csr b + int n" "rb_ffwd m (rb_ffwd n b) = rb_ffwd (n + m) b"
  "rb_src (rb_ffwd n b) = rb_src b" "rb_len (rb_ffwd n b) = rb_len b" "rb_off (rb_ffwd n b) = rb_off b"
  by (simp_all add: rb_ffwd_def)

lemma ffwd_0 [simp]: "rb_ffwd 0 b = b"
  by (simp add: rb_ffwd_def)

lemma skip_hdr_neg [simp]: "rb_csr b < 0 \<Longrightarrow> skip_hdr n b = rb_ffwd n b"
  by (simp add: skip_hdr_def rb_active_def)

lemma skip_hdr_active [simp]: "0 \<le> rb_csr b \<Longrightarrow> skip_hdr n b = b"
  by (simp add: skip_hdr_def rb_active_def)

lemma kread_elems_skip:
  assumes "\<And>x. x \<in> set xs \<Longrightarrow> skips x"
  shows "rb_csr b \<le> - int (length (enc_list xs)) \<Longrightarrow>
    kread_elems xs b = Ret (RD_OK, xs, rb_ffwd (length (enc_list xs)) b)"
  using assms
proof (induction xs arbitrary: b)
  case (Cons x xs)
  then show ?case by (simp add: skips_def rd_then_def rd_map_def)
qed simp

lemma kread_parts_skip:
  assumes "skips x" "skips y" "rb_csr b \<le> - int (length (enc x) + length (enc y))"
  shows "kread_parts rq1 rq2 (Some x) (Some y) b =
    Ret (RD_OK, (Some x, Some y), rb_ffwd (length (enc x) + length (enc y)) b)"
proof -
  have "rb_csr b < 0" "rb_csr b + int (length (enc x)) < 0"
    using assms(3) length_enc_pos [of x] length_enc_pos [of y] by linarith+
  then show ?thesis
    using assms by (simp add: kread_parts.simps read_part_def rb_active_def skips_def rd_then_def rd_map_def)
qed

lemma readStrAtom_skip:
  "rb_csr b \<le> - int (length s + 2) \<Longrightarrow> readStrAtom s b = (RD_OK, s, rb_ffwd (length s + 2) b)"
  by (simp add: readStrAtom_def rb_active_def)

lemma atom_mem_pos [simp]: "0 < length (atom_mem a)" "atom_mem a \<noteq> []"
proof -
  show "0 < length (atom_mem a)" by (cases a) simp_all
  then show "atom_mem a \<noteq> []" by simp
qed

lemma readIntAtom_skip:
  assumes "rb_csr b \<le> - int (1 + length (atom_mem a))"
  shows "readIntAtom a b = (RD_OK, a, rb_ffwd (1 + length (atom_mem a)) b)"
proof -
  have "\<not> 0 \<le> rb_csr b + 1" "rb_csr b < 0"
    using assms atom_mem_pos(1) [of a] by linarith+
  then show ?thesis by (simp add: readIntAtom_def rb_active_def Let_def)
qed

lemma readIntVector_skip:
  assumes "rb_csr b \<le> - int (SZ_VEC_HDR + kvec_count v * kvec_width v)" "kvec_cap v = kvec_count v"
  shows "readIntVector v b = (RD_OK, v, rb_ffwd (SZ_VEC_HDR + kvec_count v * kvec_width v) b)"
proof -
  have "rb_csr b < 0" using assms(1) by linarith
  then show ?thesis using assms(2) by (simp add: readIntVector_def mult.commute)
qed

lemma kcan_skips:
  "kcan x \<Longrightarrow> skips x" "kcan_list xs \<Longrightarrow> (\<forall>x \<in> set xs. skips x)"
  "kcan_opt p \<Longrightarrow> skips (the p)"
proof (induction x and xs and p rule: kcan_kcan_list_kcan_opt.induct)
  case (5 v)
  then show ?case
    by (auto dest: sv_can_cap simp: skips_def readSymVector_def rd_map_def)
next
  case (6 attr cap xs)
  then show ?case
    by (auto simp: skips_def kread_elems_skip rd_then_def rd_map_def)
next
  case (7 cols vals)
  then obtain x y where "cols = Some x" "vals = Some y"
    using units_opt_some kcan_kwf(3) by (metis kcan.simps(7))
  then show ?case using 7
    by (auto simp: skips_def [of "KdbTable _ _"] kread_parts_skip rd_map_def add.assoc)
next
  case (8 keys vals)
  then obtain x y where "keys = Some x" "vals = Some y"
    using units_opt_some kcan_kwf(3) by (metis kcan.simps(8))
  then show ?case using 8
    by (auto simp: skips_def [of "KdbDict _ _"] kread_parts_skip rd_map_def)
next
  case (13 cap xs)
  then show ?case
    by (auto simp: skips_def kread_elems_skip rd_then_def rd_map_def)
qed (auto simp: skips_def rd_map_def readStrAtom_skip readIntAtom_skip readIntVector_skip readPrimitive_def
    readFunction_def rb_active_def)

section \<open>Parts of objects\<close>

text \<open>\<open>part x p c\<close>: \<open>p\<close> is what the readers hold of \<open>x\<close> when they have consumed the first \<open>c\<close>
  bytes of its image.\<close>

inductive part :: "kobj \<Rightarrow> kobj \<Rightarrow> nat \<Rightarrow> bool"
  and part_list :: "kobj list \<Rightarrow> kobj list \<Rightarrow> nat \<Rightarrow> bool"
  and part_pair :: "kobj \<Rightarrow> kobj \<Rightarrow> kobj option \<times> kobj option \<Rightarrow> nat \<Rightarrow> bool" where
  part_exc: "part (KdbException s) (KdbException []) 1"
| part_atom: "part (KdbAtom a) (fresh (KdbAtom a)) 1"
| part_sym: "part (KdbSymbolAtom s) (KdbSymbolAtom []) 1"
| part_unary: "part (KdbUnaryPrimitive v) (KdbUnaryPrimitive 0) 1"
| part_binary: "part (KdbBinaryPrimitive v) (KdbBinaryPrimitive 0) 1"
| part_ternary: "part (KdbTernaryPrimitive v) (KdbTernaryPrimitive 0) 1"
| part_done: "hsize x = 1 \<Longrightarrow> part x x (length (enc x))"
| part_vec: "k \<le> kvec_count v \<Longrightarrow>
    part (KdbVector v) (KdbVector (kvec_take k v)) (SZ_VEC_HDR + k * kvec_width v)"
| part_symvec: "k \<le> length (sv_vals v) \<Longrightarrow> w = sv_part (sv_vals v) (sv_attr v) k \<Longrightarrow>
    part (KdbSymbolVector v) (KdbSymbolVector w) (SZ_VEC_HDR + length (sv_data w))"
| part_fun: "k \<le> length (v_vals v) \<Longrightarrow>
    part (KdbFunction v) (KdbFunction (v\<lparr>v_vals := take k (v_vals v)\<rparr>)) (8 + k)"
| part_lst: "part_list xs ys c \<Longrightarrow> part (KdbList attr n xs) (KdbList attr n ys) (SZ_VEC_HDR + c)"
| part_prj: "part_list xs ys c \<Longrightarrow> part (KdbProjection n xs) (KdbProjection n ys) (5 + c)"
| part_tbl: "part_pair x y (p, q) c \<Longrightarrow> part (KdbTable (Some x) (Some y)) (KdbTable p q) (3 + c)"
| part_dict: "part_pair x y (p, q) c \<Longrightarrow> part (KdbDict (Some x) (Some y)) (KdbDict p q) (1 + c)"
| part_nil: "part_list xs [] 0"
| part_cons: "part_list xs ys c \<Longrightarrow> part_list (x # xs) (x # ys) (length (enc x) + c)"
| part_last: "part x y c \<Longrightarrow> part_list (x # xs) [y] c"
| part_none: "part_pair x y (None, None) 0"
| part_first: "part x p c \<Longrightarrow> part_pair x y (Some p, None) c"
| part_both: "part y q c \<Longrightarrow> part_pair x y (Some x, Some q) (length (enc x) + c)"

lemmas part_leaf = part_exc [simplified] part_atom [simplified] part_sym [simplified]
  part_unary [simplified] part_binary [simplified] part_ternary [simplified]

inductive_cases part_excE: "part (KdbException s) p c"
inductive_cases part_atomE: "part (KdbAtom a) p c"
inductive_cases part_symE: "part (KdbSymbolAtom a) p c"
inductive_cases part_unaryE: "part (KdbUnaryPrimitive a) p c"
inductive_cases part_binaryE: "part (KdbBinaryPrimitive a) p c"
inductive_cases part_ternaryE: "part (KdbTernaryPrimitive a) p c"
inductive_cases part_vecE: "part (KdbVector v) p c"
inductive_cases part_symvecE: "part (KdbSymbolVector v) p c"
inductive_cases part_funE: "part (KdbFunction v) p c"
inductive_cases part_lstE: "part (KdbList attr n xs) p c"
inductive_cases part_prjE: "part (KdbProjection n xs) p c"
inductive_cases part_tblE: "part (KdbTable x y) p c"
inductive_cases part_dictE: "part (KdbDict x y) p c"
inductive_cases part_listE: "part_list xs ys c"
inductive_cases part_pairE: "part_pair x y pq c"

lemma part_bounds:
  "part x p c \<Longrightarrow> kcan x \<Longrightarrow> hsize x \<le> c \<and> c \<le> length (enc x)"
  "part_list xs ys c \<Longrightarrow> kcan_list xs \<Longrightarrow> c \<le> length (enc_list xs)"
  "part_pair x y pq c \<Longrightarrow> kcan x \<Longrightarrow> kcan y \<Longrightarrow> c \<le> length (enc x) + length (enc y)"
proof (induction rule: part_part_list_part_pair.inducts)
  case (part_done x)
  then show ?case using length_enc_pos [of x] by (simp add: Suc_le_eq)
next
  case (part_symvec k v w)
  then have "sv_can v" by simp
  then have d: "sv_data v = concat (map (\<lambda>s. s @ [0]) (sv_vals v))"
    by (elim sv_canE) (metis sv_of_vals_sel(4))
  have "sv_vals v = take k (sv_vals v) @ drop k (sv_vals v)" by simp
  then have "length (concat (map (\<lambda>s. s @ [0]) (take k (sv_vals v)))) \<le>
      length (concat (map (\<lambda>s. s @ [0]) (sv_vals v)))"
    by (metis concat_append le_add1 length_append map_append)
  then show ?case using part_symvec d by (simp add: sv_part_def)
qed auto

section \<open>Each reader rebuilds its object\<close>

definition simulates :: "kobj \<Rightarrow> bool" where
  "simulates x \<longleftrightarrow> (\<forall>p c b rest. part x p c \<longrightarrow> stands (hsize x) c b \<longrightarrow>
     feeds (drop c (enc x) @ rest) b \<longrightarrow> reads (part x) x (length (enc x)) c b (kread p b))"

text \<open>An object read before is skipped.\<close>

lemma simulates_done:
  assumes "kcan x" "c = length (enc x)" "hsize x < c" "stands (hsize x) c b"
  shows "reads P x (length (enc x)) c b (kread x b)"
proof -
  have "rb_csr b = - int c" using assms(3,4) by (auto simp: stands_def)
  moreover have "rb_csr b < 0" using calculation assms(3) by simp
  ultimately have "kread x b = Ret (RD_OK, x, adv c (length (enc x)) b)"
    using kcan_skips(1) [OF assms(1)] assms(2) by (simp add: skips_def adv_def rb_ffwd_def)
  then show ?thesis using assms(2) by (intro readsI_full) simp_all
qed

lemma atom_store_mem [simp]:
  "atom_typ a' = atom_typ a \<Longrightarrow> atom_store a' (atom_mem a) = a"
  by (cases a; cases a') simp_all

lemma new_atom_typ [simp]: "atom_typ (the (new_atom (atom_typ a))) = atom_typ a"
  "length (atom_mem (the (new_atom (atom_typ a)))) = length (atom_mem a)"
  by (cases a; simp)+

text \<open>After the type byte the cursor is active.\<close>

lemma stands_1: "stands h h b \<Longrightarrow> 0 \<le> rb_csr (skip_hdr h b)"
  by (auto simp: stands_def skip_hdr_def rb_active_def)

lemma adv_00 [simp]: "0 \<le> rb_csr b \<Longrightarrow> adv 0 0 b = b"
  by (simp add: adv_def)

lemma adv_0: "0 \<le> rb_csr b \<Longrightarrow> adv 0 n b = rb_adj n b"
  by (simp add: adv_def rb_adj_def)

text \<open>Objects with one more field after the type byte.\<close>

lemma reads_field:
  assumes b: "stands 1 1 b" and f: "feeds (s @ rest) b" and p: "part x p 1"
    and m: "\<And>b1. b1 = skip_hdr 1 b \<Longrightarrow> 0 \<le> rb_csr b1 \<Longrightarrow> feeds (s @ rest) b1 \<Longrightarrow>
      m = (if length s \<le> rb_remaining b1 then Ret (RD_OK, x, rb_adj (length s) b1) else Ret (RD_INCOMPLETE, p, b1))"
  shows "reads (part x) x (length s + 1) 1 b m"
proof (rule reads_hdr [OF b, where P = "\<lambda>y c'. y = p \<and> c' = 0"])
  let ?b = "skip_hdr 1 b"
  have csr: "0 \<le> rb_csr ?b" by (rule stands_1 [OF b])
  have "feeds (s @ rest) ?b" using f by simp
  note m = m [OF refl csr this]
  show "reads (\<lambda>y c'. y = p \<and> c' = 0) x (length s) (1 - 1) ?b m"
  proof (cases "length s \<le> rb_remaining ?b")
    case True
    then show ?thesis using m csr by (intro readsI_full) (simp_all add: adv_0)
  next
    case False
    then show ?thesis using m csr by (intro readsI_part [of _ _ _ _ p 0]) simp_all
  qed
qed (use p in auto)

lemma simulatesI:
  assumes "\<And>p c b rest. part x p c \<Longrightarrow> stands (hsize x) c b \<Longrightarrow> feeds (drop c (enc x) @ rest) b \<Longrightarrow>
    reads (part x) x (length (enc x)) c b (kread p b)"
  shows "simulates x"
  using assms by (simp add: simulates_def)

text \<open>The one-field objects: what is held is either fresh or done.\<close>

lemma simulates_field:
  assumes can: "kcan x" "hsize x = 1"
    and e: "enc x = i8typ t # s"
    and parts: "\<And>p c. part x p c \<Longrightarrow> (p = pf \<and> c = 1) \<or> (p = x \<and> c = length (enc x))"
    and pf: "part x pf 1" and s: "s \<noteq> []"
    and m: "\<And>b rest. feeds (s @ rest) (skip_hdr 1 b) \<Longrightarrow> 0 \<le> rb_csr (skip_hdr 1 b) \<Longrightarrow>
      kread pf b = (if length s \<le> rb_remaining b then Ret (RD_OK, x, rb_adj (length s) (skip_hdr 1 b))
        else Ret (RD_INCOMPLETE, pf, skip_hdr 1 b))"
  shows "simulates x"
proof (rule simulatesI)
  fix p c b rest
  assume p: "part x p c" and b: "stands (hsize x) c b" and f: "feeds (drop c (enc x) @ rest) b"
  from parts [OF p] show "reads (part x) x (length (enc x)) c b (kread p b)"
  proof
    assume p': "p = pf \<and> c = 1"
    have "reads (part x) x (length s + 1) 1 b (kread pf b)"
      by (rule reads_field [where rest = rest]) (use b f p' pf m e can in auto)
    with p' e show ?thesis by simp
  next
    assume p': "p = x \<and> c = length (enc x)"
    moreover have "1 < length (enc x)" using e s by (cases s) auto
    ultimately show ?thesis using b can by (auto intro!: simulates_done)
  qed
qed

lemma simulates_atom: "simulates (KdbAtom a)"
proof (rule simulates_field)
  fix b rest assume "feeds (atom_mem a @ rest) (skip_hdr 1 b)" "0 \<le> rb_csr (skip_hdr 1 b)"
  then show "kread (fresh (KdbAtom a)) b = (if length (atom_mem a) \<le> rb_remaining b
      then Ret (RD_OK, KdbAtom a, rb_adj (length (atom_mem a)) (skip_hdr 1 b))
      else Ret (RD_INCOMPLETE, fresh (KdbAtom a), skip_hdr 1 b))"
    using feeds_read [of "atom_mem a" rest "skip_hdr 1 b"]
    by (simp add: rd_map_def readIntAtom_def rb_active_def Let_def rb_adj_def)
qed (auto elim!: part_atomE intro: part_leaf)

lemma readPrimitive_field:
  assumes "feeds ([v] @ rest) (skip_hdr 1 b)" "0 \<le> rb_csr (skip_hdr 1 b)"
  shows "readPrimitive u b = (if 1 \<le> rb_remaining b then (RD_OK, v, rb_adj 1 (skip_hdr 1 b))
    else (RD_INCOMPLETE, u, skip_hdr 1 b))"
  using feeds_read [OF assms(1), of 1] assms(2)
  by (simp add: readPrimitive_def rb_active_def rb_canRead_def rb_adj_def)

lemma simulates_primitive:
  "simulates (KdbUnaryPrimitive v)" "simulates (KdbBinaryPrimitive v)" "simulates (KdbTernaryPrimitive v)"
proof -
  show "simulates (KdbUnaryPrimitive v)"
    by (rule simulates_field [where pf = "KdbUnaryPrimitive 0"])
      (auto elim!: part_unaryE intro: part_leaf simp: readPrimitive_field rd_map_def)
  show "simulates (KdbBinaryPrimitive v)"
    by (rule simulates_field [where pf = "KdbBinaryPrimitive 0"])
      (auto elim!: part_binaryE intro: part_leaf simp: readPrimitive_field rd_map_def)
  show "simulates (KdbTernaryPrimitive v)"
    by (rule simulates_field [where pf = "KdbTernaryPrimitive 0"])
      (auto elim!: part_ternaryE intro: part_leaf simp: readPrimitive_field rd_map_def)
qed

lemma takeWhile_sym:
  assumes "0 \<notin> set s" "length s < n"
  shows "takeWhile (\<lambda>c. c \<noteq> 0) (take n (s @ 0 # t)) = s" "0 \<in> set (take n (s @ 0 # t))"
proof -
  have "take n (s @ 0 # t) = s @ 0 # take (n - length s - 1) t"
    using assms(2) by (cases "n - length s") auto
  moreover have "takeWhile (\<lambda>c. c \<noteq> 0) (s @ 0 # u) = s" for u
    using assms(1) by (induction s) auto
  ultimately show "takeWhile (\<lambda>c. c \<noteq> 0) (take n (s @ 0 # t)) = s" "0 \<in> set (take n (s @ 0 # t))"
    by (simp_all del: takeWhile_append take_append)
qed

lemma readSym_field:
  assumes f: "feeds ((s @ [0]) @ rest) b" and s: "0 \<notin> set s"
  shows "rb_readSym u b = (if length s + 1 \<le> rb_remaining b then (RD_OK, s, rb_adj (length s + 1) b)
    else (RD_INCOMPLETE, u, b))"
proof -
  have wf: "rb_wf b" and av: "rb_avail b = take (rb_remaining b) (s @ 0 # rest)"
    using f by (simp_all add: feeds_def)
  show ?thesis
  proof (cases "length s + 1 \<le> rb_remaining b")
    case True
    then have "length s < rb_remaining b" by simp
    from takeWhile_sym [OF s this, of rest] True show ?thesis
      unfolding rb_readSym_avail [OF wf] av by (simp add: Let_def rb_adj_def)
  next
    case False
    then have "rb_avail b = take (rb_remaining b) s" by (simp add: av)
    then have "0 \<notin> set (rb_avail b)" using s by (metis in_set_takeD)
    with False show ?thesis unfolding rb_readSym_avail [OF wf] by simp
  qed
qed

lemma readStrAtom_field:
  assumes "feeds ((s @ [0]) @ rest) (skip_hdr 1 b)" "0 \<notin> set s" "0 \<le> rb_csr (skip_hdr 1 b)"
  shows "readStrAtom u b = (if length s + 1 \<le> rb_remaining b
    then (RD_OK, s, rb_adj (length s + 1) (skip_hdr 1 b)) else (RD_INCOMPLETE, u, skip_hdr 1 b))"
  using readSym_field [OF assms(1,2)] assms(3) by (simp add: readStrAtom_def rb_active_def)

lemma simulates_string:
  assumes "0 \<notin> set s"
  shows "simulates (KdbException s)" "simulates (KdbSymbolAtom s)"
proof -
  show "simulates (KdbException s)"
    by (rule simulates_field [where pf = "KdbException []" and s = "s @ [0]"])
      (use assms in \<open>auto elim!: part_excE intro: part_leaf
        simp: readStrAtom_field [where s = s] rd_map_def\<close>)
  show "simulates (KdbSymbolAtom s)"
    by (rule simulates_field [where pf = "KdbSymbolAtom []" and s = "s @ [0]"])
      (use assms in \<open>auto elim!: part_symE intro: part_leaf
        simp: readStrAtom_field [where s = s] rd_map_def\<close>)
qed

text \<open>Vectors.\<close>

lemma vec_insert_take:
  fixes v :: "'a::len word vec"
  assumes "byte_sized TYPE('a)" "v_cap v = length (v_vals v)" "k + m \<le> length (v_vals v)"
  shows "vec_insert (v\<lparr>v_vals := take k (v_vals v)\<rparr>)
      (take (m * sizeof TYPE('a)) (drop (k * sizeof TYPE('a)) (words_mem (v_vals v)))) =
    v\<lparr>v_vals := take (k + m) (v_vals v)\<rparr>"
proof -
  let ?ws = "take m (drop k (v_vals v))"
  have len: "length ?ws = m" using assms(3) by simp
  have "words_of (length ?ws) (words_mem ?ws @ []) = ?ws"
    by (rule words_of_mem [OF assms(1)])
  then have "words_of m (words_mem ?ws) = ?ws" by (simp only: len append_Nil2)
  moreover have "m * sizeof TYPE('a) div sizeof TYPE('a) = m"
    using sizeof_pos [OF assms(1)] by simp
  ultimately show ?thesis
    using assms(2,3) len
    by (simp add: vec_insert_def drop_words_mem take_words_mem vec_append_def Let_def take_add)
qed

lemma kvec_take_simps [simp]:
  "kvec_cap (kvec_take k v) = kvec_cap v" "kvec_width (kvec_take k v) = kvec_width v"
  "kvec_count (kvec_take k v) = min (kvec_count v) k" "vec_attr (kvec_take k v) = vec_attr v"
  "kvec_take (kvec_count v) v = v"
  by (cases v; simp)+

lemma kvec_insert_take:
  assumes "kvec_cap v = kvec_count v" "k + m \<le> kvec_count v"
  shows "kvec_insert (kvec_take k v) (take (m * kvec_width v) (drop (k * kvec_width v) (kvec_mem v))) =
    kvec_take (k + m) v"
  using assms vec_insert_take [where 'a = 8, OF byte_sized_words(1)] vec_insert_take [where 'a = 16, OF byte_sized_words(2)]
    vec_insert_take [where 'a = 32, OF byte_sized_words(3)] vec_insert_take [where 'a = 64, OF byte_sized_words(4)]
    vec_insert_take [where 'a = 128, OF byte_sized_words(5)]
  by (cases v; simp only: kvec_cap.simps kvec_count.simps kvec_take.simps kvec_insert.simps
      kvec_width.simps kvec_mem.simps)

lemma readIntVector_take:
  assumes v: "kvec_cap v = kvec_count v" "k \<le> kvec_count v"
    and b: "0 \<le> rb_csr b2" "b2 = rb_ffwd (k * kvec_width v) (skip_hdr SZ_VEC_HDR b)"
    and f: "feeds (drop (k * kvec_width v) (kvec_mem v) @ rest) b2"
    and m: "m = min (kvec_count v - k) (rb_remaining b div kvec_width v)"
  shows "readIntVector (kvec_take k v) b =
    (if k + m = kvec_count v then RD_OK else RD_INCOMPLETE, kvec_take (k + m) v, rb_adj (m * kvec_width v) b2)"
proof -
  have rem: "rb_remaining b2 = rb_remaining b" by (simp add: b)
  have "m * kvec_width v \<le> rb_remaining b div kvec_width v * kvec_width v"
    by (rule mult_le_mono1) (simp add: m)
  also have "\<dots> \<le> rb_remaining b" by (rule div_times_less_eq_dividend)
  finally have ml: "m * kvec_width v \<le> rb_remaining b" "k + m \<le> kvec_count v"
    using v(2) by (simp_all add: m)
  have "rb_peek (m * kvec_width v) b2 = take (m * kvec_width v) (drop (k * kvec_width v) (kvec_mem v) @ rest)"
    using f ml(1) by (intro feeds_peek) (simp_all add: rem)
  also have "\<dots> = take (m * kvec_width v) (drop (k * kvec_width v) (kvec_mem v))"
    using ml(2) v(2) by (simp add: diff_mult_distrib [symmetric])
  finally have peek: "kvec_insert (kvec_take k v) (rb_peek (m * kvec_width v) b2) = kvec_take (k + m) v"
    using kvec_insert_take [OF v(1) ml(2)] by simp
  have m': "min (kvec_count v - k) (rb_remaining b div kvec_width v) = m" by (simp add: m)
  show ?thesis
  proof (cases "k = kvec_count v")
    case True
    then show ?thesis
      using v m b(2) by (simp add: readIntVector_def mult.commute rb_adj_def Let_def)
  next
    case False
    have b2: "rb_ffwd (kvec_width v * k) (skip_hdr SZ_VEC_HDR b) = b2" by (simp add: b mult.commute)
    show ?thesis
      using False v(2) ml peek unfolding readIntVector_def Let_def kvec_take_simps v(1) min_absorb2 [OF v(2)] b2 rem m'
      by (auto simp: rb_readVec_def Let_def mult.commute rb_adj_def rem)
  qed
qed

lemma stands_ffwd:
  assumes "stands h (h + d) b"
  shows "0 \<le> rb_csr (rb_ffwd d (skip_hdr h b))"
    "d \<le> N \<Longrightarrow> N \<le> N' \<Longrightarrow> adv d N (skip_hdr h b) = rb_adj (N - d) (rb_ffwd d (skip_hdr h b))"
  using assms by (auto simp: stands_def skip_hdr_def rb_active_def adv_def rb_adj_def rb_ffwd_def of_nat_diff)

text \<open>A vector of \<open>n\<close> elements of \<open>E\<close> bytes, of which \<open>k\<close> have been read, reads as many more as
  are there.\<close>

lemma reads_elements:
  assumes E: "0 < E" and k: "k \<le> n" and b: "stands h (h + k * E) b"
    and m: "m = min (n - k) (rb_remaining b div E)"
    and r: "res = Ret (if k + m = n then RD_OK else RD_INCOMPLETE, obj (k + m),
      rb_adj (m * E) (rb_ffwd (k * E) (skip_hdr h b)))"
    and P: "\<And>j. j \<le> n \<Longrightarrow> P (obj j) (h + j * E)"
  shows "reads P (obj n) (n * E + h) (h + k * E) b res"
proof (rule reads_hdr [OF b, where P = "\<lambda>y c'. \<exists>j \<le> n. y = obj j \<and> c' = j * E"])
  let ?b = "skip_hdr h b"
  have nk: "n * E - k * E = (n - k) * E" by (simp add: diff_mult_distrib)
  have "m * E \<le> rb_remaining b div E * E"
    by (rule mult_le_mono1) (simp add: m)
  also have "\<dots> \<le> rb_remaining b" by (rule div_times_less_eq_dividend)
  finally have mE: "m * E \<le> rb_remaining b" .
  have adv: "adv (k * E) (j * E) ?b = rb_adj ((j - k) * E) (rb_ffwd (k * E) ?b)" if "k \<le> j" for j
    using stands_ffwd(2) [OF b, of "j * E" "j * E"] that by (simp add: diff_mult_distrib)
  show "reads (\<lambda>y c'. \<exists>j\<le>n. y = obj j \<and> c' = j * E) (obj n) (n * E) (h + k * E - h) ?b res"
  proof (cases "(n - k) * E \<le> rb_remaining b")
    case True
    then have "n - k \<le> rb_remaining b div E"
      using E by (simp add: less_eq_div_iff_mult_less_eq)
    then have "m = n - k" by (simp add: m)
    with True k r adv [OF k] show ?thesis
      by (intro readsI_full) (simp_all add: nk)
  next
    case False
    then have "k + m \<noteq> n" using mE by auto
    then have "k + m < n" using m k by linarith
    with False r adv [of "k + m"] mE show ?thesis
      by (intro readsI_part [of _ _ _ _ "obj (k + m)" "(k + m) * E"])
        (auto simp: nk add_mult_distrib intro!: exI [of _ "k + m"])
  qed
qed (use k P in auto)

lemma simulates_vec:
  assumes "kcan (KdbVector v)"
  shows "simulates (KdbVector v)"
proof (rule simulatesI)
  fix p c b rest
  assume p: "part (KdbVector v) p c" and b: "stands (hsize (KdbVector v)) c b"
    and f: "feeds (drop c (enc (KdbVector v)) @ rest) b"
  let ?n = "kvec_count v" and ?E = "kvec_width v"
  from p show "reads (part (KdbVector v)) (KdbVector v) (length (enc (KdbVector v))) c b (kread p b)"
  proof (rule part_vecE)
    fix k assume k: "p = KdbVector (kvec_take k v)" "c = SZ_VEC_HDR + k * ?E" "k \<le> ?n"
    define m where "m = min (?n - k) (rb_remaining b div ?E)"
    let ?b2 = "rb_ffwd (k * ?E) (skip_hdr SZ_VEC_HDR b)"
    have "readIntVector (kvec_take k v) b =
        (if k + m = ?n then RD_OK else RD_INCOMPLETE, kvec_take (k + m) v, rb_adj (m * ?E) ?b2)"
    proof (rule readIntVector_take [OF _ k(3) _ refl _ m_def])
      show "0 \<le> rb_csr ?b2"
        by (rule stands_ffwd(1)) (use b k in simp)
      show "feeds (drop (k * ?E) (kvec_mem v) @ rest) ?b2"
        using f k by simp
    qed (use assms in simp)
    then have "reads (part (KdbVector v)) (KdbVector (kvec_take ?n v)) (?n * ?E + SZ_VEC_HDR)
        (SZ_VEC_HDR + k * ?E) b (kread p b)"
      using k b m_def
      by (intro reads_elements [where obj = "\<lambda>j. KdbVector (kvec_take j v)"])
        (auto simp: rd_map_def intro: part_vec)
    with k show ?thesis by (simp add: add.commute)
  qed
qed

lemma readFunction_take:
  assumes v: "v_cap v = length (v_vals v)" "k \<le> length (v_vals v)"
    and f: "feeds (drop k (words_mem (v_vals v)) @ rest) (skip_hdr 8 b)"
    and m: "m = min (length (v_vals v) - k) (rb_remaining b)"
  shows "readFunction (v\<lparr>v_vals := take k (v_vals v)\<rparr>) b =
    (if k + m = length (v_vals v) then RD_OK else RD_INCOMPLETE, v\<lparr>v_vals := take (k + m) (v_vals v)\<rparr>,
     rb_adj m (rb_ffwd k (skip_hdr 8 b)))"
proof -
  let ?b = "rb_ffwd k (skip_hdr 8 b)"
  have "rb_peek m ?b = take m (drop k (words_mem (v_vals v)) @ rest)"
    using f by (intro feeds_peek) (simp_all add: m)
  also have "\<dots> = take m (drop k (words_mem (v_vals v)))"
    using v(2) by (simp add: m)
  finally have ins: "vec_insert (v\<lparr>v_vals := take k (v_vals v)\<rparr>) (rb_peek m ?b) = v\<lparr>v_vals := take (k + m) (v_vals v)\<rparr>"
    using vec_insert_take [OF byte_sized_words(1) v(1), of k m] v(2) by (simp add: m)
  have rem: "rb_remaining ?b = rb_remaining b" "SZ_BYTE + SZ_BYTE + SZ_VEC_HDR = 8" by simp_all
  have m': "min (length (v_vals v) - k) (rb_remaining b) = m" by (simp add: m)
  have len: "length (take k (v_vals v)) = k" using v(2) by simp
  show ?thesis
  proof (cases "k = length (v_vals v)")
    case True
    then have "m = 0" by (simp add: m)
    with True show ?thesis
      using v by (simp add: readFunction_def rb_adj_def Let_def)
  next
    case False
    have "m \<le> rb_remaining b" "k + m \<le> length (v_vals v)"
      using m v(2) by simp_all
    with False show ?thesis
      using v(2) ins unfolding readFunction_def Let_def rem m' len
      by (auto simp: rb_readVec_def Let_def rb_adj_def m' len v(1))
  qed
qed

lemma drop_hdr: "length h = n \<Longrightarrow> drop (n + k) (h @ s) = drop k s"
  by simp

lemma simulates_fun:
  assumes "kcan (KdbFunction v)"
  shows "simulates (KdbFunction v)"
proof (rule simulatesI)
  fix p c b rest
  assume p: "part (KdbFunction v) p c" and b: "stands (hsize (KdbFunction v)) c b"
    and f: "feeds (drop c (enc (KdbFunction v)) @ rest) b"
  let ?n = "length (v_vals v)"
  from p show "reads (part (KdbFunction v)) (KdbFunction v) (length (enc (KdbFunction v))) c b (kread p b)"
  proof (rule part_funE)
    fix k assume k: "p = KdbFunction (v\<lparr>v_vals := take k (v_vals v)\<rparr>)" "c = 8 + k" "k \<le> ?n"
    define m where "m = min (?n - k) (rb_remaining b)"
    have "drop c (enc (KdbFunction v)) = drop k (words_mem (v_vals v))"
      unfolding enc_simps k(2) by (rule drop_hdr) simp
    then have "feeds (drop k (words_mem (v_vals v)) @ rest) (skip_hdr 8 b)"
      using f by simp
    then have "readFunction (v\<lparr>v_vals := take k (v_vals v)\<rparr>) b =
        (if k + m = ?n then RD_OK else RD_INCOMPLETE, v\<lparr>v_vals := take (k + m) (v_vals v)\<rparr>,
         rb_adj m (rb_ffwd k (skip_hdr 8 b)))"
      using assms by (intro readFunction_take [OF _ k(3) _ m_def]) simp_all
    then have "reads (part (KdbFunction v)) (KdbFunction (v\<lparr>v_vals := take ?n (v_vals v)\<rparr>)) (?n * 1 + 8)
        (8 + k * 1) b (kread p b)"
      using k b m_def part_fun [of _ v]
      by (intro reads_elements [where obj = "\<lambda>j. KdbFunction (v\<lparr>v_vals := take j (v_vals v)\<rparr>)"])
        (auto simp: rd_map_def)
    with k show ?thesis by (simp add: add.commute)
  qed
qed

text \<open>Symbol vectors.\<close>

definition sv_off :: "bytes list \<Rightarrow> nat \<Rightarrow> nat" where
  "sv_off vals j = length (concat (map (\<lambda>s. s @ [0]) (take j vals)))"

lemma sv_off_Suc: "j < length vals \<Longrightarrow> sv_off vals (Suc j) = sv_off vals j + (length (vals ! j) + 1)"
  by (simp add: sv_off_def take_Suc_conv_app_nth)

lemma sv_off_mono: "i \<le> j \<Longrightarrow> sv_off vals i \<le> sv_off vals j"
proof (induction rule: dec_induct)
  case (step n)
  then show ?case by (cases "n < length vals") (simp_all add: sv_off_Suc, simp add: sv_off_def)
qed simp

lemma length_sv_part [simp]: "length (sv_data (sv_part vals a j)) = sv_off vals j"
  "sv_cap (sv_part vals a j) = length vals" "sv_attr (sv_part vals a j) = a"
  "length (sv_locs (sv_part vals a j)) = min (length vals) j"
  by (simp_all add: sv_part_def sv_off_def sv_of_vals_def)

lemma sv_locs_from_snoc:
  "sv_locs_from c (xs @ [s]) = sv_locs_from c xs @
     [LocInfo (word_of_nat (c + length (concat (map (\<lambda>s. s @ [0]) xs)))) (word_of_nat (length s + SZ_BYTE))]"
  by (induction xs arbitrary: c) (simp_all add: add.assoc)

lemma sv_part_push:
  assumes "j < length vals"
  shows "sv_push_loc (sv_part vals a j) (length (vals ! j) + SZ_BYTE) (vals ! j @ [0]) = sv_part vals a (Suc j)"
  using assms
  by (simp add: sv_push_loc_def sv_part_def sv_of_vals_def Let_def take_Suc_conv_app_nth sv_locs_from_snoc)

lemma readSyms_step:
  assumes f: "feeds (s @ 0 # rest) b" and s: "0 \<notin> set s"
  shows "strnlen (drop (rb_off b) (rb_src b)) (rb_remaining b) = min (length s) (rb_remaining b)"
    "length s < rb_remaining b \<Longrightarrow> take (length s + SZ_BYTE) (drop (rb_off b) (rb_src b)) = s @ [0]"
proof -
  let ?d = "drop (rb_off b) (rb_src b)"
  have av: "take (rb_remaining b) ?d = take (rb_remaining b) (s @ 0 # rest)"
    using f by (simp add: feeds_def rb_avail_def)
  show "strnlen ?d (rb_remaining b) = min (length s) (rb_remaining b)"
  proof (cases "length s < rb_remaining b")
    case True
    then show ?thesis unfolding strnlen_def av using takeWhile_sym(1) [OF s True] by simp
  next
    case False
    then have e1: "take (rb_remaining b) (s @ 0 # rest) = take (rb_remaining b) s" by simp
    have e2: "takeWhile (\<lambda>c. c \<noteq> 0) (take (rb_remaining b) s) = take (rb_remaining b) s"
      using s by (auto simp: takeWhile_eq_all_conv dest: in_set_takeD)
    show ?thesis unfolding strnlen_def av e1 e2 using False by simp
  qed
  show "take (length s + SZ_BYTE) ?d = s @ [0]" if "length s < rb_remaining b"
  proof -
    have "take (length s + SZ_BYTE) ?d = take (length s + SZ_BYTE) (take (rb_remaining b) ?d)"
      using that by (simp add: min_def)
    then show ?thesis unfolding av using that by (simp add: min_def)
  qed
qed

lemma readSyms_loop:
  assumes "k \<le> length vals" "feeds (concat (map (\<lambda>s. s @ [0]) (drop k vals)) @ rest) b"
    "\<And>s. s \<in> set vals \<Longrightarrow> 0 \<notin> set s"
  shows "\<exists>j. k \<le> j \<and> j \<le> length vals \<and> sv_off vals j - sv_off vals k \<le> rb_remaining b \<and>
    rb_readSyms_loop (length vals - k) (rb_remaining b) (sv_part vals a k) b =
      (if j = length vals then RD_OK else RD_INCOMPLETE, sv_part vals a j, rb_adj (sv_off vals j - sv_off vals k) b) \<and>
    (j < length vals \<longrightarrow> rb_remaining b < sv_off vals (length vals) - sv_off vals k)"
  using assms(1,2)
proof (induction "length vals - k" arbitrary: k b)
  case 0
  then show ?case by (intro exI [of _ "length vals"]) (simp add: rb_adj_def)
next
  case (Suc d)
  then have k: "k < length vals" by simp
  let ?s = "vals ! k"
  have s: "0 \<notin> set ?s" using assms(3) k by simp
  have f: "feeds (?s @ 0 # concat (map (\<lambda>s. s @ [0]) (drop (Suc k) vals)) @ rest) b"
    using Suc.prems(2) k by (simp add: Cons_nth_drop_Suc [symmetric])
  note step = readSyms_step [OF f s]
  have n: "length vals - k = Suc (length vals - Suc k)" using k by simp
  show ?case
  proof (cases "length ?s < rb_remaining b")
    case True
    let ?b = "rb_adj (length ?s + SZ_BYTE) b"
    have "feeds (concat (map (\<lambda>s. s @ [0]) (drop (Suc k) vals)) @ rest) ?b"
      using feeds_move [OF f, of "length ?s + 1"] True by (simp add: rb_adj_def)
    moreover have "d = length vals - Suc k" "Suc k \<le> length vals"
      using Suc.hyps(2) k by simp_all
    ultimately obtain j where j: "Suc k \<le> j" "j \<le> length vals"
      "sv_off vals j - sv_off vals (Suc k) \<le> rb_remaining ?b"
      "rb_readSyms_loop (length vals - Suc k) (rb_remaining ?b) (sv_part vals a (Suc k)) ?b =
        (if j = length vals then RD_OK else RD_INCOMPLETE, sv_part vals a j,
         rb_adj (sv_off vals j - sv_off vals (Suc k)) ?b)"
      "j < length vals \<longrightarrow> rb_remaining ?b < sv_off vals (length vals) - sv_off vals (Suc k)"
      using Suc.hyps(1) [of "Suc k" ?b] by blast
    have r: "rb_remaining b - (length ?s + SZ_BYTE) = rb_remaining ?b" by (simp add: rb_adj_def)
    have o: "sv_off vals j - sv_off vals k = length ?s + 1 + (sv_off vals j - sv_off vals (Suc k))"
      using sv_off_mono [OF j(1), of vals] by (simp add: sv_off_Suc [OF k])
    have o': "sv_off vals (length vals) - sv_off vals k =
        length ?s + 1 + (sv_off vals (length vals) - sv_off vals (Suc k))"
      using sv_off_mono [of "Suc k" "length vals" vals] k by (simp add: sv_off_Suc [OF k])
    have "rb_readSyms_loop (length vals - k) (rb_remaining b) (sv_part vals a k) b =
        rb_readSyms_loop (length vals - Suc k) (rb_remaining ?b) (sv_part vals a (Suc k)) ?b"
      using True unfolding n rb_readSyms_loop.simps Let_def step(1) min_absorb1 [OF less_imp_le [OF True]]
        step(2) [OF True] sv_part_push [OF k] r by simp
    moreover have "rb_adj (sv_off vals j - sv_off vals (Suc k)) ?b = rb_adj (sv_off vals j - sv_off vals k) b"
      by (simp add: rb_adj_def o)
    moreover have "sv_off vals j - sv_off vals k \<le> rb_remaining b"
      using j(3) True by (simp add: o rb_adj_def)
    moreover have "j < length vals \<longrightarrow> rb_remaining b < sv_off vals (length vals) - sv_off vals k"
      using j(5) True by (auto simp: o' rb_adj_def less_diff_conv2)
    ultimately show ?thesis using j(1,2,4) by (intro exI [of _ j]) simp
  next
    case False
    have "rb_readSyms_loop (length vals - k) (rb_remaining b) (sv_part vals a k) b = (RD_INCOMPLETE, sv_part vals a k, b)"
      using False unfolding n rb_readSyms_loop.simps Let_def step(1) by simp
    moreover have "rb_remaining b < sv_off vals (length vals) - sv_off vals k"
      using False sv_off_mono [of "Suc k" "length vals" vals] k by (simp add: sv_off_Suc [OF k])
    ultimately show ?thesis using k by (intro exI [of _ k]) (simp add: rb_adj_def)
  qed
qed

lemma sv_split: "concat (map (\<lambda>s. s @ [0]) vals) =
    concat (map (\<lambda>s. s @ [0]) (take k vals)) @ concat (map (\<lambda>s. s @ [0]) (drop k vals))"
  by (metis append_take_drop_id concat_append map_append)

lemma readSymVector_part:
  assumes k: "k \<le> length vals" and nz: "\<And>s. s \<in> set vals \<Longrightarrow> 0 \<notin> set s"
    and f: "feeds (concat (map (\<lambda>s. s @ [0]) (drop k vals)) @ rest) (rb_ffwd (sv_off vals k) (skip_hdr SZ_VEC_HDR b))"
  shows "\<exists>j. k \<le> j \<and> j \<le> length vals \<and> sv_off vals j - sv_off vals k \<le> rb_remaining b \<and>
    readSymVector (sv_part vals a k) b =
      (if j = length vals then RD_OK else RD_INCOMPLETE, sv_part vals a j,
       rb_adj (sv_off vals j - sv_off vals k) (rb_ffwd (sv_off vals k) (skip_hdr SZ_VEC_HDR b))) \<and>
    (j < length vals \<longrightarrow> rb_remaining b < sv_off vals (length vals) - sv_off vals k)"
proof -
  let ?n = "length vals" and ?b2 = "rb_ffwd (sv_off vals k) (skip_hdr SZ_VEC_HDR b)"
  obtain j where j: "k \<le> j" "j \<le> ?n" "sv_off vals j - sv_off vals k \<le> rb_remaining b"
    and loop: "rb_readSyms_loop (?n - k) (rb_remaining b) (sv_part vals a k) ?b2 =
      (if j = ?n then RD_OK else RD_INCOMPLETE, sv_part vals a j, rb_adj (sv_off vals j - sv_off vals k) ?b2)"
    and less: "j < ?n \<longrightarrow> rb_remaining b < sv_off vals ?n - sv_off vals k"
    using readSyms_loop [OF k f nz, of a] by auto
  consider "k = ?n" | "k < ?n" "0 < rb_remaining b" | "k < ?n" "rb_remaining b = 0"
    using k by fastforce
  then show ?thesis
  proof cases
    case 1
    then show ?thesis
      by (intro exI [of _ ?n]) (simp add: readSymVector_def rb_adj_def Let_def)
  next
    case 2
    then have "readSymVector (sv_part vals a k) b = rb_readSyms_loop (?n - k) (rb_remaining b) (sv_part vals a k) ?b2"
      by (simp add: readSymVector_def rb_readSyms_def Let_def)
    then show ?thesis using j loop less by auto
  next
    case 3
    then have "readSymVector (sv_part vals a k) b = (RD_INCOMPLETE, sv_part vals a k, ?b2)"
      by (simp add: readSymVector_def rb_readSyms_def Let_def)
    moreover have "sv_off vals k < sv_off vals ?n"
      using 3 sv_off_mono [of "Suc k" ?n vals] by (simp add: sv_off_Suc)
    ultimately show ?thesis using 3 by (intro exI [of _ k]) (simp add: rb_adj_def)
  qed
qed

lemma simulates_symvec:
  assumes "kcan (KdbSymbolVector v)"
  shows "simulates (KdbSymbolVector v)"
proof (rule simulatesI)
  fix p c b rest
  assume p: "part (KdbSymbolVector v) p c" and b: "stands (hsize (KdbSymbolVector v)) c b"
    and f: "feeds (drop c (enc (KdbSymbolVector v)) @ rest) b"
  obtain vals where v: "v = sv_of_vals vals (sv_attr v)" "sv_vals v = vals"
    and nz: "\<And>s. s \<in> set vals \<Longrightarrow> 0 \<notin> set s"
    using assms by (auto elim: sv_canE)
  let ?n = "length vals" and ?obj = "\<lambda>j. KdbSymbolVector (sv_part vals (sv_attr v) j)"
  have full: "sv_part vals (sv_attr v) ?n = v"
    by (subst (2) v(1)) (simp add: sv_part_def sv_of_vals_def)
  have data: "sv_data v = concat (map (\<lambda>s. s @ [0]) vals)" "length (sv_locs v) = ?n"
    by (subst v(1), simp)+
  have len: "length (enc (KdbSymbolVector v)) = sv_off vals ?n + SZ_VEC_HDR"
    by (simp add: data sv_off_def)
  from p v(2) obtain k where k: "k \<le> ?n" and pk: "p = ?obj k" and c: "c = SZ_VEC_HDR + sv_off vals k"
    by (auto elim!: part_symvecE)
  have b': "stands SZ_VEC_HDR (SZ_VEC_HDR + sv_off vals k) b" using b c by simp
  let ?b1 = "skip_hdr SZ_VEC_HDR b" and ?b2 = "rb_ffwd (sv_off vals k) (skip_hdr SZ_VEC_HDR b)"
  have "drop c (enc (KdbSymbolVector v)) = drop (sv_off vals k) (sv_data v)"
    unfolding c enc_simps by (rule drop_hdr) simp
  also have "\<dots> = concat (map (\<lambda>s. s @ [0]) (drop k vals))"
    unfolding data sv_split [of vals k] by (simp add: sv_off_def)
  finally have "feeds (concat (map (\<lambda>s. s @ [0]) (drop k vals)) @ rest) ?b2"
    using f by simp
  from readSymVector_part [OF k nz this, of "sv_attr v"]
  obtain j where j: "k \<le> j" "j \<le> ?n" "sv_off vals j - sv_off vals k \<le> rb_remaining b"
    and r: "kread p b = Ret (if j = ?n then RD_OK else RD_INCOMPLETE, ?obj j, rb_adj (sv_off vals j - sv_off vals k) ?b2)"
    and less: "j < ?n \<longrightarrow> rb_remaining b < sv_off vals ?n - sv_off vals k"
    by (auto simp: pk rd_map_def)
  have adv: "rb_adj (sv_off vals j - sv_off vals k) ?b2 = adv (sv_off vals k) (sv_off vals j) ?b1"
    using stands_ffwd(2) [OF b' sv_off_mono [OF j(1)] order_refl] by simp
  have "reads (part (KdbSymbolVector v)) (?obj ?n) (sv_off vals ?n + SZ_VEC_HDR) (SZ_VEC_HDR + sv_off vals k) b (kread p b)"
  proof (rule reads_hdr [OF b', where P = "\<lambda>y c'. \<exists>j \<le> ?n. y = ?obj j \<and> c' = sv_off vals j"])
    show "reads (\<lambda>y c'. \<exists>j\<le>?n. y = ?obj j \<and> c' = sv_off vals j) (?obj ?n) (sv_off vals ?n)
        (SZ_VEC_HDR + sv_off vals k - SZ_VEC_HDR) ?b1 (kread p b)"
    proof (cases "j = ?n")
      case True
      with j r adv show ?thesis by (intro readsI_full) simp_all
    next
      case False
      with j r adv less sv_off_mono [OF j(1), of vals] show ?thesis
        by (intro readsI_part [of _ _ _ _ "?obj j" "sv_off vals j"]) auto
    qed
  next
    show "\<exists>j\<le>?n. y = ?obj j \<and> c' = sv_off vals j \<Longrightarrow> part (KdbSymbolVector v) y (SZ_VEC_HDR + c')" for y c'
      using part_symvec [of _ v, OF _ refl] by (auto simp: v(2))
  qed (use sv_off_mono [OF k] in simp)
  then show "reads (part (KdbSymbolVector v)) (KdbSymbolVector v) (length (enc (KdbSymbolVector v))) c b (kread p b)"
    by (simp only: full len c)
qed

section \<open>Objects that hold objects\<close>

lemma part_fresh:
  assumes "kcan x"
  shows "part x (fresh x) (hsize x)"
proof (cases x)
  case (KdbVector v)
  then show ?thesis using part_vec [of 0 v] by simp
next
  case (KdbSymbolVector v)
  then show ?thesis using part_symvec [of 0 v, OF _ refl] by (simp add: sv_off_def)
next
  case (KdbFunction v)
  then show ?thesis using part_fun [of 0 v] by simp
next
  case (KdbList attr n xs)
  then show ?thesis using part_lst [OF part_nil] by simp
next
  case (KdbProjection n xs)
  then show ?thesis using part_prj [OF part_nil] by simp
next
  case (KdbTable p q)
  then obtain a b where "p = Some a" "q = Some b"
    using assms kcan_kwf(3) units_opt_some by fastforce
  then show ?thesis using KdbTable part_tbl [OF part_none] by simp
next
  case (KdbDict p q)
  then obtain a b where "p = Some a" "q = Some b"
    using assms kcan_kwf(3) units_opt_some by fastforce
  then show ?thesis using KdbDict part_dict [OF part_none] by simp
qed (simp_all add: part_leaf)

lemma reads_shift:
  assumes "reads P full N h (rb_adj h b) m" "0 \<le> rb_csr b" "h \<le> rb_remaining b" "h \<le> N"
  shows "reads P full N 0 b m"
proof -
  have adv: "adv h c' (rb_adj h b) = adv 0 c' b" if "h \<le> c'" for c'
    using that assms(2) by (simp add: adv_def rb_adj_def)
  show ?thesis
  proof (cases "N \<le> rb_remaining b")
    case True
    then have "N - h \<le> rb_remaining (rb_adj h b)" by (simp add: rb_adj_def)
    then show ?thesis
      using True assms(1) adv [OF assms(4)] by (intro readsI_full) (simp_all add: reads_def)
  next
    case False
    then have "\<not> N - h \<le> rb_remaining (rb_adj h b)" using assms(3) by (simp add: rb_adj_def)
    then obtain y c' where "m = Ret (RD_INCOMPLETE, y, adv h c' (rb_adj h b))" "P y c'" "h \<le> c'"
      "c' - h \<le> rb_remaining b - h"
      using assms(1) by (auto simp: reads_def rb_adj_def)
    with False adv [of c'] assms(3) show ?thesis
      by (intro readsI_part [of _ _ _ _ y c']) auto
  qed
qed

text \<open>An object whose header has just been read.\<close>

lemma reads_fresh:
  assumes "kcan x" "simulates x" "feeds (enc x @ rest) b" "0 \<le> rb_csr b" "hsize x \<le> rb_remaining b"
  shows "reads (part x) x (length (enc x)) 0 b (kread (fresh x) (rb_adj (hsize x) b))"
proof (rule reads_shift [OF _ assms(4,5) hsize_le [OF assms(1)]])
  have "feeds (drop (hsize x) (enc x) @ rest) (rb_adj (hsize x) b)"
    using feeds_move [OF assms(3,5)] hsize_le [OF assms(1)] by (simp add: rb_adj_def)
  moreover have "stands (hsize x) (hsize x) (rb_adj (hsize x) b)"
    using assms(4) by (simp add: stands_def rb_adj_def)
  ultimately show "reads (part x) x (length (enc x)) (hsize x) (rb_adj (hsize x) b) (kread (fresh x) (rb_adj (hsize x) b))"
    using assms(2) part_fresh [OF assms(1)] unfolding simulates_def by blast
qed

lemma reads_more:
  assumes "\<forall>x \<in> set zs. kcan x \<and> simulates x" "feeds (enc_list zs @ rest) b" "0 \<le> rb_csr b"
  shows "reads (\<lambda>ys c'. \<exists>ys'. ys = acc @ ys' \<and> part_list zs ys' c') (acc @ zs) (length (enc_list zs)) 0 b
    (kread_more (length zs) acc b)"
  using assms
proof (induction zs arbitrary: acc b)
  case Nil
  then show ?case by (intro readsI_full) simp_all
next
  case (Cons x zs)
  have x: "kcan x" "simulates x" and f: "feeds (enc x @ enc_list zs @ rest) b"
    using Cons.prems by auto
  have nl: "new_local b = (if hsize x \<le> rb_remaining b then Ret (RD_OK, Some (fresh x), rb_adj (hsize x) b)
      else Ret (RD_INCOMPLETE, None, b))"
    using new_active_fresh [OF x(1) f] Cons.prems(3) by (simp add: new_local_def rb_active_def)
  show ?case
  proof (cases "hsize x \<le> rb_remaining b")
    case True
    have "reads (\<lambda>ys c'. \<exists>ys'. ys = acc @ ys' \<and> part_list (x # zs) ys' c') ((acc @ [x]) @ zs)
        (length (enc x) + length (enc_list zs)) 0 b
        (rd_then (kread (fresh x) (rb_adj (hsize x) b)) (\<lambda>x1. acc @ [x1])
          (\<lambda>x1 b2. kread_more (length zs) (acc @ [x1]) b2))"
    proof (rule reads_then [where h = 0, OF reads_fresh [OF x f Cons.prems(3) True]])
      assume "length (enc x) - 0 \<le> rb_remaining b"
      then show "reads (\<lambda>ys c'. \<exists>ys'. ys = (acc @ [x]) @ ys' \<and> part_list zs ys' c') ((acc @ [x]) @ zs)
          (length (enc_list zs)) 0 (adv 0 (length (enc x)) b)
          (kread_more (length zs) (acc @ [x]) (adv 0 (length (enc x)) b))"
        using Cons.prems f feeds_adv [of 0 "enc x @ enc_list zs @ rest" b "length (enc x)"]
        by (intro Cons.IH) (auto simp: adv_def)
    qed (use Cons.prems(3) in \<open>auto simp: stands_def intro: part_last part_cons\<close>)
    with True show ?thesis by (simp add: nl rd_then_def)
  next
    case False
    then have "\<not> length (enc x) \<le> rb_remaining b" using hsize_le [OF x(1)] by simp
    with False Cons.prems(3) show ?thesis
      by (intro readsI_part [of _ _ _ _ acc 0]) (auto simp: nl rd_then_def intro: part_nil)
  qed
qed

text \<open>The loop over the elements at hand followed by the loop over those to come.\<close>

definition read_seq :: "nat \<Rightarrow> kobj list \<Rightarrow> rbuf \<Rightarrow> kobj list rd" where
  "read_seq n xs b = rd_then (kread_elems xs b) (\<lambda>xs1. xs1) (\<lambda>xs1 b1. kread_more (n - length xs1) xs1 b1)"

lemma rd_map_map: "rd_map g (rd_map f m) = rd_map (\<lambda>x. g (f x)) m"
  by (cases m) (auto simp: rd_map_def)

lemma rd_map_then: "rd_map g (rd_then m k f) = rd_then m (\<lambda>x. g (k x)) (\<lambda>x b. rd_map g (f x b))"
  by (cases m) (auto simp: rd_map_def rd_then_def)

lemma rd_then_map: "rd_then (rd_map g m) k f = rd_then m (\<lambda>x. k (g x)) (\<lambda>x b. f (g x) b)"
  by (cases m) (auto simp: rd_map_def rd_then_def)

lemma rd_then_assoc:
  "rd_then (rd_then m k f) k' g = rd_then m (\<lambda>x. k' (k x)) (\<lambda>x b. rd_then (f x b) k' g)"
  by (cases m) (auto simp: rd_then_def)

lemma kread_more_shift: "kread_more n (pre @ acc) b = rd_map (\<lambda>ys. pre @ ys) (kread_more n acc b)"
proof (induction n arbitrary: acc b)
  case (Suc n)
  have IH: "kread_more n (pre @ acc) = (\<lambda>b. rd_map (\<lambda>ys. pre @ ys) (kread_more n acc b))" for acc
    using Suc by blast
  have "obind (deref obj) (\<lambda>x. rd_then (kread x b1) (\<lambda>x1. (pre @ acc) @ [x1]) (\<lambda>x1. kread_more n ((pre @ acc) @ [x1]))) =
    rd_map (\<lambda>ys. pre @ ys) (obind (deref obj) (\<lambda>x. rd_then (kread x b1) (\<lambda>x1. acc @ [x1]) (\<lambda>x1. kread_more n (acc @ [x1]))))"
    for obj b1
    by (cases obj) (simp_all add: rd_map_then IH, simp add: rd_map_def)
  then show ?case by (simp add: rd_map_then)
qed (simp add: rd_map_def)

lemma read_seq_Cons:
  "read_seq (Suc n) (x # xs) b = rd_then (kread x b) (\<lambda>x1. x1 # xs) (\<lambda>x1 b1. rd_map (\<lambda>ys. x1 # ys) (read_seq n xs b1))"
  using kread_more_shift [of _ "[_]"]
  by (simp add: read_seq_def rd_then_assoc rd_then_map rd_map_then)

lemma read_seq_Nil: "read_seq n [] b = kread_more n [] b"
  by (simp add: read_seq_def rd_then_def)

lemma part_pos: "part x p c \<Longrightarrow> kcan x \<Longrightarrow> 0 < c \<and> c \<le> length (enc x) \<and> hsize x \<le> c"
  using part_bounds(1) [of x p c] hsize_pos [of x] by (auto simp del: hsize_pos)

lemma stands_elem: "stands 0 c b \<Longrightarrow> 0 < c \<Longrightarrow> h \<le> c \<Longrightarrow> stands h c b"
  by (auto simp: stands_def)

text \<open>Going on inside one object and then with what follows it.\<close>

lemma reads_elem:
  assumes x: "kcan x" "simulates x" "part x p c" and b: "stands 0 c b" "feeds (drop c (enc x) @ rest) b"
  shows "reads (part x) x (length (enc x)) c b (kread p b)"
  using assms stands_elem part_pos unfolding simulates_def by blast

lemma feeds_after:
  assumes "feeds (drop c s @ rest) b" "length s - c \<le> rb_remaining b" "c \<le> length s"
  shows "feeds rest (adv c (length s) b)"
  using feeds_adv [of c "s @ rest" b "length s"] assms by simp

lemma reads_seq:
  assumes "\<forall>x \<in> set xs. kcan x \<and> simulates x" "part_list xs ys c" "stands 0 c b"
    "feeds (drop c (enc_list xs) @ rest) b"
  shows "reads (part_list xs) xs (length (enc_list xs)) c b (read_seq (length xs) ys b)"
  using assms
proof (induction xs arbitrary: ys c b rest)
  case Nil
  then have "ys = []" "c = 0" by (auto elim: part_listE)
  moreover have "0 \<le> rb_csr b" using Nil.prems(3) calculation by (auto simp: stands_def)
  ultimately show ?case by (intro readsI_full) (simp_all add: read_seq_def rd_then_def)
next
  case (Cons x xs)
  have x: "kcan x" "simulates x" and xs: "\<forall>x \<in> set xs. kcan x \<and> simulates x"
    using Cons.prems(1) by auto
  from Cons.prems(2) consider (none) "ys = []" "c = 0"
    | (full) ys' c' where "ys = x # ys'" "c = length (enc x) + c'" "part_list xs ys' c'"
    | (last) y where "ys = [y]" "part x y c"
    by (auto elim: part_listE)
  then show ?case
  proof cases
    case none
    then have "reads (\<lambda>ys c'. \<exists>ys'. ys = [] @ ys' \<and> part_list (x # xs) ys' c') ([] @ (x # xs))
        (length (enc_list (x # xs))) 0 b (kread_more (length (x # xs)) [] b)"
      using Cons.prems by (intro reads_more) (auto simp: stands_def)
    with none show ?thesis by (simp add: read_seq_Nil)
  next
    case (full ys' c')
    have csr: "rb_csr b = - int (length (enc x) + c')"
      using Cons.prems(3) length_enc_pos [of x] by (auto simp: full stands_def)
    have le: "c' \<le> length (enc_list xs)"
      using part_bounds(2) [OF full(3)] xs by (simp add: kcan_list_iff)
    have "kread x b = Ret (RD_OK, x, rb_ffwd (length (enc x)) b)"
      using kcan_skips(1) [OF x(1)] csr by (simp add: skips_def)
    moreover have "reads (part_list xs) xs (length (enc_list xs)) c' (rb_ffwd (length (enc x)) b)
        (read_seq (length xs) ys' (rb_ffwd (length (enc x)) b))"
      using Cons.prems(4) full xs csr by (intro Cons.IH [where rest = rest]) (auto simp: stands_def)
    ultimately have "reads (part_list (x # xs)) (x # xs) (length (enc x) + length (enc_list xs)) (length (enc x) + c') b
        (rd_then (kread x b) (\<lambda>x1. x1 # ys') (\<lambda>x1 b1. rd_map (\<lambda>ys. x1 # ys) (read_seq (length xs) ys' b1)))"
      using csr le
      by (intro reads_skip_then [where ?P2.0 = "\<lambda>z c'. part_list (x # xs) z (length (enc x) + c')"])
        (auto intro: reads_map part_cons)
    then show ?thesis by (simp add: full read_seq_Cons)
  next
    case (last y)
    have pos: "0 < c" "c \<le> length (enc x)" using part_pos [OF last(2) x(1)] by simp_all
    have f: "feeds (drop c (enc x) @ enc_list xs @ rest) b"
      using Cons.prems(4) pos by simp
    have m: "reads (part x) x (length (enc x)) c b (kread y b)"
      by (rule reads_elem [OF x last(2) Cons.prems(3) f])
    have "reads (part_list (x # xs)) (x # xs) (length (enc x) + length (enc_list xs)) c b
        (rd_then (kread y b) (\<lambda>x1. [x1]) (\<lambda>x1 b1. rd_map (\<lambda>ys. x1 # ys) (read_seq (length xs) [] b1)))"
    proof (rule reads_then [OF m Cons.prems(3) pos(2)])
      assume rem: "length (enc x) - c \<le> rb_remaining b"
      have "reads (part_list xs) xs (length (enc_list xs)) 0 (adv c (length (enc x)) b)
          (read_seq (length xs) [] (adv c (length (enc x)) b))"
        using feeds_after [OF f rem pos(2)] csr_adv [OF Cons.prems(3) pos(2)] xs
        by (intro Cons.IH [where rest = rest]) (auto simp: stands_def intro: part_nil)
      then show "reads (\<lambda>z c'. part_list (x # xs) z (length (enc x) + c')) (x # xs) (length (enc_list xs)) 0
          (adv c (length (enc x)) b) (rd_map (\<lambda>ys. x # ys) (read_seq (length xs) [] (adv c (length (enc x)) b)))"
        by (rule reads_map) (auto intro: part_cons)
    qed (auto intro: part_last)
    with last show ?thesis by (simp add: read_seq_Cons)
  qed
qed

text \<open>The two parts of a table or a dictionary.\<close>

lemma read_part_fresh:
  assumes "kcan x" "feeds (enc x @ rest) b" "0 \<le> rb_csr b" "rq = None \<or> rq = Some (m_typ x)"
  shows "read_part rq p b = (if hsize x \<le> rb_remaining b then Ret (RD_OK, Some (fresh x), rb_adj (hsize x) b)
    else Ret (RD_INCOMPLETE, p, b))"
proof -
  have "m_typ (fresh x) = m_typ x"
  proof (cases x)
    case (KdbAtom a)
    then show ?thesis by simp
  next
    case (KdbVector v)
    then show ?thesis by (cases v) simp_all
  qed simp_all
  then show ?thesis
    using new_active_fresh [OF assms(1,2)] assms(3,4) by (auto simp: read_part_def rb_active_def)
qed

lemma read_part_there: "rb_csr b < 0 \<Longrightarrow> read_part rq p b = Ret (RD_OK, p, b)"
  by (simp add: read_part_def rb_active_def)

text \<open>The second part, when the first is complete.\<close>

definition read_second :: "KdbType option \<Rightarrow> kobj \<Rightarrow> kobj option \<Rightarrow> rbuf \<Rightarrow> (kobj option \<times> kobj option) rd" where
  "read_second rq x q b = rd_then (read_part rq q b) (\<lambda>q1. (Some x, q1))
     (\<lambda>q1 b3. obind (deref q1) (\<lambda>y. rd_map (\<lambda>y1. (Some x, Some y1)) (kread y b3)))"

lemma kread_parts_second:
  "kread_parts rq1 rq2 p q b = rd_then (read_part rq1 p b) (\<lambda>p1. (p1, q))
     (\<lambda>p1 b1. obind (deref p1) (\<lambda>x. rd_then (kread x b1) (\<lambda>x1. (Some x1, q))
        (\<lambda>x1 b2. read_second rq2 x1 q b2)))"
  by (simp add: kread_parts.simps read_second_def)

lemma reads_second_new:
  assumes y: "kcan y" "simulates y" and f: "feeds (enc y @ rest) b" and b: "0 \<le> rb_csr b"
    and rq: "rq = None \<or> rq = Some (m_typ y)"
  shows "reads (\<lambda>pq c'. (pq = (Some x, None) \<and> c' = 0) \<or> (\<exists>q. pq = (Some x, Some q) \<and> part y q c'))
    (Some x, Some y) (length (enc y)) 0 b (read_second rq x None b)"
proof (cases "hsize y \<le> rb_remaining b")
  case True
  have "reads (\<lambda>pq c'. (pq = (Some x, None) \<and> c' = 0) \<or> (\<exists>q. pq = (Some x, Some q) \<and> part y q c'))
    (Some x, Some y) (length (enc y)) 0 b
    (rd_map (\<lambda>y1. (Some x, Some y1)) (kread (fresh y) (rb_adj (hsize y) b)))"
    by (rule reads_map [OF reads_fresh [OF y f b True]]) auto
  with True show ?thesis
    by (simp add: read_second_def read_part_fresh [OF y(1) f b rq] rd_then_def)
next
  case False
  then have "\<not> length (enc y) \<le> rb_remaining b" using hsize_le [OF y(1)] by simp
  with False b show ?thesis
    by (intro readsI_part [of _ _ _ _ "(Some x, None)" 0])
      (auto simp: read_second_def read_part_fresh [OF y(1) f b rq] rd_then_def)
qed

lemma part_pair_second:
  assumes "(pq = (Some x, None) \<and> c' = 0) \<or> (\<exists>q. pq = (Some x, Some q) \<and> part y q c')"
    and "part x x (length (enc x))"
  shows "part_pair x y pq (length (enc x) + c')"
  using assms by (auto intro: part_first part_both)

lemma reads_first:
  assumes x: "kcan x" "simulates x" "part x x (length (enc x))" and y: "kcan y" "simulates y"
    and f: "feeds (drop c (enc x) @ enc y @ rest) b" and b: "stands 0 c b" "c \<le> length (enc x)"
    and m: "reads (part x) x (length (enc x)) c b m" and rq: "rq = None \<or> rq = Some (m_typ y)"
  shows "reads (part_pair x y) (Some x, Some y) (length (enc x) + length (enc y)) c b
    (rd_then m (\<lambda>x1. (Some x1, None)) (\<lambda>x1 b2. read_second rq x1 None b2))"
proof (rule reads_then [OF m b])
  assume rem: "length (enc x) - c \<le> rb_remaining b"
  show "reads (\<lambda>pq c'. (pq = (Some x, None) \<and> c' = 0) \<or> (\<exists>q. pq = (Some x, Some q) \<and> part y q c'))
      (Some x, Some y) (length (enc y)) 0 (adv c (length (enc x)) b)
      (read_second rq x None (adv c (length (enc x)) b))"
    using feeds_after [OF f rem b(2)] csr_adv [OF b] by (intro reads_second_new y rq)
qed (use x(3) in \<open>auto intro: part_first part_both\<close>)

lemma reads_parts:
  assumes x: "kcan x" "simulates x" "part x x (length (enc x))" and y: "kcan y" "simulates y"
    and pq: "part_pair x y (p, q) c" and b: "stands 0 c b"
    and f: "feeds (drop c (enc x @ enc y) @ rest) b"
    and rq: "rq1 = None \<or> rq1 = Some (m_typ x)" "rq2 = None \<or> rq2 = Some (m_typ y)"
  shows "reads (part_pair x y) (Some x, Some y) (length (enc x) + length (enc y)) c b (kread_parts rq1 rq2 p q b)"
proof -
  from pq consider (none) "p = None" "q = None" "c = 0"
    | (first) p' where "p = Some p'" "q = None" "part x p' c"
    | (both) q' c' where "p = Some x" "q = Some q'" "c = length (enc x) + c'" "part y q' c'"
    by (auto elim: part_pairE)
  then show ?thesis
  proof cases
    case none
    then have csr: "0 \<le> rb_csr b" and f': "feeds (enc x @ enc y @ rest) b"
      using b f by (auto simp: stands_def)
    show ?thesis
    proof (cases "hsize x \<le> rb_remaining b")
      case True
      have "reads (part_pair x y) (Some x, Some y) (length (enc x) + length (enc y)) 0 b
          (rd_then (kread (fresh x) (rb_adj (hsize x) b)) (\<lambda>x1. (Some x1, None)) (\<lambda>x1 b2. read_second rq2 x1 None b2))"
        using f' csr by (intro reads_first [OF x y _ _ _ _ rq(2)] reads_fresh [OF x(1,2) f' csr True])
          (auto simp: stands_def)
      with True none show ?thesis
        by (simp add: kread_parts_second read_part_fresh [OF x(1) f' csr rq(1)] rd_then_def)
    next
      case False
      then have "\<not> length (enc x) + length (enc y) \<le> rb_remaining b" using hsize_le [OF x(1)] by simp
      with False none csr show ?thesis
        by (intro readsI_part [of _ _ _ _ "(None, None)" 0])
          (auto simp: kread_parts_second read_part_fresh [OF x(1) f' csr rq(1)] rd_then_def intro: part_none)
    qed
  next
    case (first p')
    have pos: "0 < c" "c \<le> length (enc x)" using part_pos [OF first(3) x(1)] by simp_all
    then have csr: "rb_csr b < 0" and f': "feeds (drop c (enc x) @ enc y @ rest) b"
      using b f by (auto simp: stands_def)
    have "reads (part_pair x y) (Some x, Some y) (length (enc x) + length (enc y)) c b
        (rd_then (kread p' b) (\<lambda>x1. (Some x1, None)) (\<lambda>x1 b2. read_second rq2 x1 None b2))"
      by (rule reads_first [OF x y f' b pos(2) reads_elem [OF x(1,2) first(3) b f'] rq(2)])
    with first csr show ?thesis
      by (simp add: kread_parts_second read_part_there) (simp add: rd_then_def)
  next
    case (both q' c')
    have pos: "0 < c'" "c' \<le> length (enc y)" using part_pos [OF both(4) y(1)] by simp_all
    have csr: "rb_csr b = - int (length (enc x) + c')" "rb_csr b < 0"
      using b both(3) pos by (auto simp: stands_def)
    let ?b = "rb_ffwd (length (enc x)) b"
    have "kread x b = Ret (RD_OK, x, ?b)"
      using kcan_skips(1) [OF x(1)] csr by (simp add: skips_def)
    moreover have "reads (part y) y (length (enc y)) c' ?b (kread q' ?b)"
      using f both csr pos by (intro reads_elem [OF y both(4), where rest = rest]) (auto simp: stands_def)
    ultimately have "reads (part_pair x y) (Some x, Some y) (length (enc x) + length (enc y)) (length (enc x) + c') b
        (rd_then (kread x b) (\<lambda>x1. (Some x1, q)) (\<lambda>x1 b2. rd_map (\<lambda>y1. (Some x1, Some y1)) (kread q' b2)))"
      using csr pos
      by (intro reads_skip_then [where ?P2.0 = "\<lambda>z c'. part_pair x y z (length (enc x) + c')"])
        (auto intro: reads_map part_both)
    moreover have "read_part rq2 q ?b = Ret (RD_OK, q, ?b)"
      using csr pos by (intro read_part_there) simp
    ultimately show ?thesis
      using both csr \<open>kread x b = Ret (RD_OK, x, ?b)\<close>
      by (simp add: kread_parts_second read_part_there rd_then_def read_second_def)
  qed
qed

lemma part_list_full: "\<forall>x \<in> set xs. part x x (length (enc x)) \<Longrightarrow> part_list xs xs (length (enc_list xs))"
  by (induction xs) (auto intro: part_nil part_cons)

lemma part_pair_full: "part y y (length (enc y)) \<Longrightarrow> part_pair x y (Some x, Some y) (length (enc x) + length (enc y))"
  by (rule part_both)

lemma part_full:
  "kcan x \<Longrightarrow> part x x (length (enc x))" "kcan_list xs \<Longrightarrow> (\<forall>x \<in> set xs. part x x (length (enc x)))"
  "kcan_opt p \<Longrightarrow> part (the p) (the p) (length (enc (the p)))"
proof (induction x and xs and p rule: kcan_kcan_list_kcan_opt.induct)
  case (4 v)
  then show ?case using part_vec [of "kvec_count v" v] by simp
next
  case (5 v)
  then obtain vals where v: "v = sv_of_vals vals (sv_attr v)" "sv_vals v = vals"
    by (auto elim: sv_canE)
  have "sv_part vals (sv_attr v) (length vals) = v"
    by (subst (2) v(1)) (simp add: sv_part_def sv_of_vals_def)
  then show ?case using part_symvec [of "length vals" v, OF _ refl] v(2) by simp
next
  case (6 attr cap xs)
  then show ?case using part_lst [OF part_list_full] by simp
next
  case (7 cols vals)
  then obtain x y where xy: "cols = Some x" "vals = Some y"
    using units_opt_some kcan_kwf(3) by (metis kcan.simps(7))
  then show ?case using 7 part_tbl [OF part_pair_full, of y x] by (simp add: numeral_3_eq_3)
next
  case (8 keys vals)
  then obtain x y where xy: "keys = Some x" "vals = Some y"
    using units_opt_some kcan_kwf(3) by (metis kcan.simps(8))
  then show ?case using 8 part_dict [OF part_pair_full, of y x] by simp
next
  case (9 v)
  then show ?case using part_fun [of "length (v_vals v)" v] by simp
next
  case (13 cap xs)
  then show ?case using part_prj [OF part_list_full] by simp
qed (use part_done in \<open>auto simp del: enc_simps\<close>)

text \<open>The containers over their parts.\<close>

lemma kread_list_seq:
  "kread (KdbList attr cap xs) b = rd_map (KdbList attr cap) (read_seq cap xs (skip_hdr SZ_VEC_HDR b))"
  "kread (KdbProjection cap xs) b = rd_map (KdbProjection cap) (read_seq cap xs (skip_hdr 5 b))"
  by (simp_all add: read_seq_def)

lemma simulates_hdr:
  assumes can: "kcan x" and e: "enc x = hdr @ s" "length hdr = hsize x"
    and body: "\<And>p c b rest. part x p (hsize x + c) \<Longrightarrow> stands 0 c (skip_hdr (hsize x) b) \<Longrightarrow>
      feeds (drop c s @ rest) (skip_hdr (hsize x) b) \<Longrightarrow>
      reads (\<lambda>y c'. part x y (hsize x + c')) x (length s) c (skip_hdr (hsize x) b) (kread p b)"
  shows "simulates x"
proof (rule simulatesI)
  fix p c b rest
  assume p: "part x p c" and b: "stands (hsize x) c b" and f: "feeds (drop c (enc x) @ rest) b"
  obtain d where c: "c = hsize x + d"
    using part_pos [OF p can] by (metis le_Suc_ex)
  have "drop c (enc x) = drop d s"
    unfolding c e(1) by (rule drop_hdr [OF e(2)])
  then have r: "reads (\<lambda>y c'. part x y (hsize x + c')) x (length s) (c - hsize x) (skip_hdr (hsize x) b) (kread p b)"
    using p f stands_skip [OF b] body [of p d b rest] by (simp add: c)
  have "c \<le> length s + hsize x"
    using part_pos [OF p can] e by simp
  from reads_hdr [OF b this r] show "reads (part x) x (length (enc x)) c b (kread p b)"
    using e by (simp add: add.commute)
qed

lemma kcan_simulates:
  "kcan x \<Longrightarrow> simulates x" "kcan_list xs \<Longrightarrow> (\<forall>x \<in> set xs. kcan x \<and> simulates x)"
  "kcan_opt p \<Longrightarrow> simulates (the p)"
proof (induction x and xs and p rule: kcan_kcan_list_kcan_opt.induct)
  case (6 attr cap xs)
  show ?case
  proof (rule simulates_hdr [where s = "enc_list xs" and hdr = "vec_hdr LIST attr (length xs)"])
    fix p c b rest
    assume "part (KdbList attr cap xs) p (hsize (KdbList attr cap xs) + c)"
      "stands 0 c (skip_hdr (hsize (KdbList attr cap xs)) b)"
      "feeds (drop c (enc_list xs) @ rest) (skip_hdr (hsize (KdbList attr cap xs)) b)"
    then show "reads (\<lambda>y c'. part (KdbList attr cap xs) y (hsize (KdbList attr cap xs) + c')) (KdbList attr cap xs)
        (length (enc_list xs)) c (skip_hdr (hsize (KdbList attr cap xs)) b) (kread p b)"
      using 6 by (auto elim!: part_lstE simp: kread_list_seq simp del: kread.simps
          intro!: reads_map [OF reads_seq] part_lst)
  qed (use 6 in simp_all)
next
  case (13 cap xs)
  show ?case
  proof (rule simulates_hdr [where s = "enc_list xs" and hdr = "i8typ PROJECTION # le SZ_INT (length xs)"])
    fix p c b rest
    assume "part (KdbProjection cap xs) p (hsize (KdbProjection cap xs) + c)"
      "stands 0 c (skip_hdr (hsize (KdbProjection cap xs)) b)"
      "feeds (drop c (enc_list xs) @ rest) (skip_hdr (hsize (KdbProjection cap xs)) b)"
    then show "reads (\<lambda>y c'. part (KdbProjection cap xs) y (hsize (KdbProjection cap xs) + c')) (KdbProjection cap xs)
        (length (enc_list xs)) c (skip_hdr (hsize (KdbProjection cap xs)) b) (kread p b)"
      using 13 by (auto elim!: part_prjE simp: kread_list_seq simp del: kread.simps
          intro!: reads_map [OF reads_seq] part_prj)
  qed (use 13 in simp_all)
next
  case (7 cols vals)
  then obtain x y where xy: "cols = Some x" "vals = Some y"
    using units_opt_some kcan_kwf(3) by (metis kcan.simps(7))
  show ?case unfolding xy
  proof (rule simulates_hdr [where s = "enc x @ enc y" and hdr = "[i8typ TABLE, 0, i8typ DICT]"])
    fix p c b rest
    assume "part (KdbTable (Some x) (Some y)) p (hsize (KdbTable (Some x) (Some y)) + c)"
      "stands 0 c (skip_hdr (hsize (KdbTable (Some x) (Some y))) b)"
      "feeds (drop c (enc x @ enc y) @ rest) (skip_hdr (hsize (KdbTable (Some x) (Some y))) b)"
    moreover have "m_typ x = SYMBOL_VECTOR" "m_typ y = LIST"
      using 7(3) xy by (cases x; cases y; simp)+
    ultimately show "reads (\<lambda>z c'. part (KdbTable (Some x) (Some y)) z (hsize (KdbTable (Some x) (Some y)) + c'))
        (KdbTable (Some x) (Some y)) (length (enc x @ enc y)) c (skip_hdr (hsize (KdbTable (Some x) (Some y))) b) (kread p b)"
      using 7 xy part_full(1)
      by (auto elim!: part_tblE intro!: reads_map [OF reads_parts]
          part_tbl [simplified numeral_3_eq_3 add_Suc add_0] simp: numeral_3_eq_3 simp del: drop_append)
  qed (use 7 xy in auto)
next
  case (8 keys vals)
  then obtain x y where xy: "keys = Some x" "vals = Some y"
    using units_opt_some kcan_kwf(3) by (metis kcan.simps(8))
  show ?case unfolding xy
  proof (rule simulates_hdr [where s = "enc x @ enc y" and hdr = "[i8typ DICT]"])
    fix p c b rest
    assume "part (KdbDict (Some x) (Some y)) p (hsize (KdbDict (Some x) (Some y)) + c)"
      "stands 0 c (skip_hdr (hsize (KdbDict (Some x) (Some y))) b)"
      "feeds (drop c (enc x @ enc y) @ rest) (skip_hdr (hsize (KdbDict (Some x) (Some y))) b)"
    then show "reads (\<lambda>z c'. part (KdbDict (Some x) (Some y)) z (hsize (KdbDict (Some x) (Some y)) + c'))
        (KdbDict (Some x) (Some y)) (length (enc x @ enc y)) c (skip_hdr (hsize (KdbDict (Some x) (Some y))) b) (kread p b)"
      using 8 xy part_full(1)
      by (auto elim!: part_dictE intro!: reads_map [OF reads_parts]
          part_dict [simplified plus_1_eq_Suc] part_pair_full simp del: drop_append)
  qed (use 8 xy in auto)
qed (simp_all add: simulates_atom simulates_string simulates_vec simulates_symvec simulates_fun simulates_primitive)

section \<open>Receiving an object\<close>

lemma kread_whole:
  assumes "kcan x" "rb_csr b = 0" "rb_wf b" "rb_avail b = enc x @ rest"
  shows "\<exists>y. new_active b = Ret (RD_OK, Some y, rb_adj (hsize x) b) \<and>
    kread y (rb_adj (hsize x) b) = Ret (RD_OK, x, rb_adj (length (enc x)) b)"
proof -
  have f: "feeds (enc x @ rest) b"
    using assms(3,4) by (simp add: feeds_def flip: length_rb_avail)
  have len: "length (enc x) \<le> rb_remaining b"
    using assms(3,4) by (simp flip: length_rb_avail)
  then have h: "hsize x \<le> rb_remaining b"
    using hsize_le [OF assms(1)] by simp
  have "reads (part x) x (length (enc x)) 0 b (kread (fresh x) (rb_adj (hsize x) b))"
    using assms kcan_simulates(1) h by (intro reads_fresh [OF _ _ f]) auto
  then have "kread (fresh x) (rb_adj (hsize x) b) = Ret (RD_OK, x, rb_adj (length (enc x)) b)"
    using len assms(2) by (simp add: reads_def adv_0)
  then show ?thesis
    using new_active_fresh [OF assms(1) f] h by simp
qed

text \<open>C2. Round trip: from the wire image of an object, whatever bytes follow it, \<open>newInstance\<close>
  and \<open>read\<close> return exactly that object and consume exactly its image.\<close>

theorem read_write_roundtrip:
  assumes "kcan x" "rb_csr b = 0" "rb_wf b" "rb_avail b = enc x @ rest"
  shows "\<exists>y. new_active b = Ret (RD_OK, Some y, rb_adj (hsize x) b) \<and>
    kread y (rb_adj (hsize x) b) = Ret (RD_OK, x, rb_adj (length (enc x)) b)"
  by (rule kread_whole [OF assms])

text \<open>C6. Resumption: a reader that holds a part of an object and is given the next bytes of its
  image, in a buffer whose cursor is minus the bytes consumed before, returns the object when
  the rest of the image is there, consuming exactly that rest; otherwise it reports
  \<open>RD_INCOMPLETE\<close> and holds a part that stands for what it has consumed.\<close>

theorem read_resumes:
  assumes "kcan x" "part x p c" "rb_csr b = - int c" "rb_wf b"
    and "rb_avail b = take (rb_remaining b) (drop c (enc x) @ rest)"
  shows "if length (enc x) - c \<le> rb_remaining b
    then kread p b = Ret (RD_OK, x, rb_move (length (enc x) - c) (int (length (enc x))) b)
    else \<exists>p' c'. kread p b = Ret (RD_INCOMPLETE, p', rb_move (c' - c) (int c') b) \<and>
      part x p' c' \<and> c \<le> c' \<and> c' - c \<le> rb_remaining b"
proof -
  have "stands (hsize x) c b" and c: "0 < c"
    using part_pos [OF assms(2,1)] assms(3) by (simp_all add: stands_def)
  then have "reads (part x) x (length (enc x)) c b (kread p b)"
    using kcan_simulates(1) [OF assms(1)] assms(2,4,5) unfolding simulates_def feeds_def by blast
  then show ?thesis
    using c assms(3) by (auto simp: reads_def adv_def)
qed

text \<open>The sample table of \<^verbatim>\<open>Kdb_Write\<close> is read from its 31 bytes, and from the first 12
  followed by the others.\<close>

lemma sample_table_kcan [simp]: "kcan sample_table"
  by (simp add: sample_table_def sv_can_def sv_vals_def sv_of_vals_def vec_of_def)

lemma sample_table_hsize: "hsize sample_table = 3"
  by (simp add: sample_table_def)

lemma sample_table_enc:
  "enc sample_table = [98, 0, 99, 11, 0, 1, 0, 0, 0, 97, 0, 0, 0, 1, 0, 0, 0, 6, 0, 2, 0, 0, 0,
     1, 0, 0, 0, 2, 0, 0, 0]"
  by (simp add: enc_def sample_table_units)

lemma sample_table_part: "part sample_table (fresh sample_table) 3"
  using part_fresh [OF sample_table_kcan] by (simp add: sample_table_def)

theorem read_write_roundtrip_witness:
  "\<exists>y. new_active (rb_new (enc sample_table @ [7]) 32 0) = Ret (RD_OK, Some y, rb_adj 3 (rb_new (enc sample_table @ [7]) 32 0)) \<and>
    kread y (rb_adj 3 (rb_new (enc sample_table @ [7]) 32 0)) =
      Ret (RD_OK, sample_table, rb_adj 31 (rb_new (enc sample_table @ [7]) 32 0))"
proof -
  let ?b = "rb_new (enc sample_table @ [7]) 32 0"
  have "rb_csr ?b = 0" "rb_wf ?b" "rb_avail ?b = enc sample_table @ [7]"
    by (simp_all add: rb_new_def rb_wf_def rb_avail_def rb_remaining_def sample_table_enc)
  moreover have "length (enc sample_table) = 31"
    by (simp add: sample_table_enc)
  ultimately show ?thesis
    using read_write_roundtrip [OF sample_table_kcan, of ?b "[7]"] by (simp only: sample_table_hsize)
qed

theorem read_resumes_witness:
  "\<exists>p c. kread (fresh sample_table) (rb_new (drop 3 (enc sample_table)) 9 (- 3)) =
      Ret (RD_INCOMPLETE, p, rb_move (c - 3) (int c) (rb_new (drop 3 (enc sample_table)) 9 (- 3))) \<and>
    part sample_table p c"
proof -
  let ?b = "rb_new (drop 3 (enc sample_table)) 9 (- 3)"
  have b: "rb_csr ?b = - int 3" "rb_wf ?b"
    "rb_avail ?b = take (rb_remaining ?b) (drop 3 (enc sample_table) @ [])"
    by (simp_all add: rb_new_def rb_wf_def rb_avail_def rb_remaining_def sample_table_enc)
  have "\<not> length (enc sample_table) - 3 \<le> rb_remaining ?b"
    by (simp add: rb_new_def rb_remaining_def sample_table_enc)
  with read_resumes [OF sample_table_kcan sample_table_part b] show ?thesis
    by auto
qed

end
