(* ===== verification/Kdb_Inflate.thy ===== *)
theory Kdb_Inflate
  imports Kdb_Buf
begin

text \<open>
  \<open>KdbIpcDecompressor\<close> of \<^verbatim>\<open>ipc++/src/KdbType.C\<close>. Output is written front to back, so \<open>m_dst\<close>
  is the bytes written so far, and \<open>m_off\<close> is their number. The code does not compare a write with the
  size of the allocation, and neither does the model: \<open>dz_cap\<close> is that size, and more than \<open>dz_cap\<close> bytes in
  \<open>dz_dst\<close> are bytes behind the allocation. How far they can go is a property below. A read
  past what is written, a use of an entry of \<open>m_lbh\<close> that no one has
  set (the array is not initialised) and a read past the input are undefined. The counters keep
  their machine widths.
\<close>

section \<open>The decompressor\<close>

record inflater =
  dz_ipc_len :: u64
  dz_msg_len :: u64
  dz_idx :: u32
  dz_rdx :: u64
  dz_chx :: nat
  dz_bit :: u32
  dz_lbh :: "u32 option list"
  dz_cap :: nat
  dz_dst :: bytes

text \<open>The constructor; \<open>cap\<close> is the size of the allocation it is given.\<close>

definition dz_new :: "u64 \<Rightarrow> u64 \<Rightarrow> nat \<Rightarrow> inflater" where
  "dz_new ipc_len msg_len cap =
     \<lparr>dz_ipc_len = ipc_len - 8 - 4, dz_msg_len = msg_len - 8, dz_idx = 0, dz_rdx = 0, dz_chx = 0,
      dz_bit = 0, dz_lbh = replicate 256 None, dz_cap = cap, dz_dst = []\<rparr>"

definition dz_off :: "inflater \<Rightarrow> u64" where
  "dz_off z = word_of_nat (length (dz_dst z))"

definition popcount8 :: "u8 \<Rightarrow> u64" where
  "popcount8 w = word_of_nat (length (filter (\<lambda>i. bit w i) [0..<8]))"

definition blockReadSz :: "inflater \<Rightarrow> rbuf \<Rightarrow> u64" where
  "blockReadSz z b =
     (if rb_remaining b = 0 then - 1
      else let count = popcount8 (hd (rb_peek 1 b))
           in 1 + count * 2 + min (8 - count) (dz_ipc_len z - dz_rdx z - count * 2 - 1))"

text \<open>\<open>buf.read<uint8_t>()\<close>, where nothing checks that a byte is left.\<close>

definition rd_u8 :: "rbuf \<Rightarrow> (u8 \<times> rbuf) outcome" where
  "rd_u8 b = (if rb_canRead b 1 then let (bs, b1) = rb_read 1 b in Ret (hd bs, b1) else Undef)"

text \<open>\<open>m_dst[i]\<close> and \<open>m_dst[m_off++] = x\<close>.\<close>

definition dst_get :: "bytes \<Rightarrow> u32 \<Rightarrow> u8 outcome" where
  "dst_get d i = (if unat i < length d then Ret (d ! unat i) else Undef)"

definition dst_put :: "u8 \<Rightarrow> bytes \<Rightarrow> bytes" where
  "dst_put x d = d @ [x]"

text \<open>\<open>n\<close> bytes from \<open>old\<close> on, one by one, so that the copy may run into its own output.\<close>

fun dst_copy :: "u32 \<Rightarrow> nat \<Rightarrow> bytes \<Rightarrow> bytes outcome" where
  "dst_copy old 0 d = Ret d"
| "dst_copy old (Suc n) d = obind (dst_get d old) (\<lambda>x. dst_copy (old + 1) n (dst_put x d))"

text \<open>The loop that enters the byte pairs before \<open>off\<close> into \<open>m_lbh\<close>.\<close>

function dz_window :: "bytes \<Rightarrow> nat \<Rightarrow> nat \<Rightarrow> u32 option list \<Rightarrow> nat \<times> u32 option list" where
  "dz_window d off chx lbh =
     (if chx < off - 1
      then dz_window d off (chx + 1) (lbh[unat (d ! chx XOR d ! (chx + 1)) := Some (word_of_nat chx)])
      else (chx, lbh))"
  by auto
termination by (relation "measure (\<lambda>(d, off, chx, lbh). off - chx)") auto

declare dz_window.simps [simp del]

text \<open>The control byte of a block.\<close>

definition dz_begin :: "inflater \<Rightarrow> rbuf \<Rightarrow> (inflater \<times> rbuf) outcome" where
  "dz_begin z b =
     obind (rd_u8 b) (\<lambda>(x, b1). Ret (z\<lparr>dz_bit := ucast x, dz_rdx := dz_rdx z + 1, dz_idx := 1\<rparr>, b1))"

text \<open>One item of a block: a back reference or a plain byte.\<close>

definition dz_item :: "inflater \<Rightarrow> rbuf \<Rightarrow> (inflater \<times> rbuf) outcome" where
  "dz_item z b =
     (let d = dz_dst z; nxt = (if dz_idx z * 2 = 256 then 0 else dz_idx z * 2)
      in if dz_bit z AND dz_idx z \<noteq> 0
         then obind (rd_u8 b) (\<lambda>(off, b1).
              obind (deref (dz_lbh z ! unat off)) (\<lambda>old.
              obind (dst_get d old) (\<lambda>x. let d1 = dst_put x d in
              obind (dst_get d1 (old + 1)) (\<lambda>y. let d2 = dst_put y d1 in
              obind (rd_u8 b1) (\<lambda>(rdn, b2).
              obind (dst_copy (old + 2) (unat rdn) d2) (\<lambda>d3.
                Ret (z\<lparr>dz_dst := d3, dz_rdx := dz_rdx z + 2,
                       dz_lbh := snd (dz_window d3 (length d2) (dz_chx z) (dz_lbh z)),
                       dz_chx := length d3, dz_idx := nxt\<rparr>, b2)))))))
         else obind (rd_u8 b) (\<lambda>(x, b1).
                let d1 = dst_put x d; w = dz_window d1 (length d1) (dz_chx z) (dz_lbh z)
                in Ret (z\<lparr>dz_dst := d1, dz_rdx := dz_rdx z + 1, dz_lbh := snd w, dz_chx := fst w,
                          dz_idx := nxt\<rparr>, b1)))"

text \<open>One turn of the main loop: \<open>None\<close> when the next block is not complete.\<close>

definition dz_turn :: "inflater \<Rightarrow> rbuf \<Rightarrow> (inflater \<times> rbuf) option outcome" where
  "dz_turn z b =
     (if dz_idx z = 0
      then if word_of_nat (rb_remaining b) < blockReadSz z b then Ret None
           else obind (dz_begin z b) (\<lambda>(z1, b1). obind (dz_item z1 b1) (\<lambda>zb. Ret (Some zb)))
      else obind (dz_item z b) (\<lambda>zb. Ret (Some zb)))"

lemma rd_u8_after: "rd_u8 b = Ret (x, b') \<Longrightarrow> rb_remaining b' < rb_remaining b"
  by (auto simp: rd_u8_def rb_canRead_def rb_read_def rb_adj_def split: if_splits)

lemma dz_turn_after: "dz_turn z b = Ret (Some (z', b')) \<Longrightarrow> rb_remaining b' < rb_remaining b"
proof -
  have item: "dz_item y c = Ret (y', c') \<Longrightarrow> rb_remaining c' < rb_remaining c" for y y' c c'
    by (auto simp: dz_item_def Let_def split: if_splits dest!: rd_u8_after)
  show "dz_turn z b = Ret (Some (z', b')) \<Longrightarrow> rb_remaining b' < rb_remaining b"
    by (auto simp: dz_turn_def dz_begin_def split: if_splits dest!: rd_u8_after item)
qed

text \<open>Every turn takes a byte of the input at least.\<close>

function dz_loop :: "inflater \<Rightarrow> rbuf \<Rightarrow> (inflater \<times> rbuf) outcome" where
  "dz_loop z b =
     (if dz_off z < dz_msg_len z
      then obind (dz_turn z b) (\<lambda>r. case r of None \<Rightarrow> Ret (z, b) | Some (z1, b1) \<Rightarrow> dz_loop z1 b1)
      else Ret (z, b))"
  by auto
termination
  by (relation "measure (\<lambda>(z, b). rb_remaining b)") (auto dest!: dz_turn_after)

declare dz_loop.simps [simp del]

text \<open>\<open>uncompress\<close>: the number of bytes it has added, the decompressor and the buffer.\<close>

definition uncompress :: "inflater \<Rightarrow> rbuf \<Rightarrow> (u64 \<times> inflater \<times> rbuf) outcome" where
  "uncompress z b = obind (dz_loop z b) (\<lambda>(z1, b1). Ret (dz_off z1 - dz_off z, z1, b1))"

definition isComplete :: "inflater \<Rightarrow> bool" where
  "isComplete z \<longleftrightarrow> dz_off z = dz_msg_len z"

definition getUsedInputCount :: "inflater \<Rightarrow> u64" where
  "getUsedInputCount z = dz_rdx z"

definition getReadBuf :: "inflater \<Rightarrow> int \<Rightarrow> rbuf" where
  "getReadBuf z csr = rb_new (dz_dst z) (length (dz_dst z)) csr"

section \<open>Bounds\<close>

text \<open>\<open>grows n z z'\<close>: some bytes, at most \<open>n\<close>, have been appended to the output.\<close>

definition grows :: "nat \<Rightarrow> inflater \<Rightarrow> inflater \<Rightarrow> bool" where
  "grows n z z' \<longleftrightarrow> (\<exists>t. dz_dst z' = dz_dst z @ t \<and> length t \<le> n) \<and> dz_cap z' = dz_cap z \<and> dz_msg_len z' = dz_msg_len z"

lemma dst_copy_grows: "dst_copy old n d = Ret d' \<Longrightarrow> \<exists>t. d' = d @ t \<and> length t = n"
proof (induction n arbitrary: old d)
  case (Suc n)
  then obtain x where "dst_copy (old + 1) n (d @ [x]) = Ret d'" by (auto simp: dst_put_def)
  from Suc.IH [OF this] show ?case by auto
qed simp

text \<open>A back reference is two bytes and those counted by one byte.\<close>

lemma dz_item_grows: "dz_item z b = Ret (z', b') \<Longrightarrow> grows 257 z z'"
proof (cases "dz_bit z AND dz_idx z = 0")
  case True
  moreover assume "dz_item z b = Ret (z', b')"
  ultimately show ?thesis by (auto simp: dz_item_def Let_def grows_def dst_put_def)
next
  case False
  assume r: "dz_item z b = Ret (z', b')"
  with False obtain x y old rdn d3 where d3: "dst_copy old (unat (rdn :: u8)) (dz_dst z @ [x] @ [y]) = Ret d3" "dz_dst z' = d3"
    "dz_cap z' = dz_cap z" "dz_msg_len z' = dz_msg_len z"
    by (auto simp: dz_item_def Let_def dst_put_def)
  moreover have "unat rdn < 256" using unsigned_less [of rdn, where ?'a = nat] by simp
  ultimately show ?thesis using dst_copy_grows [OF d3(1)] by (auto simp: grows_def)
qed

lemma dz_turn_grows: "dz_turn z b = Ret (Some (z', b')) \<Longrightarrow> grows 257 z z'"
  by (auto simp: dz_turn_def dz_begin_def split: if_splits dest!: dz_item_grows) (simp_all add: grows_def)

lemma dz_loop_grows:
  assumes "dz_loop z b = Ret (z', b')" "length (dz_dst z) \<le> unat (dz_msg_len z) + 256" "unat (dz_msg_len z) + 256 < 2 ^ 64"
  shows "grows (unat (dz_msg_len z) + 256 - length (dz_dst z)) z z'"
  using assms
proof (induction z b arbitrary: z' b' rule: dz_loop.induct)
  case (1 z b)
  show ?case
  proof (cases "dz_off z < dz_msg_len z")
    case True
    with "1.prems"(1) obtain r where r: "dz_turn z b = Ret r"
      "(case r of None \<Rightarrow> Ret (z, b) | Some (z1, b1) \<Rightarrow> dz_loop z1 b1) = Ret (z', b')"
      by (auto simp: dz_loop.simps [of z b])
    have "unat (dz_off z) = length (dz_dst z)"
      using "1.prems"(2,3) unfolding dz_off_def by (intro unat_word_of_nat64) simp
    then have lt: "length (dz_dst z) < unat (dz_msg_len z)" using True by (simp add: word_less_nat_alt)
    show ?thesis
    proof (cases r)
      case None
      then show ?thesis using r by (auto simp: grows_def)
    next
      case (Some zb)
      then obtain z1 b1 where zb: "r = Some (z1, b1)" by (cases zb) auto
      with r have l: "dz_loop z1 b1 = Ret (z', b')" by simp
      obtain t where t: "dz_dst z1 = dz_dst z @ t" "length t \<le> 257" "dz_cap z1 = dz_cap z" "dz_msg_len z1 = dz_msg_len z"
        using dz_turn_grows [of z b z1 b1] r(1) zb by (auto simp: grows_def)
      have "grows (unat (dz_msg_len z) + 256 - length (dz_dst z1)) z1 z'"
        using "1.IH" [OF True r(1) zb refl l] t lt "1.prems"(3) by simp
      then show ?thesis using t lt by (auto simp: grows_def)
    qed
  next
    case False
    then show ?thesis using "1.prems"(1) by (auto simp: dz_loop.simps [of z b] grows_def)
  qed
qed

section \<open>Input in pieces\<close>

text \<open>\<open>more t b c\<close>: what \<open>c\<close> has unread is what \<open>b\<close> has, followed by \<open>t\<close>.\<close>

definition more :: "bytes \<Rightarrow> rbuf \<Rightarrow> rbuf \<Rightarrow> bool" where
  "more t b c \<longleftrightarrow> rb_wf b \<and> rb_wf c \<and> rb_avail c = rb_avail b @ t"

lemma more_remaining: "more t b c \<Longrightarrow> rb_remaining c = rb_remaining b + length t"
  by (metis length_append length_rb_avail more_def)

lemma more_u8:
  assumes "more t b c" "rd_u8 b = Ret (x, b')"
  shows "\<exists>c'. rd_u8 c = Ret (x, c') \<and> more t b' c'"
proof -
  have b: "1 \<le> rb_remaining b" "x = hd (rb_peek 1 b)" "b' = rb_move 1 1 b"
    using assms(2) by (auto simp: rd_u8_def rb_canRead_def rb_read_def rb_adj_def split: if_splits)
  have wf: "rb_wf b" "rb_wf c" and av: "rb_avail c = rb_avail b @ t"
    using assms(1) by (simp_all add: more_def)
  have c: "1 \<le> rb_remaining c" using b(1) more_remaining [OF assms(1)] by simp
  have ne: "rb_avail b \<noteq> []"
    using b(1) wf by (metis length_rb_avail list.size(3) not_one_le_zero)
  then have "rb_peek 1 c = rb_peek 1 b"
    using b(1) c av by (cases "rb_avail b") (simp_all add: rb_peek_avail)
  moreover have "more t (rb_move 1 1 b) (rb_move 1 1 c)"
    using wf b(1) c av ne by (cases "rb_avail b") (simp_all add: more_def rb_wf_move rb_avail_move)
  ultimately show ?thesis
    using c b by (simp add: rd_u8_def rb_canRead_def rb_read_def rb_adj_def)
qed

lemma more_item:
  assumes "more t b c" "dz_item z b = Ret (z', b')"
  shows "\<exists>c'. dz_item z c = Ret (z', c') \<and> more t b' c'"
proof (cases "dz_bit z AND dz_idx z \<noteq> 0")
  case True
  then obtain off b1 rdn b2 where u: "rd_u8 b = Ret (off, b1)" "rd_u8 b1 = Ret (rdn, b2)" "b' = b2"
    using assms(2) by (auto simp: dz_item_def Let_def)
  from more_u8 [OF assms(1) u(1)] obtain c1 where c1: "rd_u8 c = Ret (off, c1)" "more t b1 c1"
    by blast
  from more_u8 [OF c1(2) u(2)] obtain c2 where c2: "rd_u8 c1 = Ret (rdn, c2)" "more t b2 c2"
    by blast
  show ?thesis
    using assms(2) True u c1 c2 by (auto simp: dz_item_def Let_def)
next
  case False
  then obtain x where u: "rd_u8 b = Ret (x, b')"
    using assms(2) by (auto simp: dz_item_def Let_def)
  from more_u8 [OF assms(1) u] obtain c1 where c1: "rd_u8 c = Ret (x, c1)" "more t b' c1"
    by blast
  show ?thesis
    using assms(2) False u c1 by (auto simp: dz_item_def Let_def)
qed

lemma more_block:
  assumes "more t b c" "0 < rb_remaining b"
  shows "blockReadSz z c = blockReadSz z b"
proof -
  have "rb_peek 1 c = rb_peek 1 b"
    using assms more_remaining [OF assms(1)]
    by (cases "rb_avail b") (auto simp: more_def rb_peek_avail simp flip: length_rb_avail)
  then show ?thesis
    using assms(2) more_remaining [OF assms(1)] by (simp add: blockReadSz_def)
qed

lemma more_turn:
  assumes m: "more t b c" and r: "dz_turn z b = Ret (Some (z', b'))" and small: "rb_remaining c < 2 ^ 64"
  shows "\<exists>c'. dz_turn z c = Ret (Some (z', c')) \<and> more t b' c'"
proof (cases "dz_idx z = 0")
  case False
  then show ?thesis
    using m r by (auto simp: dz_turn_def dest: more_item)
next
  case True
  have lt: "\<not> (word_of_nat (rb_remaining b) :: u64) < blockReadSz z b"
    using r True by (auto simp: dz_turn_def split: if_splits)
  have rem: "rb_remaining c = rb_remaining b + length t" by (rule more_remaining [OF m])
  have pos: "0 < rb_remaining b"
    using lt by (cases "rb_remaining b = 0") (auto simp: blockReadSz_def word_greater_zero_iff)
  have "rb_remaining b \<le> rb_remaining c" using rem by simp
  then have "(word_of_nat (rb_remaining b) :: u64) \<le> word_of_nat (rb_remaining c)"
    using small by (simp add: word_le_nat_alt unat_of_nat)
  then have "\<not> (word_of_nat (rb_remaining c) :: u64) < blockReadSz z c"
    using lt more_block [OF m pos] by auto
  moreover obtain y b1 where y: "dz_begin z b = Ret (y, b1)" "dz_item y b1 = Ret (z', b')"
    using r True lt by (auto simp: dz_turn_def split: if_splits)
  moreover obtain c1 where c1: "dz_begin z c = Ret (y, c1)" "more t b1 c1"
    using y(1) more_u8 [OF m] by (fastforce simp: dz_begin_def)
  moreover obtain c' where "dz_item y c1 = Ret (z', c')" "more t b' c'"
    using more_item [OF c1(2) y(2)] by blast
  ultimately show ?thesis
    using True by (simp add: dz_turn_def)
qed

text \<open>What the loop does with the first part of the input it also does with the whole.\<close>

lemma more_loop:
  "dz_loop z b = Ret (z1, b1) \<Longrightarrow> more t b c \<Longrightarrow> rb_remaining c < 2 ^ 64 \<Longrightarrow>
    \<exists>c1. dz_loop z c = dz_loop z1 c1 \<and> more t b1 c1 \<and> rb_remaining c1 \<le> rb_remaining c"
proof (induction z b arbitrary: c rule: dz_loop.induct)
  case (1 z b)
  show ?case
  proof (cases "dz_off z < dz_msg_len z")
    case False
    then show ?thesis using "1.prems" by (auto simp: dz_loop.simps [of z b])
  next
    case True
    with "1.prems"(1) obtain r where r: "dz_turn z b = Ret r"
      "(case r of None \<Rightarrow> Ret (z, b) | Some (y, d) \<Rightarrow> dz_loop y d) = Ret (z1, b1)"
      by (auto simp: dz_loop.simps [of z b])
    show ?thesis
    proof (cases r)
      case None
      then show ?thesis using r "1.prems" by auto
    next
      case (Some zb)
      then obtain y d where yd: "r = Some (y, d)" by (cases zb) auto
      with r(1) "1.prems"(2,3) obtain c' where c': "dz_turn z c = Ret (Some (y, c'))" "more t d c'"
        using more_turn by blast
      then have le: "rb_remaining c' \<le> rb_remaining c" by (simp add: dz_turn_after less_imp_le)
      have "dz_loop z c = dz_loop y c'"
        using True c'(1) by (simp add: dz_loop.simps [of z c])
      moreover have "dz_loop y d = Ret (z1, b1)" using r(2) yd by simp
      ultimately show ?thesis
        using "1.IH" [OF True r(1) yd refl _ c'(2)] le "1.prems"(3) by fastforce
    qed
  qed
qed

lemma dz_loop_stops:
  "dz_loop z b = Ret (z1, b1) \<Longrightarrow> dz_off z1 < dz_msg_len z1 \<Longrightarrow> dz_turn z1 b1 = Ret None"
proof (induction z b rule: dz_loop.induct)
  case (1 z b)
  show ?case
  proof (cases "dz_off z < dz_msg_len z")
    case False
    then show ?thesis using "1.prems" by (auto simp: dz_loop.simps [of z b])
  next
    case True
    with "1.prems"(1) obtain r where r: "dz_turn z b = Ret r"
      "(case r of None \<Rightarrow> Ret (z, b) | Some (y, d) \<Rightarrow> dz_loop y d) = Ret (z1, b1)"
      by (auto simp: dz_loop.simps [of z b])
    show ?thesis
    proof (cases r)
      case None
      then show ?thesis using r by auto
    next
      case (Some zb)
      then obtain y d where yd: "r = Some (y, d)" by (cases zb) auto
      with r "1.IH" [OF True r(1) yd refl] "1.prems" show ?thesis by auto
    qed
  qed
qed

lemma stops_same:
  assumes m: "more [] b c" and stop: "dz_turn z b = Ret None"
  shows "dz_turn z c = Ret None"
proof -
  have rem: "rb_remaining c = rb_remaining b" using more_remaining [OF m] by simp
  have "blockReadSz z c = blockReadSz z b"
    using more_block [OF m] rem by (cases "rb_remaining b = 0") (simp_all add: blockReadSz_def)
  with stop rem show ?thesis by (auto simp: dz_turn_def split: if_splits)
qed

text \<open>C32. Decompression can be cut anywhere: when a first delivery has been decompressed as far as
  it goes, and what it left unread is presented again with the bytes that follow, the outcome
  is the one of presenting all of it at once.\<close>

theorem uncompress_resumes:
  assumes first: "uncompress z b1 = Ret (n1, z1, b1')"
    and whole: "uncompress z b = Ret (n, z2, b')"
    and wf: "rb_wf b" "rb_wf b1" "rb_wf b2" "rb_remaining b < 2 ^ 64"
    and inputs: "rb_avail b = rb_avail b1 @ t" "rb_avail b2 = rb_avail b1' @ t"
  shows "\<exists>b2'. uncompress z1 b2 = Ret (dz_off z2 - dz_off z1, z2, b2') \<and> rb_avail b2' = rb_avail b'"
proof -
  have l1: "dz_loop z b1 = Ret (z1, b1')" and l: "dz_loop z b = Ret (z2, b')"
    using first whole by (auto simp: uncompress_def)
  have "more t b1 b" using wf inputs by (simp add: more_def)
  then obtain c1 where c1: "dz_loop z b = dz_loop z1 c1" "more t b1' c1" "rb_remaining c1 \<le> rb_remaining b"
    using more_loop [OF l1 _ wf(4)] by blast
  then have "more [] c1 b2" using wf inputs by (simp add: more_def)
  moreover have "rb_remaining b2 < 2 ^ 64"
    using more_remaining [OF calculation] c1(3) wf(4) by simp
  moreover have "dz_loop z1 c1 = Ret (z2, b')" using c1(1) l by simp
  ultimately obtain c2 where c2: "dz_loop z1 b2 = dz_loop z2 c2" "more [] b' c2"
    using more_loop by blast
  have "dz_loop z2 c2 = Ret (z2, c2)"
    using dz_loop_stops [OF l] stops_same [OF c2(2)] by (simp add: dz_loop.simps [of z2 c2])
  then show ?thesis
    using c2 by (simp add: uncompress_def more_def)
qed

text \<open>C37. Whatever the stream, decompression only appends to its output, and goes at most 256 bytes beyond
  the length of the message, which is the size of the memory it is given: the main loop asks only
  whether the output is complete, so that its last back reference may run over the end.\<close>

theorem uncompress_bounded:
  assumes "uncompress z b = Ret (n, z', b')" "length (dz_dst z) \<le> unat (dz_msg_len z)" "unat (dz_msg_len z) + 256 < 2 ^ 64"
  shows "\<exists>t. dz_dst z' = dz_dst z @ t \<and> length (dz_dst z') \<le> unat (dz_msg_len z) + 256"
  using assms dz_loop_grows [of z b z'] by (fastforce simp: uncompress_def grows_def)

lemma rb_new_simps [simp]:
  "rb_wf (rb_new s n c) \<longleftrightarrow> n \<le> length s" "rb_avail (rb_new s n c) = take n s"
  "rb_remaining (rb_new s n c) = n" "rb_csr (rb_new s n c) = c" "rb_off (rb_new s n c) = 0"
  by (simp_all add: rb_new_def rb_wf_def rb_avail_def rb_remaining_def)

text \<open>A block of eight plain bytes and one of four plain bytes and a back reference to the first
  two of those, with one byte more.\<close>

definition sample_z :: bytes where
  "sample_z = [0, 5, 6, 7, 8, 9, 10, 11, 12, 16, 1, 2, 3, 1, 3, 1]"

lemma sample_z_whole:
  "(case uncompress (dz_new 28 23 15) (rb_new sample_z 16 0) of
      Ret (n, z, b) \<Rightarrow> dz_dst z = [5, 6, 7, 8, 9, 10, 11, 12, 1, 2, 3, 1, 1, 2, 3] \<and> isComplete z \<and> rb_avail b = []
    | _ \<Rightarrow> False)"
  by code_simp

lemma sample_z_first:
  "(case uncompress (dz_new 28 23 15) (rb_new (take 12 sample_z) 12 0) of
      Ret (n, z, b) \<Rightarrow> n = 8 \<and> rb_avail b = [16, 1, 2] | _ \<Rightarrow> False)"
  by code_simp

theorem uncompress_resumes_witness:
  "\<exists>n1 z1 b1 n2 z2 b2. uncompress (dz_new 28 23 15) (rb_new (take 12 sample_z) 12 0) = Ret (n1, z1, b1) \<and>
    uncompress z1 (rb_new [16, 1, 2, 3, 1, 3, 1] 7 (- 10)) = Ret (n2, z2, b2) \<and>
    dz_dst z2 = [5, 6, 7, 8, 9, 10, 11, 12, 1, 2, 3, 1, 1, 2, 3]"
proof -
  obtain n1 z1 b1' where 1: "uncompress (dz_new 28 23 15) (rb_new (take 12 sample_z) 12 0) = Ret (n1, z1, b1')"
    and av: "rb_avail b1' = [16, 1, 2]"
    using sample_z_first by (auto split: outcome.splits)
  obtain n z2 b' where 2: "uncompress (dz_new 28 23 15) (rb_new sample_z 16 0) = Ret (n, z2, b')"
    and d: "dz_dst z2 = [5, 6, 7, 8, 9, 10, 11, 12, 1, 2, 3, 1, 1, 2, 3]"
    using sample_z_whole by (auto split: outcome.splits)
  have "\<exists>b2'. uncompress z1 (rb_new [16, 1, 2, 3, 1, 3, 1] 7 (- 10)) = Ret (dz_off z2 - dz_off z1, z2, b2') \<and>
      rb_avail b2' = rb_avail b'"
    by (rule uncompress_resumes [OF 1 2, where t = "[3, 1, 3, 1]"])
      (simp_all add: av sample_z_def)
  then show ?thesis using 1 d by blast
qed

text \<open>Memory for four bytes: three plain bytes, and a back reference to the first two of them with 255 more,
  256 of which lie behind the end.\<close>

definition sample_overrun :: bytes where
  "sample_overrun = [8, 1, 2, 3, 3, 255]"

lemma sample_overruns:
  "(case uncompress (dz_new 18 12 4) (rb_new sample_overrun 6 0) of
      Ret (n, z, b) \<Rightarrow> dz_cap z = 4 \<and> length (dz_dst z) = 260 | _ \<Rightarrow> False)"
  by code_simp

theorem uncompress_bounded_witness:
  "\<exists>n z b. uncompress (dz_new 18 12 4) (rb_new sample_overrun 6 0) = Ret (n, z, b) \<and> length (dz_dst z) \<le> 4 + 256"
proof -
  obtain n z b where 1: "uncompress (dz_new 18 12 4) (rb_new sample_overrun 6 0) = Ret (n, z, b)"
    using sample_overruns by (auto split: outcome.splits)
  from uncompress_bounded [OF this] show ?thesis
    using 1 by (auto simp: dz_new_def)
qed

end
