(* ===== verification/Kdb_Writer.thy ===== *)
theory Kdb_Writer
  imports Kdb_Write
begin

text \<open>
  \<open>KdbIpcMessageWriter\<close>, \<open>KdbUtil::ipcMessageLen\<close> and \<open>KdbUtil::writeLoginMsg\<close>. The writer holds
  a reference to a \<open>KdbBase\<close> and calls its virtual \<open>wireSz\<close> and \<open>write\<close>, so its operations
  take the two as arguments; \<open>wire_object\<close> is the contract it relies on, and the classes of
  \<^verbatim>\<open>KdbType.C\<close> meet it. \<open>m_ipc_len\<close> and \<open>m_byt_rem\<close> are 64 bits wide.
\<close>

section \<open>The writer\<close>

record 'o msg_writer =
  mw_typ :: KdbMsgType
  mw_ipc_len :: u64
  mw_root :: 'o
  mw_byt_rem :: u64

definition ipcMessageLen :: "('o \<Rightarrow> nat outcome) \<Rightarrow> 'o \<Rightarrow> u64 outcome" where
  "ipcMessageLen wsz payload = obind (wsz payload) (\<lambda>n. Ret (word_of_nat (SZ_MSG_HDR + n)))"

definition mw_new :: "('o \<Rightarrow> nat outcome) \<Rightarrow> KdbMsgType \<Rightarrow> 'o \<Rightarrow> 'o msg_writer outcome" where
  "mw_new wsz typ msg =
     obind (ipcMessageLen wsz msg)
       (\<lambda>len. Ret \<lparr>mw_typ = typ, mw_ipc_len = len, mw_root = msg, mw_byt_rem = len\<rparr>)"

definition mw_write_hdr :: "KdbMsgType \<Rightarrow> u64 \<Rightarrow> wbuf \<Rightarrow> bool \<times> wbuf" where
  "mw_write_hdr typ ipc_len b =
     (if wb_active b
      then if \<not> wb_canWrite b SZ_MSG_HDR then (False, b)
           else let b1 = snd (wb_write [1] b);
                    b2 = snd (wb_write [msg_type_i8 typ] b1);
                    b3 = snd (wb_write [0] b2);
                    b4 = snd (wb_write [0] b3)
                in (True, snd (wb_write (le SZ_INT (unat ipc_len)) b4))
      else (True, wb_ffwd SZ_MSG_HDR b))"

text \<open>\<open>write(dst, cap)\<close>: the result with the bytes stored at \<open>dst\<close>.\<close>

definition mw_write ::
  "('o \<Rightarrow> wbuf \<Rightarrow> (WriteResult \<times> wbuf) outcome) \<Rightarrow> nat \<Rightarrow> 'o msg_writer \<Rightarrow>
   (WriteResult \<times> bytes \<times> 'o msg_writer) outcome" where
  "mw_write wr cap w =
     (let (ok, b) = mw_write_hdr (mw_typ w) (mw_ipc_len w)
                      (wb_new cap (- sint (mw_ipc_len w - mw_byt_rem w)))
      in if \<not> ok then Ret (WR_INCOMPLETE, wb_out b, w)
         else obind (wr (mw_root w) b)
                (\<lambda>(r, b1). Ret (r, wb_out b1, w\<lparr>mw_byt_rem := mw_byt_rem w - word_of_int (wb_csr b1)\<rparr>)))"

text \<open>Successive calls, one buffer of the given capacity each.\<close>

fun mw_run ::
  "('o \<Rightarrow> wbuf \<Rightarrow> (WriteResult \<times> wbuf) outcome) \<Rightarrow> nat list \<Rightarrow> 'o msg_writer \<Rightarrow>
   ((WriteResult \<times> bytes) list \<times> 'o msg_writer) outcome" where
  "mw_run wr [] w = Ret ([], w)"
| "mw_run wr (cap # caps) w =
     obind (mw_write wr cap w)
       (\<lambda>(r, out, w1). obind (mw_run wr caps w1) (\<lambda>(rs, w2). Ret ((r, out) # rs, w2)))"

definition writeLoginMsg :: "bytes \<Rightarrow> bytes \<Rightarrow> bytes" where
  "writeLoginMsg usr pwd = usr @ [58] @ (if 0 < length pwd then pwd else []) @ [3, 0]"

section \<open>The contract of a written object\<close>

text \<open>\<open>image\<close> is the wire image in pieces; \<open>ok\<close> the objects the contract is about.\<close>

definition msg_hdr :: "KdbMsgType \<Rightarrow> nat \<Rightarrow> bytes" where
  "msg_hdr typ len = [1, msg_type_i8 typ, 0, 0] @ le SZ_INT len"

lemma length_msg_hdr [simp, wire_simps]: "length (msg_hdr typ len) = SZ_MSG_HDR"
  by (simp add: msg_hdr_def)

lemma mw_write_hdr_emit:
  "wb_wf b \<Longrightarrow> mw_write_hdr typ len b =
     (case emit [msg_hdr typ (unat len)] b of (r, b') \<Rightarrow> (r = WR_OK, b'))"
  by (simp add: mw_write_hdr_def wb_active_def wb_canWrite_remaining wb_write_def msg_hdr_def
      Let_def)

locale wire_object =
  fixes wsz :: "'o \<Rightarrow> nat outcome"
    and wr :: "'o \<Rightarrow> wbuf \<Rightarrow> (WriteResult \<times> wbuf) outcome"
    and image :: "'o \<Rightarrow> bytes list"
    and ok :: "'o \<Rightarrow> bool"
  assumes size_law: "ok x \<Longrightarrow> wsz x = Ret (wsum (image x))"
    and write_law: "ok x \<Longrightarrow> wb_wf b \<Longrightarrow> aligned (wb_csr b) (image x) \<Longrightarrow> wr x b = Ret (emit (image x) b)"
    and image_law: "[] \<notin> set (image x)"
begin

definition pieces :: "KdbMsgType \<Rightarrow> 'o \<Rightarrow> bytes list" where
  "pieces typ x = msg_hdr typ (SZ_MSG_HDR + wsum (image x)) # image x"

text \<open>The writer when it has sent \<open>k\<close> pieces.\<close>

definition writer_at :: "KdbMsgType \<Rightarrow> 'o \<Rightarrow> nat \<Rightarrow> 'o msg_writer" where
  "writer_at typ x k =
     \<lparr>mw_typ = typ, mw_ipc_len = word_of_nat (wsum (pieces typ x)), mw_root = x,
      mw_byt_rem = word_of_nat (wsum (pieces typ x) - wsum (take k (pieces typ x)))\<rparr>"

definition small :: "'o \<Rightarrow> bool" where
  "small x \<longleftrightarrow> SZ_MSG_HDR + wsum (image x) < 2 ^ 63"

lemma wsum_pieces: "wsum (pieces typ x) = SZ_MSG_HDR + wsum (image x)"
  by (simp add: pieces_def)

lemma wsum_take_le: "wsum (take k us) \<le> wsum us"
  by (metis append_take_drop_id le_add1 wsum_simps(3))

lemma new_at: "ok x \<Longrightarrow> mw_new wsz typ x = Ret (writer_at typ x 0)"
  by (simp add: mw_new_def ipcMessageLen_def size_law writer_at_def wsum_pieces)

lemma sint_sent:
  assumes "small x"
  shows "sint (mw_ipc_len (writer_at typ x k) - mw_byt_rem (writer_at typ x k)) =
    int (wsum (take k (pieces typ x)))"
proof -
  let ?n = "wsum (pieces typ x)" and ?d = "wsum (take k (pieces typ x))"
  have le: "?d \<le> ?n" by (rule wsum_take_le)
  have "(word_of_nat ?n - word_of_nat (?n - ?d) :: u64) = word_of_nat ?d"
    using le by (simp add: of_nat_diff)
  moreover have "sint (word_of_nat ?d :: u64) = int ?d"
    using assms le by (simp add: small_def wsum_pieces signed_of_nat signed_take_bit_int_eq_self)
  ultimately show ?thesis by (simp add: writer_at_def)
qed

lemma write_emit:
  assumes "ok x" "small x" "k \<le> length (pieces typ x)"
  shows "mw_write wr cap (writer_at typ x k) =
    (case emit (pieces typ x) (wb_new cap (- int (wsum (take k (pieces typ x))))) of
       (r, b) \<Rightarrow> Ret (r, wb_out b, (writer_at typ x k)
         \<lparr>mw_byt_rem := mw_byt_rem (writer_at typ x k) - word_of_int (wb_csr b)\<rparr>))"
proof -
  let ?d = "wsum (take k (pieces typ x))"
  let ?b = "wb_new cap (- int ?d)"
  let ?h = "msg_hdr typ (SZ_MSG_HDR + wsum (image x))"
  have al: "aligned (wb_csr ?b) (pieces typ x)"
    using aligned_at [OF assms(3)] by (simp add: wb_new_def)
  have len: "unat (word_of_nat (SZ_MSG_HDR + wsum (image x)) :: u64) = SZ_MSG_HDR + wsum (image x)"
    using assms(2) by (simp add: small_def unat_of_nat del: of_nat_add)
  have root: "mw_root (writer_at typ x k) = x" "mw_typ (writer_at typ x k) = typ"
    "mw_ipc_len (writer_at typ x k) = word_of_nat (SZ_MSG_HDR + wsum (image x))"
    by (simp_all add: writer_at_def wsum_pieces)
  have wf: "wb_wf ?b" by (simp add: wb_wf_def wb_new_def)
  define h where "h = mw_write_hdr typ (word_of_nat (SZ_MSG_HDR + wsum (image x))) ?b"
  have h: "h = (case emit [?h] ?b of (r, b') \<Rightarrow> (r = WR_OK, b'))"
    unfolding h_def mw_write_hdr_emit [OF wf] len ..
  have e: "(let (ok, b1) = h in if \<not> ok then Ret (WR_INCOMPLETE, b1) else wr x b1) =
      Ret (emit (?h # image x) ?b)"
    by (rule hdr_then_emit [OF h wf], rule write_law [OF assms(1)])
      (use al in \<open>auto simp: pieces_def\<close>)
  have inc: "fst h \<or> wb_csr (snd h) = 0"
    unfolding h by (simp add: wb_new_def)
  obtain ok b1 where hb: "h = (ok, b1)" by (cases h)
  have w: "mw_write wr cap (writer_at typ x k) =
     (if \<not> ok then Ret (WR_INCOMPLETE, wb_out b1, writer_at typ x k)
      else obind (wr x b1) (\<lambda>(r, b2). Ret (r, wb_out b2, (writer_at typ x k)
        \<lparr>mw_byt_rem := mw_byt_rem (writer_at typ x k) - word_of_int (wb_csr b2)\<rparr>)))"
    unfolding mw_write_def sint_sent [OF assms(2)]
    unfolding root h_def [symmetric] hb by simp
  show ?thesis
  proof (cases ok)
    case True
    with e hb show ?thesis
      unfolding w by (simp add: pieces_def split_def del: emit.simps)
  next
    case False
    then have "emit (pieces typ x) ?b = (WR_INCOMPLETE, b1)" "wb_csr b1 = 0"
      using e inc hb by (simp_all add: pieces_def del: emit.simps)
    with False show ?thesis
      unfolding w by (simp add: split_def del: emit.simps)
  qed
qed

lemma step_at:
  fixes cap :: nat
  assumes "ok x" "small x" "k \<le> length (pieces typ x)"
  defines "f \<equiv> fit cap (drop k (pieces typ x))"
  shows "mw_write wr cap (writer_at typ x k) =
    Ret (if k + f = length (pieces typ x) then WR_OK else WR_INCOMPLETE,
         concat (take f (drop k (pieces typ x))), writer_at typ x (k + f))"
proof -
  let ?us = "pieces typ x"
  let ?d = "wsum (take k ?us)"
  define b where "b = wb_ffwd ?d (wb_new cap (- int ?d))"
  have 0: "0 \<le> wb_csr b" and cap: "wb_remaining b = cap" and csr: "wb_csr b = 0" and out: "wb_out b = []"
    by (simp_all add: b_def wb_new_def wb_remaining_def)
  have "emit ?us (wb_new cap (- int ?d)) = emit (drop k ?us) b"
    unfolding b_def using assms(3) by (intro emit_resume) (simp_all add: wb_new_def)
  also have "\<dots> = (if f = length (drop k ?us) then WR_OK else WR_INCOMPLETE,
      wb_put (concat (take f (drop k ?us))) b)"
    unfolding emit_active [OF 0] cap f_def ..
  finally have e: "emit ?us (wb_new cap (- int ?d)) = \<dots>" .
  have tk: "take (k + f) ?us = take k ?us @ take f (drop k ?us)"
    by (simp add: take_add)
  have "wsum (take k ?us) + wsum (take f (drop k ?us)) \<le> wsum ?us"
    using wsum_take_le [of "k + f" ?us] by (simp add: tk)
  then have rem: "mw_byt_rem (writer_at typ x k) - word_of_int (int (wsum (take f (drop k ?us)))) =
      mw_byt_rem (writer_at typ x (k + f))"
    by (simp add: writer_at_def tk of_nat_diff)
  have "(f = length (drop k ?us)) = (k + f = length ?us)"
    using assms(3) by auto
  then show ?thesis
    using rem unfolding write_emit [OF assms(1-3)] e
    by (simp add: csr out wsum_def) (simp add: writer_at_def)
qed

text \<open>\<open>sent k caps\<close>: how many pieces a writer at \<open>k\<close> has sent after buffers of these sizes.\<close>

fun sent :: "bytes list \<Rightarrow> nat \<Rightarrow> nat list \<Rightarrow> nat" where
  "sent us k [] = k"
| "sent us k (cap # caps) = sent us (k + fit cap (drop k us)) caps"

lemma sent_le: "k \<le> length us \<Longrightarrow> sent us k caps \<le> length us"
proof (induction caps arbitrary: k)
  case (Cons cap caps)
  then show ?case using fit_le [of cap "drop k us"] by simp
qed simp

lemma sent_ge: "k \<le> sent us k caps"
proof (induction caps arbitrary: k)
  case (Cons cap caps)
  show ?case using Cons [of "k + fit cap (drop k us)"] by simp
qed simp

lemma run_at:
  assumes "ok x" "small x" "k \<le> length (pieces typ x)"
  shows "\<exists>rs. mw_run wr caps (writer_at typ x k) = Ret (rs, writer_at typ x (sent (pieces typ x) k caps)) \<and>
    concat (take k (pieces typ x)) @ concat (map snd rs) =
      concat (take (sent (pieces typ x) k caps) (pieces typ x)) \<and>
    list_all2 (\<lambda>r cap. length (snd r) \<le> cap) rs caps \<and>
    (rs \<noteq> [] \<longrightarrow> fst (last rs) =
      (if sent (pieces typ x) k caps = length (pieces typ x) then WR_OK else WR_INCOMPLETE))"
  using assms(3)
proof (induction caps arbitrary: k)
  case (Cons cap caps)
  let ?us = "pieces typ x"
  let ?f = "fit cap (drop k ?us)"
  have kf: "k + ?f \<le> length ?us"
    using Cons.prems fit_le [of cap "drop k ?us"] by simp
  from Cons.IH [OF this] obtain rs where
    run: "mw_run wr caps (writer_at typ x (k + ?f)) = Ret (rs, writer_at typ x (sent ?us (k + ?f) caps))"
    and out: "concat (take (k + ?f) ?us) @ concat (map snd rs) = concat (take (sent ?us (k + ?f) caps) ?us)"
    and le: "list_all2 (\<lambda>r cap. length (snd r) \<le> cap) rs caps"
    and last: "rs \<noteq> [] \<longrightarrow> fst (last rs) =
      (if sent ?us (k + ?f) caps = length ?us then WR_OK else WR_INCOMPLETE)"
    by blast
  have "length (concat (take ?f (drop k ?us))) \<le> cap"
    using fit_bound [of cap "drop k ?us"] by (simp add: wsum_def)
  moreover have "rs = [] \<Longrightarrow> caps = []"
    using le by auto
  ultimately show ?case
    using run out le last by (auto simp: step_at [OF assms(1,2) Cons.prems] take_add)
qed simp

lemma sent_all:
  assumes "k \<le> length us" "\<And>cap u. cap \<in> set caps \<Longrightarrow> u \<in> set us \<Longrightarrow> length u \<le> cap"
    "length us \<le> k + length caps"
  shows "sent us k caps = length us"
  using assms
proof (induction caps arbitrary: k)
  case (Cons cap caps)
  have "k < length us \<Longrightarrow> 0 < fit cap (drop k us)"
    using Cons.prems(2) by (intro fit_progress) (auto dest: in_set_dropD)
  moreover have "k + fit cap (drop k us) \<le> length us"
    using Cons.prems(1) fit_le [of cap "drop k us"] by simp
  ultimately show ?case
    using Cons.prems by (cases "k < length us") (auto intro!: Cons.IH)
qed simp

lemma pieces_nonempty: "[] \<notin> set (pieces typ x)"
  using image_law [of x] by (auto simp: pieces_def msg_hdr_def)

lemma wsum_take_all:
  "[] \<notin> set us \<Longrightarrow> k \<le> length us \<Longrightarrow> wsum (take k us) = wsum us \<longleftrightarrow> k = length us"
proof (induction us arbitrary: k)
  case (Cons u us)
  then show ?case by (cases k) auto
qed simp

lemma rem_at:
  assumes "small x"
  shows "unat (mw_byt_rem (writer_at typ x k)) = wsum (pieces typ x) - wsum (take k (pieces typ x))"
  using assms by (simp add: writer_at_def small_def wsum_pieces unat_of_nat del: of_nat_diff)

lemma take_concat: "take (wsum (take k us)) (concat us) = concat (take k us)"
proof -
  have "concat us = concat (take k us) @ concat (drop k us)"
    by (metis append_take_drop_id concat_append)
  then show ?thesis by (simp add: wsum_def)
qed

text \<open>The two client results, for any object that meets the contract.\<close>

lemma run_prefix:
  assumes "ok x" "small x"
  shows "\<exists>w rs w'. mw_new wsz typ x = Ret w \<and> mw_run wr caps w = Ret (rs, w') \<and>
    unat (mw_byt_rem w') \<le> wsum (pieces typ x) \<and>
    concat (map snd rs) = take (wsum (pieces typ x) - unat (mw_byt_rem w')) (concat (pieces typ x)) \<and>
    list_all2 (\<lambda>r cap. length (snd r) \<le> cap) rs caps \<and>
    (rs \<noteq> [] \<longrightarrow> fst (last rs) = (if mw_byt_rem w' = 0 then WR_OK else WR_INCOMPLETE))"
proof -
  let ?us = "pieces typ x"
  let ?k = "sent ?us 0 caps"
  obtain rs where rs: "mw_run wr caps (writer_at typ x 0) = Ret (rs, writer_at typ x ?k)"
    "concat (map snd rs) = concat (take ?k ?us)"
    "list_all2 (\<lambda>r cap. length (snd r) \<le> cap) rs caps"
    "rs \<noteq> [] \<longrightarrow> fst (last rs) = (if ?k = length ?us then WR_OK else WR_INCOMPLETE)"
    using run_at [OF assms, of 0 "typ" caps] by auto
  have k: "?k \<le> length ?us" by (rule sent_le) simp
  have rem: "unat (mw_byt_rem (writer_at typ x ?k)) = wsum ?us - wsum (take ?k ?us)"
    by (rule rem_at [OF assms(2)])
  have "mw_byt_rem (writer_at typ x ?k) = 0 \<longleftrightarrow> ?k = length ?us"
    unfolding unat_eq_0 [symmetric] rem using wsum_take_all [OF pieces_nonempty k] wsum_take_le [of ?k ?us]
    by (metis diff_is_0_eq le_antisym order_refl)
  moreover have "wsum ?us - (wsum ?us - wsum (take ?k ?us)) = wsum (take ?k ?us)"
    using wsum_take_le [of ?k ?us] by simp
  ultimately show ?thesis
    using rs new_at [OF assms(1)] by (auto simp: rem take_concat)
qed

lemma run_complete:
  assumes "ok x" "small x"
    and "\<And>cap u. cap \<in> set caps \<Longrightarrow> u \<in> set (pieces typ x) \<Longrightarrow> length u \<le> cap"
    and "length (pieces typ x) \<le> length caps"
  shows "\<exists>w rs w'. mw_new wsz typ x = Ret w \<and> mw_run wr caps w = Ret (rs, w') \<and>
    concat (map snd rs) = concat (pieces typ x) \<and> fst (last rs) = WR_OK"
proof -
  have "sent (pieces typ x) 0 caps = length (pieces typ x)"
    using assms(3,4) by (intro sent_all) auto
  moreover have "caps \<noteq> []"
    using assms(4) by (auto simp: pieces_def)
  ultimately show ?thesis
    using run_at [OF assms(1,2), of 0 "typ" caps] new_at [OF assms(1)] by fastforce
qed

end

interpretation kdb: wire_object wireSz kwrite units kwf
  by unfold_locales (simp_all add: wireSz_enc kwrite_emit units_nonempty)

section \<open>Sending a message\<close>

text \<open>C12. Whatever the sizes of the buffers a caller offers, the writer never fails, no call
  stores more than its buffer holds, the bytes stored so far are a prefix of the one message
  (header, length, wire image), as long as \<open>bytesRemaining()\<close> says, and the last result is
  \<open>WR_OK\<close> exactly when nothing remains.\<close>

theorem writer_sends_prefix:
  assumes "kwf x" "SZ_MSG_HDR + length (enc x) < 2 ^ 63"
  shows "\<exists>w rs w'. mw_new wireSz typ x = Ret w \<and> mw_run kwrite caps w = Ret (rs, w') \<and>
    unat (mw_byt_rem w') \<le> SZ_MSG_HDR + length (enc x) \<and>
    concat (map snd rs) = take (SZ_MSG_HDR + length (enc x) - unat (mw_byt_rem w'))
      (msg_hdr typ (SZ_MSG_HDR + length (enc x)) @ enc x) \<and>
    list_all2 (\<lambda>r cap. length (snd r) \<le> cap) rs caps \<and>
    (rs \<noteq> [] \<longrightarrow> fst (last rs) = (if mw_byt_rem w' = 0 then WR_OK else WR_INCOMPLETE))"
  using kdb.run_prefix [OF assms(1), of "typ" caps] assms(2)
  by (simp add: kdb.small_def kdb.pieces_def enc_def wsum_def)

text \<open>C21. Sending ends: when every buffer has room for the longest piece, as many calls as the
  message has pieces send all of it, and the last call reports \<open>WR_OK\<close>.\<close>

theorem writer_completes:
  assumes "kwf x" "SZ_MSG_HDR + length (enc x) < 2 ^ 63"
    and "\<forall>cap \<in> set caps. SZ_MSG_HDR \<le> cap \<and> (\<forall>u \<in> set (units x). length u \<le> cap)"
    and "length (units x) < length caps"
  shows "\<exists>w rs w'. mw_new wireSz typ x = Ret w \<and> mw_run kwrite caps w = Ret (rs, w') \<and>
    concat (map snd rs) = msg_hdr typ (SZ_MSG_HDR + length (enc x)) @ enc x \<and> fst (last rs) = WR_OK"
proof -
  have "length u \<le> cap" if "cap \<in> set caps" "u \<in> set (kdb.pieces typ x)" for cap u
    using that assms(3) by (auto simp: kdb.pieces_def)
  moreover have "kdb.small x" "length (kdb.pieces typ x) \<le> length caps"
    using assms(2,4) by (simp_all add: kdb.small_def kdb.pieces_def enc_def wsum_def)
  ultimately show ?thesis
    using kdb.run_complete [OF assms(1), of caps "typ"]
    by (simp add: kdb.pieces_def enc_def wsum_def)
qed

theorem writer_sends_prefix_witness:
  "\<exists>w rs w'. mw_new wireSz SYNC sample_table = Ret w \<and> mw_run kwrite [10, 7, 30] w = Ret (rs, w') \<and>
    concat (map snd rs) = take (SZ_MSG_HDR + length (enc sample_table) - unat (mw_byt_rem w'))
      (msg_hdr SYNC (SZ_MSG_HDR + length (enc sample_table)) @ enc sample_table)"
  using writer_sends_prefix [of sample_table SYNC "[10, 7, 30]"]
  by (auto simp: enc_def sample_table_units)

theorem writer_completes_witness:
  "\<exists>w rs w'. mw_new wireSz SYNC sample_table = Ret w \<and>
    mw_run kwrite [8, 8, 8, 8, 8, 8, 8, 8, 8] w = Ret (rs, w') \<and>
    concat (map snd rs) = msg_hdr SYNC (SZ_MSG_HDR + length (enc sample_table)) @ enc sample_table"
  using writer_completes [of sample_table "[8, 8, 8, 8, 8, 8, 8, 8, 8]" SYNC]
  by (auto simp: enc_def sample_table_units)

end
