(* ===== verification/Kdb_Message.thy ===== *)
theory Kdb_Message
  imports Kdb_Resume Kdb_Inflate Kdb_Writer
begin

text \<open>
  \<open>KdbIpcMessageReader\<close> of \<^verbatim>\<open>ipc++/src/KdbType.C\<close>: one message, compressed or not, read through
  any number of calls. A caller presents in each call the bytes that the calls before have not
  consumed, followed by those that have arrived since. \<open>alloc\<close> says which allocations
  \<open>operator new[]\<close> grants.
\<close>

section \<open>The reader\<close>

record msg_reader =
  mr_msg_typ :: u8
  mr_ipc_len :: u64
  mr_msg_len :: u64
  mr_byt_usd :: u64
  mr_byt_dez :: u64
  mr_compressed :: bool
  mr_msg :: "kobj option"
  mr_inflater :: "inflater option"

record read_msg_result =
  rr_result :: ReadResult
  rr_msg_typ :: u8
  rr_message :: "kobj option"

text \<open>A new reader. The constructor leaves \<open>m_msg_typ\<close> and \<open>m_compressed\<close> unset; both are set by the
  header before they are used.\<close>

definition mr_new :: msg_reader where
  "mr_new = \<lparr>mr_msg_typ = 0, mr_ipc_len = 0, mr_msg_len = 0, mr_byt_usd = 0, mr_byt_dez = 0,
     mr_compressed = False, mr_msg = None, mr_inflater = None\<rparr>"

definition mr_reset :: "msg_reader \<Rightarrow> msg_reader" where
  "mr_reset r = r\<lparr>mr_ipc_len := 0, mr_msg_len := 0, mr_byt_usd := 0, mr_byt_dez := 0,
     mr_compressed := False, mr_msg := None, mr_inflater := None\<rparr>"

text \<open>An \<open>int32_t\<close> read into a \<open>uint64_t\<close>.\<close>

definition rd_i32 :: "rbuf \<Rightarrow> u64 \<times> rbuf" where
  "rd_i32 b = (let (bs, b1) = rb_read SZ_INT b in (word_of_int (sint (of_mem bs :: u32)), b1))"

definition readMsgHdr ::
  "(u64 \<Rightarrow> bool) \<Rightarrow> msg_reader \<Rightarrow> rbuf \<Rightarrow> read_msg_result \<Rightarrow>
   bool \<times> msg_reader \<times> rbuf \<times> read_msg_result" where
  "readMsgHdr alloc r buf res =
     (if mr_ipc_len r = 0
      then let pos = rb_off buf
           in if rb_remaining buf < 8 then (False, r, buf, res\<lparr>rr_result := RD_INCOMPLETE\<rparr>)
              else let (end, b1) = rb_read SZ_BYTE buf
                   in if hd end \<noteq> 1 then (False, r, b1, res\<lparr>rr_result := RD_ERR_IPC\<rparr>)
                      else let (mt, b2) = rb_read SZ_BYTE b1;
                               (zip, b3) = rb_read SZ_BYTE b2;
                               (_, b4) = rb_read SZ_BYTE b3;
                               (len, b5) = rd_i32 b4;
                               r1 = r\<lparr>mr_msg_typ := hd mt, mr_compressed := hd zip = 1, mr_ipc_len := len\<rparr>;
                               res1 = res\<lparr>rr_msg_typ := hd mt\<rparr>
                           in if mr_compressed r1
                              then if \<not> rb_canRead b5 SZ_INT
                                   then (False, r1\<lparr>mr_ipc_len := 0\<rparr>, b5, res1\<lparr>rr_result := RD_INCOMPLETE\<rparr>)
                                   else let (mlen, b6) = rd_i32 b5; r2 = r1\<lparr>mr_msg_len := mlen\<rparr>
                                        in if \<not> alloc (mlen - 8)
                                           then (False, r2, b6, res1\<lparr>rr_result := RD_ERR_ALLOC\<rparr>)
                                           else (True, r2\<lparr>mr_inflater := Some (dz_new len mlen (unat (mlen - 8))),
                                                    mr_byt_usd := word_of_nat (rb_off b6 - pos), mr_byt_dez := 0\<rparr>,
                                                 b6, res1)
                              else (True, r1\<lparr>mr_msg_len := len, mr_byt_usd := word_of_nat (rb_off b5 - pos),
                                             mr_byt_dez := 0\<rparr>, b5, res1)
      else let b1 = rb_ffwd SZ_MSG_HDR buf;
               b2 = (if mr_compressed r then rb_ffwd SZ_INT b1 else b1)
           in (True, r, b2, res))"

definition readMsgData1 ::
  "msg_reader \<Rightarrow> rbuf \<Rightarrow> read_msg_result \<Rightarrow> (bool \<times> msg_reader \<times> rbuf \<times> read_msg_result) outcome" where
  "readMsgData1 r buf res =
     (let go = (\<lambda>m b. obind (kread m b)
              (\<lambda>(rr, m1, b1). Ret
                 (if rr \<noteq> RD_OK then (False, r\<lparr>mr_msg := Some m1\<rparr>, b1, res\<lparr>rr_result := rr\<rparr>)
                  else (True, r\<lparr>mr_msg := None\<rparr>, b1, res\<lparr>rr_result := RD_OK, rr_message := Some m1\<rparr>))))
      in case mr_msg r of
           None \<Rightarrow> obind (new_local buf)
             (\<lambda>(rr, obj, b1).
                if rr \<noteq> RD_OK then Ret (False, r, b1, res\<lparr>rr_result := RD_INCOMPLETE\<rparr>)
                else obind (deref obj) (\<lambda>m. go m b1))
         | Some m \<Rightarrow> go m buf)"

definition readMsgData ::
  "msg_reader \<Rightarrow> rbuf \<Rightarrow> read_msg_result \<Rightarrow> (bool \<times> msg_reader \<times> rbuf \<times> read_msg_result) outcome" where
  "readMsgData r buf res =
     obind (readMsgData1 r buf res)
       (\<lambda>(complete, r1, b1, res1).
          Ret (complete, r1\<lparr>mr_byt_dez := mr_byt_dez r1 + word_of_nat (rb_off b1 - rb_off buf)\<rparr>, b1, res1))"

text \<open>\<open>readMsg(src, len, result)\<close>.\<close>

definition readMsg ::
  "(u64 \<Rightarrow> bool) \<Rightarrow> bytes \<Rightarrow> nat \<Rightarrow> msg_reader \<Rightarrow> read_msg_result \<Rightarrow>
   (bool \<times> msg_reader \<times> read_msg_result) outcome" where
  "readMsg alloc src len r res =
     (let (ok, r1, b, res1) = readMsgHdr alloc r (rb_new src len (- sint (mr_byt_usd r))) res
      in if \<not> ok then Ret (False, r1, res1)
         else let src_pos = rb_off b
              in if \<not> mr_compressed r1
                 then obind (readMsgData r1 b res1)
                        (\<lambda>(c, r2, b2, res2).
                           Ret (c, r2\<lparr>mr_byt_usd := mr_byt_usd r2 + word_of_nat (rb_off b2 - src_pos)\<rparr>, res2))
                 else obind (deref (mr_inflater r1)) (\<lambda>z.
                      obind (uncompress z b) (\<lambda>(_, z1, b1).
                      obind (readMsgData (r1\<lparr>mr_inflater := Some z1\<rparr>) (getReadBuf z1 (sint (mr_byt_dez r1))) res1)
                        (\<lambda>(c, r2, _, res2).
                           Ret (c, r2\<lparr>mr_byt_usd := mr_byt_usd r2 + word_of_nat (rb_off b1 - src_pos)\<rparr>, res2)))))"

definition getIpcLength :: "msg_reader \<Rightarrow> u64" where
  "getIpcLength r = mr_ipc_len r"

definition getInputBytesConsumed :: "msg_reader \<Rightarrow> u64" where
  "getInputBytesConsumed r = mr_byt_usd r"

definition getInputBytesRemaining :: "msg_reader \<Rightarrow> u64" where
  "getInputBytesRemaining r = mr_ipc_len r - mr_byt_usd r"

definition getMsgBytesDeserialized :: "msg_reader \<Rightarrow> u64" where
  "getMsgBytesDeserialized r = mr_byt_dez r"

definition no_result :: read_msg_result where
  "no_result = \<lparr>rr_result = RD_UNSET, rr_msg_typ = 0, rr_message = None\<rparr>"

section \<open>Uncompressed messages\<close>

text \<open>\<open>message typ x\<close> is what the writer sends; \<open>held x m c\<close>: \<open>m_msg\<close> when \<open>c\<close> bytes of the image
  of \<open>x\<close> are consumed; \<open>reader_at typ x k r\<close>: the reader when \<open>k\<close> bytes of the message are.\<close>

definition message :: "KdbMsgType \<Rightarrow> kobj \<Rightarrow> bytes" where
  "message typ x = msg_hdr typ (8 + length (enc x)) @ enc x"

definition held :: "kobj \<Rightarrow> kobj option \<Rightarrow> nat \<Rightarrow> bool" where
  "held x m c \<longleftrightarrow> (m = None \<and> c = 0) \<or> (\<exists>p. m = Some p \<and> part x p c)"

definition reader_at :: "KdbMsgType \<Rightarrow> kobj \<Rightarrow> nat \<Rightarrow> msg_reader \<Rightarrow> bool" where
  "reader_at typ x k r \<longleftrightarrow>
     (k = 0 \<and> mr_ipc_len r = 0 \<and> mr_byt_usd r = 0 \<and> mr_msg r = None) \<or>
     (8 \<le> k \<and> mr_ipc_len r = word_of_nat (8 + length (enc x)) \<and> mr_byt_usd r = word_of_nat k \<and>
      mr_byt_dez r = word_of_nat (k - 8) \<and> \<not> mr_compressed r \<and> mr_msg_typ r = msg_type_i8 typ \<and>
      held x (mr_msg r) (k - 8))"

lemma readMsgData1_sim:
  assumes x: "kcan x" and h: "held x (mr_msg r) c" and b: "stands 0 c b" "feeds (drop c (enc x) @ rest) b"
  shows "if length (enc x) - c \<le> rb_remaining b
    then readMsgData1 r b res = Ret (True, r\<lparr>mr_msg := None\<rparr>, adv c (length (enc x)) b,
           res\<lparr>rr_result := RD_OK, rr_message := Some x\<rparr>)
    else \<exists>m c'. readMsgData1 r b res = Ret (False, r\<lparr>mr_msg := m\<rparr>, adv c c' b, res\<lparr>rr_result := RD_INCOMPLETE\<rparr>) \<and>
           held x m c' \<and> c \<le> c' \<and> c' - c \<le> rb_remaining b"
proof -
  note sim = kcan_simulates(1) [OF x]
  from h consider (none) "mr_msg r = None" "c = 0" | (some) p where "mr_msg r = Some p" "part x p c"
    by (auto simp: held_def)
  then show ?thesis
  proof cases
    case none
    then have csr: "0 \<le> rb_csr b" and f: "feeds (enc x @ rest) b" using b by (auto simp: stands_def)
    note na = new_active_fresh [OF x f]
    show ?thesis
    proof (cases "hsize x \<le> rb_remaining b")
      case True
      have "reads (part x) x (length (enc x)) 0 b (kread (fresh x) (rb_adj (hsize x) b))"
        by (rule reads_fresh [OF x sim f csr True])
      then show ?thesis
        using none csr True na
        by (auto simp: readMsgData1_def new_local_def rb_active_def reads_def held_def split: if_splits)
    next
      case False
      then have "\<not> length (enc x) - c \<le> rb_remaining b" using hsize_le [OF x] none by simp
      moreover have "readMsgData1 r b res = Ret (False, r\<lparr>mr_msg := None\<rparr>, adv c 0 b, res\<lparr>rr_result := RD_INCOMPLETE\<rparr>)"
        using none csr False na by (simp add: readMsgData1_def new_local_def rb_active_def)
      ultimately show ?thesis using none by (auto simp: held_def)
    qed
  next
    case (some p)
    have "reads (part x) x (length (enc x)) c b (kread p b)"
      by (rule reads_elem [OF x sim some(2) b])
    then show ?thesis
      using some by (auto simp: readMsgData1_def reads_def held_def split: if_splits)
  qed
qed

lemma rd_i32_feeds:
  assumes "feeds (le SZ_INT n @ s) b" "4 \<le> rb_remaining b" "n < 2 ^ 31"
  shows "rd_i32 b = (word_of_nat n, rb_adj 4 b)"
proof -
  have "rb_read SZ_INT b = (le SZ_INT n, rb_move 4 4 b)"
    using feeds_read [OF assms(1)] assms(2) by simp
  moreover have "sint (of_mem (le SZ_INT n) :: u32) = int n"
    using of_mem_le_4 [OF assms(3)] by simp
  ultimately show ?thesis by (simp only: rd_i32_def Let_def prod.case rb_adj_def of_int_of_nat_eq of_nat_numeral)
qed

lemma readMsgHdr_first:
  assumes r: "mr_ipc_len r = 0" and f: "feeds (msg_hdr t n @ s) b" and n: "n < 2 ^ 31" and off: "rb_off b = 0"
  shows "readMsgHdr alloc r b res =
    (if 8 \<le> rb_remaining b
     then (True, r\<lparr>mr_msg_typ := msg_type_i8 t, mr_compressed := False, mr_ipc_len := word_of_nat n,
            mr_msg_len := word_of_nat n, mr_byt_usd := 8, mr_byt_dez := 0\<rparr>, rb_adj 8 b, res\<lparr>rr_msg_typ := msg_type_i8 t\<rparr>)
     else (False, r, b, res\<lparr>rr_result := RD_INCOMPLETE\<rparr>))"
proof (cases "8 \<le> rb_remaining b")
  case True
  have f0: "feeds ([1] @ [msg_type_i8 t] @ [0] @ [0] @ le SZ_INT n @ s) b"
    using f by (simp add: msg_hdr_def)
  have f1: "feeds ([msg_type_i8 t] @ [0] @ [0] @ le SZ_INT n @ s) (rb_move 1 1 b)"
    using feeds_move' [OF f0, of 1 1] True by simp
  have f2: "feeds ([0] @ [0] @ le SZ_INT n @ s) (rb_move 2 2 b)"
    using feeds_move' [OF f1, of 1 1] True by (simp add: numeral_2_eq_2 [symmetric])
  have f3: "feeds ([0] @ le SZ_INT n @ s) (rb_move 3 3 b)"
    using feeds_move' [OF f2, of 1 1] True by simp
  have f4: "feeds (le SZ_INT n @ s) (rb_move 4 4 b)"
    using feeds_move' [OF f3, of 1 1] True by simp
  have "rb_read SZ_BYTE b = ([1], rb_move 1 1 b)" "rb_read SZ_BYTE (rb_move 1 1 b) = ([msg_type_i8 t], rb_move 2 2 b)"
    "rb_read SZ_BYTE (rb_move 2 2 b) = ([0], rb_move 3 3 b)" "rb_read SZ_BYTE (rb_move 3 3 b) = ([0], rb_move 4 4 b)"
    using True feeds_read [OF f0, of 1] feeds_read [OF f1, of 1] feeds_read [OF f2, of 1] feeds_read [OF f3, of 1]
    by (simp_all add: numeral_2_eq_2 [symmetric])
  moreover have "rd_i32 (rb_move 4 4 b) = (word_of_nat n, rb_move 8 8 b)"
    using rd_i32_feeds [OF f4 _ n] True by (simp add: rb_adj_def)
  ultimately show ?thesis
    using True r off by (simp add: readMsgHdr_def rb_adj_def)
next
  case False
  then show ?thesis using r by (simp add: readMsgHdr_def)
qed

lemma drop_message:
  "8 \<le> k \<Longrightarrow> drop k (message typ x) = drop (k - 8) (enc x)"
  using drop_hdr [of "msg_hdr typ (8 + length (enc x))" 8 "k - 8" "enc x"] by (simp add: message_def)

lemma length_message [simp]: "length (message typ x) = 8 + length (enc x)"
  by (simp add: message_def)

lemma sint_of_nat_small: "n < 2 ^ 63 \<Longrightarrow> sint (word_of_nat n :: u64) = int n"
  by (simp add: signed_of_nat signed_take_bit_int_eq_self)

text \<open>What a call does, from a reader that has consumed \<open>k\<close> bytes, with \<open>m\<close> more at hand.\<close>

definition step_ok :: "KdbMsgType \<Rightarrow> kobj \<Rightarrow> nat \<Rightarrow> nat \<Rightarrow> (bool \<times> msg_reader \<times> read_msg_result) outcome \<Rightarrow> bool" where
  "step_ok typ x k m out \<longleftrightarrow>
     (if 8 + length (enc x) - k \<le> m
      then \<exists>r'. out = Ret (True, r', \<lparr>rr_result = RD_OK, rr_msg_typ = msg_type_i8 typ, rr_message = Some x\<rparr>) \<and>
             mr_byt_usd r' = word_of_nat (8 + length (enc x))
      else \<exists>r' res' k'. out = Ret (False, r', res') \<and> reader_at typ x k' r' \<and>
             (0 < k' \<longrightarrow> rr_msg_typ res' = msg_type_i8 typ) \<and> rr_result res' = RD_INCOMPLETE \<and>
             k \<le> k' \<and> k' - k \<le> m)"

lemma step_ok_hdr:
  assumes "step_ok typ x 8 m out"
  shows "step_ok typ x 0 (8 + m) out"
proof (cases "length (enc x) \<le> m")
  case True
  then show ?thesis using assms by (simp add: step_ok_def)
next
  case False
  then obtain r' res' k' where "out = Ret (False, r', res')" "reader_at typ x k' r'"
    "0 < k' \<longrightarrow> rr_msg_typ res' = msg_type_i8 typ" "rr_result res' = RD_INCOMPLETE" "8 \<le> k'" "k' - 8 \<le> m"
    using assms by (auto simp: step_ok_def)
  moreover from this have "k' \<le> 8 + m" by simp
  ultimately show ?thesis using False by (simp add: step_ok_def) blast
qed

text \<open>The data part of \<open>readMsg\<close>, after the header.\<close>

lemma readMsg_data:
  assumes x: "kcan x" and small: "8 + length (enc x) < 2 ^ 31"
    and r: "mr_ipc_len r = word_of_nat (8 + length (enc x))" "mr_byt_usd r = word_of_nat (8 + c)"
      "mr_byt_dez r = word_of_nat c" "\<not> mr_compressed r" "mr_msg_typ r = msg_type_i8 typ" "held x (mr_msg r) c"
    and res: "rr_msg_typ res = msg_type_i8 typ"
    and b: "stands 0 c b" "feeds (drop c (enc x) @ rest) b" and c: "c \<le> length (enc x)"
    and pos: "rb_off b = src_pos"
  shows "step_ok typ x (8 + c) (rb_remaining b) (obind (readMsgData r b res) (\<lambda>(d, r2, b2, res2).
           Ret (d, r2\<lparr>mr_byt_usd := mr_byt_usd r2 + word_of_nat (rb_off b2 - src_pos)\<rparr>, res2)))"
proof (cases "length (enc x) - c \<le> rb_remaining b")
  case True
  then have "readMsgData1 r b res = Ret (True, r\<lparr>mr_msg := None\<rparr>, adv c (length (enc x)) b,
      res\<lparr>rr_result := RD_OK, rr_message := Some x\<rparr>)"
    using readMsgData1_sim [OF x r(6) b] by simp
  moreover have "rb_off (adv c (length (enc x)) b) - src_pos = length (enc x) - c"
    by (simp add: adv_def pos)
  moreover have "(word_of_nat (8 + c) + word_of_nat (length (enc x) - c) :: u64) = word_of_nat (8 + length (enc x))"
    using c by (simp add: of_nat_diff)
  moreover have "res\<lparr>rr_result := RD_OK, rr_message := Some x\<rparr> =
      \<lparr>rr_result = RD_OK, rr_msg_typ = msg_type_i8 typ, rr_message = Some x\<rparr>"
    using res by (cases res) simp
  ultimately show ?thesis using True r by (simp add: readMsgData_def step_ok_def)
next
  case False
  then obtain m c' where m: "readMsgData1 r b res = Ret (False, r\<lparr>mr_msg := m\<rparr>, adv c c' b, res\<lparr>rr_result := RD_INCOMPLETE\<rparr>)"
    "held x m c'" "c \<le> c'" "c' - c \<le> rb_remaining b"
    using readMsgData1_sim [OF x r(6) b, of res] by auto
  have o: "rb_off (adv c c' b) - src_pos = c' - c" "rb_off (adv c c' b) - rb_off b = c' - c"
    by (simp_all add: adv_def pos)
  have w: "(word_of_nat (8 + c) + word_of_nat (c' - c) :: u64) = word_of_nat (8 + c')"
    "(word_of_nat c + word_of_nat (c' - c) :: u64) = word_of_nat c'"
    using m(3) by (simp_all add: of_nat_diff)
  show ?thesis
    using False m r w o res by (auto simp: readMsgData_def reader_at_def step_ok_def intro!: exI [of _ "8 + c'"])
qed

lemma reader_at_0: "reader_at typ x 0 r \<longleftrightarrow> mr_ipc_len r = 0 \<and> mr_byt_usd r = 0 \<and> mr_msg r = None"
  by (simp add: reader_at_def)

lemma feeds_rb_new: "src = take (length src) s \<Longrightarrow> feeds s (rb_new src (length src) z)"
  by (simp add: feeds_def rb_wf_def rb_avail_def rb_remaining_def rb_new_def)

lemma readMsgHdr_again:
  "mr_ipc_len r \<noteq> 0 \<Longrightarrow> \<not> mr_compressed r \<Longrightarrow> readMsgHdr alloc r b res = (True, r, rb_ffwd SZ_MSG_HDR b, res)"
  by (simp add: readMsgHdr_def)

lemma rb_new_sel [simp]:
  "rb_src (rb_new s n z) = s" "rb_off (rb_new s n z) = 0" "rb_csr (rb_new s n z) = z" "rb_remaining (rb_new s n z) = n"
  by (simp_all add: rb_new_def rb_remaining_def)

lemma rb_adj_sel [simp]:
  "rb_src (rb_adj n b) = rb_src b" "rb_off (rb_adj n b) = rb_off b + n" "rb_csr (rb_adj n b) = rb_csr b + int n"
  "rb_remaining (rb_adj n b) = rb_remaining b - n"
  by (simp_all add: rb_adj_def rb_move_def rb_remaining_def)

lemma rb_ffwd_sel [simp]:
  "rb_off (rb_ffwd n b) = rb_off b" "rb_csr (rb_ffwd n b) = rb_csr b + int n"
  "rb_remaining (rb_ffwd n b) = rb_remaining b"
  by (simp_all add: rb_ffwd_def rb_move_def rb_remaining_def)

text \<open>One call.\<close>

lemma readMsg_step:
  assumes x: "kcan x" and small: "8 + length (enc x) < 2 ^ 31"
    and r: "reader_at typ x k r" "0 < k \<longrightarrow> rr_msg_typ res = msg_type_i8 typ" and k: "k \<le> 8 + length (enc x)"
    and src: "src = take (length src) (drop k (message typ x) @ rest)"
  shows "step_ok typ x k (length src) (readMsg alloc src (length src) r res)"
proof -
  let ?b = "rb_new src (length src) (- sint (mr_byt_usd r))"
  let ?go = "\<lambda>r1 b1 res1 pos. obind (readMsgData r1 b1 res1) (\<lambda>(d, r2, b2, res2).
    Ret (d, r2\<lparr>mr_byt_usd := mr_byt_usd r2 + word_of_nat (rb_off b2 - pos)\<rparr>, res2))"
  have f: "feeds (drop k (message typ x) @ rest) ?b" using src by (rule feeds_rb_new)
  from r(1) consider (first) "k = 0" "mr_ipc_len r = 0" "mr_byt_usd r = 0" "mr_msg r = None"
    | (later) "8 \<le> k" "mr_ipc_len r = word_of_nat (8 + length (enc x))" "mr_byt_usd r = word_of_nat k"
      "mr_byt_dez r = word_of_nat (k - 8)" "\<not> mr_compressed r" "mr_msg_typ r = msg_type_i8 typ"
      "held x (mr_msg r) (k - 8)"
    by (auto simp: reader_at_def)
  then show ?thesis
  proof cases
    case first
    have f0: "feeds (msg_hdr typ (8 + length (enc x)) @ enc x @ rest) ?b"
      using f first by (simp add: message_def)
    show ?thesis
    proof (cases "8 \<le> length src")
      case True
      let ?r1 = "r\<lparr>mr_msg_typ := msg_type_i8 typ, mr_compressed := False, mr_ipc_len := word_of_nat (8 + length (enc x)),
        mr_msg_len := word_of_nat (8 + length (enc x)), mr_byt_usd := 8, mr_byt_dez := 0\<rparr>"
      let ?res1 = "res\<lparr>rr_msg_typ := msg_type_i8 typ\<rparr>"
      have go: "readMsg alloc src (length src) r res = ?go ?r1 (rb_adj 8 ?b) ?res1 8"
        using readMsgHdr_first [OF first(2) f0 small] True by (simp add: readMsg_def)
      have "step_ok typ x (8 + 0) (rb_remaining (rb_adj 8 ?b)) (?go ?r1 (rb_adj 8 ?b) ?res1 8)"
        by (rule readMsg_data [OF x small, of ?r1 0 "typ" ?res1 "rb_adj 8 ?b" rest])
          (use first feeds_move' [OF f0, of 8] True in \<open>simp_all add: held_def stands_def rb_adj_def\<close>)
      then show ?thesis
        using step_ok_hdr [of "typ" x "length src - 8"] True first(1) unfolding go by simp
    next
      case False
      have "readMsg alloc src (length src) r res = Ret (False, r, res\<lparr>rr_result := RD_INCOMPLETE\<rparr>)"
        using readMsgHdr_first [OF first(2) f0 small] False by (simp add: readMsg_def)
      then show ?thesis using False first r by (auto simp: step_ok_def intro!: exI [of _ 0])
    qed
  next
    case later
    have small': "k < 2 ^ 63" using k small by simp
    have "(word_of_nat (8 + length (enc x)) :: u64) \<noteq> word_of_nat 0"
      by (subst word_of_nat_eq_iff) (use small in \<open>simp add: take_bit_nat_eq_self\<close>)
    then have go: "readMsg alloc src (length src) r res = ?go r (rb_ffwd 8 ?b) res 0"
      using later readMsgHdr_again [of r alloc ?b res] by (simp add: readMsg_def)
    have "step_ok typ x (8 + (k - 8)) (rb_remaining (rb_ffwd 8 ?b)) (?go r (rb_ffwd 8 ?b) res 0)"
      by (rule readMsg_data [OF x small, of r "k - 8" "typ" res "rb_ffwd 8 ?b" rest])
        (use later f k r sint_of_nat_small [OF small'] in \<open>simp_all add: drop_message stands_def\<close>)
    then show ?thesis using later(1) unfolding go by simp
  qed
qed


section \<open>A message over many calls\<close>

text \<open>The loop of a caller: each call presents the bytes not consumed yet, then those that have just
  arrived; what the call consumed, by the difference of \<open>getInputBytesConsumed()\<close>, is dropped. It
  returns whether the message is complete, the bytes still pending and the frags not yet fetched.\<close>

fun mr_feed ::
  "(u64 \<Rightarrow> bool) \<Rightarrow> bytes list \<Rightarrow> bytes \<Rightarrow> msg_reader \<Rightarrow> read_msg_result \<Rightarrow>
   (bool \<times> bytes \<times> bytes list \<times> msg_reader \<times> read_msg_result) outcome" where
  "mr_feed alloc [] pend r res = Ret (False, pend, [], r, res)"
| "mr_feed alloc (c # cs) pend r res =
     obind (readMsg alloc (pend @ c) (length (pend @ c)) r res)
       (\<lambda>(fin, r1, res1).
          let pend1 = drop (unat (getInputBytesConsumed r1 - getInputBytesConsumed r)) (pend @ c)
          in if fin then Ret (True, pend1, cs, r1, res1) else mr_feed alloc cs pend1 r1 res1)"

lemma reader_at_usd: "reader_at typ x k r \<Longrightarrow> mr_byt_usd r = word_of_nat k"
  by (auto simp: reader_at_def)

lemma unat_diff_of_nat:
  "k \<le> k' \<Longrightarrow> k' < 2 ^ 64 \<Longrightarrow> unat (word_of_nat k' - word_of_nat k :: u64) = k' - k"
  by (simp add: unat_of_nat take_bit_nat_eq_self flip: of_nat_diff)

lemma mr_feed_at:
  assumes x: "kcan x" and small: "8 + length (enc x) < 2 ^ 31"
    and r: "reader_at typ x k r" "0 < k \<longrightarrow> rr_msg_typ res = msg_type_i8 typ"
    and k: "length pend < 8 + length (enc x) - k"
    and str: "pend @ concat frags = drop k (message typ x) @ rest"
  shows "\<exists>pend' cs r'. mr_feed alloc frags pend r res =
      Ret (True, pend', cs, r', \<lparr>rr_result = RD_OK, rr_msg_typ = msg_type_i8 typ, rr_message = Some x\<rparr>) \<and>
      pend' @ concat cs = rest"
  using r k str
proof (induction frags arbitrary: k r res pend)
  case Nil
  then have "length (pend @ concat []) = 8 + length (enc x) - k + length rest" by simp
  then show ?case using Nil by simp
next
  case (Cons c cs)
  let ?M = "8 + length (enc x)"
  let ?src = "pend @ c"
  have str: "?src @ concat cs = drop k (message typ x) @ rest" using Cons.prems(4) by simp
  then have src: "?src = take (length ?src) (drop k (message typ x) @ rest)"
    by (metis append_eq_conv_conj)
  have st: "step_ok typ x k (length ?src) (readMsg alloc ?src (length ?src) r res)"
    by (rule readMsg_step [OF x small Cons.prems(1,2) _ src]) (use Cons.prems(3) in simp)
  have usd: "mr_byt_usd r = word_of_nat k" by (rule reader_at_usd [OF Cons.prems(1)])
  have u64: "?M < 2 ^ 64" using small by simp
  show ?case
  proof (cases "?M - k \<le> length ?src")
    case True
    then obtain r' where r': "readMsg alloc ?src (length ?src) r res =
        Ret (True, r', \<lparr>rr_result = RD_OK, rr_msg_typ = msg_type_i8 typ, rr_message = Some x\<rparr>)"
      "mr_byt_usd r' = word_of_nat ?M"
      using st by (auto simp: step_ok_def)
    have n: "unat (getInputBytesConsumed r' - getInputBytesConsumed r) = ?M - k"
      using usd r'(2) Cons.prems(3) u64
      by (simp add: getInputBytesConsumed_def unat_diff_of_nat del: of_nat_add)
    have "drop (?M - k) (?src @ concat cs) = drop (?M - k) ?src @ concat cs"
      using True by (simp del: append_assoc)
    moreover have "drop (?M - k) (drop k (message typ x) @ rest) = rest"
      by simp
    ultimately show ?thesis
      using r' n str by (simp del: append_assoc length_append)
  next
    case False
    then obtain r' res' k' where r': "readMsg alloc ?src (length ?src) r res = Ret (False, r', res')"
      "reader_at typ x k' r'" "0 < k' \<longrightarrow> rr_msg_typ res' = msg_type_i8 typ" "k \<le> k'" "k' - k \<le> length ?src"
      using st by (auto simp: step_ok_def)
    have n: "unat (getInputBytesConsumed r' - getInputBytesConsumed r) = k' - k"
      using usd reader_at_usd [OF r'(2)] r'(4,5) False u64
      by (simp add: getInputBytesConsumed_def unat_diff_of_nat)
    have "drop (k' - k) ?src @ concat cs = drop (k' - k) (drop k (message typ x) @ rest)"
      using str r'(5) by (metis append_assoc drop_append diff_is_0_eq' drop0)
    also have "\<dots> = drop k' (message typ x) @ rest"
      using r'(4,5) False by simp
    finally have "drop (k' - k) ?src @ concat cs = drop k' (message typ x) @ rest" .
    moreover have "length (drop (k' - k) ?src) < ?M - k'" using False r'(4,5) by auto
    ultimately show ?thesis
      using Cons.IH [OF r'(2,3)] r'(1) n by (simp del: append_assoc drop_append)
  qed
qed

text \<open>C1. A message arrives whole however the stream is cut: if the fragments spell the message and
  then some more bytes, the reader completes, with \<open>RD_OK\<close>, the message type and the object that
  was sent, and has consumed exactly the message: what it has not is the rest of the stream.\<close>

theorem reader_completes:
  assumes "kcan x" "8 + length (enc x) < 2 ^ 31"
    and "concat frags = message typ x @ rest"
  shows "\<exists>pend cs r. mr_feed alloc frags [] mr_new res =
      Ret (True, pend, cs, r, \<lparr>rr_result = RD_OK, rr_msg_typ = msg_type_i8 typ, rr_message = Some x\<rparr>) \<and>
      pend @ concat cs = rest"
  by (rule mr_feed_at [OF assms(1,2), of _ 0]) (use assms(3) in \<open>simp_all add: reader_at_0 mr_new_def\<close>)

lemma mw_complete_bytes:
  assumes "kcan x" "8 + length (enc x) < 2 ^ 31"
    and "mw_new wireSz typ x = Ret w" "mw_run kwrite caps w = Ret (rs, w')" "mw_byt_rem w' = 0"
  shows "concat (map snd rs) = message typ x"
  using kdb.run_prefix [OF kcan_kwf(1) [OF assms(1)], of "typ" caps] assms
  by (auto simp: kdb.small_def kdb.pieces_def enc_def wsum_def message_def)

text \<open>C11. From writer to reader: when the writer has nothing left to send, the bytes it stored, cut
  at its own calls or in any other way, give a reader the object that was written.\<close>

theorem writer_reader:
  assumes "kcan x" "8 + length (enc x) < 2 ^ 31"
    and "mw_new wireSz typ x = Ret w" "mw_run kwrite caps w = Ret (rs, w')" "mw_byt_rem w' = 0"
    and "concat frags = concat (map snd rs)"
  shows "\<exists>cs r. mr_feed alloc frags [] mr_new res =
      Ret (True, [], cs, r, \<lparr>rr_result = RD_OK, rr_msg_typ = msg_type_i8 typ, rr_message = Some x\<rparr>) \<and>
      concat cs = []"
  using mr_feed_at [OF assms(1,2), of "typ" 0 mr_new res "[]" frags "[]" alloc] assms(6)
    mw_complete_bytes [OF assms(1-5)]
  by (force simp: reader_at_0 mr_new_def)


section \<open>Compressed messages\<close>

lemma readMsgHdr_fresh:
  assumes "mr_ipc_len r = 0" "readMsgHdr alloc r b res = (True, r1, b1, res1)"
  shows "mr_byt_dez r1 = 0 \<and> mr_msg r1 = mr_msg r"
  using assms by (auto simp: readMsgHdr_def Let_def split: if_splits prod.splits)

lemma readMsg_inflated:
  assumes "kcan x" "mr_ipc_len r = 0" "mr_byt_usd r = 0" "mr_msg r = None"
    and "readMsgHdr alloc r (rb_new src (length src) 0) res = (True, r1, b, res1)" "mr_compressed r1"
    and "mr_inflater r1 = Some z" "uncompress z b = Ret (n, z', b')" "dz_dst z' = enc x"
  shows "\<exists>r'. readMsg alloc src (length src) r res = Ret (True, r', res1\<lparr>rr_result := RD_OK, rr_message := Some x\<rparr>) \<and>
    mr_byt_usd r' = mr_byt_usd r1 + word_of_nat (rb_off b' - rb_off b)"
proof -
  let ?r = "r1\<lparr>mr_inflater := Some z'\<rparr>" and ?b = "getReadBuf z' 0"
  have r1: "mr_byt_dez r1 = 0" "mr_msg r1 = None"
    using readMsgHdr_fresh [OF assms(2,5)] assms(4) by simp_all
  have "feeds (drop 0 (enc x) @ []) ?b"
    unfolding getReadBuf_def by (rule feeds_rb_new) (simp add: assms(9))
  moreover have "stands 0 0 ?b" by (simp add: getReadBuf_def stands_def)
  moreover have "rb_remaining ?b = length (enc x)" by (simp add: getReadBuf_def assms(9))
  ultimately have "readMsgData1 ?r ?b res1 =
      Ret (True, ?r\<lparr>mr_msg := None\<rparr>, adv 0 (length (enc x)) ?b, res1\<lparr>rr_result := RD_OK, rr_message := Some x\<rparr>)"
    using readMsgData1_sim [OF assms(1), of ?r 0 ?b "[]" res1] r1 by (simp add: held_def)
  then show ?thesis
    using assms r1 by (simp add: readMsg_def readMsgData_def)
qed

text \<open>The same message in two parts is not read to the same object: \<open>getReadBuf(m_byt_dez)\<close> sets
  the cursor but leaves the offset 0, so the second call takes the first inflated bytes for those
  it still needs. Here a vector of bytes 10, 11, 12, whose last byte is in a block of its own,
  comes out as 10, 11, 4, with \<open>RD_OK\<close>.\<close>

definition zip_parts :: "bytes list" where
  "zip_parts = [[1, 1, 1, 0, 23, 0, 0, 0, 17, 0, 0, 0, 0, 4, 0, 3, 0, 0, 0, 10, 11], [0, 12]]"

definition byte_vector :: "bytes \<Rightarrow> kobj" where
  "byte_vector bs = KdbVector (KdbByteVector ATTR_NONE \<lparr>v_cap = length bs, v_vals = bs\<rparr>)"

definition fed :: "(bool \<times> bytes \<times> bytes list \<times> msg_reader \<times> read_msg_result) outcome \<Rightarrow> (ReadResult \<times> kobj option) option" where
  "fed out = (case out of Ret (_, _, _, _, res) \<Rightarrow> Some (rr_result res, rr_message res) | _ \<Rightarrow> None)"

theorem zip_message_split:
  "fed (mr_feed (\<lambda>_. True) [concat zip_parts] [] mr_new no_result) = Some (RD_OK, Some (byte_vector [10, 11, 12])) \<and>
   fed (mr_feed (\<lambda>_. True) zip_parts [] mr_new no_result) = Some (RD_OK, Some (byte_vector [10, 11, 4]))"
  by code_simp

lemma i32_u64_eq_0: "(word_of_int (sint (w :: u32)) :: u64) = 0 \<longleftrightarrow> w = 0"
proof
  assume "(word_of_int (sint w) :: u64) = 0"
  then have "sint (word_of_int (sint w) :: u64) = 0" by simp
  moreover have "sint (scast w :: u64) = sint w"
    by (rule sint_up_scast) (simp add: is_up)
  ultimately show "w = 0" by (intro signed_word_eqI) simp
qed simp

text \<open>After a refused allocation the bytes cannot be presented again: the header has been
  noted (\<open>m_ipc_len\<close> is set) but there is no decompressor, which the next call uses.\<close>

theorem alloc_refused_stuck:
  assumes "mr_ipc_len r = 0" "mr_byt_usd r = 0" "mr_inflater r = None"
    and "12 \<le> length src" "src ! 0 = 1" "src ! 2 = 1" "of_mem (take 4 (drop 4 src)) \<noteq> (0 :: u32)"
    and "\<forall>n. \<not> alloc n"
  shows "\<exists>r1 res1. readMsg alloc src (length src) r res = Ret (False, r1, res1) \<and> rr_result res1 = RD_ERR_ALLOC \<and>
    getInputBytesConsumed r1 = 0 \<and> readMsg alloc' src (length src) r1 res' = Undef"
proof -
  let ?n = "of_mem (take 4 (drop 4 src)) :: u32" and ?b = "rb_new src (length src) 0"
  let ?l = "word_of_int (sint ?n) :: u64"
  have n: "?l \<noteq> 0"
    using assms(7) by (metis i32_u64_eq_0)
  have "hd src = src ! 0"
    using assms(4) by (intro hd_conv_nth) auto
  moreover have "4 \<le> length src - 8" using assms(4) by arith
  ultimately have "\<exists>r1 b1 res1. readMsgHdr alloc r ?b res = (False, r1, b1, res1) \<and> rr_result res1 = RD_ERR_ALLOC \<and>
      mr_ipc_len r1 \<noteq> 0 \<and> mr_compressed r1 \<and> mr_inflater r1 = None \<and> mr_byt_usd r1 = 0"
    (is "\<exists>r1 b1 res1. ?refused r1 b1 res1")
    using assms n
    by (simp add: readMsgHdr_def rd_i32_def rb_read_def rb_peek_def hd_drop_conv_nth rb_canRead_def
      Let_def numeral_2_eq_2 [symmetric] del: One_nat_def)
  then obtain r1 b1 res1 where r1: "?refused r1 b1 res1" by blast
  have "readMsg alloc src (length src) r res = Ret (False, r1, res1)"
    using r1 assms(2) by (simp add: readMsg_def)
  moreover have "readMsgHdr alloc' r1 (rb_new src (length src) (- sint (mr_byt_usd r1))) res' =
      (True, r1, rb_ffwd 4 (rb_ffwd 8 ?b), res')"
    using r1 by (simp add: readMsgHdr_def)
  then have "readMsg alloc' src (length src) r1 res' = Undef"
    using r1 by (simp add: readMsg_def)
  ultimately show ?thesis
    using r1 by (simp add: getInputBytesConsumed_def)
qed

lemma sample_message_small: "8 + length (enc sample_table) < 2 ^ 31"
  by (simp add: sample_table_enc)

theorem reader_completes_witness:
  "\<exists>pend cs r. mr_feed (\<lambda>_. True) [take 11 (message SYNC sample_table), [], drop 11 (message SYNC sample_table) @ [7]] []
      mr_new no_result =
      Ret (True, pend, cs, r, \<lparr>rr_result = RD_OK, rr_msg_typ = msg_type_i8 SYNC, rr_message = Some sample_table\<rparr>) \<and>
      pend @ concat cs = [7]"
  by (rule reader_completes [OF sample_table_kcan sample_message_small]) simp

definition sample_byte :: kobj where
  "sample_byte = KdbAtom (KdbByteAtom 7)"

theorem writer_reader_witness:
  "\<exists>w rs w'. mw_new wireSz SYNC sample_byte = Ret w \<and> mw_run kwrite [9, 8, 3] w = Ret (rs, w') \<and>
    (\<exists>cs r. mr_feed (\<lambda>_. True) (map snd rs) [] mr_new no_result =
      Ret (True, [], cs, r, \<lparr>rr_result = RD_OK, rr_msg_typ = msg_type_i8 SYNC, rr_message = Some sample_byte\<rparr>) \<and>
      concat cs = [])"
proof -
  have "case mw_new wireSz SYNC sample_byte of
      Ret w \<Rightarrow> (case mw_run kwrite [9, 8, 3] w of Ret (rs, w') \<Rightarrow> mw_byt_rem w' = 0 | _ \<Rightarrow> False) | _ \<Rightarrow> False"
    by code_simp
  then obtain w rs w' where w: "mw_new wireSz SYNC sample_byte = Ret w" "mw_run kwrite [9, 8, 3] w = Ret (rs, w')"
    "mw_byt_rem w' = 0"
    by (auto split: outcome.splits)
  have "kcan sample_byte \<and> 8 + length (enc sample_byte) < 2 ^ 31"
    by (simp add: sample_byte_def enc_def)
  then show ?thesis
    using writer_reader [OF _ _ w, of "map snd rs"] w by blast
qed

theorem alloc_refused_stuck_witness:
  "\<exists>r1 res1. readMsg (\<lambda>_. False) (concat zip_parts) (length (concat zip_parts)) mr_new no_result = Ret (False, r1, res1) \<and>
    rr_result res1 = RD_ERR_ALLOC \<and> readMsg (\<lambda>_. True) (concat zip_parts) (length (concat zip_parts)) r1 no_result = Undef"
proof -
  have "of_mem (take 4 (drop 4 (concat zip_parts))) = (23 :: u32)"
    by code_simp
  then show ?thesis
    using alloc_refused_stuck [of mr_new "concat zip_parts" "\<lambda>_. False" no_result "\<lambda>_. True" no_result]
    by (auto simp: mr_new_def zip_parts_def)
qed

end
