(* ===== verification/Kdb_Unzip.thy ===== *)
theory Kdb_Unzip
  imports Kdb_Message
begin

unbundle bit_operations_syntax

text \<open>
  What a compressed stream means, and that \<open>KdbIpcDecompressor\<close> and \<open>KdbIpcMessageReader\<close> read it so. There is
  no compressor in the library: the format is given here by the streams that stand for some data.
\<close>

section \<open>The format\<close>

text \<open>A plain byte; or a reference to an earlier pair of bytes by the exclusive or of the two, and how many bytes more
  are the same as those after the pair.\<close>

datatype zip_item = Plain u8 | Back u8 u8

fun is_back :: "zip_item \<Rightarrow> bool" where
  "is_back (Plain v) = False"
| "is_back (Back h n) = True"

fun item_bytes :: "zip_item \<Rightarrow> bytes" where
  "item_bytes (Plain v) = [v]"
| "item_bytes (Back h n) = [h, n]"

text \<open>Of the positions \<open>ps\<close>, in the order in which they were entered, the last whose pair has the hash \<open>h\<close>.\<close>

definition latest :: "bytes \<Rightarrow> nat list \<Rightarrow> u8 \<Rightarrow> nat option" where
  "latest x ps h = find (\<lambda>p. x ! p XOR x ! (p + 1) = h) (rev ps)"

text \<open>
  \<open>zips x s c ps its\<close>: from position \<open>s\<close> on, the items stand for the rest of the data \<open>x\<close>. A pair can be referred to when
  it is complete before the item. Positions inside what a reference has given, but for its first, are never entered:
  those from \<open>c\<close> on are still to be.
\<close>

fun zips :: "bytes \<Rightarrow> nat \<Rightarrow> nat \<Rightarrow> nat list \<Rightarrow> zip_item list \<Rightarrow> bool" where
  "zips x s c ps [] \<longleftrightarrow> s = length x"
| "zips x s c ps (Plain v # its) \<longleftrightarrow> s < length x \<and> x ! s = v \<and> zips x (s + 1) (max c s) (ps @ [c..<s]) its"
| "zips x s c ps (Back h n # its) \<longleftrightarrow> s + 2 + unat n \<le> length x \<and>
     (case latest x ps h of None \<Rightarrow> False | Some p \<Rightarrow> \<forall>i < 2 + unat n. x ! (s + i) = x ! (p + i)) \<and>
     zips x (s + 2 + unat n) (s + 2 + unat n) (ps @ [c..<s + 1]) its"

text \<open>Items are sent in blocks of eight, after a byte that says which of them are references.\<close>

definition control :: "zip_item list \<Rightarrow> u8" where
  "control its = horner_sum of_bool 2 (map is_back its)"

function zip_image :: "zip_item list \<Rightarrow> bytes" where
  "zip_image its =
     (if its = [] then []
      else control (take 8 its) # concat (map item_bytes (take 8 its)) @ zip_image (drop 8 its))"
  by auto
termination by (relation "measure length") auto

declare zip_image.simps [simp del]

definition zip_message :: "KdbMsgType \<Rightarrow> kobj \<Rightarrow> zip_item list \<Rightarrow> bytes" where
  "zip_message typ x its =
     [1, msg_type_i8 typ, 1, 0] @ le SZ_INT (12 + length (zip_image its)) @ le SZ_INT (8 + length (enc x)) @ zip_image its"

text \<open>Any data can be sent so, as plain bytes.\<close>

lemma zips_plain: "s \<le> length x \<Longrightarrow> zips x s c ps (map Plain (drop s x))"
proof (induction "length x - s" arbitrary: s c ps)
  case (Suc n)
  then have "drop s x = x ! s # drop (Suc s) x" by (intro Cons_nth_drop_Suc [symmetric]) simp
  with Suc show ?case by simp
qed simp

section \<open>The table of pairs\<close>

lemma latest_append [simp]: "latest x (ps @ [p]) h = (if x ! p XOR x ! (p + 1) = h then Some p else latest x ps h)"
  by (simp add: latest_def)

lemma latest_in: "latest x ps h = Some p \<Longrightarrow> p \<in> set ps"
proof -
  have "find P qs = Some p \<Longrightarrow> p \<in> set qs" for P and qs :: "nat list"
    by (induction qs) (auto split: if_splits)
  then show "latest x ps h = Some p \<Longrightarrow> p \<in> set ps" unfolding latest_def by (metis set_rev)
qed

lemma unat_u32: "n < 2 ^ 32 \<Longrightarrow> unat (word_of_nat n :: u32) = n"
  by (simp add: unat_of_nat)

definition table :: "bytes \<Rightarrow> nat list \<Rightarrow> u32 option list \<Rightarrow> bool" where
  "table x ps lbh \<longleftrightarrow> length lbh = 256 \<and> (\<forall>h. lbh ! unat h = map_option word_of_nat (latest x ps h))"

lemma table_enter:
  assumes "table x ps lbh" "x ! p XOR x ! (p + 1) = h"
  shows "table x (ps @ [p]) (lbh[unat h := Some (word_of_nat p)])"
proof -
  have "unat g < length lbh" for g :: u8 using assms(1) unsigned_less [of g, where ?'a = nat] by (simp add: table_def)
  then show ?thesis using assms by (auto simp: table_def nth_list_update simp flip: word_unat_eq_iff)
qed

lemma window_table:
  assumes "table x ps lbh" "take off d = take off x" "off \<le> length d" "off \<le> length x"
  shows "\<exists>lbh'. dz_window d off chx lbh = (max chx (off - 1), lbh') \<and> table x (ps @ [chx..<off - 1]) lbh'"
  using assms
proof (induction d off chx lbh arbitrary: ps rule: dz_window.induct)
  case (1 d off chx lbh)
  show ?case
  proof (cases "chx < off - 1")
    case True
    have "d ! i = x ! i" if "i < off" for i
      using "1.prems"(2) that by (metis nth_take)
    then have "d ! chx XOR d ! (chx + 1) = x ! chx XOR x ! (chx + 1)" using True by simp
    then have "table x (ps @ [chx]) (lbh[unat (d ! chx XOR d ! (chx + 1)) := Some (word_of_nat chx)])"
      using table_enter [OF "1.prems"(1)] by simp
    from "1.IH" [OF True this "1.prems"(2-4)] show ?thesis
      using True by (auto simp: dz_window.simps [of d off chx] upt_rec [of chx])
  next
    case False
    then show ?thesis using "1.prems" by (simp add: dz_window.simps [of d off chx])
  qed
qed

section \<open>One item\<close>

lemma rd_u8_Cons:
  assumes "rb_wf b" "rb_avail b = v # r"
  shows "rd_u8 b = Ret (v, rb_move 1 1 b) \<and> rb_wf (rb_move 1 1 b) \<and> rb_avail (rb_move 1 1 b) = r \<and>
    rb_off (rb_move 1 1 b) = rb_off b + 1"
proof -
  have n: "1 \<le> rb_remaining b" using assms by (metis length_rb_avail One_nat_def Suc_le_eq length_greater_0_conv list.distinct(1))
  then have "rb_peek 1 b = [v]" using assms by (simp add: rb_peek_avail)
  with n assms show ?thesis
    by (simp add: rd_u8_def rb_canRead_def rb_read_def rb_adj_def rb_wf_move rb_avail_move)
qed

lemma copy_back:
  assumes "length x < 2 ^ 32" "s + n \<le> length x" "p < s" "\<forall>i < n. x ! (s + i) = x ! (p + i)"
  shows "dst_copy (word_of_nat p) n (take s x) = Ret (take (s + n) x)"
  using assms(2-4)
proof (induction n arbitrary: s p)
  case (Suc n)
  have "unat (word_of_nat p :: u32) = p" using Suc.prems(1,2) assms(1) by (intro unat_u32) simp
  moreover have "x ! p = x ! s" using Suc.prems(3) by force
  moreover have "take s x @ [x ! s] = take (Suc s) x" using Suc.prems(1) by (simp add: take_Suc_conv_app_nth)
  moreover have "\<forall>i < n. x ! (Suc s + i) = x ! (Suc p + i)"
    using Suc.prems(3) by (metis add_Suc add_Suc_right not_less_eq)
  then have "dst_copy (word_of_nat (Suc p)) n (take (Suc s) x) = Ret (take (Suc s + n) x)"
    using Suc.prems(1,2) by (intro Suc.IH) simp_all
  ultimately show ?case using Suc.prems(1,2) by (simp add: dst_get_def dst_put_def add.commute)
qed simp

text \<open>The decompressor has written the first \<open>s\<close> bytes of \<open>x\<close>.\<close>

definition unz :: "bytes \<Rightarrow> nat \<Rightarrow> nat \<Rightarrow> nat list \<Rightarrow> inflater \<Rightarrow> bool" where
  "unz x s c ps z \<longleftrightarrow> dz_dst z = take s x \<and> s \<le> length x \<and> dz_chx z = c \<and> (\<forall>p \<in> set ps. p + 1 < s) \<and>
     table x ps (dz_lbh z) \<and> dz_msg_len z = word_of_nat (length x)"

definition next_idx :: "u32 \<Rightarrow> u32" where
  "next_idx i = (if i * 2 = 256 then 0 else i * 2)"

definition item_done :: "zip_item \<Rightarrow> inflater \<Rightarrow> rbuf \<Rightarrow> inflater \<Rightarrow> rbuf \<Rightarrow> bytes \<Rightarrow> bool" where
  "item_done it z b z' b' r \<longleftrightarrow> dz_item z b = Ret (z', b') \<and> rb_wf b' \<and> rb_avail b' = r \<and>
     rb_off b' = rb_off b + length (item_bytes it) \<and> dz_rdx z' = dz_rdx z + word_of_nat (length (item_bytes it)) \<and>
     dz_ipc_len z' = dz_ipc_len z \<and> dz_bit z' = dz_bit z \<and> dz_idx z' = next_idx (dz_idx z)"

lemma unz_plain:
  assumes x: "length x < 2 ^ 32" and u: "unz x s c ps z" and v: "s < length x" "x ! s = v"
    and bit: "dz_bit z AND dz_idx z = 0" and b: "rb_wf b" "rb_avail b = v # r"
  shows "\<exists>z' b'. item_done (Plain v) z b z' b' r \<and> unz x (s + 1) (max c s) (ps @ [c..<s]) z'"
proof -
  have d: "dz_dst z @ [v] = take (Suc s) x" using u v by (simp add: unz_def take_Suc_conv_app_nth)
  have l: "length (take (Suc s) x) = Suc s" using v by simp
  obtain lbh' where w: "dz_window (take (Suc s) x) (Suc s) c (dz_lbh z) = (max c (Suc s - 1), lbh')"
    "table x (ps @ [c..<Suc s - 1]) lbh'"
    using window_table [of x ps "dz_lbh z" "Suc s" "take (Suc s) x" c] u v by (auto simp: unz_def)
  then show ?thesis
    using u v bit rd_u8_Cons [OF b] d l
    by (auto simp: dz_item_def Let_def dst_put_def item_done_def next_idx_def unz_def)
qed

lemma unz_back:
  assumes x: "length x < 2 ^ 32" and u: "unz x s c ps z" and n: "s + 2 + unat n \<le> length x"
    and p: "latest x ps h = Some p" "\<forall>i < 2 + unat n. x ! (s + i) = x ! (p + i)"
    and bit: "dz_bit z AND dz_idx z \<noteq> 0" and b: "rb_wf b" "rb_avail b = h # n # r"
  shows "\<exists>z' b'. item_done (Back h n) z b z' b' r \<and> unz x (s + 2 + unat n) (s + 2 + unat n) (ps @ [c..<s + 1]) z'"
proof -
  have ps: "p + 1 < s" using latest_in [OF p(1)] u by (auto simp: unz_def)
  have old: "dz_lbh z ! unat h = Some (word_of_nat p)" using u p(1) by (simp add: unz_def table_def)
  have up: "unat (word_of_nat p :: u32) = p" "unat (word_of_nat p + 1 :: u32) = p + 1"
    using ps n x unat_u32 [of p] unat_u32 [of "p + 1"] by (simp_all add: add.commute)
  have same: "x ! s = x ! p" "x ! (s + 1) = x ! (p + 1)" using p(2) by force+
  have d: "dz_dst z = take s x" using u by (simp add: unz_def)
  have put: "dst_put (x ! p) (take s x) = take (Suc s) x" "dst_put (x ! Suc p) (take (Suc s) x) = take (Suc (Suc s)) x"
    using same n by (simp_all add: dst_put_def take_Suc_conv_app_nth)
  have cp: "dst_copy (word_of_nat p + 2) (unat n) (take (s + 2) x) = Ret (take (s + 2 + unat n) x)"
  proof -
    have "\<forall>i < unat n. x ! (s + 2 + i) = x ! (p + 2 + i)"
      using p(2) by (metis add.assoc nat_add_left_cancel_less)
    then have "dst_copy (word_of_nat (p + 2)) (unat n) (take (s + 2) x) = Ret (take (s + 2 + unat n) x)"
      using x n ps by (intro copy_back) simp_all
    then show ?thesis by (simp add: add.commute)
  qed
  obtain lbh' where w: "dz_window (take (s + 2 + unat n) x) (s + 2) c (dz_lbh z) = (max c (s + 2 - 1), lbh')"
    "table x (ps @ [c..<s + 2 - 1]) lbh'"
  proof -
    have "table x ps (dz_lbh z)" "take (s + 2) (take (s + 2 + unat n) x) = take (s + 2) x"
      "s + 2 \<le> length (take (s + 2 + unat n) x)" "s + 2 \<le> length x"
      using u n by (simp_all add: unz_def min_def)
    from window_table [OF this, of c] show ?thesis using that by blast
  qed
  note b1 = rd_u8_Cons [OF b]
  then have b2: "rb_wf (rb_move 1 1 b)" "rb_avail (rb_move 1 1 b) = n # r" by simp_all
  have get: "dst_get (take s x) (word_of_nat p) = Ret (x ! p)" "dst_get (take (Suc s) x) (word_of_nat p + 1) = Ret (x ! Suc p)"
    using ps n up by (simp_all add: dst_get_def)
  have len: "length (take (Suc (Suc s)) x) = Suc (Suc s)"
    "length (take (Suc (Suc (s + unat n))) x) = Suc (Suc (s + unat n))" using n by simp_all
  let ?z = "z\<lparr>dz_dst := take (s + 2 + unat n) x, dz_rdx := dz_rdx z + 2, dz_lbh := lbh', dz_chx := s + 2 + unat n,
      dz_idx := next_idx (dz_idx z)\<rparr>"
  have "dz_item z b = Ret (?z, rb_move 1 1 (rb_move 1 1 b))"
    using bit b1 rd_u8_Cons [OF b2] w(1) cp u
    by (simp add: dz_item_def Let_def old d get put len next_idx_def unz_def del: length_take)
  then have "item_done (Back h n) z b ?z (rb_move 1 1 (rb_move 1 1 b)) r"
    using b1 rd_u8_Cons [OF b2] by (simp add: item_done_def)
  moreover have "unz x (s + 2 + unat n) (s + 2 + unat n) (ps @ [c..<s + 1]) ?z"
    using u n w(2) by (auto simp: unz_def)
  ultimately show ?thesis by blast
qed

section \<open>Blocks\<close>

lemma bit_control: "bit (control its) i \<longleftrightarrow> i < 8 \<and> i < length its \<and> is_back (its ! i)"
  by (auto simp: control_def bit_horner_sum_bit_iff)

lemma control_bit:
  assumes "k < length blk" "length blk \<le> 8"
  shows "(ucast (control blk) :: u32) AND 2 ^ k \<noteq> 0 \<longleftrightarrow> is_back (blk ! k)"
proof -
  have "(ucast (control blk) :: u32) AND 2 ^ k \<noteq> 0 \<longleftrightarrow> bit (ucast (control blk) :: u32) k"
    by (simp add: bit_iff_and_push_bit_not_eq_0 push_bit_eq_mult)
  also have "\<dots> \<longleftrightarrow> is_back (blk ! k)"
    using assms by (simp add: bit_unsigned_iff bit_control)
  finally show ?thesis .
qed

lemma popcount_control: "length blk \<le> 8 \<Longrightarrow> popcount8 (control blk) = word_of_nat (length (filter is_back blk))"
proof -
  assume l: "length blk \<le> 8"
  have "filter (\<lambda>i. bit (control blk) i) [0..<8] = filter (\<lambda>i. i < length blk \<and> is_back (blk ! i)) [0..<8]"
    by (rule filter_cong) (auto simp: bit_control)
  also have "length \<dots> = card {i. i < length blk \<and> is_back (blk ! i)}"
  proof -
    have "{i. i < length [0..<8] \<and> ([0..<8] ! i < length blk \<and> is_back (blk ! ([0..<8] ! i)))} = {i. i < length blk \<and> is_back (blk ! i)}"
      using l by auto
    then show ?thesis by (simp only: length_filter_conv_card)
  qed
  also have "\<dots> = length (filter is_back blk)" by (simp add: length_filter_conv_card)
  finally show ?thesis by (simp only: popcount8_def)
qed

lemma length_block: "length (concat (map item_bytes its)) = length its + length (filter is_back its)"
proof (induction its)
  case (Cons it its)
  then show ?case by (cases it) simp_all
qed simp

lemma unat_plus_le64: "unat (v + w) \<le> unat v + unat (w :: u64)"
  by (simp add: unat_word_ariths)

text \<open>A block that is there as a whole is begun.\<close>

lemma block_fits:
  assumes blk: "length blk \<le> 8" and av: "rb_wf b" "rb_avail b = control blk # concat (map item_bytes blk) @ r"
    and len: "dz_ipc_len z - dz_rdx z = word_of_nat (1 + length (concat (map item_bytes blk)) + n)"
    and fits: "n \<le> length r" "rb_remaining b < 2 ^ 64"
  shows "\<not> word_of_nat (rb_remaining b) < blockReadSz z b"
proof -
  let ?c = "length (filter is_back blk)" and ?L = "1 + length (concat (map item_bytes blk)) + n"
  have rem: "rb_remaining b = 1 + length (concat (map item_bytes blk)) + length r"
    using av by (metis length_rb_avail length_Cons length_append plus_1_eq_Suc add.assoc add_Suc)
  then have "rb_peek 1 b = [control blk]" using av by (simp add: rb_peek_avail)
  then have c: "popcount8 (hd (rb_peek 1 b)) = word_of_nat ?c" using popcount_control [OF blk] by simp
  have cL: "1 + 2 * ?c \<le> ?L" using length_filter_le [of is_back blk] unfolding length_block by linarith
  have L: "?L \<le> rb_remaining b" using fits(1) rem by simp
  have "dz_ipc_len z - dz_rdx z - word_of_nat ?c * 2 - 1 = word_of_nat (?L - 2 * ?c - 1)"
    using cL unfolding len by (simp add: of_nat_diff algebra_simps)
  then obtain v w where vw: "blockReadSz z b = v + w" "v = 1 + word_of_nat ?c * 2" "w \<le> word_of_nat (?L - 2 * ?c - 1)"
    using rem by (simp add: blockReadSz_def Let_def c [simplified])
  then have "unat w \<le> ?L - 2 * ?c - 1"
    using L fits(2) by (simp add: word_le_nat_alt unat_word_of_nat64)
  moreover have "unat v = 1 + 2 * ?c"
    using vw(2) cL L fits(2) unat_word_of_nat64 [of "1 + 2 * ?c"] by (simp add: mult.commute)
  ultimately have "unat (blockReadSz z b) \<le> ?L"
    using cL unat_plus_le64 [of v w] unfolding vw(1) by linarith
  then show ?thesis using L fits(2) by (simp add: word_less_nat_alt unat_word_of_nat64)
qed

section \<open>The loop\<close>

text \<open>\<open>us\<close> are the items left of the block, \<open>ts\<close> those of the blocks that follow, \<open>r\<close> what is behind the stream.\<close>

definition in_zip :: "bytes \<Rightarrow> bytes \<Rightarrow> zip_item list \<Rightarrow> zip_item list \<Rightarrow> inflater \<Rightarrow> rbuf \<Rightarrow> bool" where
  "in_zip x r us ts z b \<longleftrightarrow> (\<exists>s c ps. zips x s c ps (us @ ts) \<and> unz x s c ps z) \<and> rb_wf b \<and>
     rb_avail b = concat (map item_bytes us) @ zip_image ts @ r \<and>
     dz_ipc_len z - dz_rdx z = word_of_nat (length (concat (map item_bytes us)) + length (zip_image ts))"

definition in_block :: "zip_item list \<Rightarrow> zip_item list \<Rightarrow> inflater \<Rightarrow> bool" where
  "in_block us ts z \<longleftrightarrow> (\<exists>k blk. us = drop k blk \<and> k < length blk \<and> length blk \<le> 8 \<and> (ts \<noteq> [] \<longrightarrow> length blk = 8) \<and>
     dz_idx z = 2 ^ k \<and> dz_bit z = ucast (control blk))"

definition at_block :: "zip_item list \<Rightarrow> zip_item list \<Rightarrow> inflater \<Rightarrow> bool" where
  "at_block us ts z \<longleftrightarrow> us = [] \<and> (ts \<noteq> [] \<longrightarrow> dz_idx z = 0) \<or> in_block us ts z"

lemma next_block:
  assumes "in_block (it # us) ts z" "dz_idx z' = next_idx (dz_idx z)" "dz_bit z' = dz_bit z"
  shows "at_block us ts z'"
proof -
  obtain k blk where k: "it # us = drop k blk" "k < length blk" "length blk \<le> 8" "ts \<noteq> [] \<longrightarrow> length blk = 8"
    "dz_idx z = 2 ^ k" "dz_bit z = ucast (control blk)" using assms(1) by (auto simp: in_block_def)
  have us: "us = drop (Suc k) blk" using k(1) by (metis drop_Suc list.sel(3) tl_drop)
  have pow: "(2 ^ k * 2 :: u32) = 256 \<longleftrightarrow> k = 7"
  proof -
    have "k \<in> {0, 1, 2, 3, 4, 5, 6, 7}" using k(2,3) by auto
    then show ?thesis by auto
  qed
  show ?thesis
  proof (cases "Suc k < length blk")
    case True
    then have "dz_idx z' = 2 ^ Suc k" using assms(2) k(3,5) pow by (simp add: next_idx_def mult.commute)
    then show ?thesis using us True k assms(3) unfolding at_block_def in_block_def by metis
  next
    case False
    then have "us = []" "ts \<noteq> [] \<longrightarrow> k = 7" using us k(2,4) by auto
    then show ?thesis using assms(2) k(5) pow by (simp add: at_block_def next_idx_def)
  qed
qed

lemma zip_step:
  assumes x: "length x < 2 ^ 32" and z: "in_zip x r (it # us) ts z b" "in_block (it # us) ts z"
  shows "\<exists>z' b'. dz_item z b = Ret (z', b') \<and> in_zip x r us ts z' b' \<and> at_block us ts z' \<and>
    rb_off b' = rb_off b + length (item_bytes it)"
proof -
  obtain s c ps where s: "zips x s c ps (it # us @ ts)" "unz x s c ps z" using z(1) by (auto simp: in_zip_def)
  obtain k blk where k: "it # us = drop k blk" "k < length blk" "length blk \<le> 8" "dz_idx z = 2 ^ k" "dz_bit z = ucast (control blk)"
    using z(2) by (auto simp: in_block_def)
  have it: "blk ! k = it" using k(1,2) by (metis hd_drop_conv_nth list.sel(1))
  have bit: "dz_bit z AND dz_idx z \<noteq> 0 \<longleftrightarrow> is_back it" using control_bit [OF k(2,3)] k(4,5) it by simp
  have b: "rb_wf b" "rb_avail b = item_bytes it @ concat (map item_bytes us) @ zip_image ts @ r"
    using z(1) by (simp_all add: in_zip_def)
  have "\<exists>z' b' s' c' ps'. item_done it z b z' b' (concat (map item_bytes us) @ zip_image ts @ r) \<and>
      unz x s' c' ps' z' \<and> zips x s' c' ps' (us @ ts)"
  proof (cases it)
    case (Plain v)
    then show ?thesis using unz_plain [OF x s(2) _ _ _ b(1)] s(1) bit b(2) by fastforce
  next
    case (Back h n)
    then show ?thesis using unz_back [OF x s(2) _ _ _ _ b(1)] s(1) bit b(2) by (fastforce split: option.splits)
  qed
  then obtain z' b' s' c' ps' where d: "item_done it z b z' b' (concat (map item_bytes us) @ zip_image ts @ r)"
    "unz x s' c' ps' z'" "zips x s' c' ps' (us @ ts)" by blast
  have "dz_ipc_len z - dz_rdx z = word_of_nat (length (item_bytes it) + length (concat (map item_bytes us)) + length (zip_image ts))"
    using z(1) by (simp add: in_zip_def)
  then have "dz_ipc_len z' - dz_rdx z' = word_of_nat (length (concat (map item_bytes us)) + length (zip_image ts))"
    using d(1) by (simp add: item_done_def algebra_simps)
  moreover have "at_block us ts z'" using next_block [OF z(2)] d(1) by (simp add: item_done_def)
  ultimately show ?thesis using d by (auto simp: item_done_def in_zip_def)
qed

text \<open>A block begins.\<close>

lemma zip_begin:
  assumes z: "in_zip x r [] ts z b" "ts \<noteq> []" and fits: "rb_remaining b < 2 ^ 64"
  shows "\<not> word_of_nat (rb_remaining b) < blockReadSz z b \<and>
    (\<exists>z' b'. dz_begin z b = Ret (z', b') \<and> in_zip x r (take 8 ts) (drop 8 ts) z' b' \<and>
      in_block (take 8 ts) (drop 8 ts) z' \<and> rb_off b' = rb_off b + 1)"
proof -
  let ?blk = "take 8 ts"
  have im: "zip_image ts = control ?blk # concat (map item_bytes ?blk) @ zip_image (drop 8 ts)"
    using z(2) by (simp add: zip_image.simps [of ts])
  have b: "rb_wf b" "rb_avail b = control ?blk # concat (map item_bytes ?blk) @ zip_image (drop 8 ts) @ r"
    and len: "dz_ipc_len z - dz_rdx z = word_of_nat (1 + length (concat (map item_bytes ?blk)) + length (zip_image (drop 8 ts)))"
    using z(1) im by (simp_all add: in_zip_def)
  have "\<not> word_of_nat (rb_remaining b) < blockReadSz z b"
    by (rule block_fits [OF _ b len]) (use fits in simp_all)
  moreover define z' where "z' = z\<lparr>dz_bit := ucast (control ?blk), dz_rdx := dz_rdx z + 1, dz_idx := 1\<rparr>"
  have "dz_begin z b = Ret (z', rb_move 1 1 b)" using rd_u8_Cons [OF b] by (simp add: dz_begin_def z'_def)
  moreover have "in_block ?blk (drop 8 ts) z'"
    unfolding in_block_def using z(2) by (intro exI [of _ 0] exI [of _ ?blk]) (auto simp: z'_def)
  moreover have "in_zip x r ?blk (drop 8 ts) z' (rb_move 1 1 b)"
    using z(1) len rd_u8_Cons [OF b] by (auto simp: in_zip_def z'_def unz_def algebra_simps)
  ultimately show ?thesis using rd_u8_Cons [OF b] by blast
qed

lemma zips_left: "zips x s c ps its \<Longrightarrow> (if its = [] then s = length x else s < length x)"
  by (cases "(x, s, c, ps, its)" rule: zips.cases) auto

lemma zip_turn:
  assumes x: "length x < 2 ^ 32" and z: "in_zip x r us ts z b" "at_block us ts z" "us @ ts \<noteq> []" and fits: "rb_remaining b < 2 ^ 64"
  shows "\<exists>z' b' us' ts' n. dz_turn z b = Ret (Some (z', b')) \<and> in_zip x r us' ts' z' b' \<and> at_block us' ts' z' \<and>
    rb_off b' = rb_off b + n \<and>
    length (concat (map item_bytes us)) + length (zip_image ts) = n + (length (concat (map item_bytes us')) + length (zip_image ts'))"
proof (cases us)
  case Nil
  then have ts: "ts \<noteq> []" "dz_idx z = 0" using z by (auto simp: at_block_def in_block_def)
  obtain z1 b1 where 1: "\<not> word_of_nat (rb_remaining b) < blockReadSz z b" "dz_begin z b = Ret (z1, b1)"
    "in_zip x r (take 8 ts) (drop 8 ts) z1 b1" "in_block (take 8 ts) (drop 8 ts) z1" "rb_off b1 = rb_off b + 1"
    using zip_begin [of x r ts z b] z(1) Nil ts(1) fits by blast
  obtain it us' where blk: "take 8 ts = it # us'" using ts(1) by (cases "take 8 ts") auto
  obtain z2 b2 where 2: "dz_item z1 b1 = Ret (z2, b2)" "in_zip x r us' (drop 8 ts) z2 b2" "at_block us' (drop 8 ts) z2"
    "rb_off b2 = rb_off b1 + length (item_bytes it)"
    using zip_step [OF x 1(3) [unfolded blk] 1(4) [unfolded blk]] by blast
  have "length (zip_image ts) = 1 + length (item_bytes it) + (length (concat (map item_bytes us')) + length (zip_image (drop 8 ts)))"
    using ts(1) blk by (simp add: zip_image.simps [of ts])
  with 1 2 ts(2) Nil show ?thesis
    by (intro exI [of _ z2] exI [of _ b2] exI [of _ us'] exI [of _ "drop 8 ts"] exI [of _ "1 + length (item_bytes it)"])
      (simp add: dz_turn_def)
next
  case (Cons it us')
  then have blk: "in_block (it # us') ts z" using z(2) by (simp add: at_block_def)
  then have "dz_idx z \<noteq> 0"
  proof -
    obtain k where "dz_idx z = 2 ^ k" "k < 8" using blk by (fastforce simp: in_block_def)
    moreover from this have "k \<in> {0, 1, 2, 3, 4, 5, 6, 7}" by auto
    ultimately show ?thesis by auto
  qed
  moreover obtain z2 b2 where "dz_item z b = Ret (z2, b2)" "in_zip x r us' ts z2 b2" "at_block us' ts z2"
    "rb_off b2 = rb_off b + length (item_bytes it)"
    using zip_step [OF x z(1) [unfolded Cons] blk] by blast
  ultimately show ?thesis
    by (intro exI [of _ z2] exI [of _ b2] exI [of _ us'] exI [of _ ts] exI [of _ "length (item_bytes it)"])
      (simp add: dz_turn_def Cons)
qed

lemma zip_loop:
  assumes "length x < 2 ^ 32" "in_zip x r us ts z b" "at_block us ts z" "rb_remaining b < 2 ^ 64"
  shows "\<exists>z' b'. dz_loop z b = Ret (z', b') \<and> dz_dst z' = x \<and> dz_msg_len z' = word_of_nat (length x) \<and> rb_wf b' \<and> rb_avail b' = r \<and>
    rb_off b' = rb_off b + (length (concat (map item_bytes us)) + length (zip_image ts))"
  using assms(2-4)
proof (induction "rb_remaining b" arbitrary: us ts z b rule: less_induct)
  case less
  obtain s c ps where s: "zips x s c ps (us @ ts)" "unz x s c ps z" using less.prems(1) by (auto simp: in_zip_def)
  have off: "dz_off z < dz_msg_len z \<longleftrightarrow> s < length x"
    using s(2) assms(1) by (simp add: unz_def dz_off_def word_less_nat_alt unat_word_of_nat64)
  show ?case
  proof (cases "us @ ts = []")
    case True
    then have "s = length x" using zips_left [OF s(1)] by simp
    then show ?thesis
      using True less.prems(1) s(2) off by (auto simp: dz_loop.simps [of z b] in_zip_def unz_def zip_image.simps)
  next
    case False
    then have lt: "dz_off z < dz_msg_len z" using zips_left [OF s(1)] off by auto
    obtain z' b' us' ts' n where t: "dz_turn z b = Ret (Some (z', b'))" "in_zip x r us' ts' z' b'" "at_block us' ts' z'"
      "rb_off b' = rb_off b + n"
      "length (concat (map item_bytes us)) + length (zip_image ts) = n + (length (concat (map item_bytes us')) + length (zip_image ts'))"
      using zip_turn [OF assms(1) less.prems(1,2) False less.prems(3)] by blast
    have "rb_remaining b' < rb_remaining b" by (rule dz_turn_after [OF t(1)])
    then show ?thesis
      using less.hyps [OF _ t(2,3)] less.prems(3) t(1,4,5) lt by (simp add: dz_loop.simps [of z b] add.assoc)
  qed
qed

text \<open>A new decompressor on a stream that stands for the whole of \<open>x\<close>.\<close>

lemma uncompress_zip:
  assumes "length x < 2 ^ 32" "zips x 0 0 [] its" "rb_wf b" "rb_avail b = zip_image its @ r" "rb_remaining b < 2 ^ 64"
  shows "\<exists>z' b'. uncompress (dz_new (word_of_nat (12 + length (zip_image its))) (word_of_nat (8 + length x)) cap) b =
      Ret (word_of_nat (length x), z', b') \<and> dz_dst z' = x \<and> isComplete z' \<and> rb_wf b' \<and> rb_avail b' = r \<and>
    rb_off b' = rb_off b + length (zip_image its)"
proof -
  let ?z = "dz_new (word_of_nat (12 + length (zip_image its))) (word_of_nat (8 + length x)) cap"
  have "table x [] (replicate 256 None)"
    using unsigned_less [where ?'a = nat and ?'b = 8] by (auto simp: table_def latest_def)
  then have "unz x 0 0 [] ?z" by (simp add: unz_def dz_new_def)
  then have "in_zip x r [] its ?z b" using assms by (auto simp: in_zip_def dz_new_def)
  moreover have "at_block [] its ?z" by (simp add: at_block_def dz_new_def)
  ultimately show ?thesis
    using zip_loop [OF assms(1) _ _ assms(5)] by (fastforce simp: uncompress_def isComplete_def dz_off_def dz_new_def)
qed

section \<open>Messages\<close>

definition zip_hdr :: "KdbMsgType \<Rightarrow> nat \<Rightarrow> nat \<Rightarrow> bytes" where
  "zip_hdr typ n m = [1] @ [msg_type_i8 typ] @ [1] @ [0] @ le SZ_INT n @ le SZ_INT m"

lemma zip_message_hdr: "zip_message typ x its = zip_hdr typ (12 + length (zip_image its)) (8 + length (enc x)) @ zip_image its"
  by (simp add: zip_message_def zip_hdr_def)

lemma length_zip_hdr [simp]: "length (zip_hdr typ n m) = 12"
  by (simp add: zip_hdr_def)

lemma readMsgHdr_zip:
  assumes f: "feeds (zip_hdr typ n m @ s) b" "12 \<le> rb_remaining b" and n: "n < 2 ^ 31" "m < 2 ^ 31" and off: "rb_off b = 0"
    and a: "alloc (word_of_nat m - 8)"
  shows "\<exists>r1. readMsgHdr alloc mr_new b no_result = (True, r1, rb_adj 12 b, no_result\<lparr>rr_msg_typ := msg_type_i8 typ\<rparr>) \<and>
    mr_compressed r1 \<and> mr_byt_usd r1 = 12 \<and> mr_inflater r1 = Some (dz_new (word_of_nat n) (word_of_nat m) (unat (word_of_nat m - 8 :: u64)))"
proof -
  have f0: "feeds ([1] @ [msg_type_i8 typ] @ [1] @ [0] @ le SZ_INT n @ le SZ_INT m @ s) b"
    using f by (simp add: zip_hdr_def)
  have f1: "feeds ([msg_type_i8 typ] @ [1] @ [0] @ le SZ_INT n @ le SZ_INT m @ s) (rb_move 1 1 b)"
    using feeds_move' [OF f0, of 1 1] f(2) by simp
  have f2: "feeds ([1] @ [0] @ le SZ_INT n @ le SZ_INT m @ s) (rb_move 2 2 b)"
    using feeds_move' [OF f1, of 1 1] f(2) by (simp add: numeral_2_eq_2 [symmetric])
  have f3: "feeds ([0] @ le SZ_INT n @ le SZ_INT m @ s) (rb_move 3 3 b)"
    using feeds_move' [OF f2, of 1 1] f(2) by simp
  have f4: "feeds (le SZ_INT n @ le SZ_INT m @ s) (rb_move 4 4 b)"
    using feeds_move' [OF f3, of 1 1] f(2) by simp
  have f5: "feeds (le SZ_INT m @ s) (rb_move 8 8 b)"
    using feeds_move' [OF f4, of 4 4] f(2) by simp
  have "rb_read SZ_BYTE b = ([1], rb_move 1 1 b)" "rb_read SZ_BYTE (rb_move 1 1 b) = ([msg_type_i8 typ], rb_move 2 2 b)"
    "rb_read SZ_BYTE (rb_move 2 2 b) = ([1], rb_move 3 3 b)" "rb_read SZ_BYTE (rb_move 3 3 b) = ([0], rb_move 4 4 b)"
    using f(2) feeds_read [OF f0, of 1] feeds_read [OF f1, of 1] feeds_read [OF f2, of 1] feeds_read [OF f3, of 1]
    by (simp_all add: numeral_2_eq_2 [symmetric])
  moreover have "rd_i32 (rb_move 4 4 b) = (word_of_nat n, rb_move 8 8 b)" "rd_i32 (rb_move 8 8 b) = (word_of_nat m, rb_move 12 12 b)"
    using rd_i32_feeds [OF f4 _ n(1)] rd_i32_feeds [OF f5 _ n(2)] f(2) by (simp_all add: rb_adj_def)
  ultimately show ?thesis
    using f(2) off a by (simp add: readMsgHdr_def rb_adj_def mr_new_def no_result_def rb_canRead_def Let_def)
qed

text \<open>C33. A message whose compressed stream stands for the image of an object, back references included,
  is read to that object when it is presented whole, and of what follows it nothing is consumed.\<close>

theorem zip_message_read:
  assumes "kcan x" "zips (enc x) 0 0 [] its"
    and "12 + length (zip_image its) < 2 ^ 31" "8 + length (enc x) < 2 ^ 31" "length rest < 2 ^ 32"
    and "alloc (word_of_nat (length (enc x)))"
  shows "\<exists>r'. readMsg alloc (zip_message typ x its @ rest) (length (zip_message typ x its @ rest)) mr_new no_result =
      Ret (True, r', \<lparr>rr_result = RD_OK, rr_msg_typ = msg_type_i8 typ, rr_message = Some x\<rparr>) \<and>
    getInputBytesConsumed r' = word_of_nat (length (zip_message typ x its))"
proof -
  let ?m = "zip_message typ x its" and ?n = "12 + length (zip_image its)" and ?l = "8 + length (enc x)"
  let ?b = "rb_new (?m @ rest) (length (?m @ rest)) 0"
  have f: "feeds (zip_hdr typ ?n ?l @ zip_image its @ rest) ?b"
    by (rule feeds_rb_new) (simp add: zip_message_hdr)
  have rem: "rb_remaining ?b = 12 + length (zip_image its) + length rest" by (simp add: zip_message_hdr)
  obtain r1 where r1: "readMsgHdr alloc mr_new ?b no_result = (True, r1, rb_adj 12 ?b, no_result\<lparr>rr_msg_typ := msg_type_i8 typ\<rparr>)"
    "mr_compressed r1" "mr_byt_usd r1 = 12" "mr_inflater r1 = Some (dz_new (word_of_nat ?n) (word_of_nat ?l) (unat (word_of_nat ?l - 8 :: u64)))"
    using readMsgHdr_zip [OF f _ assms(3,4), of alloc] rem assms(6) by auto
  have "feeds (zip_image its @ rest) (rb_move 12 12 ?b)"
    using feeds_move' [OF f, of 12 12] rem by simp
  then have b1: "rb_wf (rb_adj 12 ?b)" "rb_avail (rb_adj 12 ?b) = zip_image its @ rest"
    using rem by (simp_all add: feeds_def rb_adj_def)
  moreover have "rb_remaining (rb_adj 12 ?b) < 2 ^ 64" using rem assms(3,5) by simp
  ultimately obtain z' b' where u: "uncompress (dz_new (word_of_nat ?n) (word_of_nat ?l) (unat (word_of_nat ?l - 8 :: u64))) (rb_adj 12 ?b) =
      Ret (word_of_nat (length (enc x)), z', b')" "dz_dst z' = enc x" "rb_off b' = 12 + length (zip_image its)"
    using uncompress_zip [of "enc x" its "rb_adj 12 ?b" rest] assms(2,4) by fastforce
  obtain r' where "readMsg alloc (?m @ rest) (length (?m @ rest)) mr_new no_result =
      Ret (True, r', no_result\<lparr>rr_msg_typ := msg_type_i8 typ, rr_result := RD_OK, rr_message := Some x\<rparr>)"
    "mr_byt_usd r' = mr_byt_usd r1 + word_of_nat (rb_off b' - rb_off (rb_adj 12 ?b))"
    using readMsg_inflated [OF assms(1) _ _ _ r1(1,2,4) u(1,2)] by (auto simp: mr_new_def)
  then show ?thesis
    using u(3) r1(3) by (simp add: getInputBytesConsumed_def zip_message_hdr no_result_def)
qed

text \<open>A vector of ten times the integer 1: after the header and two integers, a reference that copies what
  it has just written.\<close>

definition ones :: kobj where
  "ones = KdbVector (KdbIntVector ATTR_NONE \<lparr>v_cap = 10, v_vals = replicate 10 1\<rparr>)"

definition ones_items :: "zip_item list" where
  "ones_items = map Plain (take 10 (enc ones)) @ [Back 1 34]"

theorem zip_message_read_witness:
  "length (zip_image ones_items) < length (enc ones) \<and>
   (\<exists>r'. readMsg (\<lambda>n. n = 46) (zip_message SYNC ones ones_items @ [7]) (length (zip_message SYNC ones ones_items @ [7])) mr_new no_result =
      Ret (True, r', \<lparr>rr_result = RD_OK, rr_msg_typ = msg_type_i8 SYNC, rr_message = Some ones\<rparr>) \<and>
    getInputBytesConsumed r' = word_of_nat (length (zip_message SYNC ones ones_items)))"
proof
  have l: "length (enc ones) = 46" "length (zip_image ones_items) = 14" by code_simp+
  then show "length (zip_image ones_items) < length (enc ones)" by simp
  have "zips (enc ones) 0 0 [] ones_items" by code_simp
  then show "\<exists>r'. readMsg (\<lambda>n. n = 46) (zip_message SYNC ones ones_items @ [7]) (length (zip_message SYNC ones ones_items @ [7])) mr_new no_result =
      Ret (True, r', \<lparr>rr_result = RD_OK, rr_msg_typ = msg_type_i8 SYNC, rr_message = Some ones\<rparr>) \<and>
    getInputBytesConsumed r' = word_of_nat (length (zip_message SYNC ones ones_items))"
    by (rule zip_message_read [rotated]) (simp_all add: l ones_def)
qed

end
