(* ===== verification/Kdb_Payload.thy ===== *)
theory Kdb_Payload
  imports Kdb_Resume
begin

text \<open>
  \<open>KdbUtil::ipcPayloadLen\<close> of \<^verbatim>\<open>ipc++/src/KdbType.C\<close> and the \<open>msg_len_*\<close> functions behind it: how
  long is the object that starts at \<open>src\<close>, when \<open>rem\<close> bytes are said to be there. \<open>s\<close> is the
  memory from \<open>src\<close> on; a read behind its end is undefined, whatever \<open>rem\<close> says. The results -1
  (more bytes are needed) and -2 (not an object) are kept as the integers of the code, and so are
  the places where it narrows to 32 bits.
\<close>

section \<open>Reading memory\<close>

definition mem_at :: "bytes \<Rightarrow> nat \<Rightarrow> u8 outcome" where
  "mem_at s i = (if i < length s then Ret (s ! i) else Undef)"

text \<open>\<open>hdr->len\<close> of a \<open>vec_hdr_s\<close>.\<close>

definition vec_hdr_s_len :: "bytes \<Rightarrow> int outcome" where
  "vec_hdr_s_len s = (if SZ_VEC_HDR \<le> length s then Ret (sint (of_mem (take SZ_INT (drop 2 s)) :: u32)) else Undef)"

definition mem_strnlen :: "bytes \<Rightarrow> nat \<Rightarrow> nat outcome" where
  "mem_strnlen s n = (if n \<le> length s \<or> 0 \<in> set s then Ret (strnlen s n) else Undef)"

section \<open>The lengths\<close>

definition msg_len_sym_atom :: "bytes \<Rightarrow> u64 \<Rightarrow> int outcome" where
  "msg_len_sym_atom s rem =
     (if rem < 2 then Ret (- 1)
      else let mx = unat (rem - 1)
           in obind (mem_strnlen (drop SZ_BYTE s) mx) (\<lambda>len.
                Ret (if mx = len then - 1 else int (SZ_BYTE + len + SZ_BYTE))))"

text \<open>The loop of \<open>msg_len_sym_vec\<close>, at \<open>t = src + off\<close>.\<close>

fun msg_len_sym_vec_loop :: "nat \<Rightarrow> bytes \<Rightarrow> u64 \<Rightarrow> nat \<Rightarrow> int outcome" where
  "msg_len_sym_vec_loop 0 t rem off = Ret (int off)"
| "msg_len_sym_vec_loop (Suc n) t rem off =
     (let mx = unat (rem - word_of_nat off)
      in obind (mem_strnlen t mx) (\<lambda>sln.
           if mx = sln then Ret (- 1)
           else msg_len_sym_vec_loop n (drop (sln + SZ_BYTE) t) rem (off + sln + SZ_BYTE)))"

definition msg_len_sym_vec :: "bytes \<Rightarrow> u64 \<Rightarrow> int outcome" where
  "msg_len_sym_vec s rem =
     (if rem < 6 then Ret (- 1)
      else obind (vec_hdr_s_len s) (\<lambda>len. msg_len_sym_vec_loop (nat len) (drop SZ_VEC_HDR s) rem SZ_VEC_HDR))"

definition msg_len_cmp :: "int \<Rightarrow> nat \<Rightarrow> u64 \<Rightarrow> int" where
  "msg_len_cmp len width rem =
     (if len < 0 then - 1
      else if int SZ_VEC_HDR + len * int width > int (unat rem) then - 1
      else int SZ_VEC_HDR + len * int width)"

fun payload_width :: "KdbType \<Rightarrow> nat option" where
  "payload_width BOOL_VECTOR = Some SZ_BYTE"
| "payload_width BYTE_VECTOR = Some SZ_BYTE"
| "payload_width CHAR_VECTOR = Some SZ_BYTE"
| "payload_width SHORT_VECTOR = Some SZ_SHORT"
| "payload_width INT_VECTOR = Some SZ_INT"
| "payload_width REAL_VECTOR = Some SZ_INT"
| "payload_width DATE_VECTOR = Some SZ_INT"
| "payload_width MONTH_VECTOR = Some SZ_INT"
| "payload_width MINUTE_VECTOR = Some SZ_INT"
| "payload_width SECOND_VECTOR = Some SZ_INT"
| "payload_width TIME_VECTOR = Some SZ_INT"
| "payload_width LONG_VECTOR = Some SZ_LONG"
| "payload_width FLOAT_VECTOR = Some SZ_LONG"
| "payload_width TIMESTAMP_VECTOR = Some SZ_LONG"
| "payload_width TIMESPAN_VECTOR = Some SZ_LONG"
| "payload_width GUID_VECTOR = Some SZ_GUID"
| "payload_width _ = None"

definition msg_len_vec :: "bytes \<Rightarrow> u64 \<Rightarrow> int outcome" where
  "msg_len_vec s rem =
     (if rem < 6 then Ret (- 1)
      else obind (vec_hdr_s_len s) (\<lambda>len. obind (mem_at s 0) (\<lambda>c. Ret
             (case Option.bind (kdb_type_of_i8 c) payload_width of
                Some w \<Rightarrow> msg_len_cmp len w rem
              | None \<Rightarrow> - 2))))"

fun payload_atom :: "KdbType \<Rightarrow> int" where
  "payload_atom GUID_ATOM = int (SZ_BYTE + SZ_GUID)"
| "payload_atom BOOL_ATOM = int (SZ_BYTE + SZ_BYTE)"
| "payload_atom BYTE_ATOM = int (SZ_BYTE + SZ_BYTE)"
| "payload_atom CHAR_ATOM = int (SZ_BYTE + SZ_BYTE)"
| "payload_atom UNARY_PRIMITIVE = int (SZ_BYTE + SZ_BYTE)"
| "payload_atom BINARY_PRIMITIVE = int (SZ_BYTE + SZ_BYTE)"
| "payload_atom TERNARY_PRIMITIVE = int (SZ_BYTE + SZ_BYTE)"
| "payload_atom SHORT_ATOM = int (SZ_BYTE + SZ_SHORT)"
| "payload_atom INT_ATOM = int (SZ_BYTE + SZ_INT)"
| "payload_atom REAL_ATOM = int (SZ_BYTE + SZ_INT)"
| "payload_atom DATE_ATOM = int (SZ_BYTE + SZ_INT)"
| "payload_atom MONTH_ATOM = int (SZ_BYTE + SZ_INT)"
| "payload_atom MINUTE_ATOM = int (SZ_BYTE + SZ_INT)"
| "payload_atom SECOND_ATOM = int (SZ_BYTE + SZ_INT)"
| "payload_atom TIME_ATOM = int (SZ_BYTE + SZ_INT)"
| "payload_atom LONG_ATOM = int (SZ_BYTE + SZ_LONG)"
| "payload_atom FLOAT_ATOM = int (SZ_BYTE + SZ_LONG)"
| "payload_atom TIMESTAMP_ATOM = int (SZ_BYTE + SZ_LONG)"
| "payload_atom TIMESPAN_ATOM = int (SZ_BYTE + SZ_LONG)"
| "payload_atom _ = - 2"

definition msg_len_atom :: "bytes \<Rightarrow> u64 \<Rightarrow> int outcome" where
  "msg_len_atom s rem =
     (if rem = 0 then Ret (- 1)
      else obind (mem_at s 0) (\<lambda>c. Ret
             (case kdb_type_of_i8 c of Some t \<Rightarrow> payload_atom t | None \<Rightarrow> - 2)))"

text \<open>The list loop stands at \<open>t = src + len\<close>. In \<open>msg_len_vary\<close> the two lengths of a dictionary
  are narrowed to \<open>int32_t\<close>, and added there.\<close>

definition narrow32 :: "int \<Rightarrow> int" where
  "narrow32 n = sint (word_of_int n :: u32)"

function ipcPayloadLen :: "bytes \<Rightarrow> u64 \<Rightarrow> int outcome"
  and msg_len_list_loop :: "nat \<Rightarrow> bytes \<Rightarrow> u64 \<Rightarrow> int \<Rightarrow> int outcome"
  and msg_len_vary :: "bytes \<Rightarrow> u64 \<Rightarrow> int outcome" where
  "ipcPayloadLen s rem =
     (if rem = 0 then Ret (- 1)
      else obind (mem_at s 0) (\<lambda>c.
        if c = i8typ LIST
        then if rem < 6 then Ret (- 1)
             else obind (vec_hdr_s_len s) (\<lambda>cnt. msg_len_list_loop (nat cnt) (drop SZ_VEC_HDR s) rem (int SZ_VEC_HDR))
        else if isAtom c then if c = i8typ SYMBOL_ATOM then msg_len_sym_atom s rem else msg_len_atom s rem
        else if isVec c then if c = i8typ SYMBOL_VECTOR then msg_len_sym_vec s rem else msg_len_vec s rem
        else msg_len_vary s rem))"
| "msg_len_list_loop 0 t rem len = Ret len"
| "msg_len_list_loop (Suc n) t rem len =
     obind (ipcPayloadLen t (rem - word_of_int len)) (\<lambda>eln.
       if eln < 0 then Ret eln else msg_len_list_loop n (drop (nat eln) t) rem (len + eln))"
| "msg_len_vary s rem =
     (if rem = 0 then Ret (- 1)
      else obind (mem_at s 0) (\<lambda>c.
        if c = i8typ TABLE then obind (msg_len_vary (drop 2 s) (rem - 2)) (\<lambda>n. Ret (2 + n))
        else if c = i8typ DICT \<or> c = i8typ STEP_DICT
        then obind (ipcPayloadLen (drop 1 s) (rem - 1)) (\<lambda>n1. let len = narrow32 n1 in
               if len < 0 then Ret len
               else obind (ipcPayloadLen (drop (1 + nat len) s) (rem - 1 - word_of_int len)) (\<lambda>n2. let tmp = narrow32 n2 in
                      if tmp < 0 then Ret tmp
                      else if 1 + len + tmp < 2 ^ 31 then Ret (1 + len + tmp) else Undef))
        else Ret (- 2)))"
  by pat_completeness auto
termination
  by (relation "inv_image (less_than <*lex*> less_than <*lex*> less_than)
      (\<lambda>x. case x of Inl (s, rem) \<Rightarrow> (length s, 1, 0)
         | Inr (Inl (n, t, rem, len)) \<Rightarrow> (length t, 2, n)
         | Inr (Inr (s, rem)) \<Rightarrow> (length s, 0, 0))")
    (auto simp: mem_at_def vec_hdr_s_len_def split: if_splits)

declare ipcPayloadLen.simps [simp del] msg_len_vary.simps [simp del]


section \<open>Lengths of wire images\<close>

text \<open>The objects the functions know: atoms, symbols, vectors, lists, tables and dictionaries.\<close>

fun counted :: "kobj \<Rightarrow> bool" and counted_list :: "kobj list \<Rightarrow> bool" and counted_opt :: "kobj option \<Rightarrow> bool" where
  "counted (KdbAtom a) = True"
| "counted (KdbSymbolAtom val) = True"
| "counted (KdbVector v) = True"
| "counted (KdbSymbolVector v) = True"
| "counted (KdbList attr cap xs) = counted_list xs"
| "counted (KdbTable cols vals) = (counted_opt cols \<and> counted_opt vals)"
| "counted (KdbDict keys vals) = (counted_opt keys \<and> counted_opt vals)"
| "counted (KdbException msg) = False"
| "counted (KdbFunction v) = False"
| "counted (KdbUnaryPrimitive v) = False"
| "counted (KdbBinaryPrimitive v) = False"
| "counted (KdbTernaryPrimitive v) = False"
| "counted (KdbProjection cap xs) = False"
| "counted_list [] = True"
| "counted_list (x # xs) = (counted x \<and> counted_list xs)"
| "counted_opt None = False"
| "counted_opt (Some x) = counted x"

named_theorems payload_simps \<open>evaluation of the length functions on an image\<close>

lemma i8typ_inject: "s \<noteq> UNSET_TYPE \<Longrightarrow> t \<noteq> UNSET_TYPE \<Longrightarrow> i8typ s = i8typ t \<longleftrightarrow> s = t"
  by (metis kdb_type_of_i8typ option.inject)

lemma payload_vec_typ:
  "vec_typ v \<noteq> UNSET_TYPE" "vec_typ v \<noteq> LIST" "vec_typ v \<noteq> SYMBOL_VECTOR" "vec_typ v \<noteq> SYMBOL_ATOM"
  "isVec (i8typ (vec_typ v))" "\<not> isAtom (i8typ (vec_typ v))" "payload_width (vec_typ v) = Some (kvec_width v)"
  by (cases v; simp add: isVec_def isAtom_def sint_i8typ)+

lemma payload_atom_typ:
  "atom_typ a \<noteq> UNSET_TYPE" "atom_typ a \<noteq> LIST" "atom_typ a \<noteq> SYMBOL_ATOM"
  "isAtom (i8typ (atom_typ a))" "payload_atom (atom_typ a) = int (1 + length (atom_mem a))"
  by (cases a; simp add: isAtom_def sint_i8typ)+

lemma vec_hdr_s_len_hdr [payload_simps]:
  "n < 2 ^ 31 \<Longrightarrow> vec_hdr_s_len (vec_hdr t a n @ m) = Ret (int n)"
  using of_mem_le_4 [of n] by (simp add: vec_hdr_s_len_def vec_hdr_def numeral_2_eq_2 del: le.simps)

lemma mem_at_hdr [payload_simps]: "mem_at (vec_hdr t a n @ m) 0 = Ret (i8typ t)"
  by (simp add: mem_at_def vec_hdr_def)

lemma mem_at_Cons [payload_simps]: "mem_at (c # m) 0 = Ret c"
  by (simp add: mem_at_def)

lemma drop_vec_hdr [payload_simps]: "drop 6 (vec_hdr t a n @ m) = m"
  by (simp add: vec_hdr_def)

lemma mem_strnlen_sym: "0 \<notin> set v \<Longrightarrow> length v < n \<Longrightarrow> mem_strnlen (v @ 0 # m) n = Ret (length v)"
  by (simp add: mem_strnlen_def strnlen_found)

lemma narrow32_small: "n < 2 ^ 31 \<Longrightarrow> narrow32 (int n) = int n"
  by (simp add: narrow32_def signed_of_nat signed_take_bit_int_eq_self)

lemma msg_len_sym_vec_loop_vals:
  assumes "\<forall>v \<in> set vals. 0 \<notin> set v" "off + length (concat (map (\<lambda>v. v @ [0]) vals)) \<le> unat rem"
  shows "msg_len_sym_vec_loop (length vals) (concat (map (\<lambda>v. v @ [0]) vals) @ m) rem off =
    Ret (int (off + length (concat (map (\<lambda>v. v @ [0]) vals))))"
  using assms
proof (induction vals arbitrary: off)
  case (Cons v vals)
  have "unat (rem - word_of_nat off) = unat rem - off"
    using Cons.prems(2) by (intro unat_minus_nat) simp
  then have "mem_strnlen (v @ 0 # concat (map (\<lambda>v. v @ [0]) vals) @ m) (unat (rem - word_of_nat off)) = Ret (length v)"
    "length v \<noteq> unat rem - off"
    using Cons.prems by (auto intro: mem_strnlen_sym)
  with Cons show ?case by (simp add: unat_minus_nat)
qed simp

lemma u64_enough [payload_simps]:
  "6 \<le> unat (w :: u64) \<Longrightarrow> \<not> w < 6" "2 \<le> unat w \<Longrightarrow> \<not> w < 2" "0 < unat w \<Longrightarrow> w \<noteq> 0"
  by (auto simp: word_less_nat_alt)

lemma i8typ_tests [payload_simps]:
  "i8typ SYMBOL_ATOM \<noteq> i8typ LIST" "i8typ SYMBOL_VECTOR \<noteq> i8typ LIST" "i8typ TABLE \<noteq> i8typ LIST"
  "i8typ DICT \<noteq> i8typ LIST" "i8typ DICT \<noteq> i8typ TABLE"
  "isAtom (i8typ SYMBOL_ATOM)" "\<not> isAtom (i8typ SYMBOL_VECTOR)" "isVec (i8typ SYMBOL_VECTOR)"
  "\<not> isAtom (i8typ TABLE)" "\<not> isVec (i8typ TABLE)" "\<not> isAtom (i8typ DICT)" "\<not> isVec (i8typ DICT)"
  by (simp_all add: i8typ_inject isAtom_def isVec_def sint_i8typ)

lemma payload_len_atom:
  "0 < unat rem \<Longrightarrow> ipcPayloadLen (enc (KdbAtom a) @ rest) rem = Ret (int (length (enc (KdbAtom a))))"
  using payload_atom_typ [of a]
  by (auto simp: ipcPayloadLen.simps msg_len_atom_def payload_simps i8typ_inject)

lemma payload_len_vec:
  assumes "kvec_count v < 2 ^ 31" "length (enc (KdbVector v)) \<le> unat rem"
  shows "ipcPayloadLen (enc (KdbVector v) @ rest) rem = Ret (int (length (enc (KdbVector v))))"
proof -
  have n: "length (enc (KdbVector v)) = 6 + kvec_count v * kvec_width v" by (simp add: vec_hdr_def)
  have "int (length (enc (KdbVector v))) \<le> int (unat rem)" using assms(2) by (simp only: of_nat_le_iff)
  then have "msg_len_cmp (int (kvec_count v)) (kvec_width v) rem = int (length (enc (KdbVector v)))"
    unfolding n by (simp add: msg_len_cmp_def)
  moreover have "6 \<le> unat rem" using assms(2) n by simp
  ultimately show ?thesis
    using payload_vec_typ [of v] assms(1)
    by (auto simp: ipcPayloadLen.simps msg_len_vec_def payload_simps i8typ_inject)
qed

lemma payload_len_dict:
  assumes "ipcPayloadLen (enc x @ enc y @ rest) (rem - 1) = Ret (int (length (enc x)))"
    and "ipcPayloadLen (enc y @ rest) (rem - 1 - word_of_nat (length (enc x))) = Ret (int (length (enc y)))"
    and "1 + length (enc x) + length (enc y) \<le> unat rem" "1 + length (enc x) + length (enc y) < 2 ^ 31"
  shows "msg_len_vary (i8typ DICT # enc x @ enc y @ rest) rem = Ret (int (1 + length (enc x) + length (enc y)))"
  using assms
  by (simp add: msg_len_vary.simps [of "_ # _"] payload_simps narrow32_small)

lemma payload_len_table:
  assumes "msg_len_vary (i8typ t # s) (rem - 2) = Ret (int n)" "0 < unat rem"
  shows "ipcPayloadLen (i8typ TABLE # a # i8typ t # s) rem = Ret (int (2 + n))"
  using assms by (simp add: ipcPayloadLen.simps msg_len_vary.simps [of "i8typ TABLE # a # i8typ t # s"] payload_simps
    numeral_2_eq_2)

lemma payload_len_counted:
  "kcan x \<Longrightarrow> counted x \<Longrightarrow> length (enc x) \<le> unat rem \<Longrightarrow> length (enc x) < 2 ^ 31 \<Longrightarrow>
     ipcPayloadLen (enc x @ rest) rem = Ret (int (length (enc x)))"
  "kcan_list xs \<Longrightarrow> counted_list xs \<Longrightarrow> off + length (enc_list xs) \<le> unat rem \<Longrightarrow> length (enc_list xs) < 2 ^ 31 \<Longrightarrow>
     msg_len_list_loop (length xs) (enc_list xs @ rest) rem (int off) = Ret (int (off + length (enc_list xs)))"
  "kcan_opt p \<Longrightarrow> counted_opt p \<Longrightarrow> p = Some y \<Longrightarrow> length (enc y) \<le> unat rem \<Longrightarrow> length (enc y) < 2 ^ 31 \<Longrightarrow>
     ipcPayloadLen (enc y @ rest) rem = Ret (int (length (enc y)))"
proof (induction x and xs and p arbitrary: rem rest and off rem rest and y rem rest
    rule: counted_counted_list_counted_opt.induct)
  case (1 a)
  then show ?case using length_enc_pos [of "KdbAtom a"] by (intro payload_len_atom) linarith
next
  case (2 val)
  then have "mem_strnlen (val @ 0 # rest) (unat (rem - 1)) = Ret (length val)"
    using unat_minus_nat [of 1 rem] by (intro mem_strnlen_sym) auto
  then show ?case
    using 2 unat_minus_nat [of 1 rem] by (auto simp: ipcPayloadLen.simps msg_len_sym_atom_def payload_simps)
next
  case (3 v)
  then show ?case by (intro payload_len_vec) simp_all
next
  case (4 v)
  then obtain vals where v: "v = sv_of_vals vals (sv_attr v)" "length vals < 2 ^ 31" "\<forall>s \<in> set vals. 0 \<notin> set s"
    by (auto elim: sv_canE)
  then have d: "sv_data v = concat (map (\<lambda>s. s @ [0]) vals)" "length (sv_locs v) = length vals"
    by (metis sv_of_vals_sel(4), metis sv_of_vals_sel(3))
  then show ?case
    using 4 v(2) msg_len_sym_vec_loop_vals [OF v(3), of 6 rem rest]
    by (simp add: ipcPayloadLen.simps msg_len_sym_vec_def payload_simps del: msg_len_sym_vec_loop.simps)
next
  case (5 attr cap xs)
  then show ?case
    using "5.IH" [of 6 rem rest] 5(2-)
    by (simp add: ipcPayloadLen.simps payload_simps)
next
  case (6 cols vals)
  then obtain x y where xy: "cols = Some x" "vals = Some y"
    by (cases cols; cases vals) auto
  have n: "3 + length (enc x) + length (enc y) \<le> unat rem" "3 + length (enc x) + length (enc y) < 2 ^ 31"
    using 6 xy by simp_all
  have k: "kcan_opt cols" "kcan_opt vals" "counted_opt cols" "counted_opt vals"
    using 6 by simp_all
  have r: "unat (rem - 2) = unat rem - 2" "unat (rem - 2 - 1) = unat rem - 3"
    "unat (rem - 2 - 1 - word_of_nat (length (enc x))) = unat rem - 3 - length (enc x)"
    using n(1) unat_minus_nat [of 2 rem] unat_minus_nat [of 1 "rem - 2"]
      unat_minus_nat [of "length (enc x)" "rem - 2 - 1"] by simp_all
  have "msg_len_vary (i8typ DICT # enc x @ enc y @ rest) (rem - 2) = Ret (int (1 + length (enc x) + length (enc y)))"
  proof (rule payload_len_dict)
    show "ipcPayloadLen (enc x @ enc y @ rest) (rem - 2 - 1) = Ret (int (length (enc x)))"
      by (rule "6.IH"(1) [OF k(1,3) xy(1)]) (use n r in linarith)+
    show "ipcPayloadLen (enc y @ rest) (rem - 2 - 1 - word_of_nat (length (enc x))) = Ret (int (length (enc y)))"
      by (rule "6.IH"(2) [OF k(2,4) xy(2)]) (use n r in linarith)+
  qed (use n r in simp_all)
  then show ?case
    using n xy payload_len_table [of "DICT" "enc x @ enc y @ rest" rem "1 + length (enc x) + length (enc y)"] by simp
next
  case (7 keys vals)
  then obtain x y where xy: "keys = Some x" "vals = Some y"
    by (cases keys; cases vals) auto
  have n: "1 + length (enc x) + length (enc y) \<le> unat rem" "1 + length (enc x) + length (enc y) < 2 ^ 31"
    using 7 xy by simp_all
  have k: "kcan_opt keys" "kcan_opt vals" "counted_opt keys" "counted_opt vals"
    using 7 by simp_all
  have r: "unat (rem - 1) = unat rem - 1"
    "unat (rem - 1 - word_of_nat (length (enc x))) = unat rem - 1 - length (enc x)"
    using n(1) unat_minus_nat [of 1 rem] unat_minus_nat [of "length (enc x)" "rem - 1"] by simp_all
  have "msg_len_vary (i8typ DICT # enc x @ enc y @ rest) rem = Ret (int (1 + length (enc x) + length (enc y)))"
  proof (rule payload_len_dict)
    show "ipcPayloadLen (enc x @ enc y @ rest) (rem - 1) = Ret (int (length (enc x)))"
      by (rule "7.IH"(1) [OF k(1,3) xy(1)]) (use n r in linarith)+
    show "ipcPayloadLen (enc y @ rest) (rem - 1 - word_of_nat (length (enc x))) = Ret (int (length (enc y)))"
      by (rule "7.IH"(2) [OF k(2,4) xy(2)]) (use n r in linarith)+
  qed (use n r in simp_all)
  then show ?case
    using n xy by (simp add: ipcPayloadLen.simps payload_simps)
next
  case (15 x xs)
  have r: "unat (rem - word_of_nat off) = unat rem - off"
    using 15 by (intro unat_minus_nat) simp
  have "ipcPayloadLen (enc x @ enc_list xs @ rest) (rem - word_of_nat off) = Ret (int (length (enc x)))"
    using 15 r by (intro "15.IH"(1)) simp_all
  moreover have "msg_len_list_loop (length xs) (enc_list xs @ rest) rem (int (off + length (enc x))) =
      Ret (int (off + length (enc x) + length (enc_list xs)))"
    using 15 by (intro "15.IH"(2)) simp_all
  ultimately show ?case by (simp add: algebra_simps)
qed simp_all

text \<open>An object that is not counted makes what it is in -2 as well, unless that is a table.\<close>

fun tables_counted :: "kobj \<Rightarrow> bool" and tables_counted_list :: "kobj list \<Rightarrow> bool" and
    tables_counted_opt :: "kobj option \<Rightarrow> bool" where
  "tables_counted (KdbList attr cap xs) = tables_counted_list xs"
| "tables_counted (KdbTable cols vals) = (counted_opt cols \<and> counted_opt vals)"
| "tables_counted (KdbDict keys vals) = (tables_counted_opt keys \<and> tables_counted_opt vals)"
| "tables_counted _ = True"
| "tables_counted_list [] = True"
| "tables_counted_list (x # xs) = (tables_counted x \<and> tables_counted_list xs)"
| "tables_counted_opt None = True"
| "tables_counted_opt (Some x) = tables_counted x"

text \<open>The types none of the functions looks at.\<close>

lemma payload_len_other:
  assumes "c \<notin> {i8typ LIST, i8typ TABLE, i8typ DICT, i8typ STEP_DICT}" "\<not> isAtom c" "\<not> isVec c" "0 < unat rem"
  shows "ipcPayloadLen (c # s) rem = Ret (- 2)"
  using assms by (auto simp: ipcPayloadLen.simps msg_len_vary.simps [of "c # s"] payload_simps)

lemma payload_len_other_typ:
  assumes "t \<in> {EXCEPTION, FUNCTION, UNARY_PRIMITIVE, BINARY_PRIMITIVE, TERNARY_PRIMITIVE, PROJECTION}" "0 < unat rem"
  shows "ipcPayloadLen (i8typ t # s) rem = Ret (- 2)"
  using assms by (intro payload_len_other) (auto simp: i8typ_inject isAtom_def isVec_def sint_i8typ)

lemma narrow32_error: "narrow32 (- 2) = - 2"
  by (simp add: narrow32_def)

lemma payload_dict_error:
  assumes "ipcPayloadLen (enc x @ enc y @ rest) (rem - 1) = Ret (if counted x then int (length (enc x)) else - 2)"
    and "counted x \<Longrightarrow> ipcPayloadLen (enc y @ rest) (rem - 1 - word_of_nat (length (enc x))) = Ret (- 2)"
    and "0 < unat rem" "length (enc x) < 2 ^ 31"
  shows "ipcPayloadLen (i8typ DICT # enc x @ enc y @ rest) rem = Ret (- 2)"
  using assms
  by (auto simp: ipcPayloadLen.simps [of "i8typ DICT # _"] msg_len_vary.simps [of "i8typ DICT # _"] payload_simps narrow32_small
      narrow32_error split: if_splits)

lemma payload_len_uncounted:
  "kcan x \<Longrightarrow> tables_counted x \<Longrightarrow> \<not> counted x \<Longrightarrow> length (enc x) \<le> unat rem \<Longrightarrow> length (enc x) < 2 ^ 31 \<Longrightarrow>
     ipcPayloadLen (enc x @ rest) rem = Ret (- 2)"
  "kcan_list xs \<Longrightarrow> tables_counted_list xs \<Longrightarrow> \<not> counted_list xs \<Longrightarrow> off + length (enc_list xs) \<le> unat rem \<Longrightarrow>
     length (enc_list xs) < 2 ^ 31 \<Longrightarrow> msg_len_list_loop (length xs) (enc_list xs @ rest) rem (int off) = Ret (- 2)"
  "kcan_opt p \<Longrightarrow> tables_counted_opt p \<Longrightarrow> p = Some y \<Longrightarrow> \<not> counted y \<Longrightarrow> length (enc y) \<le> unat rem \<Longrightarrow> length (enc y) < 2 ^ 31 \<Longrightarrow>
     ipcPayloadLen (enc y @ rest) rem = Ret (- 2)"
proof (induction x and xs and p arbitrary: rem rest and off rem rest and y rem rest
    rule: counted_counted_list_counted_opt.induct)
  case (5 attr cap xs)
  have "msg_len_list_loop (length xs) (enc_list xs @ rest) rem (int 6) = Ret (- 2)"
    using 5(2-) by (intro "5.IH") simp_all
  then show ?case using 5(2-) by (simp add: ipcPayloadLen.simps payload_simps)
next
  case (7 keys vals)
  then obtain x y where xy: "keys = Some x" "vals = Some y"
    by (cases keys; cases vals) auto
  have n: "1 + length (enc x) + length (enc y) \<le> unat rem" "1 + length (enc x) + length (enc y) < 2 ^ 31"
    and k: "kcan x" "kcan y" "tables_counted x" "tables_counted y" "\<not> counted x \<or> \<not> counted y"
    using 7 xy by simp_all
  have r: "unat (rem - 1) = unat rem - 1"
    "unat (rem - 1 - word_of_nat (length (enc x))) = unat rem - 1 - length (enc x)"
    using n(1) unat_minus_nat [of 1 rem] unat_minus_nat [of "length (enc x)" "rem - 1"] by simp_all
  have "ipcPayloadLen (i8typ DICT # enc x @ enc y @ rest) rem = Ret (- 2)"
  proof (rule payload_dict_error)
    show "ipcPayloadLen (enc x @ enc y @ rest) (rem - 1) = Ret (if counted x then int (length (enc x)) else - 2)"
      using "7.IH"(1) [of x "rem - 1" "enc y @ rest"] payload_len_counted(1) [of x "rem - 1" "enc y @ rest"] xy k n r by simp
    show "ipcPayloadLen (enc y @ rest) (rem - 1 - word_of_nat (length (enc x))) = Ret (- 2)" if "counted x"
      using "7.IH"(2) [of y "rem - 1 - word_of_nat (length (enc x))" rest] xy k n r that by simp
  qed (use n in simp_all)
  then show ?case using xy by simp
next
  case (15 x xs)
  have r: "unat (rem - word_of_nat off) = unat rem - off"
    using 15 by (intro unat_minus_nat) simp
  show ?case
  proof (cases "counted x")
    case True
    have "ipcPayloadLen (enc x @ enc_list xs @ rest) (rem - word_of_nat off) = Ret (int (length (enc x)))"
      using 15 r True by (intro payload_len_counted(1)) simp_all
    moreover have "msg_len_list_loop (length xs) (enc_list xs @ rest) rem (int (off + length (enc x))) = Ret (- 2)"
      using 15 True by (intro "15.IH"(2)) simp_all
    ultimately show ?thesis by (simp add: algebra_simps)
  next
    case False
    have "ipcPayloadLen (enc x @ enc_list xs @ rest) (rem - word_of_nat off) = Ret (- 2)"
      using 15 r False by (intro "15.IH"(1)) simp_all
    then show ?thesis by simp
  qed
qed (auto simp: payload_len_other_typ vec_hdr_def)

section \<open>Properties\<close>

text \<open>C25. The length of an image is its length for atoms, symbols, vectors, lists, tables and dictionaries, whatever
  follows it; and -2 for an exception, a function, a primitive or a projection, and for a list or a dictionary with one
  in it. (With one in a table it is neither: a property below.)\<close>

theorem payload_len_exact:
  assumes "kcan x" "tables_counted x" "length (enc x) \<le> unat rem" "length (enc x) < 2 ^ 31"
  shows "ipcPayloadLen (enc x @ rest) rem = Ret (if counted x then int (length (enc x)) else - 2)"
  using payload_len_counted(1) [of x rem rest] payload_len_uncounted(1) [of x rem rest] assms by simp

text \<open>Of an atom only the type byte has to be there: the answer is the full length even when
  \<open>rem\<close> is 1, so a truncated atom is reported as complete and the caller is told to use bytes
  behind the end.\<close>

theorem payload_atom_ignores_rem:
  assumes "0 < unat rem"
  shows "ipcPayloadLen (i8typ (atom_typ a) # s) rem = Ret (int (1 + length (atom_mem a)))"
  using payload_atom_typ [of a] assms
  by (simp add: ipcPayloadLen.simps msg_len_atom_def payload_simps i8typ_inject)

text \<open>A table whose body is not a dictionary has length 0, not -2: \<open>msg_len_vary\<close> adds 2 to the
  error of the inner call.\<close>

theorem payload_table_swallows_error:
  assumes "2 < unat rem" "c \<notin> {i8typ TABLE, i8typ DICT, i8typ STEP_DICT}"
  shows "ipcPayloadLen (i8typ TABLE # a # c # s) rem = Ret 0"
proof -
  have "rem - 2 \<noteq> 0" "rem \<noteq> 0"
    using assms(1) unat_minus_nat [of 2 rem] by auto
  then show ?thesis
    using assms(2) by (simp add: ipcPayloadLen.simps msg_len_vary.simps [of "i8typ TABLE # _"]
      msg_len_vary.simps [of "c # _"] payload_simps numeral_2_eq_2)
qed

theorem payload_len_exact_witness:
  "ipcPayloadLen (enc sample_table @ [1, 2]) 100 = Ret 31 \<and>
   ipcPayloadLen (enc (KdbList 0 2 [sample_table, KdbUnaryPrimitive 7])) 100 = Ret (- 2)"
proof -
  have c: "counted sample_table" "tables_counted sample_table" by (simp_all add: sample_table_def)
  have n: "length (enc sample_table) = 31" by (simp add: sample_table_enc)
  show ?thesis
    using payload_len_exact [OF sample_table_kcan, of 100 "[1, 2]"] c n sample_table_kcan
      payload_len_exact [of "KdbList 0 2 [sample_table, KdbUnaryPrimitive 7]" 100 "[]"] by (simp add: vec_hdr_def)
qed

theorem payload_atom_ignores_rem_witness: "ipcPayloadLen [i8typ LONG_ATOM] 1 = Ret 9"
  using payload_atom_ignores_rem [of 1 "KdbLongAtom 0" "[]"] by simp

theorem payload_table_swallows_error_witness: "ipcPayloadLen [i8typ TABLE, 0, 7] 3 = Ret 0"
  by (rule payload_table_swallows_error) (simp_all add: i8typ_def)

end
