(* ===== verification/Kdb_Journal.thy ===== *)
theory Kdb_Journal
  imports Kdb_Payload Kdb_Writer
begin

text \<open>
  \<open>KdbUpdMsgFilter\<close> and \<open>KdbJournal\<close> of \<^verbatim>\<open>ipc++/src/KdbType.C\<close>: which update messages a subscriber
  wants, and the replay of a tickerplant journal. Memory is a list of bytes from the pointer on,
  as in \<open>Kdb_Payload\<close>; the calls of the operating system are a record of functions on a world
  of any type, and the ones made are logged.
\<close>

section \<open>The update filter\<close>

text \<open>\<open>-len\<close> is computed in 64 unsigned bits.\<close>

definition neg_len :: "u64 \<Rightarrow> int" where
  "neg_len len = sint (- len)"

definition filter_upd_msg :: "bytes \<Rightarrow> u64 \<Rightarrow> bytes \<Rightarrow> bytes set \<Rightarrow> int outcome" where
  "filter_upd_msg s len fn_name tbl_names =
     obind (mem_at s 0) (\<lambda>t.
     if t \<noteq> i8typ LIST then Ret (neg_len len)
     else obind (vec_hdr_s_len s) (\<lambda>vln.
       if vln < 3 then Ret (neg_len len)
       else obind (mem_at s SZ_VEC_HDR) (\<lambda>t1.
         if t1 \<noteq> i8typ SYMBOL_ATOM then Ret (neg_len len)
         else let off = SZ_VEC_HDR + SZ_BYTE
              in obind (mem_strnlen (drop off s) (unat (len - word_of_nat off))) (\<lambda>fln.
                 if fln \<noteq> length fn_name \<or> fn_name \<noteq> take fln (drop off s) then Ret (neg_len len)
                 else let off1 = off + fln + SZ_BYTE
                      in obind (mem_at s off1) (\<lambda>t2.
                         if t2 \<noteq> i8typ SYMBOL_ATOM then Ret (neg_len len)
                         else let tail = drop (off1 + SZ_BYTE) s
                              in if 0 \<notin> set tail then Undef
                                 else Ret (if takeWhile (\<lambda>c. c \<noteq> 0) tail \<in> tbl_names then sint len else neg_len len))))))"

definition filter_msg :: "bytes \<Rightarrow> u64 \<Rightarrow> bytes \<Rightarrow> bytes set \<Rightarrow> int outcome" where
  "filter_msg s rem fn_name tbl_names =
     (if rem < 8 then Ret (- 1)
      else obind (mem_at s 0) (\<lambda>e.
        if e \<noteq> 1 then Ret (- 2)
        else if length s < SZ_MSG_HDR then Undef
        else let len = sint (of_mem (take SZ_INT (drop 4 s)) :: u32)
             in if len < 0 then Ret (- 2)
                else if rem < word_of_int len then Ret (- 1)
                else obind (filter_upd_msg (drop SZ_MSG_HDR s) (word_of_int len - 8) fn_name tbl_names) (\<lambda>res.
                       Ret (if res < 0 then res - int SZ_MSG_HDR else res + int SZ_MSG_HDR))))"

section \<open>The journal\<close>

lemma measure_succ: "n < (m :: u64) \<Longrightarrow> unat (m - (n + 1)) < unat (m - n)"
  using measure_unat [of "m - n"] by (simp add: diff_diff_eq [symmetric])


datatype os_call = Open | Fstat int | Mmap int nat | Munmap nat | Write int bytes | Lseek int nat | Close int

text \<open>A call gives an \<open>errno\<close> or its result: \<open>fstat\<close> the size of the file, \<open>mmap\<close> the bytes mapped.\<close>

record 'w os =
  os_open :: "bool \<Rightarrow> 'w \<Rightarrow> (int + int) \<times> 'w"
  os_fstat :: "int \<Rightarrow> 'w \<Rightarrow> (int + nat) \<times> 'w"
  os_mmap :: "int \<Rightarrow> nat \<Rightarrow> 'w \<Rightarrow> (int + bytes) \<times> 'w"
  os_munmap :: "nat \<Rightarrow> 'w \<Rightarrow> 'w"
  os_write :: "int \<Rightarrow> bytes \<Rightarrow> 'w \<Rightarrow> (int + nat) \<times> 'w"
  os_lseek :: "int \<Rightarrow> nat \<Rightarrow> 'w \<Rightarrow> (int + nat) \<times> 'w"
  os_close :: "int \<Rightarrow> 'w \<Rightarrow> (int + int) \<times> 'w"

type_synonym 'w sys = "('w, os_call) logged"

text \<open>The messages of the errors, with what is formatted into them.\<close>

datatype jnl_error =
    FstatFailed int
  | MmapFailed int
  | IncompleteJournal nat
  | BadRecord nat
  | OpenFailed int
  | WriteFailed int
  | NoHeader
  | LseekFailed int
  | CloseFailed int int

text \<open>The loop of \<open>_filter_msgs\<close> at offset \<open>off\<close>; the callback \<open>cb\<close> has a state of its own. The loop
  ends even when a record has length 0, because \<open>msg_count\<close> goes up.\<close>

type_synonym 's on_msg = "u64 \<Rightarrow> bytes \<Rightarrow> u64 \<Rightarrow> 's \<Rightarrow> (int \<times> 's) outcome"

type_synonym 's replayed = "((jnl_error + u64 \<times> u64) \<times> 's) outcome"

function jnl_loop :: "'s on_msg \<Rightarrow> bytes \<Rightarrow> u64 \<Rightarrow> u64 \<Rightarrow> u64 \<Rightarrow> u64 \<Rightarrow> u64 \<Rightarrow> 's \<Rightarrow> 's replayed" where
  "jnl_loop cb m usz max_count off msg_count use_count s =
     (if off < usz \<and> msg_count < max_count
      then obind (ipcPayloadLen (drop (unat off) m) (usz - off)) (\<lambda>msg_len.
             if msg_len < 0
             then Ret (Inl (if msg_len = - 1 then IncompleteJournal (unat off) else BadRecord (unat off)), s)
             else obind (cb msg_count (drop (unat off) m) (word_of_int msg_len) s) (\<lambda>(res, s1).
                    if res = - 1 then Ret (Inr (msg_count + 1, use_count), s1)
                    else jnl_loop cb m usz max_count (off + word_of_int msg_len) (msg_count + 1)
                           (use_count + word_of_int res) s1))
      else Ret (Inr (msg_count, use_count), s))"
  by pat_completeness auto
termination
  by (relation "measure (\<lambda>(cb, m, usz, max_count, off, msg_count, use_count, s). unat (max_count - msg_count))")
    (auto simp: measure_succ)

declare jnl_loop.simps [simp del]

definition jnl_filter_msgs :: "'w os \<Rightarrow> int \<Rightarrow> u64 \<Rightarrow> 's on_msg \<Rightarrow> 's \<Rightarrow> 'w sys \<Rightarrow>
    ((jnl_error + u64 \<times> u64) \<times> 's \<times> 'w sys) outcome" where
  "jnl_filter_msgs os fd max_count cb s w =
     (let (st, w1) = sys (Fstat fd) (os_fstat os fd) w
      in case st of
           Inl e \<Rightarrow> Ret (Inl (FstatFailed e), s, w1)
         | Inr sz \<Rightarrow>
             let (mm, w2) = sys (Mmap fd sz) (os_mmap os fd sz) w1
             in case mm of
                  Inl e \<Rightarrow> Ret (Inl (MmapFailed e), s, w2)
                | Inr src \<Rightarrow>
                    obind (jnl_loop cb src (word_of_nat sz) max_count 8 0 0 s) (\<lambda>(r, s1).
                      let (u, w3) = sys (Munmap sz) (\<lambda>w. ((), os_munmap os sz w)) w2
                      in Ret (r, s1, w3)))"

definition mk_upd_tbl_filter :: "u64 \<Rightarrow> bytes \<Rightarrow> bytes set \<Rightarrow> (bytes \<Rightarrow> u64 \<Rightarrow> 's \<Rightarrow> (int \<times> 's) outcome) \<Rightarrow> 's on_msg" where
  "mk_upd_tbl_filter skip_first_N fn_name tbl_names on_match ith src len s =
     (if skip_first_N \<le> ith
      then obind (filter_upd_msg src len fn_name tbl_names) (\<lambda>res.
             if 0 < res then on_match src len s else Ret (0, s))
      else Ret (0, s))"

record journal =
  j_rd_only :: bool
  j_fd :: int
  j_msg_count :: u64

record jnl_options =
  jo_read_only :: bool
  jo_validate :: bool
  jo_max_replay :: u64

text \<open>\<open>init\<close> returns a journal or an error, or leaves by the exception of \<open>value()\<close> on an error.\<close>

datatype init_result = Opened journal | Failed jnl_error | Thrown jnl_error

definition jnl_counter :: "unit on_msg" where
  "jnl_counter ith src len s = Ret (1, s)"

definition jnl_header :: bytes where
  "jnl_header = [- 1, 1, 0, 0, 0, 0, 0, 0]"

definition jnl_fail :: "'w os \<Rightarrow> int \<Rightarrow> jnl_error \<Rightarrow> 'w sys \<Rightarrow> init_result \<times> 'w sys" where
  "jnl_fail os fd e w = (Failed e, snd (sys (Close fd) (os_close os fd) w))"

text \<open>The check of the records, from the second test of \<open>st_size\<close> on.\<close>

definition jnl_validate :: "'w os \<Rightarrow> jnl_options \<Rightarrow> int \<Rightarrow> nat \<Rightarrow> 'w sys \<Rightarrow> (init_result \<times> 'w sys) outcome" where
  "jnl_validate os opts fd sz w =
     (if 8 < sz \<and> jo_validate opts
      then obind (jnl_filter_msgs os fd (jo_max_replay opts) jnl_counter () w) (\<lambda>(r, u, w1).
             case r of
               Inl e \<Rightarrow> Ret (Thrown e, w1)
             | Inr (n, k) \<Rightarrow>
                 let (ls, w2) = sys (Lseek fd sz) (os_lseek os fd sz) w1
                 in case ls of
                      Inl e \<Rightarrow> Ret (jnl_fail os fd (LseekFailed e) w2)
                    | Inr pos \<Rightarrow> Ret (Opened \<lparr>j_rd_only = jo_read_only opts, j_fd = fd, j_msg_count = n\<rparr>, w2))
      else Ret (Opened \<lparr>j_rd_only = jo_read_only opts, j_fd = fd, j_msg_count = 0\<rparr>, w))"

definition jnl_init :: "'w os \<Rightarrow> jnl_options \<Rightarrow> 'w sys \<Rightarrow> (init_result \<times> 'w sys) outcome" where
  "jnl_init os opts w =
     (let (op, w1) = sys Open (os_open os (jo_read_only opts)) w
      in case op of
           Inl e \<Rightarrow> Ret (Failed (OpenFailed e), w1)
         | Inr fd \<Rightarrow>
             let (st, w2) = sys (Fstat fd) (os_fstat os fd) w1
             in case st of
                  Inl e \<Rightarrow> Ret (jnl_fail os fd (FstatFailed e) w2)
                | Inr sz \<Rightarrow>
                    if \<not> jo_read_only opts
                    then if sz = 0
                         then let (wr, w3) = sys (Write fd jnl_header) (os_write os fd jnl_header) w2
                              in case wr of
                                   Inl e \<Rightarrow> Ret (jnl_fail os fd (WriteFailed e) w3)
                                 | Inr n \<Rightarrow> jnl_validate os opts fd sz w3
                         else jnl_validate os opts fd sz w2
                    else if sz < SZ_MSG_HDR then Ret (jnl_fail os fd NoHeader w2)
                    else jnl_validate os opts fd sz w2)"

text \<open>\<open>close\<close> forgets the descriptor before it formats the error.\<close>

definition jnl_close :: "'w os \<Rightarrow> journal \<Rightarrow> 'w sys \<Rightarrow> jnl_error option \<times> journal \<times> 'w sys" where
  "jnl_close os j w =
     (let (r, w1) = sys (Close (j_fd j)) (os_close os (j_fd j)) w; j1 = j\<lparr>j_fd := - 1\<rparr>
      in (case r of Inl e \<Rightarrow> Some (CloseFailed (j_fd j1) e) | Inr n \<Rightarrow> None, j1, w1))"


section \<open>The filter on messages\<close>

text \<open>An update call: a list of a function name, a table name and at least one more argument.\<close>

fun upd_call :: "kobj \<Rightarrow> (bytes \<times> bytes) option" where
  "upd_call (KdbList attr cap (KdbSymbolAtom f # KdbSymbolAtom t # y # ys)) = Some (f, t)"
| "upd_call _ = None"

lemma neg_len_nat: "n < 2 ^ 63 \<Longrightarrow> neg_len (word_of_nat n) = - int n"
proof -
  assume n: "n < 2 ^ 63"
  have "neg_len (word_of_nat n) = sint (word_of_int (- int n) :: u64)" by (simp add: neg_len_def)
  also have "\<dots> = signed_take_bit 63 (- int n)" by (subst signed_of_int) simp
  also have "\<dots> = - int n" using n by (intro signed_take_bit_int_eq_self) simp_all
  finally show ?thesis .
qed

lemma filter_upd_msg_call:
  assumes x: "kcan x" "upd_call x = Some (f, t)" and n: "length (enc x) < 2 ^ 31"
  shows "filter_upd_msg (enc x @ rest) (word_of_nat (length (enc x))) fn tbls =
    Ret (if f = fn \<and> t \<in> tbls then int (length (enc x)) else - int (length (enc x)))"
proof -
  obtain attr y ys where xs: "x = KdbList attr (length (KdbSymbolAtom f # KdbSymbolAtom t # y # ys)) (KdbSymbolAtom f # KdbSymbolAtom t # y # ys)"
    and nul: "0 \<notin> set f" "0 \<notin> set t" and cnt: "length ys + 3 < 2 ^ 31"
    using x by (cases x rule: upd_call.cases) auto
  define L where "L = length (enc x)"
  define tl where "tl = t @ 0 # enc y @ enc_list ys @ rest"
  define hd6 where "hd6 = vec_hdr LIST attr (length ys + 3)"
  have L: "L < 2 ^ 31" "length f + 10 < L" using n length_enc_pos [of y] by (simp_all add: L_def xs vec_hdr_def del: length_greater_0_conv length_enc_pos)
  have s: "enc x @ rest = hd6 @ i8typ SYMBOL_ATOM # f @ 0 # i8typ SYMBOL_ATOM # tl"
    by (simp add: xs tl_def hd6_def numeral_3_eq_3)
  have l6: "length hd6 = 6" by (simp add: hd6_def vec_hdr_def)
  have u: "unat (word_of_nat L - word_of_nat (6 + 1) :: u64) = L - 7"
    using L unat_minus_nat [of 7 "word_of_nat L"] by (simp add: unat_of_nat take_bit_nat_eq_self)
  have m: "mem_at (hd6 @ c) 0 = Ret (i8typ LIST)" "vec_hdr_s_len (hd6 @ c) = Ret (int (length ys + 3))"
    "mem_at (hd6 @ a # c) 6 = Ret a" "drop (6 + 1) (hd6 @ a # c) = c" for a c
    using l6 cnt by (simp_all only: hd6_def payload_simps) (simp_all add: mem_at_def hd6_def [symmetric] nth_append)
  have f: "mem_strnlen (f @ 0 # c) (L - 7) = Ret (length f)" for c
    using nul(1) L(2) by (intro mem_strnlen_sym) simp_all
  have skip: "drop (length p) (p @ c) = c" for p c :: bytes by simp
  have d: "drop (6 + 1 + length f + 1 + 1) (hd6 @ a # f @ 0 # b # c) = c"
    "mem_at (hd6 @ a # f @ 0 # b # c) (6 + 1 + length f + 1) = Ret b" for a b c
    using skip [of "hd6 @ a # f @ [0, b]" c] l6 by (simp_all add: mem_at_def nth_append add.commute del: drop_append)
  have g: "length f \<noteq> length fn \<or> fn \<noteq> take (length f) (f @ c) \<longleftrightarrow> f \<noteq> fn" for c by auto
  have t: "0 \<in> set tl" "takeWhile (\<lambda>c. c \<noteq> 0) tl = t"
    using nul(2) by (simp_all add: tl_def takeWhile_append)
  have "filter_upd_msg (enc x @ rest) (word_of_nat L) fn tbls =
      Ret (if f = fn \<and> t \<in> tbls then sint (word_of_nat L :: u64) else neg_len (word_of_nat L))"
    unfolding filter_upd_msg_def s m(1) obind.simps Let_def m(2-4) u f g d
    using t by simp
  then show ?thesis
    using L sint_nat64 [of L] neg_len_nat [of L] by (simp add: L_def [symmetric])
qed


lemma filter_msg_hdr:
  assumes "8 + n < 2 ^ 31" "8 + n \<le> unat rem"
  shows "filter_msg (msg_hdr typ (8 + n) @ s) rem fn tbls =
    obind (filter_upd_msg s (word_of_nat n) fn tbls) (\<lambda>res. Ret (if res < 0 then res - 8 else res + 8))"
proof -
  have 4: "sint (of_mem (le SZ_INT (8 + n)) :: u32) = int (8 + n)"
    using of_mem_le_4 [OF assms(1)] by simp
  have h: "take 4 (drop 4 (msg_hdr typ (8 + n) @ s)) = le SZ_INT (8 + n)"
    "mem_at (msg_hdr typ (8 + n) @ s) 0 = Ret 1" "drop 8 (msg_hdr typ (8 + n) @ s) = s"
    "\<not> length (msg_hdr typ (8 + n) @ s) < 8"
    by (simp_all add: msg_hdr_def mem_at_def del: le.simps)
  have "unat (word_of_nat (8 + n) :: u64) = 8 + n"
    using assms(1) by (intro unat_word_of_nat64) simp
  then have r: "\<not> rem < 8" "\<not> rem < word_of_int (int (8 + n))"
    using assms(2) unfolding of_int_of_nat_eq by (simp_all add: word_less_nat_alt del: of_nat_add)
  have w: "word_of_int (int (8 + n)) - 8 = (word_of_nat n :: u64)" by simp
  have "\<not> int (8 + n) < 0" by simp
  with h r w show ?thesis by (simp only: filter_msg_def 4 Let_def obind.simps if_False simp_thms of_nat_numeral)
qed

text \<open>The update filter on a whole message: an update call is accepted with the length of the
  message exactly when the function is the wanted one and the table is in the set; otherwise it is
  refused with minus that length.\<close>

theorem filter_msg_upd:
  assumes "kcan x" "upd_call x = Some (f, t)" "8 + length (enc x) < 2 ^ 31" "8 + length (enc x) \<le> unat rem"
  shows "filter_msg (msg_hdr typ (8 + length (enc x)) @ enc x @ rest) rem fn tbls =
    Ret (if f = fn \<and> t \<in> tbls then int (8 + length (enc x)) else - int (8 + length (enc x)))"
proof -
  have "length (enc x) < 2 ^ 31" using assms(3) by simp
  from filter_upd_msg_call [OF assms(1,2) this] length_enc_pos [of x] show ?thesis
    unfolding filter_msg_hdr [OF assms(3,4)] by auto
qed

text \<open>A header whose length field is below 8 is not refused: the length without the header
  wraps around, and the filter reads behind a buffer that holds the header alone.\<close>

theorem filter_msg_short_length:
  assumes "n < 8"
  shows "filter_msg (msg_hdr typ n) 8 fn tbls = Undef"
proof -
  have 4: "sint (of_mem (le SZ_INT n) :: u32) = int n"
    using of_mem_le_4 [of n] assms by simp
  have h: "take 4 (drop 4 (msg_hdr typ n)) = le SZ_INT n" "mem_at (msg_hdr typ n) 0 = Ret 1"
    "drop 8 (msg_hdr typ n) = []" "\<not> length (msg_hdr typ n) < 8"
    by (simp_all add: msg_hdr_def mem_at_def del: le.simps)
  have r: "\<not> (8 :: u64) < 8" "\<not> (8 :: u64) < word_of_int (int n)"
    using assms by (simp_all add: word_less_nat_alt unat_of_nat take_bit_nat_eq_self)
  have e: "filter_upd_msg [] l fn tbls = Undef" for l by (simp add: filter_upd_msg_def mem_at_def)
  have "\<not> int n < 0" by simp
  with h r e show ?thesis by (simp only: filter_msg_def 4 Let_def obind.simps if_False simp_thms)
qed

section \<open>Replay\<close>

text \<open>The specification: the callback sees the objects of the journal in order, each with its
  number, until it returns -1 or the limit is reached; \<open>t\<close> is what follows the objects.\<close>

fun replay :: "'s on_msg \<Rightarrow> u64 \<Rightarrow> u64 \<Rightarrow> u64 \<Rightarrow> kobj list \<Rightarrow> bytes \<Rightarrow> 's \<Rightarrow> (u64 \<times> u64 \<times> bool \<times> 's) outcome" where
  "replay cb lim i use [] t s = Ret (i, use, i < lim, s)"
| "replay cb lim i use (x # xs) t s =
     (if i < lim
      then obind (cb i (enc_list (x # xs) @ t) (word_of_nat (length (enc x))) s) (\<lambda>(res, s1).
             if res = - 1 then Ret (i + 1, use, False, s1)
             else replay cb lim (i + 1) (use + word_of_int res) xs t s1)
      else Ret (i, use, False, s))"

definition ends :: "bytes \<Rightarrow> nat \<Rightarrow> (u64 \<times> u64 \<times> bool \<times> 's) \<Rightarrow> (jnl_error + u64 \<times> u64) \<times> 's" where
  "ends t off r = (case r of (i, use, left, s) \<Rightarrow>
     (if left \<and> t \<noteq> [] then Inl (if ipcPayloadLen t (word_of_nat (length t)) = Ret (- 1)
        then IncompleteJournal off else BadRecord off) else Inr (i, use), s))"

lemma of_nat_u64:
  assumes "k + n < 2 ^ 64"
  shows "(word_of_nat k < (word_of_nat (k + n) :: u64)) = (0 < n)"
    "unat (word_of_nat k :: u64) = k" "word_of_nat (k + n) - word_of_nat k = (word_of_nat n :: u64)"
  using assms by (simp_all add: word_less_nat_alt unat_of_nat take_bit_nat_eq_self del: of_nat_add) simp

lemma jnl_loop_replay:
  assumes "\<forall>x \<in> set xs. kcan x \<and> counted x \<and> length (enc x) < 2 ^ 31"
    and "length p + length (enc_list xs @ t) < 2 ^ 64"
    and "t \<noteq> [] \<longrightarrow> (\<exists>n < 0. ipcPayloadLen t (word_of_nat (length t)) = Ret n)"
  shows "jnl_loop cb (p @ enc_list xs @ t) (word_of_nat (length p + length (enc_list xs @ t))) lim (word_of_nat (length p)) i use s =
    obind (replay cb lim i use xs t s) (\<lambda>r. Ret (ends t (length p + length (enc_list xs)) r))"
  using assms
proof (induction xs arbitrary: p i use s)
  case Nil
  note w = of_nat_u64 [of "length p" "length t"]
  show ?case
  proof (cases "t \<noteq> [] \<and> i < lim")
    case True
    with Nil obtain n where "n < 0" "ipcPayloadLen t (word_of_nat (length t)) = Ret n" by auto
    then show ?thesis using Nil True w
      by (simp add: jnl_loop.simps [of _ _ _ _ "word_of_nat (length p)"] ends_def del: of_nat_add)
  next
    case False
    then show ?thesis using Nil w
      by (auto simp: jnl_loop.simps [of _ _ _ _ "word_of_nat (length p)"] ends_def simp del: of_nat_add)
  qed
next
  case (Cons x xs)
  let ?s = "enc_list (x # xs) @ t"
  have x: "kcan x" "counted x" "length (enc x) < 2 ^ 31" using Cons.prems(1) by simp_all
  note w = of_nat_u64 [OF Cons.prems(2)]
  have "unat (word_of_nat (length ?s) :: u64) = length ?s"
    using Cons.prems(2) by (intro of_nat_u64(2) [of _ 0]) simp
  then have pl: "ipcPayloadLen ?s (word_of_nat (length ?s)) = Ret (int (length (enc x)))"
    using payload_len_counted(1) [OF x(1,2) _ x(3), of "word_of_nat (length ?s)" "enc_list xs @ t"] by simp
  have pos: "0 < length ?s" using length_enc_pos [of x] by simp
  have IH: "jnl_loop cb (p @ ?s) (word_of_nat (length p + length ?s)) lim (word_of_nat (length p) + word_of_int (int (length (enc x)))) j u s1 =
      obind (replay cb lim j u xs t s1) (\<lambda>r. Ret (ends t (length p + length (enc_list (x # xs))) r))" for j u s1
    using Cons.IH [of "p @ enc x" j u s1] Cons.prems by (simp add: add.assoc)
  show ?case
  proof (cases "i < lim")
    case True
    then have "jnl_loop cb (p @ ?s) (word_of_nat (length p + length ?s)) lim (word_of_nat (length p)) i use s =
        obind (cb i ?s (word_of_int (int (length (enc x)))) s) (\<lambda>(res, s1).
          if res = - 1 then Ret (Inr (i + 1, use), s1)
          else jnl_loop cb (p @ ?s) (word_of_nat (length p + length ?s)) lim
            (word_of_nat (length p) + word_of_int (int (length (enc x)))) (i + 1) (use + word_of_int res) s1)"
      using w pos pl
      by (subst jnl_loop.simps) (simp del: of_nat_add enc_list_simps length_append of_int_of_nat_eq)
    also have "\<dots> = obind (replay cb lim i use (x # xs) t s) (\<lambda>r. Ret (ends t (length p + length (enc_list (x # xs))) r))"
      unfolding IH using True
      by (auto simp: obind_assoc ends_def simp del: enc_list_simps intro!: obind_cong split: prod.splits)
    finally show ?thesis .
  next
    case False
    then show ?thesis by (subst jnl_loop.simps) (simp add: ends_def)
  qed
qed


definition jnl_objects :: "kobj list \<Rightarrow> bool" where
  "jnl_objects xs \<longleftrightarrow> (\<forall>x \<in> set xs. kcan x \<and> counted x \<and> length (enc x) < 2 ^ 31)"

text \<open>\<open>jnl_file os fd file w w1 w2\<close>: the calls to \<open>fstat\<close> and \<open>mmap\<close> give the bytes of the file.\<close>

definition jnl_file :: "'w os \<Rightarrow> int \<Rightarrow> bytes \<Rightarrow> 'w \<Rightarrow> 'w \<Rightarrow> 'w \<Rightarrow> bool" where
  "jnl_file os fd file w w1 w2 \<longleftrightarrow>
     os_fstat os fd w = (Inr (length file), w1) \<and> os_mmap os fd (length file) w1 = (Inr file, w2)"

lemma jnl_filter_msgs_replay:
  assumes "jnl_file os fd (hdr @ enc_list xs @ t) w w1 w2" "length hdr = 8" "jnl_objects xs"
    and "8 + length (enc_list xs @ t) < 2 ^ 64"
    and "t \<noteq> [] \<longrightarrow> (\<exists>n < 0. ipcPayloadLen t (word_of_nat (length t)) = Ret n)"
  shows "jnl_filter_msgs os fd lim cb s (w, log) =
    obind (replay cb lim 0 0 xs t s) (\<lambda>r. case ends t (8 + length (enc_list xs)) r of (res, s1) \<Rightarrow>
      Ret (res, s1, os_munmap os (8 + length (enc_list xs @ t)) w2,
           log @ [Fstat fd, Mmap fd (8 + length (enc_list xs @ t)), Munmap (8 + length (enc_list xs @ t))]))"
proof -
  have "jnl_loop cb (hdr @ enc_list xs @ t) (word_of_nat (8 + length (enc_list xs @ t))) lim 8 0 0 s =
      obind (replay cb lim 0 0 xs t s) (\<lambda>r. Ret (ends t (8 + length (enc_list xs)) r))"
    using jnl_loop_replay [of xs hdr t cb lim 0 0 s] assms(2-5) by (simp add: jnl_objects_def)
  moreover have "os_fstat os fd w = (Inr (8 + length (enc_list xs @ t)), w1)"
    "os_mmap os fd (8 + length (enc_list xs @ t)) w1 = (Inr (hdr @ enc_list xs @ t), w2)"
    using assms(1,2) by (simp_all add: jnl_file_def)
  ultimately show ?thesis
    by (simp add: jnl_filter_msgs_def sys_def obind_assoc case_prod_unfold del: of_nat_add length_append)
qed

text \<open>C8. The replay of a journal is the replay of its objects: whatever the callback does, it is
  called once for each object, in order, with the object's number, its bytes and its length, until
  it returns -1 or the limit is reached. A record that is cut off or not an object ends the replay
  with an error that names its offset; and the mapping is released.\<close>

theorem journal_replays_objects:
  assumes "jnl_file os fd (hdr @ enc_list xs @ t) w w1 w2" "length hdr = 8" "jnl_objects xs"
    and "8 + length (enc_list xs @ t) < 2 ^ 64"
    and "t \<noteq> [] \<longrightarrow> (\<exists>n < 0. ipcPayloadLen t (word_of_nat (length t)) = Ret n)"
  shows "jnl_filter_msgs os fd lim cb s (w, log) =
    obind (replay cb lim 0 0 xs t s) (\<lambda>r. case ends t (8 + length (enc_list xs)) r of (res, s1) \<Rightarrow>
      Ret (res, s1, os_munmap os (8 + length (enc_list xs @ t)) w2,
           log @ [Fstat fd, Mmap fd (8 + length (enc_list xs @ t)), Munmap (8 + length (enc_list xs @ t))]))"
  by (rule jnl_filter_msgs_replay [OF assms])

definition wanted :: "u64 \<Rightarrow> bytes \<Rightarrow> bytes set \<Rightarrow> u64 \<Rightarrow> kobj \<Rightarrow> bool" where
  "wanted N fn tbls i x \<longleftrightarrow> N \<le> i \<and> (\<exists>t \<in> tbls. upd_call x = Some (fn, t))"

fun wanted_of :: "u64 \<Rightarrow> bytes \<Rightarrow> bytes set \<Rightarrow> u64 \<Rightarrow> kobj list \<Rightarrow> kobj list" where
  "wanted_of N fn tbls i [] = []"
| "wanted_of N fn tbls i (x # xs) =
     (if wanted N fn tbls i x then x # wanted_of N fn tbls (i + 1) xs else wanted_of N fn tbls (i + 1) xs)"

lemma unat_lim: "unat (w :: u64) < 2 ^ 64"
  using unsigned_less [of w] by simp

lemma replay_upd:
  assumes "\<forall>x \<in> set xs. kcan x \<and> upd_call x \<noteq> None \<and> length (enc x) < 2 ^ 31"
    and "\<And>x c s. x \<in> set (wanted_of N fn tbls i xs) \<Longrightarrow>
      on_match (enc x @ c) (word_of_nat (length (enc x))) s = Ret (1, g x s)"
    and "unat i + length xs \<le> unat lim"
  shows "replay (mk_upd_tbl_filter N fn tbls on_match) lim i use (xs @ ys) t s =
    replay (mk_upd_tbl_filter N fn tbls on_match) lim (i + word_of_nat (length xs))
      (use + word_of_nat (length (wanted_of N fn tbls i xs))) ys t
      (foldl (\<lambda>s x. g x s) s (wanted_of N fn tbls i xs))"
  using assms
proof (induction xs arbitrary: i use s)
  case Nil
  then show ?case by simp
next
  case (Cons x xs)
  then obtain f n where x: "kcan x" "upd_call x = Some (f, n)" "length (enc x) < 2 ^ 31" by auto
  have "unat i + 1 < 2 ^ 64"
    using Cons.prems(3) unat_lim [of lim] by simp
  then have "unat (i + 1) = unat i + 1" by (simp add: unat_word_ariths)
  then have i: "i < lim" "unat (i + 1) + length xs \<le> unat lim"
    using Cons.prems(3) by (auto simp: word_less_nat_alt)
  have cb: "mk_upd_tbl_filter N fn tbls on_match i (enc x @ c) (word_of_nat (length (enc x))) s =
      Ret (if wanted N fn tbls i x then (1, g x s) else (0, s))" for c
    using filter_upd_msg_call [OF x, of c fn tbls] length_enc_pos [of x] x(2) Cons.prems(2) [of x]
    by (auto simp: mk_upd_tbl_filter_def wanted_def simp del: length_enc_pos)
  show ?case
    using Cons.IH [OF _ _ i(2), of "use + 1" "g x s"] Cons.IH [OF _ _ i(2), of use s] Cons.prems(1,2) i(1)
    by (auto simp: cb add.assoc)
qed

text \<open>At the limit, or at the end of the journal, nothing is left to replay.\<close>

lemma replay_end:
  "ys = [] \<or> \<not> i < lim \<Longrightarrow> \<exists>left. replay cb lim i use ys t s = Ret (i, use, left, s) \<and> (ys \<noteq> [] \<longrightarrow> \<not> left)"
  by (cases ys) auto

lemma wanted_of_subset: "set (wanted_of N fn tbls i xs) \<subseteq> set xs"
  by (induction xs arbitrary: i) (auto dest: subsetD)

lemma jnl_filter_msgs_wanted:
  assumes "jnl_file os fd (hdr @ enc_list (xs @ ys)) w w1 w2" "length hdr = 8" "8 + length (enc_list (xs @ ys)) < 2 ^ 64"
    and "jnl_objects (xs @ ys)" "\<forall>x \<in> set xs. upd_call x \<noteq> None"
    and "\<And>x c s. x \<in> set (wanted_of N fn tbls 0 xs) \<Longrightarrow>
      on_match (enc x @ c) (word_of_nat (length (enc x))) s = Ret (1, g x s)"
    and "length xs \<le> unat lim" "ys = [] \<or> length xs = unat lim"
  shows "jnl_filter_msgs os fd lim (mk_upd_tbl_filter N fn tbls on_match) s (w, log) =
      Ret (Inr (word_of_nat (length xs), word_of_nat (length (wanted_of N fn tbls 0 xs))),
        foldl (\<lambda>s x. g x s) s (wanted_of N fn tbls 0 xs),
        os_munmap os (8 + length (enc_list (xs @ ys))) w2,
        log @ [Fstat fd, Mmap fd (8 + length (enc_list (xs @ ys))), Munmap (8 + length (enc_list (xs @ ys)))])"
proof -
  let ?k = "word_of_nat (length xs) :: u64"
  have "length xs = unat lim \<Longrightarrow> ?k = lim" by simp
  then have e: "ys = [] \<or> \<not> ?k < lim" using assms(8) by (elim disjE) (simp_all only: simp_thms order.irrefl)
  have "replay (mk_upd_tbl_filter N fn tbls on_match) lim 0 0 (xs @ ys) [] s =
      replay (mk_upd_tbl_filter N fn tbls on_match) lim (0 + ?k) (0 + word_of_nat (length (wanted_of N fn tbls 0 xs))) ys []
        (foldl (\<lambda>s x. g x s) s (wanted_of N fn tbls 0 xs))"
  proof (rule replay_upd)
    show "\<forall>x \<in> set xs. kcan x \<and> upd_call x \<noteq> None \<and> length (enc x) < 2 ^ 31" using assms(4,5) by (auto simp: jnl_objects_def)
    show "\<And>x c s. x \<in> set (wanted_of N fn tbls 0 xs) \<Longrightarrow>
      on_match (enc x @ c) (word_of_nat (length (enc x))) s = Ret (1, g x s)" by (rule assms(6))
  qed (use assms(7) in simp)
  then obtain left where "replay (mk_upd_tbl_filter N fn tbls on_match) lim 0 0 (xs @ ys) [] s =
      Ret (?k, word_of_nat (length (wanted_of N fn tbls 0 xs)), left, foldl (\<lambda>s x. g x s) s (wanted_of N fn tbls 0 xs))"
    using replay_end [OF e] unfolding add_0_left by metis
  then show ?thesis
    using jnl_filter_msgs_replay [of os fd hdr "xs @ ys" "[]" w w1 w2 lim "mk_upd_tbl_filter N fn tbls on_match" s log] assms(1-4)
    by (simp add: ends_def)
qed

lemma jnl_filter_msgs_upd:
  assumes "jnl_file os fd (hdr @ enc_list (xs @ ys)) w w1 w2" "length hdr = 8" "8 + length (enc_list (xs @ ys)) < 2 ^ 64"
    and "jnl_objects (xs @ ys)" "\<forall>x \<in> set xs. upd_call x \<noteq> None"
    and "\<forall>src len s. unat len \<le> length src \<longrightarrow> on_match src len s = Ret (1, g (take (unat len) src) s)"
    and "length xs \<le> unat lim" "ys = [] \<or> length xs = unat lim"
  shows "jnl_filter_msgs os fd lim (mk_upd_tbl_filter N fn tbls on_match) s (w, log) =
      Ret (Inr (word_of_nat (length xs), word_of_nat (length (wanted_of N fn tbls 0 xs))),
        foldl (\<lambda>s x. g (enc x) s) s (wanted_of N fn tbls 0 xs),
        os_munmap os (8 + length (enc_list (xs @ ys))) w2,
        log @ [Fstat fd, Mmap fd (8 + length (enc_list (xs @ ys))), Munmap (8 + length (enc_list (xs @ ys)))])"
proof (rule jnl_filter_msgs_wanted [where g = "\<lambda>x. g (enc x)", OF assms(1-5) _ assms(7,8)])
  fix x c s
  assume "x \<in> set (wanted_of N fn tbls 0 xs)"
  then have "length (enc x) < 2 ^ 31" using wanted_of_subset assms(4) by (fastforce simp: jnl_objects_def)
  then have "unat (word_of_nat (length (enc x)) :: u64) = length (enc x)" by (intro unat_word_of_nat64) simp
  then show "on_match (enc x @ c) (word_of_nat (length (enc x))) s = Ret (1, g (enc x) s)" using assms(6) by simp
qed

text \<open>C7. A journal of update calls replayed through \<open>mk_upd_tbl_filter\<close>: the listener gets, in
  order, exactly those of the first \<open>max_count\<close> messages whose number is at least \<open>skip_first_N\<close>, whose
  function is the wanted one and whose table is in the set, each with all its bytes; the result counts
  the messages looked at and those the listener got.\<close>

theorem journal_filters_updates:
  assumes "jnl_file os fd (hdr @ enc_list (xs @ ys)) w w1 w2" "length hdr = 8" "8 + length (enc_list (xs @ ys)) < 2 ^ 64"
    and "jnl_objects (xs @ ys)" "\<forall>x \<in> set xs. upd_call x \<noteq> None"
    and "\<forall>src len s. unat len \<le> length src \<longrightarrow> on_match src len s = Ret (1, g (take (unat len) src) s)"
    and "length xs \<le> unat lim" "ys = [] \<or> length xs = unat lim"
  shows "jnl_filter_msgs os fd lim (mk_upd_tbl_filter N fn tbls on_match) s (w, log) =
      Ret (Inr (word_of_nat (length xs), word_of_nat (length (wanted_of N fn tbls 0 xs))),
        foldl (\<lambda>s x. g (enc x) s) s (wanted_of N fn tbls 0 xs),
        os_munmap os (8 + length (enc_list (xs @ ys))) w2,
        log @ [Fstat fd, Mmap fd (8 + length (enc_list (xs @ ys))), Munmap (8 + length (enc_list (xs @ ys)))])"
  by (rule jnl_filter_msgs_upd [OF assms])

lemma replay_counter:
  "length xs \<le> unat lim - unat i \<Longrightarrow> unat i \<le> unat lim \<Longrightarrow>
     replay jnl_counter lim i use xs t () =
       Ret (i + word_of_nat (length xs), use + word_of_nat (length xs), length xs < unat lim - unat i, ())"
proof (induction xs arbitrary: i use)
  case Nil
  then show ?case by (auto simp: word_less_nat_alt)
next
  case (Cons x xs)
  then have i: "i < lim" by (simp add: word_less_nat_alt)
  then have "unat i + 1 < 2 ^ 64"
    using unat_lim [of lim] by (simp add: word_less_nat_alt)
  then have "unat (i + 1) = unat i + 1" by (simp add: unat_word_ariths)
  then show ?case
    using Cons i by (auto simp: jnl_counter_def add.assoc)
qed

fun is_close :: "os_call \<Rightarrow> bool" where
  "is_close (Close fd) = True"
| "is_close _ = False"

lemma jnl_filter_msgs_closes:
  "jnl_filter_msgs os fd lim cb s w = Ret (r, s1, w') \<Longrightarrow> filter is_close (snd w') = filter is_close (snd w)"
  by (auto simp: jnl_filter_msgs_def sys_def Let_def split: sum.splits prod.splits)

lemma jnl_fail_closes:
  "jnl_fail os fd e w = (r, w') \<Longrightarrow> r = Failed e \<and> filter is_close (snd w') = filter is_close (snd w) @ [Close fd]"
  by (auto simp: jnl_fail_def sys_def split: prod.splits)

lemma jnl_validate_closes:
  assumes "jnl_validate os opts fd sz w = Ret (r, w')"
  shows "filter is_close (snd w') = filter is_close (snd w) @ (case r of Failed e \<Rightarrow> [Close fd] | _ \<Rightarrow> []) \<and>
    (\<forall>j. r = Opened j \<longrightarrow> j_fd j = fd)"
proof (cases "8 < sz \<and> jo_validate opts")
  case True
  then obtain q u w1 where q: "jnl_filter_msgs os fd (jo_max_replay opts) jnl_counter () w = Ret (q, u, w1)"
    using assms by (auto simp: jnl_validate_def)
  obtain ls w2 where ls: "sys (Lseek fd sz) (os_lseek os fd sz) w1 = (ls, w2)"
    by (cases "sys (Lseek fd sz) (os_lseek os fd sz) w1")
  have "filter is_close (snd w1) = filter is_close (snd w)" by (rule jnl_filter_msgs_closes [OF q])
  moreover have "filter is_close (snd w2) = filter is_close (snd w1)"
    using ls by (auto simp: sys_def split: prod.splits)
  ultimately show ?thesis
    using assms True q ls
    by (auto simp: jnl_validate_def split: sum.splits dest!: jnl_fail_closes)
qed (use assms in \<open>auto simp: jnl_validate_def\<close>)

text \<open>The descriptor: once \<open>open\<close> has succeeded, \<open>init\<close> closes it exactly once when it returns an
  error and not when it returns a journal, which then holds it. When it leaves by the exception it
  does not close it either, and nobody holds it.\<close>

theorem journal_init_closes:
  assumes "jnl_init os opts (w, []) = Ret (r, w', log)"
  shows "filter is_close log =
      (case (fst (os_open os (jo_read_only opts) w), r) of (Inr fd, Failed e) \<Rightarrow> [Close fd] | _ \<Rightarrow> []) \<and>
    (\<forall>j. r = Opened j \<longrightarrow> fst (os_open os (jo_read_only opts) w) = Inr (j_fd j))"
  using assms
  by (auto simp: jnl_init_def sys_def Let_def split: if_splits sum.splits prod.splits
      dest!: jnl_validate_closes jnl_fail_closes)

text \<open>\<open>init\<close> on a journal whose last record is cut off or bad: the error of the check is stored,
  and then \<open>value()\<close> is called on it, so that no error is returned but an exception thrown.\<close>

theorem journal_init_throws:
  assumes "jnl_file os fd (hdr @ enc_list xs @ t) w1 w2 w3" "length hdr = 8" "jnl_objects xs"
    and "8 + length (enc_list xs @ t) < 2 ^ 64" "length xs < unat (jo_max_replay opts)"
    and "t \<noteq> []" "\<exists>n < 0. ipcPayloadLen t (word_of_nat (length t)) = Ret n"
    and "os_open os (jo_read_only opts) w = (Inr fd, w0)" "os_fstat os fd w0 = (Inr (8 + length (enc_list xs @ t)), w1)"
    and "jo_validate opts"
  shows "\<exists>e w' log. jnl_init os opts (w, []) = Ret (Thrown e, w', log) \<and>
    e \<in> {IncompleteJournal (8 + length (enc_list xs)), BadRecord (8 + length (enc_list xs))} \<and> Close fd \<notin> set log"
proof -
  let ?n = "8 + length (enc_list xs @ t)"
  let ?e = "if ipcPayloadLen t (word_of_nat (length t)) = Ret (- 1)
    then IncompleteJournal (8 + length (enc_list xs)) else BadRecord (8 + length (enc_list xs))"
  have "replay jnl_counter (jo_max_replay opts) 0 0 xs t () =
      Ret (word_of_nat (length xs), word_of_nat (length xs), True, ())"
    using replay_counter [of xs "jo_max_replay opts" 0 0 t] assms(5) by simp
  then have f: "jnl_filter_msgs os fd (jo_max_replay opts) jnl_counter () (w1, log) =
      Ret (Inl ?e, (), os_munmap os ?n w3, log @ [Fstat fd, Mmap fd ?n, Munmap ?n])" for log
    using jnl_filter_msgs_replay [OF assms(1-4), of "jo_max_replay opts" jnl_counter "()" log] assms(6,7)
    by (simp add: ends_def del: length_append)
  have "jnl_init os opts (w, []) = jnl_validate os opts fd ?n (w1, [Open, Fstat fd])"
    using assms(8,9) by (simp add: jnl_init_def sys_def)
  moreover have "8 < ?n" using assms(6) by (cases t) simp_all
  ultimately show ?thesis
    using assms(10) by (simp add: jnl_validate_def f del: length_append)
qed

section \<open>Witnesses\<close>

text \<open>An operating system with one file, which every call finds as it is.\<close>

definition one_file :: "bytes \<Rightarrow> unit os" where
  "one_file file = \<lparr>os_open = (\<lambda>_ w. (Inr 3, w)), os_fstat = (\<lambda>_ w. (Inr (length file), w)),
     os_mmap = (\<lambda>_ _ w. (Inr file, w)), os_munmap = (\<lambda>_ w. w), os_write = (\<lambda>_ bs w. (Inr (length bs), w)),
     os_lseek = (\<lambda>_ n w. (Inr n, w)), os_close = (\<lambda>_ w. (Inr 0, w))\<rparr>"

lemma one_file_jnl: "jnl_file (one_file file) fd file () () ()"
  by (simp add: jnl_file_def one_file_def)

text \<open>\<open>(`f;`t;1b)\<close> and \<open>(`f;`u;1b)\<close>\<close>

definition sample_upd :: "u8 \<Rightarrow> kobj" where
  "sample_upd t = KdbList ATTR_NONE 3 [KdbSymbolAtom [102], KdbSymbolAtom [t], KdbAtom (KdbBoolAtom 1)]"

lemma sample_upd_facts:
  "t \<noteq> 0 \<Longrightarrow> kcan (sample_upd t)" "upd_call (sample_upd t) = Some ([102], [t])" "length (enc (sample_upd t)) = 14"
  "counted (sample_upd t)"
  by (simp_all add: sample_upd_def vec_hdr_def)

theorem filter_msg_upd_witness:
  "filter_msg (msg_hdr ASYNC 22 @ enc (sample_upd 116) @ [1]) 23 [102] {[116]} = Ret 22 \<and>
   filter_msg (msg_hdr ASYNC 22 @ enc (sample_upd 117) @ [1]) 23 [102] {[116]} = Ret (- 22)"
  using filter_msg_upd [of "sample_upd 116" "[102]" "[116]" 23 ASYNC "[1]" "[102]" "{[116]}"]
    filter_msg_upd [of "sample_upd 117" "[102]" "[117]" 23 ASYNC "[1]" "[102]" "{[116]}"]
  by (simp add: sample_upd_facts)

lemma msg_hdr_0: "msg_hdr ASYNC 0 = [1, 0, 0, 0, 0, 0, 0, 0]"
  by code_simp

theorem filter_msg_short_length_witness: "filter_msg [1, 0, 0, 0, 0, 0, 0, 0] 8 [102] {} = Undef"
  unfolding msg_hdr_0 [symmetric] by (rule filter_msg_short_length) simp

definition sample_jnl :: "kobj list" where
  "sample_jnl = [sample_upd 116, sample_upd 117]"

lemma sample_journal:
  "jnl_objects sample_jnl" "length (enc_list sample_jnl) = 28" "length sample_jnl = 2"
  by (simp_all add: sample_jnl_def jnl_objects_def sample_upd_facts)

lemma length_jnl_header: "length jnl_header = 8"
  by (simp add: jnl_header_def)

lemma payload_cut: "ipcPayloadLen [0, 0] (word_of_nat (length [0 :: u8, 0])) = Ret (- 1)"
  by (simp add: ipcPayloadLen.simps mem_at_def i8typ_def)

theorem journal_replays_objects_witness:
  "\<exists>w log. jnl_filter_msgs (one_file (jnl_header @ enc_list sample_jnl @ [0, 0])) 3 10 jnl_counter ()
     ((), []) = Ret (Inl (IncompleteJournal 36), (), w, log)"
proof -
  have "replay jnl_counter 10 0 0 sample_jnl [0, 0] () = Ret (2, 2, True, ())"
    using replay_counter [of sample_jnl 10 0 0 "[0, 0]"] by (simp add: sample_journal)
  then show ?thesis
    using journal_replays_objects [OF one_file_jnl _ sample_journal(1), where t = "[0, 0]" and hdr = jnl_header,
        of 3 10 jnl_counter "()" "[]"] payload_cut
    by (simp add: ends_def length_jnl_header sample_journal(2))
qed

theorem journal_filters_updates_witness:
  "\<exists>w. jnl_filter_msgs (one_file (jnl_header @ enc_list (sample_jnl @ [sample_upd 117]))) 3 2
     (mk_upd_tbl_filter 0 [102] {[117]} (\<lambda>src len s. Ret (1, s @ [take (unat len) src]))) [] ((), []) =
   Ret (Inr (2, 1), [enc (sample_upd 117)], w)"
  using journal_filters_updates [OF one_file_jnl, where xs = sample_jnl and ys = "[sample_upd 117]" and hdr = jnl_header
      and fd = 3 and lim = 2 and N = 0 and fn = "[102]" and tbls = "{[117]}" and s = "[]"
      and on_match = "\<lambda>src len s. Ret (1, s @ [take (unat len) src])" and g = "\<lambda>m s. s @ [m]" and log = "[]"] sample_journal(1)
  by (simp add: length_jnl_header sample_journal(2,3) jnl_objects_def sample_upd_facts)
    (simp add: sample_jnl_def sample_upd_facts wanted_def)

theorem journal_init_closes_witness:
  "\<exists>w log. jnl_init ((one_file [])\<lparr>os_fstat := \<lambda>_ w. (Inl 5, w)\<rparr>) \<lparr>jo_read_only = True, jo_validate = True, jo_max_replay = 7\<rparr>
     ((), []) = Ret (Failed (FstatFailed 5), w, log) \<and> filter is_close log = [Close 3]"
proof -
  let ?os = "(one_file [])\<lparr>os_fstat := \<lambda>_ w. (Inl 5, w)\<rparr>"
  let ?opts = "\<lparr>jo_read_only = True, jo_validate = True, jo_max_replay = 7\<rparr>"
  have "jnl_init ?os ?opts ((), []) = Ret (Failed (FstatFailed 5), (), [Open, Fstat 3, Close 3])"
    by (simp add: jnl_init_def sys_def one_file_def jnl_fail_def)
  then show ?thesis
    using journal_init_closes [of ?os ?opts "()" "Failed (FstatFailed 5)" "()" "[Open, Fstat 3, Close 3]"]
    by (simp add: one_file_def)
qed

theorem journal_init_throws_witness:
  "\<exists>e w log. jnl_init (one_file (jnl_header @ enc_list sample_jnl @ [0, 0]))
     \<lparr>jo_read_only = True, jo_validate = True, jo_max_replay = 7\<rparr> ((), []) = Ret (Thrown e, w, log) \<and> Close 3 \<notin> set log"
  using journal_init_throws [OF one_file_jnl _ sample_journal(1), where t = "[0, 0]" and hdr = jnl_header
      and opts = "\<lparr>jo_read_only = True, jo_validate = True, jo_max_replay = 7\<rparr>" and fd = 3 and w = "()" and ?w0.0 = "()"]
    payload_cut
  by (auto simp: one_file_def length_jnl_header sample_journal(2,3))

end
