(* ===== verification/Log_Filter.thy ===== *)
theory Log_Filter
  imports Kdb_Journal
begin

text \<open>
  \<^verbatim>\<open>log_filter/src/log_filter.c\<close>: a shared library for q that replays the messages of a journal
  which are about given tables. The journal is read from a memory mapping without any check of
  bounds, so memory is a list of bytes from the pointer on and an access behind its end is
  \<open>Undef\<close>. The C API of kdb+ (\<^verbatim>\<open>k.h\<close>) is a parameter: the constructors of \<open>K\<close> objects with what
  the code stores into the new object, and the evaluation of a message on a world.
\<close>

section \<open>The type codes of k.h\<close>

abbreviation (input) KB :: int where "KB \<equiv> 1"
abbreviation (input) UU :: int where "UU \<equiv> 2"
abbreviation (input) KG :: int where "KG \<equiv> 4"
abbreviation (input) KH :: int where "KH \<equiv> 5"
abbreviation (input) KI :: int where "KI \<equiv> 6"
abbreviation (input) KJ :: int where "KJ \<equiv> 7"
abbreviation (input) KE :: int where "KE \<equiv> 8"
abbreviation (input) KF :: int where "KF \<equiv> 9"
abbreviation (input) KC :: int where "KC \<equiv> 10"
abbreviation (input) KS :: int where "KS \<equiv> 11"
abbreviation (input) KP :: int where "KP \<equiv> 12"
abbreviation (input) KM :: int where "KM \<equiv> 13"
abbreviation (input) KD :: int where "KD \<equiv> 14"
abbreviation (input) KZ :: int where "KZ \<equiv> 15"
abbreviation (input) KN :: int where "KN \<equiv> 16"
abbreviation (input) KU :: int where "KU \<equiv> 17"
abbreviation (input) KV :: int where "KV \<equiv> 18"
abbreviation (input) KT :: int where "KT \<equiv> 19"
abbreviation (input) XT :: int where "XT \<equiv> 98"
abbreviation (input) XD :: int where "XD \<equiv> 99"

text \<open>The widths by which the switches on an atom and on a vector advance.\<close>

definition k_width :: "int \<Rightarrow> nat option" where
  "k_width typ =
     (if typ \<in> {KT, KV, KU, KD, KM, KE, KI} then Some 4
      else if typ \<in> {KN, KZ, KP, KF, KJ} then Some 8
      else if typ = KH then Some 2
      else if typ \<in> {KC, KG, KB} then Some 1
      else if typ = UU then Some 16
      else None)"

text \<open>The vector cases of \<open>mg_chk_match_and_get_len\<close> and \<open>mg_reify_msg\<close>.\<close>

definition k_vec_case :: "int \<Rightarrow> bool" where
  "k_vec_case typ \<longleftrightarrow>
     typ \<in> {KB, KC, KG, KH, KI, KE, KM, KD, KU, KV, KT, KJ, KF, KP, KZ, KN, KS}"

section \<open>Memory\<close>

definition mem_read :: "bytes \<Rightarrow> nat \<Rightarrow> bytes outcome" where
  "mem_read s n = (if n \<le> length s then Ret (take n s) else Undef)"

definition mem_strlen :: "bytes \<Rightarrow> nat outcome" where
  "mem_strlen s = (if 0 \<in> set s then Ret (length (takeWhile (\<lambda>c. c \<noteq> 0) s)) else Undef)"

text \<open>\<open>0 == strncmp(a, pos, n)\<close> for a name \<open>a\<close> without its final NUL.\<close>

definition strncmp_eq :: "bytes \<Rightarrow> bytes \<Rightarrow> nat \<Rightarrow> bool" where
  "strncmp_eq a pos n \<longleftrightarrow> take n (a @ [0]) = take n pos"

definition mg_read_i32 :: "bytes \<Rightarrow> int outcome" where
  "mg_read_i32 s = obind (mem_read s 4) (\<lambda>b. Ret (sint (of_mem b :: u32)))"

section \<open>Reading objects\<close>

text \<open>The constructors of \<open>K\<close> objects: \<open>ka\<close> with the stored value, \<open>ku\<close>, \<open>ks\<close>, \<open>ktn\<close> with the
  attribute and the elements (as memory, as symbols from \<open>ss\<close>, as objects), \<open>xT\<close> and \<open>xD\<close>.\<close>

record 'k kapi =
  api_ka :: "int \<Rightarrow> bytes \<Rightarrow> 'k"
  api_ku :: "bytes \<Rightarrow> 'k"
  api_ks :: "bytes \<Rightarrow> 'k"
  api_ktn :: "int \<Rightarrow> u8 \<Rightarrow> bytes \<Rightarrow> 'k"
  api_ktn_syms :: "u8 \<Rightarrow> bytes list \<Rightarrow> 'k"
  api_ktn_list :: "u8 \<Rightarrow> 'k list \<Rightarrow> 'k"
  api_xT :: "'k \<Rightarrow> 'k"
  api_xD :: "'k \<Rightarrow> 'k \<Rightarrow> 'k"

fun lf_syms :: "nat \<Rightarrow> bytes \<Rightarrow> (nat \<times> bytes list) outcome" where
  "lf_syms 0 s = Ret (0, [])"
| "lf_syms (Suc n) s =
     obind (mem_strlen s) (\<lambda>len.
     obind (lf_syms n (drop (len + 1) s)) (\<lambda>(off, ss). Ret (len + 1 + off, take len s # ss)))"

text \<open>The body that \<open>mg_read_vec\<close> and \<open>mg_read_vec_OLD\<close> share, after the type byte: what it
  advances by, the attribute, and the elements. A negative count is no request \<open>ktn\<close> can meet,
  and \<open>len * SZ\<close> is a product of \<open>int\<close>s.\<close>

definition lf_vec :: "int \<Rightarrow> bytes \<Rightarrow> (nat \<times> u8 \<times> (bytes + bytes list)) outcome" where
  "lf_vec typ s =
     obind (mem_at s 0) (\<lambda>att. obind (mg_read_i32 (drop 1 s)) (\<lambda>len.
       if len < 0 then Undef
       else case k_width typ of
              Some w \<Rightarrow>
                if len * int w < 2 ^ 31
                then obind (mem_read (drop 5 s) (nat len * w)) (\<lambda>d. Ret (5 + nat len * w, att, Inl d))
                else Undef
            | None \<Rightarrow>
                if typ = KS
                then obind (lf_syms (nat len) (drop 5 s)) (\<lambda>(n, ss). Ret (5 + n, att, Inr ss))
                else Ret (5, att, Inl [])))"

definition mg_read_vec :: "'k kapi \<Rightarrow> int \<Rightarrow> bytes \<Rightarrow> (nat \<times> 'k) outcome" where
  "mg_read_vec api typ s =
     obind (lf_vec typ s) (\<lambda>(off, att, els). Ret (off,
       case els of Inl d \<Rightarrow> api_ktn api typ att d | Inr ss \<Rightarrow> api_ktn_syms api att ss))"

definition mg_read_vec_OLD :: "int \<Rightarrow> bytes \<Rightarrow> nat outcome" where
  "mg_read_vec_OLD typ s = obind (lf_vec typ s) (\<lambda>(off, att, els). Ret off)"

section \<open>Is a message relevant, and how long is it\<close>

text \<open>\<open>ktns\<close> counts the objects that \<open>ktn\<close> has made; nothing releases them.\<close>

record chk =
  relevant :: bool
  ktns :: nat

function mg_chk_match_and_get_len :: "bytes \<Rightarrow> bytes list \<Rightarrow> int \<Rightarrow> int \<Rightarrow> chk \<Rightarrow> (nat \<times> chk) outcome"
  and mg_chk_elems :: "nat \<Rightarrow> bytes \<Rightarrow> bytes list \<Rightarrow> int \<Rightarrow> int \<Rightarrow> nat \<Rightarrow> chk \<Rightarrow> (nat \<times> chk) outcome" where
  "mg_chk_match_and_get_len s tbls lvl index c =
     (let level = lvl + 1
      in obind (mem_at s 0) (\<lambda>b. let typ = sint b in
         if k_width (- typ) \<noteq> None then Ret (1 + the (k_width (- typ)), c)
         else if typ = - KS
         then let pos = drop 1 s
              in obind (mem_strlen pos) (\<lambda>len. Ret (1 + 1 + len,
                   if level = 1 \<and> index = 1 \<and> (\<exists>t \<in> set tbls. strncmp_eq t pos (len + 1))
                   then c\<lparr>relevant := True\<rparr> else c))
         else if typ = 0
         then obind (mem_at s 1) (\<lambda>att. obind (mg_read_i32 (drop 2 s)) (\<lambda>len.
                if len < 0 then Undef
                else mg_chk_elems (nat len) (drop 6 s) tbls level 0 6 (c\<lparr>ktns := ktns c + 1\<rparr>)))
         else if k_vec_case typ
         then obind (mg_read_vec_OLD typ (drop 1 s)) (\<lambda>n. Ret (1 + n, c\<lparr>ktns := ktns c + 1\<rparr>))
         else if typ = XT
         then obind (mg_chk_match_and_get_len (drop 2 s) tbls level 0 c) (\<lambda>(n, c1). Ret (2 + n, c1))
         else if typ = XD
         then obind (mg_chk_match_and_get_len (drop 1 s) tbls level 0 c) (\<lambda>(n1, c1).
              obind (mg_chk_match_and_get_len (drop (1 + n1) s) tbls level 1 c1) (\<lambda>(n2, c2).
                Ret (1 + n1 + n2, c2)))
         else Throw Abort))"
| "mg_chk_elems 0 t tbls level i off c = Ret (off, c)"
| "mg_chk_elems (Suc n) t tbls level i off c =
     obind (mg_chk_match_and_get_len t tbls level i c) (\<lambda>(eln, c1).
       mg_chk_elems n (drop eln t) tbls level (i + 1) (off + eln) c1)"
  by pat_completeness auto
termination
  by (relation "inv_image (less_than <*lex*> less_than <*lex*> less_than)
      (\<lambda>x. case x of Inl (s, tbls, lvl, index, c) \<Rightarrow> (length s, 0, 0)
         | Inr (n, t, tbls, level, i, off, c) \<Rightarrow> (length t, 1, n))")
    (auto simp: mem_at_def mg_read_i32_def mem_read_def split: if_splits)

declare mg_chk_match_and_get_len.simps [simp del]

definition mg_chk_msg :: "bytes \<Rightarrow> bytes list \<Rightarrow> (nat \<times> chk) outcome" where
  "mg_chk_msg s tbls = mg_chk_match_and_get_len s tbls (- 1) 0 \<lparr>relevant = False, ktns = 0\<rparr>"

section \<open>Building and evaluating a message\<close>

function mg_reify_msg :: "'k kapi \<Rightarrow> bytes \<Rightarrow> (nat \<times> 'k) outcome"
  and mg_reify_elems :: "'k kapi \<Rightarrow> nat \<Rightarrow> bytes \<Rightarrow> (nat \<times> 'k list) outcome" where
  "mg_reify_msg api s =
     obind (mem_at s 0) (\<lambda>b. let typ = sint b in
       if k_width (- typ) \<noteq> None
       then let w = the (k_width (- typ))
            in obind (mem_read (drop 1 s) w) (\<lambda>d.
                 Ret (1 + w, if typ = - UU then api_ku api d else api_ka api typ d))
       else if typ = - KS
       then let pos = drop 1 s
            in obind (mem_strlen pos) (\<lambda>len. Ret (1 + len + 1, api_ks api (take len pos)))
       else if typ = 0
       then obind (mem_at s 1) (\<lambda>att. obind (mg_read_i32 (drop 2 s)) (\<lambda>len.
              if len < 0 then Undef
              else obind (mg_reify_elems api (nat len) (drop 6 s)) (\<lambda>(n, ks).
                     Ret (6 + n, api_ktn_list api att ks))))
       else if k_vec_case typ
       then obind (mg_read_vec api typ (drop 1 s)) (\<lambda>(n, k). Ret (1 + n, k))
       else if typ = XT
       then obind (mg_reify_msg api (drop 2 s)) (\<lambda>(n, dct). Ret (2 + n, api_xT api dct))
       else if typ = XD
       then obind (mg_reify_msg api (drop 1 s)) (\<lambda>(n1, kys).
            obind (mg_reify_msg api (drop (1 + n1) s)) (\<lambda>(n2, vls).
              Ret (1 + n1 + n2, api_xD api kys vls)))
       else Throw Abort)"
| "mg_reify_elems api 0 t = Ret (0, [])"
| "mg_reify_elems api (Suc n) t =
     obind (mg_reify_msg api t) (\<lambda>(eln, k).
     obind (mg_reify_elems api n (drop eln t)) (\<lambda>(off, ks). Ret (eln + off, k # ks)))"
  by pat_completeness auto
termination
  by (relation "inv_image (less_than <*lex*> less_than <*lex*> less_than)
      (\<lambda>x. case x of Inl (api, s) \<Rightarrow> (length s, 0, 0)
         | Inr (api, n, t) \<Rightarrow> (length t, 1, n))")
    (auto simp: mem_at_def mg_read_i32_def mem_read_def split: if_splits)

declare mg_reify_msg.simps [simp del]

text \<open>\<open>mg_eval_msg\<close> returns 0 whatever the evaluation does, so \<open>mg_replay_msgs\<close> never exits.\<close>

definition mg_eval_msg :: "'k kapi \<Rightarrow> ('k \<Rightarrow> 'w \<Rightarrow> 'w) \<Rightarrow> bytes \<Rightarrow> 'w \<Rightarrow> (int \<times> 'w) outcome" where
  "mg_eval_msg api ev s w = obind (mg_reify_msg api s) (\<lambda>(n, msg). Ret (0, ev msg w))"

lemma mg_chk_elems_mono: "mg_chk_elems k t tbls level i off c = Ret (n, c') \<Longrightarrow> off \<le> n"
proof (induction k arbitrary: t i off c)
  case (Suc k)
  then show ?case by (fastforce dest: add_leD1)
qed simp

lemma mg_chk_pos: "mg_chk_match_and_get_len s tbls lvl index c = Ret (n, c') \<Longrightarrow> 0 < n"
  by (subst (asm) mg_chk_match_and_get_len.simps)
    (auto simp: Let_def split: if_splits prod.splits dest!: mg_chk_elems_mono)

function mg_replay_msgs :: "'k kapi \<Rightarrow> ('k \<Rightarrow> 'w \<Rightarrow> 'w) \<Rightarrow> bytes \<Rightarrow> nat \<Rightarrow> nat \<Rightarrow> bytes list \<Rightarrow>
    nat \<Rightarrow> nat \<Rightarrow> 'w \<Rightarrow> (nat \<times> nat \<times> 'w) outcome" where
  "mg_replay_msgs api ev m off sz tbls num_msgs leak w =
     obind (mg_chk_msg (drop off m) tbls) (\<lambda>(len, c).
     obind (if relevant c
            then obind (mg_eval_msg api ev (drop off m) w) (\<lambda>(err, w1).
                   if err = - 1 then Throw Abort else Ret (num_msgs + 1, w1))
            else Ret (num_msgs, w)) (\<lambda>(num1, w1).
       if off + len < sz
       then mg_replay_msgs api ev m (off + len) sz tbls num1 (leak + ktns c) w1
       else Ret (num1, leak + ktns c, w1)))"
  by pat_completeness auto
termination
  by (relation "measure (\<lambda>(api, ev, m, off, sz, tbls, num_msgs, leak, w). sz - off)")
    (auto simp: mg_chk_msg_def dest!: mg_chk_pos)

declare mg_replay_msgs.simps [simp del]

section \<open>Wire images\<close>

text \<open>The objects the tool knows: no guid vectors, functions, primitives or projections.\<close>

fun lf_known :: "kobj \<Rightarrow> bool" and lf_known_list :: "kobj list \<Rightarrow> bool" and lf_known_opt :: "kobj option \<Rightarrow> bool" where
  "lf_known (KdbAtom a) = True"
| "lf_known (KdbSymbolAtom val) = True"
| "lf_known (KdbVector v) = (vec_typ v \<noteq> GUID_VECTOR)"
| "lf_known (KdbSymbolVector v) = True"
| "lf_known (KdbList attr cap xs) = lf_known_list xs"
| "lf_known (KdbTable cols vals) = (lf_known_opt cols \<and> lf_known_opt vals)"
| "lf_known (KdbDict keys vals) = (lf_known_opt keys \<and> lf_known_opt vals)"
| "lf_known (KdbException msg) = False"
| "lf_known (KdbFunction v) = False"
| "lf_known (KdbUnaryPrimitive v) = False"
| "lf_known (KdbBinaryPrimitive v) = False"
| "lf_known (KdbTernaryPrimitive v) = False"
| "lf_known (KdbProjection cap xs) = False"
| "lf_known_list [] = True"
| "lf_known_list (x # xs) = (lf_known x \<and> lf_known_list xs)"
| "lf_known_opt None = False"
| "lf_known_opt (Some x) = lf_known x"

text \<open>The objects of the C API that an object is built of, and the number of calls of \<open>ktn\<close>.\<close>

fun kview :: "'k kapi \<Rightarrow> kobj \<Rightarrow> 'k" and kview_list :: "'k kapi \<Rightarrow> kobj list \<Rightarrow> 'k list"
  and kview_opt :: "'k kapi \<Rightarrow> kobj option \<Rightarrow> 'k" where
  "kview api (KdbAtom a) =
     (if atom_typ a = GUID_ATOM then api_ku api (atom_mem a)
      else api_ka api (kdb_type_code (atom_typ a)) (atom_mem a))"
| "kview api (KdbSymbolAtom val) = api_ks api val"
| "kview api (KdbVector v) = api_ktn api (kdb_type_code (vec_typ v)) (vec_attr v) (kvec_mem v)"
| "kview api (KdbSymbolVector v) = api_ktn_syms api (sv_attr v) (sv_vals v)"
| "kview api (KdbList attr cap xs) = api_ktn_list api attr (kview_list api xs)"
| "kview api (KdbTable cols vals) = api_xT api (api_xD api (kview_opt api cols) (kview_opt api vals))"
| "kview api (KdbDict keys vals) = api_xD api (kview_opt api keys) (kview_opt api vals)"
| "kview api _ = api_ks api []"
| "kview_list api [] = []"
| "kview_list api (x # xs) = kview api x # kview_list api xs"
| "kview_opt api None = api_ks api []"
| "kview_opt api (Some x) = kview api x"

fun lf_ktns :: "kobj \<Rightarrow> nat" and lf_ktns_list :: "kobj list \<Rightarrow> nat" and lf_ktns_opt :: "kobj option \<Rightarrow> nat" where
  "lf_ktns (KdbVector v) = 1"
| "lf_ktns (KdbSymbolVector v) = 1"
| "lf_ktns (KdbList attr cap xs) = 1 + lf_ktns_list xs"
| "lf_ktns (KdbTable cols vals) = lf_ktns_opt cols + lf_ktns_opt vals"
| "lf_ktns (KdbDict keys vals) = lf_ktns_opt keys + lf_ktns_opt vals"
| "lf_ktns _ = 0"
| "lf_ktns_list [] = 0"
| "lf_ktns_list (x # xs) = lf_ktns x + lf_ktns_list xs"
| "lf_ktns_opt None = 0"
| "lf_ktns_opt (Some x) = lf_ktns x"

text \<open>The table a message is about: the symbol in second place of a list, or the value of a
  dictionary that is a symbol.\<close>

fun msg_table :: "kobj \<Rightarrow> bytes option" where
  "msg_table (KdbList attr cap (x # KdbSymbolAtom t # xs)) = Some t"
| "msg_table (KdbDict keys (Some (KdbSymbolAtom t))) = Some t"
| "msg_table _ = None"

text \<open>What the recursion notices at a level and an index.\<close>

fun lf_hit :: "bytes list \<Rightarrow> int \<Rightarrow> int \<Rightarrow> kobj \<Rightarrow> bool"
  and lf_hit_list :: "bytes list \<Rightarrow> int \<Rightarrow> int \<Rightarrow> kobj list \<Rightarrow> bool"
  and lf_hit_opt :: "bytes list \<Rightarrow> int \<Rightarrow> int \<Rightarrow> kobj option \<Rightarrow> bool" where
  "lf_hit tbls l i (KdbSymbolAtom t) = (l = 1 \<and> i = 1 \<and> t \<in> set tbls)"
| "lf_hit tbls l i (KdbList attr cap xs) = lf_hit_list tbls (l + 1) 0 xs"
| "lf_hit tbls l i (KdbTable cols vals) = (lf_hit_opt tbls (l + 2) 0 cols \<or> lf_hit_opt tbls (l + 2) 1 vals)"
| "lf_hit tbls l i (KdbDict keys vals) = (lf_hit_opt tbls (l + 1) 0 keys \<or> lf_hit_opt tbls (l + 1) 1 vals)"
| "lf_hit tbls l i _ = False"
| "lf_hit_list tbls l i [] = False"
| "lf_hit_list tbls l i (x # xs) = (lf_hit tbls l i x \<or> lf_hit_list tbls l (i + 1) xs)"
| "lf_hit_opt tbls l i None = False"
| "lf_hit_opt tbls l i (Some x) = lf_hit tbls l i x"

lemma lf_hit_deep:
  "1 < l \<Longrightarrow> \<not> lf_hit tbls l i x"
  "1 < l \<Longrightarrow> \<not> lf_hit_list tbls l i xs"
  "1 < l \<Longrightarrow> \<not> lf_hit_opt tbls l i p"
  by (induction tbls l i x and tbls l i xs and tbls l i p rule: lf_hit_lf_hit_list_lf_hit_opt.induct) auto

lemma lf_hit_level_1: "lf_hit tbls 1 i x \<longleftrightarrow> i = 1 \<and> (\<exists>t \<in> set tbls. x = KdbSymbolAtom t)"
  by (cases x) (auto simp: lf_hit_deep)

lemma lf_hit_list_level_1: "1 < i \<Longrightarrow> \<not> lf_hit_list tbls 1 i xs"
  by (induction xs arbitrary: i) (auto simp: lf_hit_level_1)

lemma lf_hit_opt_level_1: "lf_hit_opt tbls 1 i p \<longleftrightarrow> i = 1 \<and> (\<exists>t \<in> set tbls. p = Some (KdbSymbolAtom t))"
  by (cases p) (auto simp: lf_hit_level_1)

lemma lf_hit_top: "lf_hit tbls 0 0 x \<longleftrightarrow> (\<exists>t \<in> set tbls. msg_table x = Some t)"
  by (cases x rule: msg_table.cases)
    (auto simp: lf_hit_level_1 lf_hit_opt_level_1 lf_hit_list_level_1 lf_hit_deep)

named_theorems lf_simps \<open>evaluation of the tool's functions on an image\<close>

lemma lf_mem [lf_simps]:
  "mem_at (c # m) 0 = Ret c" "mem_at (c # d # m) 1 = Ret d" "mem_at (c # d # m) (Suc 0) = Ret d"
  "length u = n \<Longrightarrow> mem_read (u @ m) n = Ret u"
  by (auto simp: mem_at_def mem_read_def)

lemma mg_read_i32_le [lf_simps]: "n < 2 ^ 31 \<Longrightarrow> mg_read_i32 (le 4 n @ m) = Ret (int n)"
  using of_mem_le_4 [of n] by (simp add: mg_read_i32_def lf_mem(4) del: le.simps)

lemma mem_strlen_sym [lf_simps]: "0 \<notin> set t \<Longrightarrow> mem_strlen (t @ 0 # m) = Ret (length t)"
  by (simp add: mem_strlen_def takeWhile_append)

lemma take_all_eq: "length u = n \<Longrightarrow> take n u = u"
  by simp

lemma strncmp_eq_sym:
  assumes "0 \<notin> set t" "0 \<notin> set u"
  shows "strncmp_eq u (t @ 0 # m) (Suc (length t)) \<longleftrightarrow> u = t"
proof -
  have "take (Suc (length t)) (u @ [0]) = t @ [0] \<longleftrightarrow> u = t"
  proof (cases "length u \<le> length t")
    case False
    then obtain x y where u: "u = x @ y" "length x = Suc (length t)"
      using append_take_drop_id [of "Suc (length t)" u] by (metis Suc_leI length_take min_absorb2 not_le)
    then have "take (Suc (length t)) (u @ [0]) = x" by simp
    moreover have "x \<noteq> t @ [0]" using assms(2) u(1) by auto
    ultimately show ?thesis using False by auto
  qed simp
  then show ?thesis by (simp add: strncmp_eq_def)
qed

lemma lf_syms_vals:
  assumes "\<forall>v \<in> set vals. 0 \<notin> set v"
  shows "lf_syms (length vals) (concat (map (\<lambda>v. v @ [0]) vals) @ m) =
    Ret (length (concat (map (\<lambda>v. v @ [0]) vals)), vals)"
  using assms
proof (induction vals)
  case (Cons v vals)
  then show ?case
    using mem_strlen_sym [of v "concat (map (\<lambda>v. v @ [0]) vals) @ m"] by simp
qed simp

lemma k_width_atom:
  "k_width (- kdb_type_code (atom_typ a)) = Some (length (atom_mem a))"
  "kdb_type_code (atom_typ a) = - 2 \<longleftrightarrow> atom_typ a = GUID_ATOM"
  by (cases a; simp add: k_width_def)+

lemma k_width_vec:
  "k_width (kdb_type_code (vec_typ v)) = Some (kvec_width v)"
  "k_width (- kdb_type_code (vec_typ v)) = None"
  "kdb_type_code (vec_typ v) \<noteq> - 11" "kdb_type_code (vec_typ v) \<noteq> 0"
  "vec_typ v \<noteq> GUID_VECTOR \<Longrightarrow> k_vec_case (kdb_type_code (vec_typ v))"
  by (cases v; simp add: k_width_def k_vec_case_def)+

lemma k_width_other [lf_simps]:
  "k_width 0 = None" "k_width 11 = None" "k_width (- 11) = None" "k_width (- 98) = None" "k_width (- 99) = None"
  "k_vec_case 11" "\<not> k_vec_case 98" "\<not> k_vec_case 99"
  by (simp_all add: k_width_def k_vec_case_def)

lemma lf_vec_kvec:
  assumes "kvec_count v < 2 ^ 31" "kvec_count v * kvec_width v < 2 ^ 31"
  shows "lf_vec (kdb_type_code (vec_typ v)) (vec_attr v # le 4 (kvec_count v) @ kvec_mem v @ m) =
    Ret (5 + kvec_count v * kvec_width v, vec_attr v, Inl (kvec_mem v))"
proof -
  have "int (kvec_count v) * int (kvec_width v) < 2 ^ 31"
    using assms(2) by (metis of_nat_less_iff of_nat_mult of_nat_numeral of_nat_power)
  then show ?thesis
    using assms(1) by (simp add: lf_vec_def lf_simps k_width_vec del: le.simps)
qed

lemma lf_vec_symvec:
  assumes "sv_can v"
  shows "lf_vec 11 (sv_attr v # le 4 (length (sv_locs v)) @ sv_data v @ m) =
    Ret (5 + length (sv_data v), sv_attr v, Inr (sv_vals v))"
proof -
  from assms obtain vals where v: "v = sv_of_vals vals (sv_attr v)" "sv_vals v = vals"
    "length vals < 2 ^ 31" "\<forall>s \<in> set vals. 0 \<notin> set s"
    by (auto elim: sv_canE)
  then have d: "sv_data v = concat (map (\<lambda>s. s @ [0]) vals)" "length (sv_locs v) = length vals"
    by (metis sv_of_vals_sel(4), metis sv_of_vals_sel(3))
  show ?thesis
    using lf_syms_vals [OF v(4), of m] v(2,3) by (simp add: lf_vec_def lf_simps d del: le.simps)
qed

definition chk_add :: "chk \<Rightarrow> bool \<Rightarrow> nat \<Rightarrow> chk" where
  "chk_add c h n = c\<lparr>relevant := relevant c \<or> h, ktns := ktns c + n\<rparr>"

lemma chk_add_simps [simp]:
  "chk_add (chk_add c h n) h' n' = chk_add c (h \<or> h') (n + n')"
  "relevant (chk_add c h n) = (relevant c \<or> h)" "ktns (chk_add c h n) = ktns c + n"
  by (simp_all add: chk_add_def)

lemma chk_add_0: "chk_add c False 0 = c"
  by (simp add: chk_add_def)

lemma chk_atom:
  "mg_chk_match_and_get_len (enc (KdbAtom a) @ rest) tbls lvl i c = Ret (length (enc (KdbAtom a)), c)"
  using payload_atom_typ [of a]
  by (simp add: mg_chk_match_and_get_len.simps vec_hdr_def lf_simps sint_i8typ k_width_atom)

lemma chk_sym:
  assumes "0 \<notin> set t" "\<forall>u \<in> set tbls. 0 \<notin> set u"
  shows "mg_chk_match_and_get_len (enc (KdbSymbolAtom t) @ rest) tbls lvl i c =
    Ret (length t + 2, chk_add c (lf_hit tbls (lvl + 1) i (KdbSymbolAtom t)) 0)"
proof -
  have "(\<exists>u \<in> set tbls. strncmp_eq u (t @ 0 # rest) (Suc (length t))) \<longleftrightarrow> t \<in> set tbls"
    using assms by (auto simp: strncmp_eq_sym)
  then show ?thesis
    using assms(1)
    by (cases c) (auto simp add: mg_chk_match_and_get_len.simps vec_hdr_def lf_simps sint_i8typ chk_add_def)
qed

lemma chk_vec:
  assumes "kcan (KdbVector v)" "lf_known (KdbVector v)" "length (enc (KdbVector v)) < 2 ^ 31"
  shows "mg_chk_match_and_get_len (enc (KdbVector v) @ rest) tbls lvl i c =
    Ret (length (enc (KdbVector v)), chk_add c False 1)"
  using assms payload_vec_typ [of v]
  by (simp add: mg_chk_match_and_get_len.simps vec_hdr_def lf_simps sint_i8typ k_width_vec lf_vec_kvec
      mg_read_vec_OLD_def chk_add_def del: le.simps)

lemma chk_symvec:
  assumes "sv_can v"
  shows "mg_chk_match_and_get_len (enc (KdbSymbolVector v) @ rest) tbls lvl i c =
    Ret (length (enc (KdbSymbolVector v)), chk_add c False 1)"
  using lf_vec_symvec [OF assms]
  by (simp add: mg_chk_match_and_get_len.simps vec_hdr_def lf_simps sint_i8typ
      mg_read_vec_OLD_def chk_add_def del: le.simps)

lemma chk_list:
  assumes "mg_chk_elems (length xs) (enc_list xs @ rest) tbls (lvl + 1) 0 6 (chk_add c False 1) = r" "length xs < 2 ^ 31"
  shows "mg_chk_match_and_get_len (enc (KdbList attr cap xs) @ rest) tbls lvl i c = r"
  using assms
  by (simp add: mg_chk_match_and_get_len.simps vec_hdr_def lf_simps sint_i8typ chk_add_def del: le.simps)

lemma chk_dict:
  assumes "mg_chk_match_and_get_len (enc x @ enc y @ rest) tbls (lvl + 1) 0 c = Ret (length (enc x), c1)"
    "mg_chk_match_and_get_len (enc y @ rest) tbls (lvl + 1) 1 c1 = Ret (length (enc y), c2)"
  shows "mg_chk_match_and_get_len (i8typ DICT # enc x @ enc y @ rest) tbls lvl i c =
    Ret (1 + length (enc x) + length (enc y), c2)"
  using assms
  by (simp add: mg_chk_match_and_get_len.simps [of "_ # _"] lf_simps sint_i8typ)

lemma chk_table:
  assumes "mg_chk_match_and_get_len (i8typ DICT # s) tbls (lvl + 1) 0 c = Ret (n, c1)"
  shows "mg_chk_match_and_get_len (i8typ TABLE # a # i8typ DICT # s) tbls lvl i c = Ret (2 + n, c1)"
  using assms
  by (simp add: mg_chk_match_and_get_len.simps [of "i8typ TABLE # _"] lf_simps sint_i8typ)

lemma chk_known:
  assumes "\<forall>u \<in> set tbls. 0 \<notin> set u"
  shows "kcan x \<Longrightarrow> lf_known x \<Longrightarrow> length (enc x) < 2 ^ 31 \<Longrightarrow>
     mg_chk_match_and_get_len (enc x @ rest) tbls lvl i c =
       Ret (length (enc x), chk_add c (lf_hit tbls (lvl + 1) i x) (lf_ktns x))"
  "kcan_list xs \<Longrightarrow> lf_known_list xs \<Longrightarrow> length (enc_list xs) < 2 ^ 31 \<Longrightarrow>
     mg_chk_elems (length xs) (enc_list xs @ rest) tbls lvl i off c =
       Ret (off + length (enc_list xs), chk_add c (lf_hit_list tbls (lvl + 1) i xs) (lf_ktns_list xs))"
  "kcan_opt p \<Longrightarrow> lf_known_opt p \<Longrightarrow> p = Some y \<Longrightarrow> length (enc y) < 2 ^ 31 \<Longrightarrow>
     mg_chk_match_and_get_len (enc y @ rest) tbls lvl i c =
       Ret (length (enc y), chk_add c (lf_hit_opt tbls (lvl + 1) i p) (lf_ktns_opt p))"
proof (induction x and xs and p arbitrary: rest lvl i c and rest lvl i off c and y rest lvl i c
    rule: lf_known_lf_known_list_lf_known_opt.induct)
  case (1 a)
  then show ?case by (simp only: chk_atom lf_hit.simps lf_ktns.simps chk_add_0)
next
  case (2 val)
  then show ?case using chk_sym [OF _ assms] by simp
next
  case (3 v)
  then show ?case by (simp only: chk_vec lf_hit.simps lf_ktns.simps)
next
  case (4 v)
  then show ?case using chk_symvec by simp
next
  case (5 attr cap xs)
  then have "mg_chk_elems (length xs) (enc_list xs @ rest) tbls (lvl + 1) 0 6 (chk_add c False 1) =
      Ret (6 + length (enc_list xs), chk_add c (lf_hit_list tbls (lvl + 2) 0 xs) (1 + lf_ktns_list xs))"
    by (simp add: vec_hdr_def add.commute del: le.simps)
  then show ?case
    using 5 by (subst chk_list) (simp_all add: vec_hdr_def add.commute del: le.simps)
next
  case (6 cols vals)
  then obtain x y where xy: "cols = Some x" "vals = Some y"
    by (cases cols; cases vals) auto
  then have len: "length (enc x) < 2 ^ 31" "length (enc y) < 2 ^ 31"
    "kcan_opt cols" "kcan_opt vals" "lf_known_opt cols" "lf_known_opt vals"
    using 6 by (simp_all add: vec_hdr_def)
  note d = chk_dict [OF "6.IH"(1) [OF len(3,5) xy(1) len(1)] "6.IH"(2) [OF len(4,6) xy(2) len(2)]]
  show ?case
    using chk_table [OF d, of "ATTR_NONE"] xy
    by (simp add: vec_hdr_def algebra_simps)
next
  case (7 keys vals)
  then obtain x y where xy: "keys = Some x" "vals = Some y"
    by (cases keys; cases vals) auto
  then have len: "length (enc x) < 2 ^ 31" "length (enc y) < 2 ^ 31"
    "kcan_opt keys" "kcan_opt vals" "lf_known_opt keys" "lf_known_opt vals"
    using 7 by (simp_all add: vec_hdr_def)
  show ?case
    using chk_dict [OF "7.IH"(1) [OF len(3,5) xy(1) len(1)] "7.IH"(2) [OF len(4,6) xy(2) len(2)]] xy
    by (simp add: vec_hdr_def algebra_simps)
next
  case (15 x xs)
  then show ?case by (simp add: algebra_simps)
qed (simp_all add: chk_add_0)

lemma mg_chk_msg_known:
  assumes "\<forall>u \<in> set tbls. 0 \<notin> set u" "kcan x" "lf_known x" "length (enc x) < 2 ^ 31"
  shows "mg_chk_msg (enc x @ rest) tbls =
    Ret (length (enc x), \<lparr>relevant = (\<exists>t \<in> set tbls. msg_table x = Some t), ktns = lf_ktns x\<rparr>)"
  using chk_known(1) [OF assms] by (simp add: mg_chk_msg_def lf_hit_top chk_add_def)

lemma reify_dict:
  assumes "mg_reify_msg api (enc x @ enc y @ rest) = Ret (length (enc x), kx)"
    "mg_reify_msg api (enc y @ rest) = Ret (length (enc y), ky)"
  shows "mg_reify_msg api (i8typ DICT # enc x @ enc y @ rest) =
    Ret (1 + length (enc x) + length (enc y), api_xD api kx ky)"
  using assms by (simp add: mg_reify_msg.simps [of api "_ # _"] lf_simps sint_i8typ)

lemma reify_known:
  "kcan x \<Longrightarrow> lf_known x \<Longrightarrow> length (enc x) < 2 ^ 31 \<Longrightarrow>
     mg_reify_msg api (enc x @ rest) = Ret (length (enc x), kview api x)"
  "kcan_list xs \<Longrightarrow> lf_known_list xs \<Longrightarrow> length (enc_list xs) < 2 ^ 31 \<Longrightarrow>
     mg_reify_elems api (length xs) (enc_list xs @ rest) = Ret (length (enc_list xs), kview_list api xs)"
  "kcan_opt p \<Longrightarrow> lf_known_opt p \<Longrightarrow> p = Some y \<Longrightarrow> length (enc y) < 2 ^ 31 \<Longrightarrow>
     mg_reify_msg api (enc y @ rest) = Ret (length (enc y), kview_opt api p)"
proof (induction x and xs and p arbitrary: rest and rest and y rest rule: lf_known_lf_known_list_lf_known_opt.induct)
  case (1 a)
  then show ?case
    using payload_atom_typ [of a]
    by (simp add: mg_reify_msg.simps lf_simps sint_i8typ k_width_atom)
next
  case (2 val)
  then show ?case by (simp add: mg_reify_msg.simps lf_simps sint_i8typ)
next
  case (3 v)
  then show ?case
    using payload_vec_typ [of v]
    by (simp add: mg_reify_msg.simps vec_hdr_def lf_simps sint_i8typ k_width_vec lf_vec_kvec mg_read_vec_def
        del: le.simps)
next
  case (4 v)
  then show ?case
    using lf_vec_symvec [of v rest]
    by (simp add: mg_reify_msg.simps vec_hdr_def lf_simps sint_i8typ mg_read_vec_def del: le.simps)
next
  case (5 attr cap xs)
  then show ?case
    by (simp add: mg_reify_msg.simps vec_hdr_def lf_simps sint_i8typ del: le.simps)
next
  case (6 cols vals)
  then obtain x y where xy: "cols = Some x" "vals = Some y"
    by (cases cols; cases vals) auto
  then have len: "length (enc x) < 2 ^ 31" "length (enc y) < 2 ^ 31"
    "kcan_opt cols" "kcan_opt vals" "lf_known_opt cols" "lf_known_opt vals"
    using 6 by simp_all
  have "mg_reify_msg api (i8typ DICT # enc x @ enc y @ rest) =
      Ret (1 + length (enc x) + length (enc y), api_xD api (kview_opt api cols) (kview_opt api vals))"
    by (rule reify_dict [OF "6.IH"(1) [OF len(3,5) xy(1) len(1)] "6.IH"(2) [OF len(4,6) xy(2) len(2)]])
  then show ?case
    using xy by (simp add: mg_reify_msg.simps [of api "i8typ TABLE # _"] lf_simps sint_i8typ)
next
  case (7 keys vals)
  then obtain x y where xy: "keys = Some x" "vals = Some y"
    by (cases keys; cases vals) auto
  then have len: "length (enc x) < 2 ^ 31" "length (enc y) < 2 ^ 31"
    "kcan_opt keys" "kcan_opt vals" "lf_known_opt keys" "lf_known_opt vals"
    using 7 by simp_all
  show ?case
    using reify_dict [OF "7.IH"(1) [OF len(3,5) xy(1) len(1)] "7.IH"(2) [OF len(4,6) xy(2) len(2)]] xy by simp
next
  case (15 x xs)
  then show ?case by simp
qed simp_all

text \<open>A journal of known messages.\<close>

definition lf_objects :: "kobj list \<Rightarrow> bool" where
  "lf_objects xs \<longleftrightarrow> (\<forall>x \<in> set xs. kcan x \<and> lf_known x \<and> length (enc x) < 2 ^ 31)"

definition lf_wanted :: "bytes list \<Rightarrow> kobj \<Rightarrow> bool" where
  "lf_wanted tbls x \<longleftrightarrow> (\<exists>t \<in> set tbls. msg_table x = Some t)"

lemma replay_known:
  assumes "\<forall>u \<in> set tbls. 0 \<notin> set u" "lf_objects xs" "xs \<noteq> []"
  shows "mg_replay_msgs api ev (pre @ enc_list xs @ pad) (length pre) (length pre + length (enc_list xs)) tbls n k w =
    Ret (n + length (filter (lf_wanted tbls) xs), k + sum_list (map lf_ktns xs),
      fold (\<lambda>x. ev (kview api x)) (filter (lf_wanted tbls) xs) w)"
  using assms(2,3)
proof (induction xs arbitrary: pre n k w)
  case (Cons x xs)
  have x: "kcan x" "lf_known x" "length (enc x) < 2 ^ 31" and xs: "lf_objects xs"
    using Cons.prems(1) by (simp_all add: lf_objects_def)
  have w: "(\<exists>t \<in> set tbls. msg_table x = Some t) = lf_wanted tbls x"
    by (simp add: lf_wanted_def)
  note chk = mg_chk_msg_known [OF assms(1) x, of "enc_list xs @ pad", unfolded w]
  note msg = reify_known(1) [OF x, of api "enc_list xs @ pad"]
  show ?case
  proof (cases "xs = []")
    case True
    then show ?thesis
      using chk msg by (subst mg_replay_msgs.simps) (simp add: mg_eval_msg_def)
  next
    case False
    then have "0 < length (enc_list xs)"
      by (cases xs) (use length_enc_pos in auto)
    then show ?thesis
      using chk msg Cons.IH [OF xs False, of "pre @ enc x"]
      by (subst mg_replay_msgs.simps) (simp add: mg_eval_msg_def add.assoc)
  qed
qed simp

section \<open>The entry point\<close>

text \<open>The calls of the operating system; \<open>stat\<close> gives the mode and the size of the file, and
  \<open>mmap\<close> the memory from the mapped address on, to the end of its last page.\<close>

datatype lf_call = Stat | OpenSrc | ReadHdr int | MmapSrc int nat | Clock | Value | MunmapSrc nat | CloseSrc int

record 'w lf_os =
  lf_stat :: "bytes \<Rightarrow> 'w \<Rightarrow> (int + u32 \<times> nat) \<times> 'w"
  lf_open :: "bytes \<Rightarrow> 'w \<Rightarrow> (int + int) \<times> 'w"
  lf_read :: "int \<Rightarrow> 'w \<Rightarrow> (int + nat) \<times> 'w"
  lf_mmap :: "int \<Rightarrow> nat \<Rightarrow> 'w \<Rightarrow> (int + bytes) \<times> 'w"
  lf_clock :: "'w \<Rightarrow> bool \<times> 'w"
  lf_munmap :: "nat \<Rightarrow> 'w \<Rightarrow> unit \<times> 'w"
  lf_close :: "int \<Rightarrow> 'w \<Rightarrow> unit \<times> 'w"

datatype lf_result = Krr string | Kb

abbreviation S_IFMT :: u32 where "S_IFMT \<equiv> 0xF000"
abbreviation S_IFLNK :: u32 where "S_IFLNK \<equiv> 0xA000"
abbreviation S_IFREG :: u32 where "S_IFREG \<equiv> 0x8000"

type_synonym 'w lf_world = "('w, lf_call) logged"

definition mg_gettime :: "'w lf_os \<Rightarrow> 'w lf_world \<Rightarrow> 'w lf_world outcome" where
  "mg_gettime os w = (let (ok, w1) = sys Clock (lf_clock os) w in if ok then Ret w1 else Throw Abort)"

definition lf_fail :: "'w lf_os \<Rightarrow> int \<Rightarrow> string \<Rightarrow> 'w lf_world \<Rightarrow> lf_result \<times> 'w lf_world" where
  "lf_fail os fd err w = (let (u, w1) = sys (CloseSrc fd) (lf_close os fd) w in (Krr err, w1))"

text \<open>\<open>names_t\<close> is the type of \<open>tbl_names\<close>, \<open>path\<close> the symbol \<open>src_path\<close> with its colon. What the q
  code that checks \<open>src_path\<close> answers is not looked at.\<close>

definition mg_replay :: "'k kapi \<Rightarrow> ('k \<Rightarrow> 'w \<Rightarrow> 'w) \<Rightarrow> 'w lf_os \<Rightarrow> bytes \<Rightarrow> int \<Rightarrow> bytes list \<Rightarrow>
    'w lf_world \<Rightarrow> (lf_result \<times> 'w lf_world) outcome" where
  "mg_replay api ev os path names_t tbls w =
     (if names_t \<noteq> KS then Ret (Krr ''names.type'', w)
      else if path = [] then Undef
      else let (st, w1) = sys Stat (lf_stat os (tl path)) w
           in case st of
                Inl e \<Rightarrow> Ret (Krr ''stat.fail'', w1)
              | Inr (mode, sz) \<Rightarrow>
                  if S_IFLNK \<noteq> S_IFMT AND mode \<and> S_IFREG \<noteq> S_IFMT AND mode
                  then Ret (Krr ''src_path.filetype'', w1)
                  else let (op, w2) = sys OpenSrc (lf_open os (tl path)) w1
                       in case op of
                            Inl e \<Rightarrow> Ret (Krr ''open.src'', w2)
                          | Inr fd \<Rightarrow>
                              let (rd, w3) = sys (ReadHdr fd) (lf_read os fd) w2
                              in case rd of
                                   Inl e \<Rightarrow> Ret (lf_fail os fd ''read.src_header'' w3)
                                 | Inr nrd \<Rightarrow>
                                     let (mm, w4) = sys (MmapSrc fd sz) (lf_mmap os fd sz) w3
                                     in case mm of
                                          Inl e \<Rightarrow> Ret (lf_fail os fd ''mmap.src'' w4)
                                        | Inr src \<Rightarrow>
                                            obind (mg_gettime os w4) (\<lambda>w5.
                                            obind (mg_replay_msgs api
                                                     (\<lambda>k w. snd (sys Value (\<lambda>w. ((), ev k w)) w))
                                                     src 8 sz tbls 0 0 w5) (\<lambda>(num_msgs, leak, w6).
                                            obind (mg_gettime os w6) (\<lambda>w7.
                                            let (u, w8) = sys (MunmapSrc sz) (lf_munmap os sz) w7;
                                                (v, w9) = sys (CloseSrc fd) (lf_close os fd) w8
                                            in Ret (Kb, w9)))))"

lemma replay_inv:
  "mg_replay_msgs api ev m off sz tbls n k w = Ret (n', k', w') \<Longrightarrow> P w \<Longrightarrow>
    (\<And>k w. P w \<Longrightarrow> P (ev k w)) \<Longrightarrow> P w'"
proof (induction api ev m off sz tbls n k w arbitrary: n' k' w' rule: mg_replay_msgs.induct)
  case (1 api ev m off sz tbls n k w)
  from "1.prems"(1) obtain len c n1 w1 where
    c: "mg_chk_msg (drop off m) tbls = Ret (len, c)" and
    e: "(if relevant c then obind (mg_eval_msg api ev (drop off m) w) (\<lambda>(err, w1).
           if err = - 1 then Throw Abort else Ret (n + 1, w1)) else Ret (n, w)) = Ret (n1, w1)" and
    r: "(if off + len < sz then mg_replay_msgs api ev m (off + len) sz tbls n1 (k + ktns c) w1
         else Ret (n1, k + ktns c, w1)) = Ret (n', k', w')"
    by (subst (asm) mg_replay_msgs.simps) auto
  have "P w1" using e "1.prems"(2) 
    by (auto simp: mg_eval_msg_def split: if_splits intro: "1.prems"(3))
  then show ?case
    using r "1.IH" [OF c refl e refl] "1.prems"(3) by (auto split: if_splits)
qed

lemma unknown_aborts:
  assumes "\<forall>u \<in> set tbls. 0 \<notin> set u"
  shows "kcan x \<Longrightarrow> counted x \<Longrightarrow> \<not> lf_known x \<Longrightarrow> length (enc x) < 2 ^ 31 \<Longrightarrow>
     mg_chk_match_and_get_len (enc x @ rest) tbls lvl i c = Throw Abort"
  "kcan_list xs \<Longrightarrow> counted_list xs \<Longrightarrow> \<not> lf_known_list xs \<Longrightarrow> length (enc_list xs) < 2 ^ 31 \<Longrightarrow>
     mg_chk_elems (length xs) (enc_list xs @ rest) tbls lvl i off c = Throw Abort"
  "kcan_opt p \<Longrightarrow> counted_opt p \<Longrightarrow> \<not> lf_known_opt p \<Longrightarrow> p = Some y \<Longrightarrow> length (enc y) < 2 ^ 31 \<Longrightarrow>
     mg_chk_match_and_get_len (enc y @ rest) tbls lvl i c = Throw Abort"
proof (induction x and xs and p arbitrary: rest lvl i c and rest lvl i off c and y rest lvl i c
    rule: lf_known_lf_known_list_lf_known_opt.induct)
  case (3 v)
  then have "vec_typ v = GUID_VECTOR" by simp
  then show ?case
    by (simp add: mg_chk_match_and_get_len.simps vec_hdr_def lf_simps sint_i8typ k_width_def k_vec_case_def)
next
  case (5 attr cap xs)
  then have "mg_chk_elems (length xs) (enc_list xs @ rest) tbls (lvl + 1) 0 6 (chk_add c False 1) = Throw Abort"
    by simp
  then show ?case using 5(2-) by (intro chk_list) simp_all
next
  case (6 cols vals)
  then obtain x y where xy: "cols = Some x" "vals = Some y"
    by (cases cols; cases vals) auto
  note b = "6.prems" [unfolded xy]
  have "mg_chk_match_and_get_len (i8typ DICT # enc x @ enc y @ rest) tbls (lvl + 1) 0 c = Throw Abort"
  proof (cases "lf_known x")
    case True
    then show ?thesis
      using b "6.IH"(2) [of y rest "lvl + 2" 1] chk_known(1) [OF assms, of x "enc y @ rest" "lvl + 2" 0 c] xy
      by (simp add: mg_chk_match_and_get_len.simps [of "_ # _"] lf_simps sint_i8typ algebra_simps)
  next
    case False
    then show ?thesis
      using b "6.IH"(1) [of x "enc y @ rest" "lvl + 2" 0] xy
      by (simp add: mg_chk_match_and_get_len.simps [of "_ # _"] lf_simps sint_i8typ algebra_simps)
  qed
  then show ?case
    using xy by (simp add: mg_chk_match_and_get_len.simps [of "i8typ TABLE # _"] lf_simps sint_i8typ)
next
  case (7 keys vals)
  then obtain x y where xy: "keys = Some x" "vals = Some y"
    by (cases keys; cases vals) auto
  note b = "7.prems" [unfolded xy]
  show ?case
  proof (cases "lf_known x")
    case True
    then show ?thesis
      using b "7.IH"(2) [of y rest "lvl + 1" 1] chk_known(1) [OF assms, of x "enc y @ rest" "lvl + 1" 0 c] xy
      by (simp add: mg_chk_match_and_get_len.simps [of "_ # _"] lf_simps sint_i8typ)
  next
    case False
    then show ?thesis
      using b "7.IH"(1) [of x "enc y @ rest" "lvl + 1" 0] xy
      by (simp add: mg_chk_match_and_get_len.simps [of "_ # _"] lf_simps sint_i8typ)
  qed
next
  case (15 x xs)
  show ?case
  proof (cases "lf_known x")
    case True
    then show ?thesis
      using 15 chk_known(1) [OF assms, of x "enc_list xs @ rest" "lvl" i c] by simp
  next
    case False
    then show ?thesis using "15.IH"(1) "15.prems" by simp
  qed
qed simp_all

section \<open>Properties\<close>

text \<open>A system on which a journal opens, maps as \<open>src\<close>, and only evaluation changes the world.\<close>

definition lf_file :: "'w lf_os \<Rightarrow> bytes \<Rightarrow> int \<Rightarrow> nat \<Rightarrow> bytes \<Rightarrow> bool" where
  "lf_file os path fd sz src \<longleftrightarrow>
     lf_stat os path = (\<lambda>w. (Inr (S_IFREG, sz), w)) \<and> lf_open os path = (\<lambda>w. (Inr fd, w)) \<and>
     lf_read os fd = (\<lambda>w. (Inr 8, w)) \<and> lf_mmap os fd sz = (\<lambda>w. (Inr src, w)) \<and>
     lf_clock os = (\<lambda>w. (True, w)) \<and> lf_munmap os sz = Pair () \<and> lf_close os fd = Pair ()"

lemma fold_sys:
  "fold (\<lambda>x w. snd (sys c (\<lambda>w. ((), f x w)) w)) xs (w, log) = (fold f xs w, log @ replicate (length xs) c)"
  by (induction xs arbitrary: w log) (simp_all add: sys_def)

text \<open>C13. \<open>mg_replay\<close> on a journal of the types it knows evaluates, in order, exactly the messages about
  one of the given tables, as the objects their images stand for, and ends with the mapping released
  and the file closed.\<close>

theorem log_filter_replays:
  assumes "\<forall>u \<in> set tbls. 0 \<notin> set u" "lf_objects xs" "xs \<noteq> []" "length hdr = 8" "path \<noteq> []"
    and "sz = 8 + length (enc_list xs)" "lf_file os (tl path) fd sz (hdr @ enc_list xs @ pad)"
  shows "mg_replay api ev os path KS tbls (w, []) =
    Ret (Kb, fold (\<lambda>x. ev (kview api x)) (filter (lf_wanted tbls) xs) w,
      [Stat, OpenSrc, ReadHdr fd, MmapSrc fd sz, Clock] @
      replicate (length (filter (lf_wanted tbls) xs)) Value @ [Clock, MunmapSrc sz, CloseSrc fd])"
proof -
  have r: "mg_replay_msgs api e (hdr @ enc_list xs @ pad) 8 sz tbls 0 0 v =
      Ret (0 + length (filter (lf_wanted tbls) xs), 0 + sum_list (map lf_ktns xs),
        fold (\<lambda>x. e (kview api x)) (filter (lf_wanted tbls) xs) v)" for e and v :: "'a lf_world"
    using replay_known [OF assms(1-3), of api e hdr pad 0 0 v] assms(4,6) by simp
  have d: "S_IFLNK \<noteq> S_IFMT AND S_IFREG" "\<not> S_IFREG \<noteq> S_IFMT AND S_IFREG" by simp_all
  show ?thesis
    using assms(5,7)
    by (simp add: mg_replay_def mg_gettime_def lf_file_def sys_def [where c = Stat] sys_def [where c = OpenSrc]
        sys_def [where c = "ReadHdr _"] sys_def [where c = "MmapSrc _ _"] sys_def [where c = Clock]
        sys_def [where c = "MunmapSrc _"] sys_def [where c = "CloseSrc _"] r fold_sys)
qed

text \<open>The descriptors opened (read from) and closed, and the mappings released, in a log.\<close>

definition opened_fd :: "lf_call list \<Rightarrow> int list" where
  "opened_fd log = concat (map (\<lambda>c. case c of ReadHdr fd \<Rightarrow> [fd] | _ \<Rightarrow> []) log)"

definition closed_fd :: "lf_call list \<Rightarrow> int list" where
  "closed_fd log = concat (map (\<lambda>c. case c of CloseSrc fd \<Rightarrow> [fd] | _ \<Rightarrow> []) log)"

definition mapped :: "lf_call list \<Rightarrow> nat list" where
  "mapped log = concat (map (\<lambda>c. case c of MunmapSrc n \<Rightarrow> [n] | _ \<Rightarrow> []) log)"

lemma fd_simps [simp]:
  "opened_fd [] = []" "closed_fd [] = []" "mapped [] = []"
  "opened_fd (c # log) = (case c of ReadHdr fd \<Rightarrow> [fd] | _ \<Rightarrow> []) @ opened_fd log"
  "closed_fd (c # log) = (case c of CloseSrc fd \<Rightarrow> [fd] | _ \<Rightarrow> []) @ closed_fd log"
  "mapped (c # log) = (case c of MunmapSrc n \<Rightarrow> [n] | _ \<Rightarrow> []) @ mapped log"
  "opened_fd (l1 @ l2) = opened_fd l1 @ opened_fd l2" "closed_fd (l1 @ l2) = closed_fd l1 @ closed_fd l2"
  "mapped (l1 @ l2) = mapped l1 @ mapped l2"
  by (simp_all add: opened_fd_def closed_fd_def mapped_def)

lemma replay_log:
  assumes "mg_replay_msgs api (\<lambda>k w. snd (sys Value (\<lambda>w. ((), ev k w)) w)) m off sz tbls n k w = Ret (n', k', w')"
  shows "opened_fd (snd w') = opened_fd (snd w) \<and> closed_fd (snd w') = closed_fd (snd w) \<and> mapped (snd w') = mapped (snd w)"
  by (rule replay_inv [OF assms, where P = "\<lambda>v. opened_fd (snd v) = opened_fd (snd w) \<and>
        closed_fd (snd v) = closed_fd (snd w) \<and> mapped (snd v) = mapped (snd w)"])
    (simp_all add: sys_def split: prod.splits)

lemma sys_log: "snd (snd (sys c f w)) = snd w @ [c]" "snd (sys c f w) = (w1, log) \<Longrightarrow> log = snd w @ [c]"
  by (auto simp: sys_def split: prod.splits)

lemma gettime_log: "mg_gettime os w = Ret w1 \<Longrightarrow> snd w1 = snd w @ [Clock]"
  by (auto simp: mg_gettime_def case_prod_unfold Let_def sys_log(1) split: if_splits)

text \<open>Whatever the operating system answers and whatever is in the file, when \<open>mg_replay\<close> returns
  it has closed each descriptor it opened, once, and released the mapping exactly when it
  reports success.\<close>

theorem log_filter_closes:
  assumes "mg_replay api ev os path names_t tbls (w, []) = Ret (r, w', log)"
  shows "closed_fd log = opened_fd log \<and> (length (mapped log) = (if r = Kb then 1 else 0))"
  using assms
  by (auto simp: mg_replay_def lf_fail_def case_prod_unfold Let_def sys_log(1) split: sum.splits if_splits
      dest!: sys_log(2) gettime_log replay_log)

text \<open>A guid vector anywhere in a message ends the process: \<open>mg_read_vec\<close> knows the type, but
  the switch before it does not list it. Every other vector, list, table and dictionary that
  \<open>ipcPayloadLen\<close> measures is known to the tool.\<close>

theorem log_filter_guid_aborts:
  assumes "\<forall>u \<in> set tbls. 0 \<notin> set u" "kcan x" "counted x" "length (enc x) < 2 ^ 31" "\<not> lf_known x"
  shows "mg_chk_msg (enc x @ rest) tbls = Throw Abort"
  unfolding mg_chk_msg_def by (rule unknown_aborts(1) [OF assms(1,2,3,5,4)])

section \<open>Witnesses\<close>

text \<open>An API whose objects are flat byte strings, a world that is the list of the objects
  evaluated, and a file with an update of \<open>t\<close> and one of \<open>u\<close>.\<close>

definition flat_api :: "bytes kapi" where
  "flat_api = \<lparr>api_ka = \<lambda>typ b. b, api_ku = id, api_ks = id, api_ktn = \<lambda>typ att b. b,
     api_ktn_syms = \<lambda>att. concat, api_ktn_list = \<lambda>att. concat, api_xT = id, api_xD = (@)\<rparr>"

definition flat_os :: "bytes \<Rightarrow> nat \<Rightarrow> 'w lf_os" where
  "flat_os src sz = \<lparr>lf_stat = \<lambda>p w. (Inr (S_IFREG, sz), w), lf_open = \<lambda>p w. (Inr 3, w), lf_read = \<lambda>fd w. (Inr 8, w),
     lf_mmap = \<lambda>fd n w. (Inr src, w), lf_clock = \<lambda>w. (True, w), lf_munmap = \<lambda>n w. ((), w), lf_close = \<lambda>fd w. ((), w)\<rparr>"

lemma sample_lf: "lf_objects sample_jnl" "lf_wanted [[117]] (sample_upd 117)" "\<not> lf_wanted [[117]] (sample_upd 116)"
  "kview flat_api (sample_upd 117) = [102, 117, 1]"
  by (simp_all add: lf_objects_def sample_jnl_def sample_upd_facts)
    (simp_all add: sample_upd_def lf_wanted_def flat_api_def to_mem_def)

theorem log_filter_replays_witness:
  "\<exists>log. mg_replay flat_api (\<lambda>k w. w @ [k]) (flat_os (jnl_header @ enc_list sample_jnl @ [0]) 36) [58, 106] KS [[117]] ([], []) =
    Ret (Kb, [[102, 117, 1]], log)"
  using log_filter_replays [of "[[117]]" sample_jnl jnl_header "[58, 106]" 36
      "flat_os (jnl_header @ enc_list sample_jnl @ [0]) 36" 3 "[0]" flat_api "\<lambda>k w. w @ [k]" "[]"]
  by (simp add: sample_lf(1) lf_file_def flat_os_def length_jnl_header sample_journal(2) fun_eq_iff)
    (simp add: sample_jnl_def sample_lf)

theorem log_filter_closes_witness:
  "\<exists>log. mg_replay flat_api (\<lambda>k w. w) ((flat_os [] 0)\<lparr>lf_mmap := \<lambda>fd n w. (Inl 22, w)\<rparr>) [58, 106] KS [] ((), []) =
     Ret (Krr ''mmap.src'', (), log) \<and> closed_fd log = [3] \<and> mapped log = []"
proof -
  let ?os = "(flat_os [] 0)\<lparr>lf_mmap := \<lambda>fd n w. (Inl 22, w)\<rparr>"
  let ?log = "[Stat, OpenSrc, ReadHdr 3, MmapSrc 3 0, CloseSrc 3]"
  have r: "mg_replay flat_api (\<lambda>k w. w) ?os [58, 106] KS [] ((), []) = Ret (Krr ''mmap.src'', (), ?log)"
    by (simp add: mg_replay_def lf_fail_def flat_os_def sys_def)
  have "closed_fd ?log = opened_fd ?log \<and> length (mapped ?log) = (if Krr ''mmap.src'' = Kb then 1 else 0)"
    by (rule log_filter_closes [OF r])
  with r show ?thesis by auto
qed

text \<open>\<open>(`f;`t;enlist 0Ng)\<close>\<close>

definition guid_upd :: kobj where
  "guid_upd = KdbList ATTR_NONE 3 [KdbSymbolAtom [102], KdbSymbolAtom [116], KdbVector (KdbGuidVector ATTR_NONE (vec_of [0]))]"

theorem log_filter_guid_aborts_witness: "mg_chk_msg (enc guid_upd) [[116]] = Throw Abort"
  using log_filter_guid_aborts [of "[[116]]" guid_upd "[]"]
  by (simp add: guid_upd_def vec_of_def vec_hdr_def)

end
