(* ===== verification/Kdb_Time.thy ===== *)
theory Kdb_Time
  imports Kdb_Types
begin

text \<open>
  The namespace \<open>mg7x::time\<close> of \<^verbatim>\<open>ipc++/src/KdbType.C\<close> and the character buffer it writes to: the
  calendar arithmetic and the text of dates and times. Days count from 2000.01.01, times are
  nanoseconds, milliseconds, seconds or minutes. The arithmetic is on \<open>int32_t\<close> and \<open>int64_t\<close>, where an
  overflow is undefined; it is done here on \<open>int\<close>, with C++'s truncating division, and the formatters
  take the words of the atoms, for which nothing overflows but the day of a late date.
\<close>

section \<open>Text\<close>

text \<open>Text is the bytes of its characters.\<close>

definition asc :: "string \<Rightarrow> bytes" where
  "asc s = map (\<lambda>c. of_char c) s"

fun dec :: "nat \<Rightarrow> bytes" where
  "dec n = (if n < 10 then [word_of_nat (48 + n)] else dec (n div 10) @ [word_of_nat (48 + n mod 10)])"

declare dec.simps [simp del]

text \<open>\<open>{:0w}\<close>, which pads with zeros behind the sign, \<open>{:w}\<close>, which pads with spaces before it, and
  \<open>{}\<close>.\<close>

definition fill :: "u8 \<Rightarrow> nat \<Rightarrow> bytes \<Rightarrow> bytes" where
  "fill c w s = replicate (w - length s) c @ s"

definition fmt0 :: "nat \<Rightarrow> int \<Rightarrow> bytes" where
  "fmt0 w n = (if n < 0 then asc ''-'' @ fill 48 (w - 1) (dec (nat (- n))) else fill 48 w (dec (nat n)))"

definition fmt :: "int \<Rightarrow> bytes" where
  "fmt n = fmt0 0 n"

definition fmt_sp :: "nat \<Rightarrow> int \<Rightarrow> bytes" where
  "fmt_sp w n = fill 32 w (fmt n)"

text \<open>A \<open>CharBuf\<close> of capacity \<open>N\<close> drops what does not fit.\<close>

record charbuf =
  m_ary :: bytes
  m_cap :: nat

definition cbuf_new :: "nat \<Rightarrow> charbuf" where
  "cbuf_new N = \<lparr>m_ary = [], m_cap = N\<rparr>"

definition push_back :: "u8 \<Rightarrow> charbuf \<Rightarrow> charbuf" where
  "push_back c b = (if length (m_ary b) < m_cap b then b\<lparr>m_ary := m_ary b @ [c]\<rparr> else b)"

definition into_buf :: "nat \<Rightarrow> bytes \<Rightarrow> bytes" where
  "into_buf N s = m_ary (fold push_back s (cbuf_new N))"

section \<open>Constants\<close>

abbreviation NANOS_IN_DAY :: int where "NANOS_IN_DAY \<equiv> 86400000000000"
abbreviation NANOS_IN_HOUR :: int where "NANOS_IN_HOUR \<equiv> 3600000000000"
abbreviation NANOS_IN_MINUTE :: int where "NANOS_IN_MINUTE \<equiv> 60000000000"
abbreviation NANOS_IN_SECOND :: int where "NANOS_IN_SECOND \<equiv> 1000000000"
abbreviation MILLIS_IN_HOUR :: int where "MILLIS_IN_HOUR \<equiv> 3600000"
abbreviation MILLIS_IN_MINUTE :: int where "MILLIS_IN_MINUTE \<equiv> 60000"
abbreviation MILLIS_IN_SECOND :: int where "MILLIS_IN_SECOND \<equiv> 1000"
abbreviation DAYS_SINCE_0AD :: int where "DAYS_SINCE_0AD \<equiv> 730425"
abbreviation DAYS_SINCE_EPOCH :: int where "DAYS_SINCE_EPOCH \<equiv> 10957"

definition NULL_INT :: u32 where
  "NULL_INT = 0x80000000"

definition NULL_LONG :: u64 where
  "NULL_LONG = 0x8000000000000000"

section \<open>Dates\<close>

definition Date_getDays :: "int \<Rightarrow> int \<Rightarrow> int \<Rightarrow> int" where
  "Date_getDays y m d =
     (let month = cmod (m + 9) 12; year = y - cdiv month 10
      in year * 365 + cdiv year 4 - cdiv year 100 + cdiv year 400 + cdiv (month * 306 + 5) 10 + (d - 1) - DAYS_SINCE_0AD)"

text \<open>The year, month and day of the \<open>g\<close>-th day, as computed in \<open>Date::format_to\<close> and
  \<open>Timestamp::toDateNotation\<close>.\<close>

definition day_of_year :: "int \<Rightarrow> int \<Rightarrow> int" where
  "day_of_year g y = g - (365 * y + cdiv y 4 - cdiv y 100 + cdiv y 400)"

definition civil :: "int \<Rightarrow> int \<times> int \<times> int" where
  "civil g =
     (let y0 = cdiv (10000 * g + 14780) 3652425;
          y = (if day_of_year g y0 < 0 then y0 - 1 else y0);
          ddd = day_of_year g y;
          mi = cdiv (100 * ddd + 52) 3060
      in (y + cdiv (mi + 2) 12, cmod (mi + 2) 12 + 1, ddd - cdiv (mi * 306 + 5) 10 + 1))"

definition null_text :: "bool \<Rightarrow> string \<Rightarrow> bytes" where
  "null_text suffix c = asc ''0N'' @ (if suffix then asc c else [])"

text \<open>\<open>DAYS_SINCE_0AD + date\<close> is an addition of \<open>int32_t\<close>: \<open>None\<close> where it overflows.\<close>

definition Date_format_to :: "u32 \<Rightarrow> bool \<Rightarrow> bytes option" where
  "Date_format_to date suffix =
     (if date = NULL_INT then Some (into_buf 16 (null_text suffix ''d''))
      else if 2 ^ 31 \<le> DAYS_SINCE_0AD + sint date then None
      else let (y, mm, dd) = civil (DAYS_SINCE_0AD + sint date)
           in Some (into_buf 16 (fmt_sp 4 y @ asc ''.'' @ fmt0 2 mm @ asc ''.'' @ fmt0 2 dd)))"

definition Month_format_to :: "u32 \<Rightarrow> bool \<Rightarrow> bytes" where
  "Month_format_to mth suffix =
     into_buf 16 (if mth = NULL_INT then null_text suffix ''m''
       else fmt0 4 (2000 + cdiv (sint mth) 12) @ asc ''.'' @ fmt0 2 (cmod (sint mth) 12 + 1) @
         (if suffix then asc ''m'' else []))"

section \<open>Times\<close>

text \<open>\<open>ns\<close> is the nanoseconds since 1970.01.01 that the system clock gives.\<close>

definition Timestamp_now :: "int \<Rightarrow> int" where
  "Timestamp_now ns = ns - NANOS_IN_DAY * DAYS_SINCE_EPOCH"

text \<open>\<open>Timespan::now\<close> in a time zone: \<open>to_local\<close> gives the local time of a system time and \<open>unique\<close> tells whether a
  local time stands for exactly one system time. \<open>zoned_time\<close> throws for a midnight that does not
  (\<open>None\<close>); a unique one is its own local time again.\<close>

definition Timespan_now :: "(int \<Rightarrow> int) \<Rightarrow> (int \<Rightarrow> bool) \<Rightarrow> int \<Rightarrow> int option" where
  "Timespan_now to_local unique ns =
     (let current = to_local ns; midnight = NANOS_IN_DAY * (current div NANOS_IN_DAY)
      in if unique midnight then Some (current - midnight) else None)"

lemma Timespan_now_bounds: "Timespan_now to_local unique ns = Some t \<Longrightarrow> 0 \<le> t \<and> t < NANOS_IN_DAY"
  by (auto simp: Timespan_now_def Let_def minus_mult_div_eq_mod split: if_splits)

definition Timestamp_getUTC :: "int \<Rightarrow> int \<Rightarrow> int \<Rightarrow> int \<Rightarrow> int \<Rightarrow> int \<Rightarrow> int \<Rightarrow> int" where
  "Timestamp_getUTC y m d h u v n =
     n + v * NANOS_IN_SECOND + u * NANOS_IN_MINUTE + h * NANOS_IN_HOUR + Date_getDays y m d * NANOS_IN_DAY"

definition toDateNotation :: "int \<Rightarrow> bytes" where
  "toDateNotation nanos =
     (let (y, mm, dd) = civil (DAYS_SINCE_0AD + cdiv nanos NANOS_IN_DAY)
      in fmt0 4 y @ asc ''.'' @ fmt0 2 mm @ asc ''.'' @ fmt0 2 dd)"

text \<open>The text of hours, minutes, seconds and nanoseconds, for \<open>toTimeNotation\<close> and \<open>Timespan\<close>.\<close>

definition nanos_text :: "int \<Rightarrow> bytes" where
  "nanos_text nanos =
     (let h = cdiv nanos NANOS_IN_HOUR;
          m = cdiv (cmod nanos NANOS_IN_HOUR) NANOS_IN_MINUTE;
          s = cdiv (cmod nanos NANOS_IN_MINUTE) NANOS_IN_SECOND;
          n = cmod nanos NANOS_IN_SECOND
      in fmt0 2 h @ asc '':'' @ fmt0 2 m @ asc '':'' @ fmt0 2 s @ asc ''.'' @ fmt0 9 n)"

definition toTimeNotation :: "int \<Rightarrow> bytes" where
  "toTimeNotation nanos = nanos_text (cmod nanos NANOS_IN_DAY)"

definition Timestamp_format_to :: "u64 \<Rightarrow> bool \<Rightarrow> bytes" where
  "Timestamp_format_to nanos suffix =
     into_buf 32 (if nanos = NULL_LONG then null_text suffix ''p''
       else toDateNotation (sint nanos) @ asc ''D'' @ toTimeNotation (sint nanos))"

definition Timespan_format_to :: "u64 \<Rightarrow> bool \<Rightarrow> bytes" where
  "Timespan_format_to nanos suffix =
     into_buf 24 (if nanos = NULL_LONG then null_text suffix ''n''
       else fmt (cdiv (sint nanos) NANOS_IN_DAY) @ asc ''D'' @ nanos_text (cmod (sint nanos) NANOS_IN_DAY))"

definition Minute_format_to :: "u32 \<Rightarrow> bool \<Rightarrow> bytes" where
  "Minute_format_to val suffix =
     into_buf 16 (if val = NULL_INT then null_text suffix ''u''
       else fmt0 2 (cdiv (sint val) 60) @ asc '':'' @ fmt0 2 (cmod (sint val) 60))"

definition Second_format_to :: "u32 \<Rightarrow> bool \<Rightarrow> bytes" where
  "Second_format_to secs suffix =
     into_buf 16 (if secs = NULL_INT then null_text suffix ''v''
       else let hours = cdiv (sint secs) 3600; secs1 = sint secs - hours * 3600;
                mins = cdiv secs1 60; secs2 = secs1 - mins * 60
            in fmt0 2 hours @ asc '':'' @ fmt0 2 mins @ asc '':'' @ fmt0 2 secs2)"

definition Time_format_to :: "u32 \<Rightarrow> bool \<Rightarrow> bytes" where
  "Time_format_to time suffix =
     into_buf 16 (if time = NULL_INT then null_text suffix ''t''
       else let hours = cdiv (sint time) MILLIS_IN_HOUR; time1 = sint time - hours * MILLIS_IN_HOUR;
                mins = cdiv time1 MILLIS_IN_MINUTE; time2 = time1 - mins * MILLIS_IN_MINUTE;
                secs = cdiv time2 MILLIS_IN_SECOND; time3 = time2 - secs * MILLIS_IN_SECOND
            in fmt0 2 hours @ asc '':'' @ fmt0 2 mins @ asc '':'' @ fmt0 2 secs @ asc ''.'' @ fmt0 3 time3)"

section \<open>The calendar\<close>

definition leap :: "int \<Rightarrow> bool" where
  "leap y \<longleftrightarrow> 4 dvd y \<and> (\<not> 100 dvd y \<or> 400 dvd y)"

definition days_in_month :: "int \<Rightarrow> int \<Rightarrow> int" where
  "days_in_month y m =
     (if m = 2 then (if leap y then 29 else 28) else if m \<in> {4, 6, 9, 11} then 30 else 31)"

definition valid_date :: "int \<Rightarrow> int \<Rightarrow> int \<Rightarrow> bool" where
  "valid_date y m d \<longleftrightarrow> 1 \<le> y \<and> 1 \<le> m \<and> m \<le> 12 \<and> 1 \<le> d \<and> d \<le> days_in_month y m"

definition next_date :: "int \<Rightarrow> int \<Rightarrow> int \<Rightarrow> int \<times> int \<times> int" where
  "next_date y m d =
     (if d < days_in_month y m then (y, m, d + 1) else if m < 12 then (y, m + 1, 1) else (y + 1, 1, 1))"

text \<open>Years that begin in March, numbered by the civil year of their March.\<close>

definition year_start :: "int \<Rightarrow> int" where
  "year_start y = 365 * y + y div 4 - y div 100 + y div 400"

lemma div_ge: "0 < n \<Longrightarrow> n * q \<le> x \<Longrightarrow> q \<le> x div (n :: int)"
  using zdiv_mono1 [of "n * q" x n] by simp

lemma year_start_bounds:
  assumes "0 \<le> y"
  shows "3652425 * y \<le> 10000 * year_start y + 14780" "10000 * year_start y \<le> 3652425 * y + 7425"
proof -
  define c s where "c = y div 100" and "s = y mod 100"
  have y: "y = 100 * c + s" "0 \<le> s" "s < 100" "0 \<le> c"
    using assms by (simp_all add: c_def s_def pos_imp_zdiv_nonneg_iff)
  have "y div 4 = (s + (25 * c) * 4) div 4" using y(1) by (simp add: algebra_simps)
  then have d: "y div 4 = 25 * c + s div 4" "y div 400 = c div 4"
    using zdiv_zmult2_eq [of 4 y 100] div_mult_self1 [of 4 s "25 * c"] by (simp_all add: c_def)
  have s: "2425 * s - 10000 * (s div 4) \<le> 7275" "10000 * (s div 4) \<le> 2500 * s"
    using mult_div_mod_eq [of 4 s] div_ge [of 4 0 s, OF zero_less_numeral] y(2) pos_mod_sign [of 4 s, OF zero_less_numeral] pos_mod_bound [of 4 s, OF zero_less_numeral] by linarith+
  have q: "2500 * c - 10000 * (c div 4) \<le> 7500" "10000 * (c div 4) \<le> 2500 * c"
    using mult_div_mod_eq [of 4 c] div_ge [of 4 0 c, OF zero_less_numeral] y(4) pos_mod_sign [of 4 c, OF zero_less_numeral] pos_mod_bound [of 4 c, OF zero_less_numeral] by linarith+
  have "year_start y = 365 * y + (25 * c + s div 4) - c + c div 4"
    by (simp add: year_start_def d c_def)
  then show "3652425 * y \<le> 10000 * year_start y + 14780" "10000 * year_start y \<le> 3652425 * y + 7425"
    using y s q by linarith+
qed

lemma year_start_nonneg: "0 \<le> y \<Longrightarrow> 0 \<le> year_start y"
proof (cases "y = 0")
  case False
  assume "0 \<le> y"
  then show ?thesis using year_start_bounds(1) [of y] False by linarith
qed (simp add: year_start_def)

lemma div_plus_1:
  assumes "0 < n"
  shows "(y + 1) div n = y div n + (if n dvd y + 1 then 1 else (0 :: int))"
proof (cases "n dvd y + 1")
  case True
  then obtain k where k: "y + 1 = n * k" by blast
  then have "y = n * (k - 1) + (n - 1)" by (simp add: algebra_simps)
  then have "y div n = k - 1" using assms int_div_pos_eq [of y n "k - 1" "n - 1"] by linarith
  then show ?thesis using k True assms by simp
next
  case False
  have "y mod n + 1 \<noteq> n"
  proof
    assume "y mod n + 1 = n"
    moreover have "n * (y div n + 1) = n * (y div n) + n" by (simp add: distrib_left)
    ultimately have "y + 1 = n * (y div n + 1)" using mult_div_mod_eq [of n y] by linarith
    then show False using False by simp
  qed
  then have "y mod n + 1 < n" using pos_mod_bound [OF assms, of y] by simp
  moreover have "y + 1 = n * (y div n) + (y mod n + 1)" by simp
  ultimately have "(y + 1) div n = y div n"
    using pos_mod_sign [OF assms, of y] by (intro int_div_pos_eq) simp_all
  then show ?thesis using False by simp
qed

lemma leap_day:
  "b \<longrightarrow> a \<Longrightarrow> c \<longrightarrow> b \<Longrightarrow>
    365 + (if a then 1 else 0) - (if b then 1 else 0) + (if c then 1 else 0) = (if a \<and> (\<not> b \<or> c) then 366 else (365 :: int))"
  by (cases a; cases b; cases c) simp_all

lemma year_length: "year_start (y + 1) - year_start y = (if leap (y + 1) then 366 else 365)"
proof -
  let ?d = "\<lambda>n. if n dvd y + 1 then 1 else (0 :: int)"
  have "year_start (y + 1) - year_start y = 365 + ?d 4 - ?d 100 + ?d 400"
    unfolding year_start_def div_plus_1 [OF zero_less_numeral] by (simp add: algebra_simps)
  moreover have "100 dvd y + 1 \<longrightarrow> 4 dvd y + 1"
    by (rule impI, rule dvd_trans [of 4 100]) (simp, assumption)
  moreover have "400 dvd y + 1 \<longrightarrow> 100 dvd y + 1"
    by (rule impI, rule dvd_trans [of 100 400]) (simp, assumption)
  ultimately show ?thesis unfolding leap_def using leap_day [of "100 dvd y + 1" "4 dvd y + 1" "400 dvd y + 1"] by (simp only: simp_thms)
qed

lemma month_cases:
  "0 \<le> i \<Longrightarrow> i \<le> 11 \<Longrightarrow>
    i = 0 \<or> i = 1 \<or> i = 2 \<or> i = 3 \<or> i = 4 \<or> i = 5 \<or> i = 6 \<or> i = 7 \<or> i = 8 \<or> i = 9 \<or> i = 10 \<or> i = (11 :: int)"
  "1 \<le> m \<Longrightarrow> m \<le> 12 \<Longrightarrow>
    m = 1 \<or> m = 2 \<or> m = 3 \<or> m = 4 \<or> m = 5 \<or> m = 6 \<or> m = 7 \<or> m = 8 \<or> m = 9 \<or> m = 10 \<or> m = 11 \<or> m = (12 :: int)"
proof -
  assume "0 \<le> i" "i \<le> 11"
  then have "i \<in> set [0..11]" by simp
  then show "i = 0 \<or> i = 1 \<or> i = 2 \<or> i = 3 \<or> i = 4 \<or> i = 5 \<or> i = 6 \<or> i = 7 \<or> i = 8 \<or> i = 9 \<or> i = 10 \<or> i = 11"
    by (simp add: upto.simps del: set_upto)
next
  assume "1 \<le> m" "m \<le> 12"
  then have "m \<in> set [1..12]" by simp
  then show "m = 1 \<or> m = 2 \<or> m = 3 \<or> m = 4 \<or> m = 5 \<or> m = 6 \<or> m = 7 \<or> m = 8 \<or> m = 9 \<or> m = 10 \<or> m = 11 \<or> m = 12"
    by (simp add: upto.simps del: set_upto)
qed

text \<open>\<open>civil\<close> finds the year, and from the day of the year the month and the day.\<close>

lemma day_of_year_start: "0 \<le> y \<Longrightarrow> day_of_year g y = g - year_start y"
  by (simp add: day_of_year_def year_start_def cdiv_nonneg)

lemma div_lt:
  assumes "0 < n" "x < n * q"
  shows "x div n < (q :: int)"
proof (rule ccontr)
  assume "\<not> x div n < q"
  then have "n * q \<le> n * (x div n)" using assms(1) by simp
  also have "n * (x div n) \<le> x" using mult_div_mod_eq [of n x] pos_mod_sign [OF assms(1), of x] by linarith
  finally show False using assms(2) by simp
qed

lemma civil_year:
  assumes "0 \<le> yr" "0 \<le> ddd" "ddd < year_start (yr + 1) - year_start yr"
  shows "civil (year_start yr + ddd) =
    (let mi = (100 * ddd + 52) div 3060 in (yr + (mi + 2) div 12, (mi + 2) mod 12 + 1, ddd - (mi * 306 + 5) div 10 + 1))"
proof -
  define g q where "g = year_start yr + ddd" and "q = (10000 * g + 14780) div 3652425"
  have g: "0 \<le> g" using year_start_nonneg [OF assms(1)] assms(2) by (simp add: g_def)
  have b: "3652425 * yr \<le> 10000 * year_start yr + 14780" "10000 * year_start (yr + 1) \<le> 3652425 * (yr + 1) + 7425"
    using year_start_bounds(1) [of yr] year_start_bounds(2) [of "yr + 1"] assms(1) by linarith+
  have "10000 * ddd + 10000 * year_start yr + 10000 \<le> 10000 * year_start (yr + 1)" using assms(3) by simp
  then have "3652425 * yr \<le> 10000 * g + 14780" "10000 * g + 14780 < 3652425 * (yr + 2)"
    using b assms(2) by (simp_all add: g_def)
  then have "yr \<le> q" "q < yr + 2"
    unfolding q_def by (auto intro!: div_ge div_lt)
  then have "q = yr \<or> q = yr + 1" by linarith
  moreover have d: "day_of_year g yr = ddd" "day_of_year g (yr + 1) < 0"
    using assms by (simp_all add: day_of_year_start g_def)
  ultimately have y: "(if day_of_year g q < 0 then q - 1 else q) = yr"
    using assms(2) by (elim disjE) simp_all
  have "cdiv (10000 * g + 14780) 3652425 = q" using g unfolding q_def by (intro cdiv_nonneg) simp_all
  moreover define mi where "mi = (100 * ddd + 52) div 3060"
  moreover have mi: "0 \<le> mi" using assms(2) by (simp add: mi_def)
  moreover have "cdiv (100 * ddd + 52) 3060 = mi" using assms(2) unfolding mi_def by (intro cdiv_nonneg) simp_all
  ultimately have "civil g = (yr + cdiv (mi + 2) 12, cmod (mi + 2) 12 + 1, ddd - cdiv (mi * 306 + 5) 10 + 1)"
    unfolding civil_def Let_def by (simp only: y d(1))
  then show ?thesis
    using mi unfolding g_def mi_def by (simp add: cdiv_nonneg cmod_nonneg Let_def)
qed

lemma month_index:
  assumes "0 \<le> (i :: int)" "i \<le> 11" "1 \<le> d" "d \<le> (if i = 11 then 29 else if i \<in> {1, 3, 6, 8} then 30 else 31)"
  shows "(100 * ((i * 306 + 5) div 10 + (d - 1)) + 52) div 3060 = i"
proof -
  let ?x = "100 * ((i * 306 + 5) div 10 + (d - 1)) + 52"
  from month_cases(1) [OF assms(1,2)] have "3060 * i \<le> ?x \<and> ?x < 3060 * (i + 1)"
    using assms(3,4) by (elim disjE) simp_all
  then have "i \<le> ?x div 3060" "?x div 3060 < i + 1"
    by (intro div_ge div_lt; simp)+
  then show ?thesis by linarith
qed

text \<open>The March-based year and month of a date.\<close>

definition mar_year :: "int \<Rightarrow> int \<Rightarrow> int" where
  "mar_year y m = (if m \<le> 2 then y - 1 else y)"

definition mar_month :: "int \<Rightarrow> int" where
  "mar_month m = (if m \<le> 2 then m + 9 else m - 3)"

lemma getDays_eq:
  assumes "valid_date y m d"
  shows "DAYS_SINCE_0AD + Date_getDays y m d =
    year_start (mar_year y m) + ((mar_month m * 306 + 5) div 10 + (d - 1))"
proof -
  have m: "1 \<le> m" "m \<le> 12" "1 \<le> y" using assms by (simp_all add: valid_date_def)
  have mm: "cmod (m + 9) 12 = mar_month m"
  proof (cases "m \<le> 2")
    case True
    then show ?thesis using m by (simp add: cmod_nonneg mar_month_def)
  next
    case False
    then have "(m + 9) mod 12 = m - 3" using m by (simp add: mod_pos_geq)
    then show ?thesis using False m by (simp add: cmod_nonneg mar_month_def)
  qed
  moreover have "cdiv (mar_month m) 10 = (if m \<le> 2 then 1 else 0)"
    using m by (auto simp: mar_month_def cdiv_nonneg div_pos_geq)
  ultimately show ?thesis
    using m by (auto simp: Date_getDays_def Let_def cdiv_nonneg mar_year_def year_start_def mar_month_def)
qed

lemma mar_day:
  assumes "valid_date y m d"
  shows "0 \<le> mar_year y m" "0 \<le> mar_month m" "mar_month m \<le> 11"
    "d \<le> (if mar_month m = 11 then 29 else if mar_month m \<in> {1, 3, 6, 8} then 30 else 31)"
    "(mar_month m * 306 + 5) div 10 + (d - 1) < year_start (mar_year y m + 1) - year_start (mar_year y m)"
proof -
  have y: "1 \<le> y" and d: "1 \<le> d" "d \<le> days_in_month y m" and m12: "1 \<le> m" "m \<le> 12"
    using assms unfolding valid_date_def by simp_all
  note m = month_cases(2) [OF m12]
  show "0 \<le> mar_year y m" "0 \<le> mar_month m" "mar_month m \<le> 11"
    using m y by (auto simp: mar_year_def mar_month_def)
  show "d \<le> (if mar_month m = 11 then 29 else if mar_month m \<in> {1, 3, 6, 8} then 30 else 31)"
    using m d by (elim disjE) (simp_all add: days_in_month_def mar_month_def split: if_splits)
  show "(mar_month m * 306 + 5) div 10 + (d - 1) < year_start (mar_year y m + 1) - year_start (mar_year y m)"
    unfolding year_length
    using m d by (elim disjE) (simp_all add: days_in_month_def mar_month_def mar_year_def split: if_splits)
qed

lemma civil_getDays:
  assumes "valid_date y m d"
  shows "civil (DAYS_SINCE_0AD + Date_getDays y m d) = (y, m, d)"
proof -
  let ?i = "mar_month m" and ?ddd = "(mar_month m * 306 + 5) div 10 + (d - 1)"
  note b = mar_day [OF assms]
  have d: "1 \<le> d" "1 \<le> m" "m \<le> 12" using assms by (simp_all add: valid_date_def)
  have mi: "(100 * ?ddd + 52) div 3060 = ?i" by (rule month_index [OF b(2,3) d(1) b(4)])
  have "0 \<le> ?ddd" using b(2) d(1) by simp
  then have "civil (DAYS_SINCE_0AD + Date_getDays y m d) =
      (mar_year y m + (?i + 2) div 12, (?i + 2) mod 12 + 1, ?ddd - (?i * 306 + 5) div 10 + 1)"
    unfolding getDays_eq [OF assms] using civil_year [OF b(1) _ b(5)] mi by (simp add: Let_def)
  moreover have "mar_year y m + (?i + 2) div 12 = y" "(?i + 2) mod 12 + 1 = m"
    using d(2,3) by (auto simp: mar_year_def mar_month_def div_pos_geq mod_pos_geq)
  ultimately show ?thesis by simp
qed

lemma getDays_next:
  assumes "valid_date y m d" "next_date y m d = (y', m', d')"
  shows "valid_date y' m' d' \<and> Date_getDays y' m' d' = Date_getDays y m d + 1"
proof -
  have v: "valid_date y' m' d'"
    using assms by (auto simp: next_date_def valid_date_def days_in_month_def split: if_splits)
  have d: "d \<le> days_in_month y m" and m12: "1 \<le> m" "m \<le> 12"
    using assms(1) unfolding valid_date_def by simp_all
  note m = month_cases(2) [OF m12]
  have l: "year_start y - year_start (y - 1) = (if leap y then 366 else 365)"
    using year_length [of "y - 1"] by simp
  have "DAYS_SINCE_0AD + Date_getDays y' m' d' = DAYS_SINCE_0AD + Date_getDays y m d + 1"
    unfolding getDays_eq [OF assms(1)] getDays_eq [OF v]
    using m d l assms(2)
    by (elim disjE) (auto simp: next_date_def days_in_month_def mar_year_def mar_month_def split: if_splits)
  then show ?thesis using v by simp
qed

section \<open>The text of dates and times\<close>

lemma fold_push_back:
  "length (m_ary b) \<le> m_cap b \<Longrightarrow>
    m_ary (fold push_back s b) = m_ary b @ take (m_cap b - length (m_ary b)) s"
proof (induction s arbitrary: b)
  case (Cons c s)
  then show ?case
  proof (cases "length (m_ary b) < m_cap b")
    case True
    then show ?thesis using Cons.IH [of "push_back c b"] by (simp add: push_back_def take_Cons' Suc_le_eq)
  qed (simp add: push_back_def Cons.IH Cons.prems)
qed simp

lemma into_buf_take: "into_buf N s = take N s"
  using fold_push_back [of "cbuf_new N" s] by (simp add: into_buf_def cbuf_new_def)

lemma length_fill [simp]: "length (fill c w s) = max w (length s)"
  by (simp add: fill_def)

lemma length_dec: "n < 10 ^ k \<Longrightarrow> 0 < k \<Longrightarrow> length (dec n) \<le> k"
proof (induction n arbitrary: k rule: dec.induct)
  case (1 n)
  show ?case
  proof (cases "n < 10")
    case True
    then show ?thesis using 1(3) by (simp add: dec.simps [of n])
  next
    case False
    then obtain j where j: "k = Suc j" "0 < j" using 1(2,3) by (cases k; cases "k - 1") auto
    then have "length (dec (n div 10)) \<le> j"
      using 1(1) [OF False, of j] 1(2) by (simp add: less_mult_imp_div_less mult.commute)
    then show ?thesis using False j by (simp add: dec.simps [of n])
  qed
qed

lemma length_fmt0:
  assumes "0 \<le> n" "n < 10 ^ w" "0 < w"
  shows "length (fmt0 w n) = w"
proof -
  have "nat n < 10 ^ w" using assms(1,2) by (simp add: nat_less_iff)
  then show ?thesis using length_dec [of "nat n" w] assms by (simp add: fmt0_def)
qed

lemma length_asc [simp]: "length (asc s) = length s"
  by (simp add: asc_def)

text \<open>Reading fixed-width fields back.\<close>

definition num :: "bytes \<Rightarrow> int" where
  "num s = foldl (\<lambda>a c. 10 * a + (if 48 \<le> c \<and> c < 58 then uint c - 48 else 0)) 0 s"

definition parse_date :: "bytes \<Rightarrow> int \<times> int \<times> int" where
  "parse_date t = (num (take 4 t), num (take 2 (drop 5 t)), num (take 2 (drop 8 t)))"

definition parse_time :: "bytes \<Rightarrow> int \<times> int \<times> int \<times> int" where
  "parse_time t = (num (take 2 t), num (take 2 (drop 3 t)), num (take 2 (drop 6 t)), num (drop 9 t))"

lemma num_snoc: "num (s @ [c]) = 10 * num s + (if 48 \<le> c \<and> c < 58 then uint c - 48 else 0)"
  by (simp add: num_def)

lemma num_pad: "c = 48 \<or> c = 32 \<Longrightarrow> num (replicate k c @ s) = num s"
proof -
  assume c: "c = 48 \<or> c = 32"
  have "foldl (\<lambda>a c. 10 * a + (if 48 \<le> c \<and> c < 58 then uint c - 48 else 0)) 0 (replicate k c) = (0 :: int)"
    using c by (induction k) auto
  then show ?thesis by (simp add: num_def)
qed

lemma digit: "n < 10 \<Longrightarrow> (48 :: u8) \<le> word_of_nat (48 + n) \<and> word_of_nat (48 + n) < (58 :: u8) \<and>
    uint (word_of_nat (48 + n) :: u8) - 48 = int n"
proof -
  assume n: "n < 10"
  have "unat (word_of_nat (48 + n) :: u8) = 48 + n"
    using n by (simp only: unat_of_nat) simp
  moreover from this have "uint (word_of_nat (48 + n) :: u8) = int (48 + n)" by (simp only: uint_nat)
  ultimately show ?thesis using n by (simp add: word_le_nat_alt word_less_nat_alt del: of_nat_add of_nat_numeral)
qed

lemma num_dec: "num (dec n) = int n"
proof (induction n rule: dec.induct)
  case (1 n)
  show ?case
  proof (cases "n < 10")
    case True
    then show ?thesis using digit [OF True] num_snoc [of "[]"] by (simp add: dec.simps [of n] num_def)
  next
    case False
    have "n mod 10 < 10" by simp
    from digit [OF this] show ?thesis
      using 1 [OF False] False by (simp add: dec.simps [of n] num_snoc zdiv_int zmod_int)
  qed
qed

lemma num_fmt0: "0 \<le> n \<Longrightarrow> num (fmt0 w n) = n"
  by (simp add: fmt0_def fill_def num_pad num_dec)

lemma num_fmt_sp: "0 \<le> n \<Longrightarrow> num (fmt_sp w n) = n"
  using num_fmt0 [of n 0] by (simp add: fmt_sp_def fmt_def fill_def num_pad)

lemma length_fmt_sp: "0 \<le> n \<Longrightarrow> n < 10 ^ w \<Longrightarrow> 0 < w \<Longrightarrow> length (fmt_sp w n) = w"
  using length_dec [of "nat n" w] by (simp add: fmt_sp_def fmt_def fmt0_def nat_less_iff)

lemma civil_bounds:
  assumes "valid_date y m d"
  shows "0 \<le> y" "0 \<le> m" "m < 10 ^ 2" "0 \<le> d" "d < 10 ^ 2"
  using assms by (auto simp: valid_date_def days_in_month_def split: if_splits)

lemma parse_date_text:
  assumes "valid_date y m d" "length yt = 4" "num yt = y"
  shows "parse_date (yt @ asc ''.'' @ fmt0 2 m @ asc ''.'' @ fmt0 2 d @ rest) = (y, m, d)"
  using civil_bounds [OF assms(1)] assms(2,3)
  by (simp add: parse_date_def length_fmt0 num_fmt0)

lemma parse_time_text:
  assumes "0 \<le> h" "h < 10 ^ 2" "0 \<le> u" "u < 10 ^ 2" "0 \<le> v" "v < 10 ^ 2" "0 \<le> n" "n < 10 ^ 9"
  shows "parse_time (fmt0 2 h @ asc '':'' @ fmt0 2 u @ asc '':'' @ fmt0 2 v @ asc ''.'' @ fmt0 9 n) = (h, u, v, n)"
  using assms by (simp add: parse_time_def length_fmt0 num_fmt0)

lemma getDays_bounds:
  assumes "valid_date y m d" "2000 \<le> y"
  shows "0 \<le> Date_getDays y m d" "10000 * Date_getDays y m d \<le> 3652425 * y - 7300592575"
proof -
  note b = mar_day [OF assms(1)]
  have d: "1 \<le> d" "1 \<le> m" "m \<le> 12" using assms(1) by (simp_all add: valid_date_def)
  define k where "k = (mar_month m * 306 + 5) div 10"
  have k: "0 \<le> k" "k + (d - 1) \<le> 365"
    using b(2,5) unfolding year_length k_def by (simp_all split: if_splits)
  have e: "DAYS_SINCE_0AD + Date_getDays y m d = year_start (mar_year y m) + (k + (d - 1))"
    using getDays_eq [OF assms(1)] by (simp add: k_def)
  have my: "mar_year y m \<le> y" by (simp add: mar_year_def)
  then show "10000 * Date_getDays y m d \<le> 3652425 * y - 7300592575"
    using e k(2) year_start_bounds(2) [OF b(1)] by linarith
  show "0 \<le> Date_getDays y m d"
  proof (cases "2000 \<le> mar_year y m")
    case True
    then show ?thesis using e k(1) d(1) year_start_bounds(1) [OF b(1)] by linarith
  next
    case False
    then have "m \<le> 2" "mar_year y m = 1999"
      using assms(2) by (simp_all add: mar_year_def split: if_splits)
    moreover from this have "306 \<le> k" using d(2) by (simp add: k_def mar_month_def)
    moreover have "year_start 1999 = 730119" by (simp add: year_start_def)
    ultimately show ?thesis using e d(1) by simp
  qed
qed

text \<open>The fields of a time of day.\<close>

lemma div_mod_eq: "x = q * n + r \<Longrightarrow> 0 \<le> r \<Longrightarrow> r < n \<Longrightarrow> x div n = q \<and> x mod n = (r :: int)"
  by (simp add: div_mult_self3 mod_mult_self3)

lemma day_time_fields:
  fixes h u v n :: int
  assumes "0 \<le> h" "h < 24" "0 \<le> u" "u < 60" "0 \<le> v" "v < 60" "0 \<le> n" "n < NANOS_IN_SECOND"
  shows "nanos_text (n + v * NANOS_IN_SECOND + u * NANOS_IN_MINUTE + h * NANOS_IN_HOUR) =
      fmt0 2 h @ asc '':'' @ fmt0 2 u @ asc '':'' @ fmt0 2 v @ asc ''.'' @ fmt0 9 n" (is "nanos_text ?t = _")
    and "n + v * NANOS_IN_SECOND + u * NANOS_IN_MINUTE + h * NANOS_IN_HOUR < NANOS_IN_DAY"
proof -
  have t: "?t = h * NANOS_IN_HOUR + (u * NANOS_IN_MINUTE + (v * NANOS_IN_SECOND + n))"
    "?t = (h * 60 + u) * NANOS_IN_MINUTE + (v * NANOS_IN_SECOND + n)"
    "?t = ((h * 60 + u) * 60 + v) * NANOS_IN_SECOND + n" by simp_all
  have r: "0 \<le> v * NANOS_IN_SECOND + n" "v * NANOS_IN_SECOND + n < NANOS_IN_MINUTE"
    "0 \<le> u * NANOS_IN_MINUTE + (v * NANOS_IN_SECOND + n)" "u * NANOS_IN_MINUTE + (v * NANOS_IN_SECOND + n) < NANOS_IN_HOUR"
    "0 \<le> ?t"
    using assms by linarith+
  note f = div_mod_eq [OF t(1) r(3,4)] div_mod_eq [OF t(2) r(1,2)] div_mod_eq [OF t(3) assms(7,8)]
    div_mod_eq [OF refl r(1,2), of u] div_mod_eq [OF refl assms(7,8), of v]
  show "nanos_text ?t = fmt0 2 h @ asc '':'' @ fmt0 2 u @ asc '':'' @ fmt0 2 v @ asc ''.'' @ fmt0 9 n"
    unfolding nanos_text_def Let_def using r f by (simp add: cdiv_nonneg cmod_nonneg)
  show "?t < NANOS_IN_DAY" using assms by linarith
qed

lemma sint_of_int:
  "0 \<le> k \<Longrightarrow> k < 2 ^ 31 \<Longrightarrow> sint (word_of_int k :: u32) = k"
  "0 \<le> k \<Longrightarrow> k < 2 ^ 63 \<Longrightarrow> sint (word_of_int k :: u64) = k"
  by (simp_all add: signed_of_int signed_take_bit_int_eq_self)

lemma date_text:
  assumes "valid_date y m d" "2000 \<le> y" "y \<le> 9999"
  shows "\<exists>s. Date_format_to (word_of_int (Date_getDays y m d)) suffix = Some s \<and> length s = 10 \<and> parse_date s = (y, m, d)"
proof -
  let ?t = "fmt_sp 4 y @ asc ''.'' @ fmt0 2 m @ asc ''.'' @ fmt0 2 d"
  have dt: "0 \<le> Date_getDays y m d" "Date_getDays y m d < 3000000"
    using getDays_bounds [OF assms(1,2)] assms(3) by simp_all
  then have s: "sint (word_of_int (Date_getDays y m d) :: u32) = Date_getDays y m d"
    by (intro sint_of_int) simp_all
  then have "(word_of_int (Date_getDays y m d) :: u32) \<noteq> NULL_INT"
    using dt by (auto simp: NULL_INT_def)
  moreover have "length ?t = 10"
    using civil_bounds [OF assms(1)] assms(2,3) by (simp add: length_fmt0 length_fmt_sp)
  ultimately have "Date_format_to (word_of_int (Date_getDays y m d)) suffix = Some ?t"
    using dt unfolding Date_format_to_def s civil_getDays [OF assms(1)] into_buf_take by simp
  moreover have "parse_date ?t = (y, m, d)"
    using parse_date_text [OF assms(1), of "fmt_sp 4 y" "[]"] assms(2,3) by (simp add: length_fmt_sp num_fmt_sp)
  ultimately show ?thesis using \<open>length ?t = 10\<close> by simp
qed

lemma stamp_parts:
  assumes "length dt = 10" "length tm = 18"
  shows "length (dt @ asc ''D'' @ tm) = 29" "take 10 (dt @ asc ''D'' @ tm) = dt" "(dt @ asc ''D'' @ tm) ! 10 = 68"
    "drop 11 (dt @ asc ''D'' @ tm) = tm"
  using assms by (simp_all add: nth_append asc_def)

section \<open>Properties\<close>

text \<open>Dates are counted day by day in the calendar with leap years: day 0 is 2000.01.01, the date that
  follows a date has the next number, and the formatters' computation gives each date back from its
  number.\<close>

theorem calendar:
  assumes "valid_date y m d" "next_date y m d = (y', m', d')"
  shows "Date_getDays 2000 1 1 = 0 \<and> Date_getDays y' m' d' = Date_getDays y m d + 1 \<and>
    civil (DAYS_SINCE_0AD + Date_getDays y m d) = (y, m, d)"
proof -
  have "Date_getDays 2000 1 1 = 0"
    using getDays_eq [of 2000 1 1]
    by (simp add: valid_date_def days_in_month_def mar_year_def mar_month_def year_start_def)
  then show ?thesis using getDays_next [OF assms] civil_getDays [OF assms(1)] by simp
qed

theorem calendar_witness:
  "Date_getDays 2000 3 1 = Date_getDays 2000 2 29 + 1 \<and> civil (DAYS_SINCE_0AD + Date_getDays 2000 2 29) = (2000, 2, 29)"
  using calendar [of 2000 2 29 2000 3 1]
  by (simp add: valid_date_def days_in_month_def next_date_def leap_def)

text \<open>C34. The text of a timestamp made by getUTC from a date of the years 2000 to 2291 and a time of day
  has 29 characters, a date and a time with a D between, and its fields read back as the arguments; the
  text of the date alone, up to the year 9999, reads back as the date.\<close>

theorem timestamp_text:
  assumes "valid_date y m d" "2000 \<le> y" "y \<le> 2291" "0 \<le> h" "h < 24" "0 \<le> u" "u < 60" "0 \<le> v" "v < 60"
    "0 \<le> n" "n < NANOS_IN_SECOND" "valid_date y1 m1 d1" "2000 \<le> y1" "y1 \<le> 9999"
    and t_def: "t = Timestamp_format_to (word_of_int (Timestamp_getUTC y m d h u v n)) suffix"
  shows "length t = 29 \<and> parse_date (take 10 t) = (y, m, d) \<and> t ! 10 = 68 \<and> parse_time (drop 11 t) = (h, u, v, n) \<and>
    (\<exists>s. Date_format_to (word_of_int (Date_getDays y1 m1 d1)) suffix = Some s \<and> length s = 10 \<and> parse_date s = (y1, m1, d1))"
proof -
  define x dt where "x = n + v * NANOS_IN_SECOND + u * NANOS_IN_MINUTE + h * NANOS_IN_HOUR" and "dt = Date_getDays y m d"
  note f = day_time_fields [OF assms(4-11)]
  have x: "0 \<le> x" "x < NANOS_IN_DAY" using assms(4-11) f(2) by (simp_all add: x_def)
  have dt: "0 \<le> dt" "dt < 106751" using getDays_bounds [OF assms(1,2)] assms(3) by (simp_all add: dt_def)
  have g: "Timestamp_getUTC y m d h u v n = dt * NANOS_IN_DAY + x" by (simp add: Timestamp_getUTC_def x_def dt_def)
  have s: "sint (word_of_int (dt * NANOS_IN_DAY + x) :: u64) = dt * NANOS_IN_DAY + x"
    using x dt by (intro sint_of_int) simp_all
  then have "(word_of_int (dt * NANOS_IN_DAY + x) :: u64) \<noteq> NULL_LONG"
    using x dt by (auto simp: NULL_LONG_def)
  moreover have "cdiv (dt * NANOS_IN_DAY + x) NANOS_IN_DAY = dt" "cmod (dt * NANOS_IN_DAY + x) NANOS_IN_DAY = x"
    using div_mod_eq [OF refl x] x(1) dt(1) by (simp_all add: cdiv_nonneg cmod_nonneg)
  moreover have "civil (DAYS_SINCE_0AD + dt) = (y, m, d)" using civil_getDays [OF assms(1)] by (simp add: dt_def)
  ultimately have "t = take 32 ((fmt0 4 y @ asc ''.'' @ fmt0 2 m @ asc ''.'' @ fmt0 2 d) @ asc ''D'' @ nanos_text x)"
    unfolding t_def g Timestamp_format_to_def s toDateNotation_def toTimeNotation_def into_buf_take by simp
  moreover have l: "length (fmt0 4 y @ asc ''.'' @ fmt0 2 m @ asc ''.'' @ fmt0 2 d) = 10" "length (nanos_text x) = 18"
    using civil_bounds [OF assms(1)] assms(2-11) f(1) by (simp_all add: length_fmt0 x_def)
  ultimately have t: "t = (fmt0 4 y @ asc ''.'' @ fmt0 2 m @ asc ''.'' @ fmt0 2 d) @ asc ''D'' @ nanos_text x" by simp
  have "parse_date (fmt0 4 y @ asc ''.'' @ fmt0 2 m @ asc ''.'' @ fmt0 2 d) = (y, m, d)"
    using parse_date_text [OF assms(1), of "fmt0 4 y" "[]"] assms(2,3) by (simp add: length_fmt0 num_fmt0)
  moreover have "parse_time (nanos_text x) = (h, u, v, n)"
    using parse_time_text [of h u v n] assms(4-11) f(1) by (simp add: x_def)
  ultimately have stamp: "length t = 29 \<and> parse_date (take 10 t) = (y, m, d) \<and> t ! 10 = 68 \<and> parse_time (drop 11 t) = (h, u, v, n)"
    unfolding t using stamp_parts [OF l] by (simp del: append_assoc)
  show ?thesis using stamp date_text [OF assms(12-14)] by simp
qed

theorem timestamp_text_witness:
  "\<exists>t. Timestamp_format_to (word_of_int (Timestamp_getUTC 2024 2 29 23 59 58 7)) True = t \<and>
    parse_date (take 10 t) = (2024, 2, 29) \<and> parse_time (drop 11 t) = (23, 59, 58, 7)"
  using timestamp_text [OF _ _ _ _ _ _ _ _ _ _ _ _ _ _ refl, of 2024 2 29 23 59 58 7 9999 12 31 True]
  by (simp add: valid_date_def days_in_month_def leap_def)

text \<open>A timestamp of the last day before 2000 is printed with the date of the day after, because the
  divisions truncate.\<close>

theorem timestamp_before_2000:
  assumes "- NANOS_IN_DAY < t" "t < 0"
  shows "take 11 (Timestamp_format_to (word_of_int t) suffix) = asc ''2000.01.01D''"
proof -
  have s: "sint (word_of_int t :: u64) = t"
    using assms by (simp add: signed_of_int signed_take_bit_int_eq_self)
  then have "(word_of_int t :: u64) \<noteq> NULL_LONG"
    using assms by (auto simp: NULL_LONG_def)
  moreover have "cdiv t NANOS_IN_DAY = cdiv 0 NANOS_IN_DAY" using assms by (simp add: cdiv_def)
  then have "toDateNotation t = toDateNotation 0" by (simp only: toDateNotation_def)
  moreover have "toDateNotation 0 = asc ''2000.01.01''" by code_simp
  ultimately have "Timestamp_format_to (word_of_int t) suffix = take 32 (asc ''2000.01.01'' @ asc ''D'' @ toTimeNotation t)"
    unfolding Timestamp_format_to_def into_buf_take s by simp
  then show ?thesis by (simp add: asc_def)
qed

theorem timestamp_before_2000_witness: "take 11 (Timestamp_format_to (word_of_int (- 1)) True) = asc ''2000.01.01D''"
  by (rule timestamp_before_2000) simp_all

end
