(* ===== verification/Kdb_Format.thy ===== *)
theory Kdb_Format
  imports Kdb_Time Kdb_Message
begin

text \<open>
  The \<open>std::formatter\<close>s of \<^verbatim>\<open>ipc++/include/MgKdbType.H\<close>: the text of an object, in q's notation. A
  \<open>KdbQuirks\<close> is a record, and \<open>vectorPrint\<close> a function of it. \<open>std::format\<close> of floating point numbers is a
  parameter, a function of their bits. What is undefined is \<open>Undef\<close>: an array indexed by an unknown code,
  a null pointer that is dereferenced, the day of a late date; \<open>std::format_error\<close> is a \<open>RuntimeError\<close>.
\<close>

section \<open>Pieces of text\<close>

definition space :: u8 where "space = 32"
definition quote :: u8 where "quote = 34"

definition quoted :: "bytes \<Rightarrow> bytes" where
  "quoted s = [quote] @ s @ [quote]"

fun sep_by :: "bytes \<Rightarrow> bytes list \<Rightarrow> bytes" where
  "sep_by sep [] = []"
| "sep_by sep [t] = t"
| "sep_by sep (t # ts) = t @ sep @ sep_by sep ts"

text \<open>The digits of \<open>x\<close> in a format, with \<open>{:02x}\<close>, and \<open>{:#02x}\<close>, whose width counts the \<open>0x\<close>.\<close>

definition hex_digit :: "nat \<Rightarrow> u8" where
  "hex_digit n = word_of_nat (if n < 10 then 48 + n else 87 + n)"

definition hex :: "u8 \<Rightarrow> bytes" where
  "hex b = (let n = unat b in if n < 16 then [hex_digit n] else [hex_digit (n div 16), hex_digit (n mod 16)])"

definition hex02 :: "u8 \<Rightarrow> bytes" where
  "hex02 b = fill 48 2 (hex b)"

definition hex_alt02 :: "u8 \<Rightarrow> bytes" where
  "hex_alt02 b = asc ''0x'' @ fill 48 (2 - 2) (hex b)"

definition guid_text :: "u128 \<Rightarrow> bytes" where
  "guid_text g =
     (let t = (\<lambda>a n. concat (map hex02 (take n (drop a (to_mem g)))))
      in sep_by (asc ''-'') [t 0 4, t 4 2, t 6 2, t 8 2, t 10 6])"

text \<open>The texts of the elements of a sequence, as far as all are defined.\<close>

fun texts :: "('a \<Rightarrow> bytes outcome) \<Rightarrow> 'a list \<Rightarrow> bytes list outcome" where
  "texts f [] = Ret []"
| "texts f (x # xs) = obind (f x) (\<lambda>t. obind (texts f xs) (\<lambda>ts. Ret (t # ts)))"

text \<open>\<open>std::format\<close> of the \<open>double\<close> and the \<open>float\<close> of some bits: \<open>{}\<close>, and \<open>{:0.3g}\<close>.\<close>

record float_text =
  ft_double :: "u64 \<Rightarrow> bytes"
  ft_float :: "u32 \<Rightarrow> bytes"
  ft_double3 :: "u64 \<Rightarrow> bytes"
  ft_float3 :: "u32 \<Rightarrow> bytes"

section \<open>Names\<close>

fun format_KdbType :: "KdbType \<Rightarrow> string" where
  "format_KdbType EXCEPTION = ''EXCEPTION''"
| "format_KdbType TIME_ATOM = ''TIME_ATOM''"
| "format_KdbType SECOND_ATOM = ''SECOND_ATOM''"
| "format_KdbType MINUTE_ATOM = ''MINUTE_ATOM''"
| "format_KdbType TIMESPAN_ATOM = ''TIMESPAN_ATOM''"
| "format_KdbType DATE_ATOM = ''DATE_ATOM''"
| "format_KdbType MONTH_ATOM = ''MONTH_ATOM''"
| "format_KdbType TIMESTAMP_ATOM = ''TIMESTAMP_ATOM''"
| "format_KdbType SYMBOL_ATOM = ''SYMBOL_ATOM''"
| "format_KdbType CHAR_ATOM = ''CHAR_ATOM''"
| "format_KdbType FLOAT_ATOM = ''FLOAT_ATOM''"
| "format_KdbType REAL_ATOM = ''REAL_ATOM''"
| "format_KdbType LONG_ATOM = ''LONG_ATOM''"
| "format_KdbType INT_ATOM = ''INT_ATOM''"
| "format_KdbType SHORT_ATOM = ''SHORT_ATOM''"
| "format_KdbType GUID_ATOM = ''GUID_ATOM''"
| "format_KdbType BYTE_ATOM = ''BYTE_ATOM''"
| "format_KdbType BOOL_ATOM = ''BOOL_ATOM''"
| "format_KdbType LIST = ''LIST''"
| "format_KdbType BOOL_VECTOR = ''BOOL_VECTOR''"
| "format_KdbType GUID_VECTOR = ''GUID_VECTOR''"
| "format_KdbType BYTE_VECTOR = ''BYTE_VECTOR''"
| "format_KdbType SHORT_VECTOR = ''SHORT_VECTOR''"
| "format_KdbType INT_VECTOR = ''INT_VECTOR''"
| "format_KdbType LONG_VECTOR = ''LONG_VECTOR''"
| "format_KdbType REAL_VECTOR = ''REAL_VECTOR''"
| "format_KdbType FLOAT_VECTOR = ''FLOAT_VECTOR''"
| "format_KdbType CHAR_VECTOR = ''CHAR_VECTOR''"
| "format_KdbType SYMBOL_VECTOR = ''SYMBOL_VECTOR''"
| "format_KdbType TIMESTAMP_VECTOR = ''TIMESTAMP_VECTOR''"
| "format_KdbType MONTH_VECTOR = ''MONTH_VECTOR''"
| "format_KdbType DATE_VECTOR = ''DATE_VECTOR''"
| "format_KdbType TIMESPAN_VECTOR = ''TIMESPAN_VECTOR''"
| "format_KdbType MINUTE_VECTOR = ''MINUTE_VECTOR''"
| "format_KdbType SECOND_VECTOR = ''SECOND_VECTOR''"
| "format_KdbType TIME_VECTOR = ''TIME_VECTOR''"
| "format_KdbType TABLE = ''TABLE''"
| "format_KdbType DICT = ''DICT''"
| "format_KdbType FUNCTION = ''FUNCTION''"
| "format_KdbType UNARY_PRIMITIVE = ''UNARY_PRIMITIVE''"
| "format_KdbType BINARY_PRIMITIVE = ''BINARY_PRIMITIVE''"
| "format_KdbType TERNARY_PRIMITIVE = ''TERNARY_PRIMITIVE''"
| "format_KdbType PROJECTION = ''PROJECTION''"
| "format_KdbType UNSET_TYPE = ''<unset>''"
| "format_KdbType STEP_DICT = ''STEP_DICT''"
| "format_KdbType _ = ''MISSING_KdbType_CONVERSION''"

fun format_WriteResult :: "WriteResult \<Rightarrow> string" where
  "format_WriteResult WR_UNSET = ''WR_UNSET''"
| "format_WriteResult WR_OK = ''WR_OK''"
| "format_WriteResult WR_INCOMPLETE = ''WR_INCOMPLETE''"

fun format_ReadResult :: "ReadResult \<Rightarrow> string" where
  "format_ReadResult RD_UNSET = ''RD_UNSET''"
| "format_ReadResult RD_OK = ''RD_OK''"
| "format_ReadResult RD_INCOMPLETE = ''RD_INCOMPLETE''"
| "format_ReadResult RD_ERR_IPC = ''RD_ERR_IPC''"
| "format_ReadResult RD_ERR_LOGIC = ''RD_ERR_LOGIC''"
| "format_ReadResult RD_ERR_ALLOC = ''RD_ERR_ALLOC''"

text \<open>An enumeration may hold a number that names nothing, as the type of a message read from the wire may.\<close>

definition format_KdbMsgType :: "u8 \<Rightarrow> bytes" where
  "format_KdbMsgType kmt =
     (if kmt = msg_type_i8 ASYNC then asc ''ASYNC''
      else if kmt = msg_type_i8 RESPONSE then asc ''RESPONSE''
      else if kmt = msg_type_i8 SYNC then asc ''SYNC''
      else asc ''UNHANDLED.KdbMsgType('' @ fmt (sint kmt) @ asc '')'')"

definition format_ReadMsgResult :: "read_msg_result \<Rightarrow> bytes" where
  "format_ReadMsgResult rmr =
     (let typ = (case rr_message rmr of None \<Rightarrow> UNSET_TYPE | Some msg \<Rightarrow> m_typ msg)
      in asc ''('' @ format_KdbMsgType (rr_msg_typ rmr) @ asc '';'' @ asc (format_ReadResult (rr_result rmr)) @ asc '';'' @
         asc (format_KdbType typ) @ asc '')'')"

section \<open>KdbQuirks and vectorPrint\<close>

definition POS_INF_INT :: u32 where "POS_INF_INT = 0x7fffffff"
definition NEG_INF_INT :: u32 where "NEG_INF_INT = 0x80000001"
definition POS_INF_LONG :: u64 where "POS_INF_LONG = 0x7fffffffffffffff"
definition NEG_INF_LONG :: u64 where "NEG_INF_LONG = 0x8000000000000001"

record 'a quirks =
  NULL_VALUE :: 'a
  POS_INFINITY :: 'a
  NEG_INFINITY :: 'a
  TYPE_CHAR :: string
  ALWAYS_SUFFIX :: bool
  quirk_type :: KdbType
  quirk_format :: "'a \<Rightarrow> bytes outcome"

definition short_quirks :: "u16 quirks" where
  "short_quirks =
     \<lparr>NULL_VALUE = 0x8000, POS_INFINITY = 0x7fff, NEG_INFINITY = 0x8001, TYPE_CHAR = ''h'', ALWAYS_SUFFIX = True,
      quirk_type = SHORT_VECTOR, quirk_format = (\<lambda>val. Ret (fmt (sint val)))\<rparr>"

text \<open>The quirks of the types whose values are \<open>int32_t\<close>, and those that are \<open>int64_t\<close>, of integral meaning.\<close>

definition quirks32 :: "KdbType \<Rightarrow> string \<Rightarrow> bool \<Rightarrow> (u32 \<Rightarrow> bytes outcome) \<Rightarrow> u32 quirks" where
  "quirks32 typ c always f =
     \<lparr>NULL_VALUE = NULL_INT, POS_INFINITY = POS_INF_INT, NEG_INFINITY = NEG_INF_INT, TYPE_CHAR = c, ALWAYS_SUFFIX = always,
      quirk_type = typ, quirk_format = f\<rparr>"

definition quirks64 :: "KdbType \<Rightarrow> string \<Rightarrow> (u64 \<Rightarrow> bytes outcome) \<Rightarrow> u64 quirks" where
  "quirks64 typ c f =
     \<lparr>NULL_VALUE = NULL_LONG, POS_INFINITY = POS_INF_LONG, NEG_INFINITY = NEG_INF_LONG, TYPE_CHAR = c, ALWAYS_SUFFIX = False,
      quirk_type = typ, quirk_format = f\<rparr>"

definition int_quirks :: "u32 quirks" where
  "int_quirks = quirks32 INT_VECTOR ''i'' True (\<lambda>val. Ret (fmt (sint val)))"

definition long_quirks :: "u64 quirks" where
  "long_quirks = quirks64 LONG_VECTOR ''j'' (\<lambda>val. Ret (fmt (sint val)))"

definition real_quirks :: "float_text \<Rightarrow> u32 quirks" where
  "real_quirks fl =
     \<lparr>NULL_VALUE = 0xffc00000, POS_INFINITY = 0x7f800000, NEG_INFINITY = 0xff800000, TYPE_CHAR = ''e'', ALWAYS_SUFFIX = True,
      quirk_type = REAL_VECTOR, quirk_format = (\<lambda>val. Ret (ft_float fl val))\<rparr>"

definition float_quirks :: "float_text \<Rightarrow> u64 quirks" where
  "float_quirks fl =
     \<lparr>NULL_VALUE = 0xfff8000000000000, POS_INFINITY = 0x7ff0000000000000, NEG_INFINITY = 0xfff0000000000000,
      TYPE_CHAR = ''f'', ALWAYS_SUFFIX = True, quirk_type = FLOAT_VECTOR, quirk_format = (\<lambda>val. Ret (ft_double fl val))\<rparr>"

definition timestamp_quirks :: "u64 quirks" where
  "timestamp_quirks = quirks64 TIMESTAMP_VECTOR ''p'' (\<lambda>val. Ret (Timestamp_format_to val False))"

definition month_quirks :: "u32 quirks" where
  "month_quirks = quirks32 MONTH_VECTOR ''m'' True (\<lambda>val. Ret (Month_format_to val False))"

definition date_text_of :: "u32 \<Rightarrow> bool \<Rightarrow> bytes outcome" where
  "date_text_of val suffix = (case Date_format_to val suffix of None \<Rightarrow> Undef | Some t \<Rightarrow> Ret t)"

definition date_quirks :: "u32 quirks" where
  "date_quirks = quirks32 DATE_VECTOR ''d'' False (\<lambda>val. date_text_of val False)"

definition timespan_quirks :: "u64 quirks" where
  "timespan_quirks = quirks64 TIMESPAN_VECTOR ''n'' (\<lambda>val. Ret (Timespan_format_to val False))"

definition minute_quirks :: "u32 quirks" where
  "minute_quirks = quirks32 MINUTE_VECTOR ''u'' False (\<lambda>val. Ret (Minute_format_to val False))"

definition second_quirks :: "u32 quirks" where
  "second_quirks = quirks32 SECOND_VECTOR ''v'' False (\<lambda>val. Ret (Second_format_to val False))"

definition time_quirks :: "u32 quirks" where
  "time_quirks = quirks32 TIME_VECTOR ''t'' False (\<lambda>val. Ret (Time_format_to val False))"

text \<open>An element in the loop of \<open>vectorPrint\<close>, and whether it is a value that is none of the three special ones.\<close>

definition special :: "'a quirks \<Rightarrow> 'a \<Rightarrow> string option" where
  "special q x =
     (if NULL_VALUE q = x then Some ''0N'' else if POS_INFINITY q = x then Some ''0W''
      else if NEG_INFINITY q = x then Some ''-0W'' else None)"

definition elem_text :: "'a quirks \<Rightarrow> 'a \<Rightarrow> bytes outcome" where
  "elem_text q x = (case special q x of Some s \<Rightarrow> Ret (asc s) | None \<Rightarrow> quirk_format q x)"

definition vectorPrint :: "'a quirks \<Rightarrow> 'a list \<Rightarrow> bytes outcome" where
  "vectorPrint q vec =
     (case vec of
        [] \<Rightarrow> Ret (asc ''('' @ fmt \<bar>kdb_type_code (quirk_type q)\<bar> @ asc ''h$())'')
      | [x] \<Rightarrow>
          (case special q x of
             Some s \<Rightarrow> Ret (asc ''(enlist '' @ asc s @ asc (TYPE_CHAR q) @ asc '')'')
           | None \<Rightarrow> obind (quirk_format q x) (\<lambda>tmp.
               Ret (asc ''(enlist '' @ tmp @ (if ALWAYS_SUFFIX q then asc (TYPE_CHAR q) else []) @ asc '')'')))
      | _ \<Rightarrow>
          obind (texts (elem_text q) vec) (\<lambda>ts.
            let none_value = (\<forall>x \<in> set vec. special q x \<noteq> None)
            in Ret (sep_by [space] ts @ (if ALWAYS_SUFFIX q \<or> none_value then asc (TYPE_CHAR q) else []))))"

section \<open>Atoms\<close>

definition format_KdbTimeAtom :: "u32 \<Rightarrow> bytes" where "format_KdbTimeAtom x = Time_format_to x True"
definition format_KdbSecondAtom :: "u32 \<Rightarrow> bytes" where "format_KdbSecondAtom x = Second_format_to x True"
definition format_KdbMinuteAtom :: "u32 \<Rightarrow> bytes" where "format_KdbMinuteAtom x = Minute_format_to x True"
definition format_KdbTimespanAtom :: "u64 \<Rightarrow> bytes" where "format_KdbTimespanAtom x = Timespan_format_to x True"
definition format_KdbDateAtom :: "u32 \<Rightarrow> bytes outcome" where "format_KdbDateAtom x = date_text_of x True"
definition format_KdbMonthAtom :: "u32 \<Rightarrow> bytes" where "format_KdbMonthAtom x = Month_format_to x True"
definition format_KdbTimestampAtom :: "u64 \<Rightarrow> bytes" where "format_KdbTimestampAtom x = Timestamp_format_to x True"

text \<open>The conversion \<open>{:c}\<close> of an unsigned number that is no \<open>char\<close> throws.\<close>

definition format_KdbCharAtom :: "u8 \<Rightarrow> bytes outcome" where
  "format_KdbCharAtom x =
     (if x < 128 then Ret (quoted [x]) else Throw (RuntimeError ''format error: integer not representable as character''))"

definition format_KdbSymbolAtom :: "bytes \<Rightarrow> bytes" where
  "format_KdbSymbolAtom s =
     (if s = [] then asc ''`'' else if space \<in> set s then asc ''(`$'' @ quoted s @ asc '')'' else asc ''`'' @ s)"

definition format_KdbFloatAtom :: "float_text \<Rightarrow> u64 \<Rightarrow> bytes" where "format_KdbFloatAtom fl x = ft_double3 fl x @ asc ''f''"
definition format_KdbRealAtom :: "float_text \<Rightarrow> u32 \<Rightarrow> bytes" where "format_KdbRealAtom fl x = ft_float3 fl x @ asc ''e''"
definition format_KdbLongAtom :: "u64 \<Rightarrow> bytes" where "format_KdbLongAtom x = fmt (sint x)"
definition format_KdbIntAtom :: "u32 \<Rightarrow> bytes" where "format_KdbIntAtom x = fmt (sint x) @ asc ''i''"
definition format_KdbShortAtom :: "u16 \<Rightarrow> bytes" where "format_KdbShortAtom x = fmt (sint x) @ asc ''h''"
definition format_KdbByteAtom :: "u8 \<Rightarrow> bytes" where "format_KdbByteAtom x = hex_alt02 x"
definition format_KdbGuidAtom :: "u128 \<Rightarrow> bytes" where
  "format_KdbGuidAtom x = asc ''('' @ quoted (asc ''G'') @ asc ''$'' @ quoted (guid_text x) @ asc '')''"
definition format_KdbBoolAtom :: "u8 \<Rightarrow> bytes" where "format_KdbBoolAtom x = fmt (sint x) @ asc ''b''"

fun format_atom :: "float_text \<Rightarrow> katom \<Rightarrow> bytes outcome" where
  "format_atom fl (KdbTimeAtom x) = Ret (format_KdbTimeAtom x)"
| "format_atom fl (KdbSecondAtom x) = Ret (format_KdbSecondAtom x)"
| "format_atom fl (KdbMinuteAtom x) = Ret (format_KdbMinuteAtom x)"
| "format_atom fl (KdbTimespanAtom x) = Ret (format_KdbTimespanAtom x)"
| "format_atom fl (KdbDateAtom x) = format_KdbDateAtom x"
| "format_atom fl (KdbMonthAtom x) = Ret (format_KdbMonthAtom x)"
| "format_atom fl (KdbTimestampAtom x) = Ret (format_KdbTimestampAtom x)"
| "format_atom fl (KdbCharAtom x) = format_KdbCharAtom x"
| "format_atom fl (KdbFloatAtom x) = Ret (format_KdbFloatAtom fl x)"
| "format_atom fl (KdbRealAtom x) = Ret (format_KdbRealAtom fl x)"
| "format_atom fl (KdbLongAtom x) = Ret (format_KdbLongAtom x)"
| "format_atom fl (KdbIntAtom x) = Ret (format_KdbIntAtom x)"
| "format_atom fl (KdbShortAtom x) = Ret (format_KdbShortAtom x)"
| "format_atom fl (KdbGuidAtom x) = Ret (format_KdbGuidAtom x)"
| "format_atom fl (KdbByteAtom x) = Ret (format_KdbByteAtom x)"
| "format_atom fl (KdbBoolAtom x) = Ret (format_KdbBoolAtom x)"

section \<open>Vectors\<close>

definition format_KdbBoolVector :: "u8 list \<Rightarrow> bytes" where
  "format_KdbBoolVector vec =
     (case vec of
        [] \<Rightarrow> asc ''(`boolean$())''
      | [x] \<Rightarrow> asc ''(enlist '' @ fmt (sint x) @ asc ''b)''
      | _ \<Rightarrow> concat (map (\<lambda>x. fmt (sint x)) vec) @ asc ''b'')"

definition format_KdbGuidVector :: "u128 list \<Rightarrow> bytes" where
  "format_KdbGuidVector vec =
     (case vec of
        [] \<Rightarrow> asc ''(`guid$())''
      | [x] \<Rightarrow> asc ''(enlist '' @ quoted (asc ''G'') @ asc ''$'' @ quoted (guid_text x) @ asc '')''
      | _ \<Rightarrow> asc ''('' @ quoted (asc ''G'') @ asc ''$('' @ quoted (sep_by [quote, 59, quote] (map guid_text vec)) @ asc ''))'')"

definition format_KdbByteVector :: "u8 list \<Rightarrow> bytes" where
  "format_KdbByteVector vec =
     (case vec of
        [] \<Rightarrow> asc ''(`byte$())''
      | [x] \<Rightarrow> asc ''(enlist '' @ hex_alt02 x @ asc '')''
      | _ \<Rightarrow> asc ''0x'' @ concat (map hex02 vec))"

definition format_KdbCharVector :: "bytes \<Rightarrow> bytes" where
  "format_KdbCharVector vec =
     (case vec of
        [] \<Rightarrow> asc ''(`char$())''
      | [x] \<Rightarrow> asc ''(enlist'' @ quoted [x] @ asc '')''
      | _ \<Rightarrow>
          if quote \<notin> set vec then quoted vec
          else quoted (concat (map (\<lambda>c. if c = quote then [92, quote] else [c]) vec)))"

definition format_KdbShortVector :: "u16 list \<Rightarrow> bytes outcome" where "format_KdbShortVector = vectorPrint short_quirks"
definition format_KdbIntVector :: "u32 list \<Rightarrow> bytes outcome" where "format_KdbIntVector = vectorPrint int_quirks"
definition format_KdbLongVector :: "u64 list \<Rightarrow> bytes outcome" where "format_KdbLongVector = vectorPrint long_quirks"
definition format_KdbRealVector :: "float_text \<Rightarrow> u32 list \<Rightarrow> bytes outcome" where
  "format_KdbRealVector fl = vectorPrint (real_quirks fl)"
definition format_KdbFloatVector :: "float_text \<Rightarrow> u64 list \<Rightarrow> bytes outcome" where
  "format_KdbFloatVector fl = vectorPrint (float_quirks fl)"
definition format_KdbTimestampVector :: "u64 list \<Rightarrow> bytes outcome" where
  "format_KdbTimestampVector = vectorPrint timestamp_quirks"
definition format_KdbMonthVector :: "u32 list \<Rightarrow> bytes outcome" where "format_KdbMonthVector = vectorPrint month_quirks"
definition format_KdbDateVector :: "u32 list \<Rightarrow> bytes outcome" where "format_KdbDateVector = vectorPrint date_quirks"
definition format_KdbTimespanVector :: "u64 list \<Rightarrow> bytes outcome" where "format_KdbTimespanVector = vectorPrint timespan_quirks"
definition format_KdbMinuteVector :: "u32 list \<Rightarrow> bytes outcome" where "format_KdbMinuteVector = vectorPrint minute_quirks"
definition format_KdbSecondVector :: "u32 list \<Rightarrow> bytes outcome" where "format_KdbSecondVector = vectorPrint second_quirks"
definition format_KdbTimeVector :: "u32 list \<Rightarrow> bytes outcome" where "format_KdbTimeVector = vectorPrint time_quirks"

fun format_vector :: "float_text \<Rightarrow> kvec \<Rightarrow> bytes outcome" where
  "format_vector fl (KdbBoolVector a v) = Ret (format_KdbBoolVector (v_vals v))"
| "format_vector fl (KdbGuidVector a v) = Ret (format_KdbGuidVector (v_vals v))"
| "format_vector fl (KdbByteVector a v) = Ret (format_KdbByteVector (v_vals v))"
| "format_vector fl (KdbShortVector a v) = format_KdbShortVector (v_vals v)"
| "format_vector fl (KdbIntVector a v) = format_KdbIntVector (v_vals v)"
| "format_vector fl (KdbLongVector a v) = format_KdbLongVector (v_vals v)"
| "format_vector fl (KdbRealVector a v) = format_KdbRealVector fl (v_vals v)"
| "format_vector fl (KdbFloatVector a v) = format_KdbFloatVector fl (v_vals v)"
| "format_vector fl (KdbCharVector a v) = Ret (format_KdbCharVector (v_vals v))"
| "format_vector fl (KdbTimestampVector a v) = format_KdbTimestampVector (v_vals v)"
| "format_vector fl (KdbMonthVector a v) = format_KdbMonthVector (v_vals v)"
| "format_vector fl (KdbDateVector a v) = format_KdbDateVector (v_vals v)"
| "format_vector fl (KdbTimespanVector a v) = format_KdbTimespanVector (v_vals v)"
| "format_vector fl (KdbMinuteVector a v) = format_KdbMinuteVector (v_vals v)"
| "format_vector fl (KdbSecondVector a v) = format_KdbSecondVector (v_vals v)"
| "format_vector fl (KdbTimeVector a v) = format_KdbTimeVector (v_vals v)"

definition format_KdbSymbolVector :: "symvec \<Rightarrow> bytes outcome" where
  "format_KdbSymbolVector v =
     obind (texts (loc_view (sv_data v)) (sv_locs v)) (\<lambda>ss.
       Ret (case ss of
              [] \<Rightarrow> asc ''(`$())''
            | [s] \<Rightarrow> if space \<notin> set s then asc ''(enlist`'' @ s @ asc '')'' else asc ''(enlist`$'' @ quoted s @ asc '')''
            | _ \<Rightarrow>
                if \<exists>s \<in> set ss. space \<in> set s then asc ''(`$('' @ sep_by (asc '';'') (map quoted ss) @ asc ''))''
                else concat (map (\<lambda>s. asc ''`'' @ s) ss)))"

section \<open>Primitives\<close>

definition unary_names :: "string list" where
  "unary_names =
     [''::'', ''+:'', ''-:'', ''*:'', ''%:'', ''&:'', ''|:'', ''^:'', ''=:'', ''<:'', ''>:'', ''$:'', '',:'', ''#:'', ''_:'', ''~:'', ''!:'',
      ''?:'', ''@:'', ''.:'', ''0::'', ''1::'', ''2::'', ''avg'', ''last'', ''sum'', ''prd'', ''min'', ''max'', ''exit'', ''getenv'', ''abs'',
      ''sqrt'', ''log'', ''exp'', ''sin'', ''asin'', ''cos'', ''acos'', ''tan'', ''atan'', ''enlist'', ''var'']"

definition binary_names :: "string list" where
  "binary_names =
     ['':'', ''+'', ''-'', ''*'', ''%'', ''&'', ''|'', ''^'', ''='', ''<'', ''>'', ''$'', '','', ''#'', ''_'', ''~'', ''!'',
      ''?'', ''@'', ''.'', ''0:'', ''1:'', ''2:'', ''in'', ''within'', ''like'', ''bin'', ''ss'', ''insert'', ''wsum'',
      ''wavg'', ''div'', ''xexp'', ''setenv'', ''binr'', ''cov'', ''cor'']"

definition ternary_names :: "string list" where
  "ternary_names = [[CHR 0x27], ''/'', [CHR 0x5C], [CHR 0x27, CHR '':''], ''/:'', [CHR 0x5C, CHR '':'']]"

text \<open>The arrays are indexed by the number read from the wire.\<close>

definition ary_at :: "string list \<Rightarrow> u8 \<Rightarrow> bytes outcome" where
  "ary_at ary i = (if unat i < length ary then Ret (asc (ary ! unat i)) else Undef)"

definition format_KdbUnaryPrimitive :: "u8 \<Rightarrow> bytes outcome" where
  "format_KdbUnaryPrimitive upr = (if upr = ELIDED_VALUE then Ret [] else ary_at unary_names upr)"

definition format_KdbBinaryPrimitive :: "u8 \<Rightarrow> bytes outcome" where
  "format_KdbBinaryPrimitive bin = ary_at binary_names bin"

definition format_KdbTernaryPrimitive :: "u8 \<Rightarrow> bytes outcome" where
  "format_KdbTernaryPrimitive trn = ary_at ternary_names trn"

section \<open>Objects\<close>

definition format_KdbException :: "bytes \<Rightarrow> bytes" where
  "format_KdbException msg = 39 # msg"

text \<open>The formatters of what holds other objects, of the texts of these.\<close>

definition format_KdbList :: "bytes list \<Rightarrow> bytes" where
  "format_KdbList ts =
     (case ts of
        [] \<Rightarrow> asc ''()''
      | [t] \<Rightarrow> asc ''(enlist '' @ t @ asc '')''
      | _ \<Rightarrow> asc ''('' @ sep_by (asc '';'') ts @ asc '')'')"

definition format_KdbTable :: "bytes \<Rightarrow> bytes \<Rightarrow> bytes" where
  "format_KdbTable k v = asc ''(flip '' @ k @ asc ''!'' @ v @ asc '')''"

definition format_KdbDict :: "bytes \<Rightarrow> bytes \<Rightarrow> bytes" where
  "format_KdbDict k v = asc ''('' @ k @ asc ''!'' @ v @ asc '')''"

definition format_KdbProjection :: "bytes list \<Rightarrow> bytes" where
  "format_KdbProjection ts =
     (case ts of [] \<Rightarrow> [] | [t] \<Rightarrow> t | t # us \<Rightarrow> t @ asc ''['' @ sep_by (asc '';'') us) @ asc '']''"

definition format_KdbFunction :: "bytes \<Rightarrow> bytes" where
  "format_KdbFunction vec = vec"

fun format_obj :: "float_text \<Rightarrow> kobj \<Rightarrow> bytes outcome" and format_objs :: "float_text \<Rightarrow> kobj list \<Rightarrow> bytes list outcome" where
  "format_obj fl (KdbException msg) = Ret (format_KdbException msg)"
| "format_obj fl (KdbAtom a) = format_atom fl a"
| "format_obj fl (KdbSymbolAtom val) = Ret (format_KdbSymbolAtom val)"
| "format_obj fl (KdbVector v) = format_vector fl v"
| "format_obj fl (KdbSymbolVector v) = format_KdbSymbolVector v"
| "format_obj fl (KdbList _ _ xs) = obind (format_objs fl xs) (\<lambda>ts. Ret (format_KdbList ts))"
| "format_obj fl (KdbTable None vals) = Undef"
| "format_obj fl (KdbTable (Some c) None) = Undef"
| "format_obj fl (KdbTable (Some c) (Some v)) =
     obind (format_obj fl c) (\<lambda>s. obind (format_obj fl v) (\<lambda>t. Ret (format_KdbTable s t)))"
| "format_obj fl (KdbDict None vals) = Ret (asc ''(null!null)'')"
| "format_obj fl (KdbDict (Some k) None) = Ret (asc ''(null!null)'')"
| "format_obj fl (KdbDict (Some k) (Some v)) =
     obind (format_obj fl k) (\<lambda>s. obind (format_obj fl v) (\<lambda>t. Ret (format_KdbDict s t)))"
| "format_obj fl (KdbFunction v) = Ret (format_KdbFunction (v_vals v))"
| "format_obj fl (KdbUnaryPrimitive i) = format_KdbUnaryPrimitive i"
| "format_obj fl (KdbBinaryPrimitive i) = format_KdbBinaryPrimitive i"
| "format_obj fl (KdbTernaryPrimitive i) = format_KdbTernaryPrimitive i"
| "format_obj fl (KdbProjection _ xs) = obind (format_objs fl xs) (\<lambda>ts. Ret (format_KdbProjection ts))"
| "format_objs fl [] = Ret []"
| "format_objs fl (x # xs) = obind (format_obj fl x) (\<lambda>t. obind (format_objs fl xs) (\<lambda>ts. Ret (t # ts)))"

section \<open>What can be printed\<close>

definition dated :: "u32 \<Rightarrow> bool" where
  "dated x \<longleftrightarrow> x = NULL_INT \<or> DAYS_SINCE_0AD + sint x < 2 ^ 31"

fun printable_atom :: "katom \<Rightarrow> bool" where
  "printable_atom (KdbDateAtom x) \<longleftrightarrow> dated x"
| "printable_atom (KdbCharAtom x) \<longleftrightarrow> x < 128"
| "printable_atom _ \<longleftrightarrow> True"

fun printable_vector :: "kvec \<Rightarrow> bool" where
  "printable_vector (KdbDateVector a v) \<longleftrightarrow> (\<forall>x \<in> set (v_vals v). dated x \<or> x = POS_INF_INT)"
| "printable_vector _ \<longleftrightarrow> True"

definition in_data :: "bytes \<Rightarrow> LocInfo \<Rightarrow> bool" where
  "in_data data l \<longleftrightarrow> unat (c_off l) + unat (c_len l - 1) \<le> length data"

fun printable :: "kobj \<Rightarrow> bool" and printables :: "kobj list \<Rightarrow> bool" where
  "printable (KdbAtom a) \<longleftrightarrow> printable_atom a"
| "printable (KdbVector v) \<longleftrightarrow> printable_vector v"
| "printable (KdbSymbolVector v) \<longleftrightarrow> list_all (in_data (sv_data v)) (sv_locs v)"
| "printable (KdbList _ _ xs) \<longleftrightarrow> printables xs"
| "printable (KdbTable (Some c) (Some v)) \<longleftrightarrow> printable c \<and> printable v"
| "printable (KdbTable None _) \<longleftrightarrow> False"
| "printable (KdbTable (Some c) None) \<longleftrightarrow> False"
| "printable (KdbDict (Some k) (Some v)) \<longleftrightarrow> printable k \<and> printable v"
| "printable (KdbDict None _) \<longleftrightarrow> True"
| "printable (KdbDict (Some k) None) \<longleftrightarrow> True"
| "printable (KdbUnaryPrimitive i) \<longleftrightarrow> i \<le> 0x2a \<or> i = 0xff"
| "printable (KdbBinaryPrimitive i) \<longleftrightarrow> i \<le> 0x24"
| "printable (KdbTernaryPrimitive i) \<longleftrightarrow> i \<le> 5"
| "printable (KdbProjection _ xs) \<longleftrightarrow> printables xs"
| "printable (KdbException msg) \<longleftrightarrow> True"
| "printable (KdbSymbolAtom val) \<longleftrightarrow> True"
| "printable (KdbFunction v) \<longleftrightarrow> True"
| "printables [] \<longleftrightarrow> True"
| "printables (x # xs) \<longleftrightarrow> printable x \<and> printables xs"

definition returns :: "'a outcome \<Rightarrow> bool" where
  "returns r \<longleftrightarrow> (\<exists>x. r = Ret x)"

lemma returns_simps [simp]:
  "returns (Ret x)" "\<not> returns (Throw e)" "\<not> returns Undef" "returns (obind r (\<lambda>x. Ret (f x))) \<longleftrightarrow> returns r"
  by (cases r; auto simp: returns_def)+

lemma returns_bind: "(\<And>x. returns (g x) \<longleftrightarrow> b) \<Longrightarrow> returns (obind r g) \<longleftrightarrow> returns r \<and> b"
  by (cases r) auto

lemma returns_texts [simp]: "returns (texts f xs) \<longleftrightarrow> (\<forall>x \<in> set xs. returns (f x))"
  by (induction xs) (auto simp: returns_bind)

lemma returns_date_text [simp]: "returns (date_text_of x b) \<longleftrightarrow> dated x"
  by (auto simp: date_text_of_def Date_format_to_def dated_def split: prod.split)

lemma vectorPrint_many:
  "2 \<le> length xs \<Longrightarrow> vectorPrint q xs = obind (texts (elem_text q) xs) (\<lambda>ts.
     Ret (sep_by [space] ts @
       (if ALWAYS_SUFFIX q \<or> (\<forall>x \<in> set xs. special q x \<noteq> None) then asc (TYPE_CHAR q) else [])))"
proof -
  assume "2 \<le> length xs"
  then obtain x y zs where "xs = x # y # zs" by (auto simp: numeral_2_eq_2 Suc_le_length_iff)
  then show ?thesis by (simp only: vectorPrint_def Let_def list.case)
qed

lemma short_list:
  obtains "xs = []" | x where "xs = [x]" | "2 \<le> length xs"
  by (cases xs; cases "tl xs") auto

lemma returns_vectorPrint:
  "returns (vectorPrint q xs) \<longleftrightarrow> (\<forall>x \<in> set xs. special q x \<noteq> None \<or> returns (quirk_format q x))"
proof (cases xs rule: short_list)
  case 1
  then show ?thesis by (simp add: vectorPrint_def)
next
  case (2 x)
  then show ?thesis by (cases "special q x") (simp_all add: vectorPrint_def)
next
  case 3
  have "returns (elem_text q x) \<longleftrightarrow> special q x \<noteq> None \<or> returns (quirk_format q x)" for x
    by (cases "special q x") (auto simp: elem_text_def)
  then show ?thesis by (simp add: vectorPrint_many [OF 3])
qed

lemmas vector_formats = format_KdbShortVector_def format_KdbIntVector_def format_KdbLongVector_def format_KdbRealVector_def
  format_KdbFloatVector_def format_KdbTimestampVector_def format_KdbMonthVector_def format_KdbDateVector_def
  format_KdbTimespanVector_def format_KdbMinuteVector_def format_KdbSecondVector_def format_KdbTimeVector_def

lemmas quirks = short_quirks_def int_quirks_def long_quirks_def real_quirks_def float_quirks_def timestamp_quirks_def
  month_quirks_def date_quirks_def timespan_quirks_def minute_quirks_def second_quirks_def time_quirks_def quirks32_def quirks64_def

lemma date_special: "special date_quirks x \<noteq> None \<or> dated x \<longleftrightarrow> dated x \<or> x = POS_INF_INT"
  by (auto simp: special_def quirks dated_def NULL_INT_def POS_INF_INT_def NEG_INF_INT_def)

lemma returns_vector: "returns (format_vector fl v) \<longleftrightarrow> printable_vector v"
proof (cases v)
  case (KdbDateVector a w)
  have "quirk_format date_quirks x = date_text_of x False" for x by (simp add: quirks)
  then show ?thesis using date_special by (simp add: KdbDateVector vector_formats returns_vectorPrint)
qed (simp_all add: vector_formats returns_vectorPrint quirks)

lemma returns_atom: "returns (format_atom fl a) \<longleftrightarrow> printable_atom a"
  by (cases a) (simp_all add: format_KdbDateAtom_def format_KdbCharAtom_def)

lemma returns_symvec: "returns (format_KdbSymbolVector v) \<longleftrightarrow> list_all (in_data (sv_data v)) (sv_locs v)"
  by (auto simp: format_KdbSymbolVector_def loc_view_def in_data_def list_all_iff Let_def split: if_splits)

lemma returns_ary: "returns (ary_at ary i) \<longleftrightarrow> unat i < length ary"
  by (simp add: ary_at_def)

lemma returns_unary: "returns (format_KdbUnaryPrimitive i) \<longleftrightarrow> i \<le> 0x2a \<or> i = 0xff"
  by (auto simp: format_KdbUnaryPrimitive_def returns_ary unary_names_def ELIDED_VALUE_def word_le_nat_alt)

lemma returns_binary: "returns (format_KdbBinaryPrimitive i) \<longleftrightarrow> i \<le> 0x24"
  by (auto simp: format_KdbBinaryPrimitive_def returns_ary binary_names_def word_le_nat_alt)

lemma returns_ternary: "returns (format_KdbTernaryPrimitive i) \<longleftrightarrow> i \<le> 5"
  by (auto simp: format_KdbTernaryPrimitive_def returns_ary ternary_names_def word_le_nat_alt)

lemma format_printable:
  "returns (format_obj fl x) \<longleftrightarrow> printable x" "returns (format_objs fl xs) \<longleftrightarrow> printables xs"
  by (induction x and xs rule: printable_printables.induct)
    (simp_all add: returns_atom returns_vector returns_symvec returns_unary returns_binary returns_ternary returns_bind)

section \<open>Reading numbers back\<close>

text \<open>
  A reader of q's notation for vectors of numbers, as the specification: it knows nothing of the vector, and gives the
  number of the type with the elements. Without a letter at its end a number is a long.
\<close>

datatype qnum = QNull | QPosInf | QNegInf | QNum int

definition read_int :: "bytes \<Rightarrow> int" where
  "read_int t = (case t of [] \<Rightarrow> 0 | c # cs \<Rightarrow> if c = 45 then - num cs else num t)"

definition read_num :: "bytes \<Rightarrow> qnum" where
  "read_num t =
     (if t = asc ''0N'' then QNull else if t = asc ''0W'' then QPosInf else if t = asc ''-0W'' then QNegInf
      else QNum (read_int t))"

fun words_of_text :: "bytes \<Rightarrow> bytes list" where
  "words_of_text [] = [[]]"
| "words_of_text (c # cs) =
     (if c = space then [] # words_of_text cs else (c # hd (words_of_text cs)) # tl (words_of_text cs))"

definition num_types :: "(u8 \<times> int) list" where
  "num_types = [(104, 5), (105, 6), (106, 7)]"

definition typed :: "bytes \<Rightarrow> int \<times> bytes" where
  "typed t = (case map_of num_types (last t) of Some code \<Rightarrow> (code, butlast t) | None \<Rightarrow> (7, t))"

definition read_numbers :: "bytes \<Rightarrow> int \<times> qnum list" where
  "read_numbers t =
     (if take 8 t = asc ''(enlist ''
      then (case typed (butlast (drop 8 t)) of (code, u) \<Rightarrow> (code, [read_num u]))
      else if take 1 t = asc ''('' then (num (takeWhile (\<lambda>c. c \<noteq> 104) (drop 1 t)), [])
      else (case typed t of (code, u) \<Rightarrow> (code, map read_num (words_of_text u))))"

definition number :: "'a::len word quirks \<Rightarrow> 'a word \<Rightarrow> qnum" where
  "number q x =
     (if NULL_VALUE q = x then QNull else if POS_INFINITY q = x then QPosInf else if NEG_INFINITY q = x then QNegInf
      else QNum (sint x))"

text \<open>The characters of a printed number, and of several.\<close>

definition number_chars :: "u8 set" where
  "number_chars = {45, 78, 87} \<union> {48..57}"

lemma set_dec: "set (dec n) \<subseteq> {48..57} \<and> dec n \<noteq> []"
proof (induction n rule: dec.induct)
  case (1 n)
  have d: "word_of_nat (48 + m) \<in> {48..57 :: u8}" if "m < 10" for m
  proof -
    have "m \<in> {0, 1, 2, 3, 4, 5, 6, 7, 8, 9}" using that by auto
    then show ?thesis by (elim insertE) simp_all
  qed
  show ?case
  proof (cases "n < 10")
    case True
    then show ?thesis using d by (simp add: dec.simps [of n])
  next
    case False
    have "n mod 10 < 10" by simp
    from d [OF this] show ?thesis using 1 [OF False] False by (simp add: dec.simps [of n])
  qed
qed

lemma fmt_cases:
  obtains (pos) "0 \<le> n" "fmt n = dec (nat n)" | (neg) "n < 0" "fmt n = 45 # dec (nat (- n))"
  by (cases "0 \<le> n") (simp_all add: fmt_def fmt0_def fill_def asc_def)

lemma fmt_digit: "fmt 5 = [53]" "fmt 6 = [54]" "fmt 7 = [55]"
  by (simp_all add: fmt_def fmt0_def fill_def dec.simps [of 5] dec.simps [of 6] dec.simps [of 7])

lemma read_num_fmt: "read_num (fmt n) = QNum n"
proof (cases n rule: fmt_cases)
  case pos
  have d: "set (dec (nat n)) \<subseteq> {48..57}" "dec (nat n) \<noteq> []" using set_dec by auto
  then have "hd (dec (nat n)) \<noteq> 45" by (cases "dec (nat n)") auto
  moreover have "dec (nat n) \<noteq> asc ''0N'' \<and> dec (nat n) \<noteq> asc ''0W'' \<and> dec (nat n) \<noteq> asc ''-0W''"
    using d(1) by (auto simp: asc_def)
  ultimately show ?thesis
    using pos d(2) num_dec [of "nat n"] by (cases "dec (nat n)") (simp_all add: read_num_def read_int_def)
next
  case neg
  have d: "set (dec (nat (- n))) \<subseteq> {48..57}" using set_dec by auto
  then have "45 # dec (nat (- n)) \<noteq> asc ''-0W''" by (auto simp: asc_def)
  then show ?thesis
    using neg num_dec [of "nat (- n)"] by (auto simp: read_num_def read_int_def asc_def)
qed

lemma set_fmt: "set (fmt n) \<subseteq> number_chars \<and> fmt n \<noteq> []"
  using set_dec [of "nat n"] set_dec [of "nat (- n)"] by (cases n rule: fmt_cases) (auto simp: number_chars_def)

lemma words_of_text_ne [simp]: "words_of_text t \<noteq> []"
  by (cases t) simp_all

lemma words_of_text_end: "space \<notin> set t \<Longrightarrow> words_of_text t = [t]"
  by (induction t) auto

lemma words_of_text_word: "space \<notin> set t \<Longrightarrow> words_of_text (t @ space # s) = t # words_of_text s"
  by (induction t) auto

lemma words_of_text_sep_by:
  "ts \<noteq> [] \<Longrightarrow> \<forall>t \<in> set ts. space \<notin> set t \<Longrightarrow> words_of_text (sep_by [space] ts) = ts"
  by (induction "[space]" ts rule: sep_by.induct) (simp_all add: words_of_text_end words_of_text_word)

lemma set_sep_by: "set (sep_by sep ts) \<subseteq> set sep \<union> (\<Union>t \<in> set ts. set t)"
  by (induction sep ts rule: sep_by.induct) auto

lemma sep_by_Nil: "sep_by sep ts = [] \<Longrightarrow> [] \<notin> set ts \<Longrightarrow> ts = []"
  by (induction sep ts rule: sep_by.induct) auto

text \<open>A vector whose elements are printed as numbers.\<close>

locale number_quirks =
  fixes q :: "'a::len word quirks" and c :: u8 and code :: int
  assumes prints: "quirk_format q x = Ret (fmt (sint x))"
    and letter: "asc (TYPE_CHAR q) = [c]" "map_of num_types c = Some code"
    and code: "kdb_type_code (quirk_type q) = code" "\<not> ALWAYS_SUFFIX q \<Longrightarrow> code = 7"
begin

definition text_of :: "'a word \<Rightarrow> bytes" where
  "text_of x = (case special q x of Some s \<Rightarrow> asc s | None \<Rightarrow> fmt (sint x))"

lemma elem_text_of: "elem_text q x = Ret (text_of x)"
  by (simp add: elem_text_def text_of_def prints split: option.split)

lemma texts_of: "texts (elem_text q) xs = Ret (map text_of xs)"
  by (induction xs) (simp_all add: elem_text_of)

lemma read_text_of: "read_num (text_of x) = number q x"
  by (auto simp: text_of_def special_def number_def read_num_fmt) (simp_all add: read_num_def asc_def)

lemma set_text_of: "set (text_of x) \<subseteq> number_chars" "text_of x \<noteq> []"
  using set_fmt by (auto simp: text_of_def special_def number_chars_def asc_def)

lemma no_space: "space \<notin> number_chars"
  by (simp add: number_chars_def space_def)

lemma typed_letter: "typed (t @ [c]) = (code, t)"
  by (simp add: typed_def letter)

lemma typed_plain: "t \<noteq> [] \<Longrightarrow> set t \<subseteq> insert space number_chars \<Longrightarrow> typed t = (7, t)"
proof -
  assume t: "t \<noteq> []" "set t \<subseteq> insert space number_chars"
  then have "last t \<in> insert space number_chars" using last_in_set by blast
  then have "last t \<noteq> 104 \<and> last t \<noteq> 105 \<and> last t \<noteq> 106" by (auto simp: number_chars_def space_def)
  then show ?thesis by (simp add: typed_def num_types_def)
qed

lemma typed_text:
  assumes "t \<noteq> []" "set t \<subseteq> insert space number_chars"
  shows "typed (t @ (if ALWAYS_SUFFIX q \<or> b then [c] else [])) = (code, t)"
  using typed_letter typed_plain [OF assms] code(2) by auto

lemma enlisted: "read_numbers (asc ''(enlist '' @ t @ asc '')'') = (case typed t of (cd, u) \<Rightarrow> (cd, [read_num u]))"
  by (simp add: read_numbers_def asc_def butlast_append)

lemma read_vectorPrint: "\<exists>t. vectorPrint q xs = Ret t \<and> read_numbers t = (code, map (number q) xs)"
proof (cases xs rule: short_list)
  case 1
  have "code = 5 \<or> code = 6 \<or> code = 7" using letter(2) by (auto simp: num_types_def split: if_splits)
  then show ?thesis
    using 1 code(1) by (elim disjE) (simp_all add: vectorPrint_def read_numbers_def asc_def fmt_digit num_def)
next
  case (2 x)
  note t = set_text_of [of x]
  have "set (text_of x) \<subseteq> insert space number_chars" using t by blast
  note ty = typed_text [OF t(2) this]
  show ?thesis
  proof (cases "special q x")
    case None
    then have "text_of x = fmt (sint x)" by (simp add: text_of_def)
    then show ?thesis
      using 2 None ty [of False] enlisted [of "fmt (sint x) @ (if ALWAYS_SUFFIX q then [c] else [])"] read_text_of [of x]
      by (simp add: vectorPrint_def prints letter(1) cong: if_cong)
  next
    case (Some s)
    then have "text_of x = asc s" by (simp add: text_of_def)
    then show ?thesis
      using 2 Some ty [of True] enlisted [of "asc s @ [c]"] read_text_of [of x] by (simp add: vectorPrint_def letter(1))
  qed
next
  case 3
  let ?ts = "map text_of xs" and ?b = "\<forall>x \<in> set xs. special q x \<noteq> None"
  let ?s = "sep_by [space] ?ts"
  have "?ts \<noteq> []" using 3 by auto
  moreover have "[] \<notin> set ?ts" using set_text_of(2) by (metis image_iff list.set_map)
  ultimately have ne: "?s \<noteq> []" using sep_by_Nil by blast
  have s: "set ?s \<subseteq> insert space number_chars" using set_sep_by [of "[space]" ?ts] set_text_of(1) by fastforce
  then have "hd ?s \<in> insert space number_chars" using ne hd_in_set by blast
  then have h: "hd (?s @ u) \<noteq> 40" for u using ne by (auto simp: number_chars_def space_def)
  have "take 1 (?s @ u) \<noteq> asc ''(''" for u
    using h [of u] ne by (cases ?s) (auto simp: asc_def)
  moreover from this have "take 8 (?s @ u) \<noteq> asc ''(enlist ''" for u
    using h [of u] ne by (cases ?s) (auto simp: asc_def)
  moreover have "words_of_text ?s = ?ts"
  proof (rule words_of_text_sep_by)
    show "\<forall>t \<in> set ?ts. space \<notin> set t" using set_text_of(1) no_space by auto
  qed (use 3 in auto)
  ultimately have "read_numbers (?s @ (if ALWAYS_SUFFIX q \<or> ?b then [c] else [])) = (code, map (number q) xs)"
    using typed_text [OF ne s, of ?b] by (simp add: read_numbers_def read_text_of comp_def)
  then show ?thesis unfolding vectorPrint_many [OF 3] texts_of letter(1) obind.simps by blast
qed

end

interpretation shorts: number_quirks short_quirks 104 5
  by unfold_locales (simp_all add: quirks asc_def num_types_def)

interpretation ints: number_quirks int_quirks 105 6
  by unfold_locales (simp_all add: quirks asc_def num_types_def)

interpretation longs: number_quirks long_quirks 106 7
  by unfold_locales (simp_all add: quirks asc_def num_types_def)

fun numbers :: "kvec \<Rightarrow> qnum list" where
  "numbers (KdbShortVector a v) = map (number short_quirks) (v_vals v)"
| "numbers (KdbIntVector a v) = map (number int_quirks) (v_vals v)"
| "numbers (KdbLongVector a v) = map (number long_quirks) (v_vals v)"
| "numbers _ = []"

section \<open>Properties\<close>

text \<open>C20. 
  The text of a vector of shorts, ints or longs, with its nulls and infinities, is q's notation for it: read back
  without the vector at hand it gives the type and the elements, whether there are none, one or many.
\<close>

theorem printed_numbers:
  assumes "vec_typ v \<in> {SHORT_VECTOR, INT_VECTOR, LONG_VECTOR}"
  shows "\<exists>t. format_obj fl (KdbVector v) = Ret t \<and> read_numbers t = (kdb_type_code (vec_typ v), numbers v)"
  using assms shorts.read_vectorPrint ints.read_vectorPrint longs.read_vectorPrint
  by (cases v) (simp_all add: vector_formats)

text \<open>C31. 
  Formatting an object is defined exactly when it has no primitive beyond the arrays of names, no table with a part
  missing, no symbol outside the data of its vector, no date so late that its day overflows, and no char that is not ASCII.
\<close>

theorem format_defined: "(\<exists>t. format_obj fl x = Ret t) \<longleftrightarrow> printable x"
  using format_printable(1) [of fl x] by (simp add: returns_def)

lemma printed_numbers_witness:
  "\<forall>fl. \<exists>t. format_obj fl (KdbVector (KdbIntVector 0 (vec_of [0x80000000, 7, - 12]))) = Ret t \<and>
     read_numbers t = (6, [QNull, QNum 7, QNum (- 12)])"
proof
  fix fl
  have "number int_quirks 0x80000000 = QNull" "number int_quirks 7 = QNum 7" "number int_quirks (- 12) = QNum (- 12)"
    by code_simp+
  then show "\<exists>t. format_obj fl (KdbVector (KdbIntVector 0 (vec_of [0x80000000, 7, - 12]))) = Ret t \<and>
      read_numbers t = (6, [QNull, QNum 7, QNum (- 12)])"
    using printed_numbers [of "KdbIntVector 0 (vec_of [0x80000000, 7, - 12])" fl] by (simp add: vec_of_def)
qed

text \<open>What q prints differently: the infinite date, whose vector has a text; a byte of one digit; a projection without
  arguments; the null among the ints.\<close>

lemma format_surprises:
  "format_obj fl (KdbAtom (KdbDateAtom POS_INF_INT)) = Undef"
  "format_obj fl (KdbVector (KdbDateVector 0 (vec_of [POS_INF_INT]))) = Ret (asc ''(enlist 0Wd)'')"
  "format_obj fl (KdbAtom (KdbByteAtom 5)) = Ret (asc ''0x5'')"
  "format_obj fl (KdbProjection 1 [KdbBinaryPrimitive 1]) = Ret (asc ''+]'')"
  "format_obj fl (KdbAtom (KdbIntAtom NULL_INT)) = Ret (fmt (- 2147483648) @ asc ''i'')"
  by (code_simp, code_simp, code_simp, code_simp) (simp add: format_KdbIntAtom_def NULL_INT_def)

end
