(* ===== verification/Ex_Reader.thy ===== *)
theory Ex_Reader
  imports Kdb_Journal Kdb_Format
begin

text \<open>
  The program \<^verbatim>\<open>examples/src/journal_reader.C\<close>: it prints the messages of a journal that are calls of \<open>upd\<close> for
  the table \<open>trade\<close>. It is the composition of \<open>KdbJournal\<close>, the update filter, \<open>newInstance\<close> with \<open>read\<close>, and the
  formatters. What it prints is a list of reports.
\<close>

datatype report =
    BadOpen jnl_error
  | Opening u64            \<comment> \<open>the number of messages in the journal\<close>
  | BadType string
  | BadNew ReadResult
  | BadRead ReadResult
  | BadCount nat
  | Matching bytes

definition reader_scribe :: "float_text \<Rightarrow> bytes \<Rightarrow> u64 \<Rightarrow> report list \<Rightarrow> (int \<times> report list) outcome" where
  "reader_scribe fl src len out =
     (case src of
        [] \<Rightarrow> Undef
      | c # _ \<Rightarrow>
          if kdb_type_of_i8 c \<noteq> Some LIST
          then Ret (0, out @ [BadType (case kdb_type_of_i8 c of None \<Rightarrow> ''MISSING_KdbType_CONVERSION'' | Some t \<Rightarrow> format_KdbType t)])
          else obind (new_active (rb_new src (unat len) 0)) (\<lambda>(rr, base, buf).
            case base of
              None \<Rightarrow> Ret (- 1, out @ [BadNew rr])
            | Some obj \<Rightarrow>
                if rr \<noteq> RD_OK then Ret (- 1, out @ [BadNew rr])
                else obind (kread obj buf) (\<lambda>(rr, msg, buf1).
                  if rr \<noteq> RD_OK then Ret (- 1, out @ [BadRead rr])
                  else case msg of
                    KdbList attr cap xs \<Rightarrow>
                      if length xs \<noteq> 3 then Ret (0, out @ [BadCount (length xs)])
                      else obind (format_obj fl msg) (\<lambda>t. Ret (1, out @ [Matching t]))
                  | _ \<Rightarrow> Undef)))"

text \<open>\<open>main\<close>, with the exit code. The journal is not closed. An exception ends the process: \<open>_filter_msgs\<close> is \<open>noexcept\<close>, and
  nothing catches that of \<open>init\<close>.\<close>

definition terminates :: "'a outcome \<Rightarrow> 'a outcome" where
  "terminates r = (case r of Throw e \<Rightarrow> Throw Abort | _ \<Rightarrow> r)"

definition journal_reader :: "float_text \<Rightarrow> 'w os \<Rightarrow> 'w sys \<Rightarrow> (nat \<times> report list \<times> 'w sys) outcome" where
  "journal_reader fl os w =
     terminates (obind (jnl_init os \<lparr>jo_read_only = True, jo_validate = True, jo_max_replay = - 1\<rparr> w) (\<lambda>(r, w1).
       case r of
         Thrown e \<Rightarrow> Throw Abort
       | Failed e \<Rightarrow> Ret (1, [BadOpen e], w1)
       | Opened jnl \<Rightarrow>
           obind (jnl_filter_msgs os (j_fd jnl) (j_msg_count jnl)
               (mk_upd_tbl_filter 0 (asc ''upd'') {asc ''trade''} (reader_scribe fl)) [Opening (j_msg_count jnl)] w1) (\<lambda>(res, out, w2).
             Ret (0, out, w2))))"

section \<open>Lemmas\<close>

definition is_upd :: "kobj \<Rightarrow> bool" where
  "is_upd x \<longleftrightarrow> (\<exists>a c f t y. x = KdbList a c [KdbSymbolAtom f, KdbSymbolAtom t, y])"

lemma is_upd_call: "is_upd x \<Longrightarrow> upd_call x \<noteq> None"
  by (auto simp: is_upd_def)

text \<open>A system with one file.\<close>

definition reads_file :: "'w os \<Rightarrow> int \<Rightarrow> bytes \<Rightarrow> bool" where
  "reads_file os fd file \<longleftrightarrow> (\<forall>w. (\<exists>w1. os_open os True w = (Inr fd, w1)) \<and> (\<exists>w1 w2. jnl_file os fd file w w1 w2) \<and>
     (\<exists>n w1. os_lseek os fd (length file) w = (Inr n, w1)))"

lemma length_enc_list: "length xs \<le> length (enc_list xs)"
proof (induction xs)
  case (Cons x xs)
  have "0 < length (enc x)" by (rule length_enc_pos)
  then have "Suc (length xs) \<le> length (enc x) + length (enc_list xs)" using Cons by linarith
  then show ?case by simp
qed simp

lemma init_counts:
  assumes "reads_file os fd (hdr @ enc_list xs)" "length hdr = 8" "jnl_objects xs" "8 + length (enc_list xs) < 2 ^ 64"
  shows "\<exists>w1. jnl_init os \<lparr>jo_read_only = True, jo_validate = True, jo_max_replay = - 1\<rparr> w =
    Ret (Opened \<lparr>j_rd_only = True, j_fd = fd, j_msg_count = word_of_nat (length xs)\<rparr>, w1)"
proof -
  let ?opts = "\<lparr>jo_read_only = True, jo_validate = True, jo_max_replay = - 1\<rparr>" and ?n = "8 + length (enc_list xs)"
  obtain w1 where w1: "os_open os True (fst w) = (Inr fd, w1)" using assms(1) by (auto simp: reads_file_def)
  obtain w2 where w2: "os_fstat os fd w1 = (Inr ?n, w2)" using assms(1,2) by (fastforce simp: reads_file_def jnl_file_def)
  obtain w3 w4 where w4: "jnl_file os fd (hdr @ enc_list xs @ []) w2 w3 w4" using assms(1) by (fastforce simp: reads_file_def)
  obtain lg where i: "jnl_init os ?opts w = jnl_validate os ?opts fd ?n (w2, lg)"
    using w1 w2 by (cases w) (simp add: jnl_init_def sys_def)
  have "length xs < 2 ^ 64 - 8" using length_enc_list [of xs] assms(3,4) by (auto simp: jnl_objects_def)
  then have "replay jnl_counter (- 1) 0 0 xs [] () = Ret (word_of_nat (length xs), word_of_nat (length xs), True, ())"
    using replay_counter [of xs "- 1" 0 0 "[]"] by (simp add: unsigned_minus_1_eq_mask mask_eq_exp_minus_1)
  then have "jnl_filter_msgs os fd (- 1) jnl_counter () (w2, lg) =
      Ret (Inr (word_of_nat (length xs), word_of_nat (length xs)), (), os_munmap os ?n w4, lg @ [Fstat fd, Mmap fd ?n, Munmap ?n])"
    using jnl_filter_msgs_replay [OF w4 assms(2,3), of "- 1" jnl_counter "()" lg] assms(4) by (simp add: ends_def)
  moreover obtain p w5 where "os_lseek os fd ?n (os_munmap os ?n w4) = (Inr p, w5)"
    using assms(1,2) by (fastforce simp: reads_file_def)
  moreover have "xs = [] \<or> 8 < ?n" using length_enc_list [of xs] assms(3) by (cases xs) (auto simp: jnl_objects_def)
  ultimately show ?thesis
    unfolding i by (auto simp: jnl_validate_def sys_def)
qed

lemma scribe_list:
  assumes "src = i8typ LIST # e" "new_active (rb_new src (unat len) 0) = Ret (RD_OK, Some y, b)"
    "kread y b = Ret (RD_OK, KdbList a cp xs, b1)" "length xs = 3" "format_obj fl (KdbList a cp xs) = Ret t"
  shows "reader_scribe fl src len out = Ret (1, out @ [Matching t])"
  using assms by (simp add: reader_scribe_def del: format_obj.simps)

lemma scribe_prints:
  assumes "kcan x" "is_upd x" "length (enc x) < 2 ^ 31" "format_obj fl x = Ret t"
  shows "reader_scribe fl (enc x @ c) (word_of_nat (length (enc x))) out = Ret (1, out @ [Matching t])"
proof -
  let ?b = "rb_new (enc x @ c) (length (enc x)) 0"
  have b: "rb_csr ?b = 0" "rb_wf ?b" "rb_avail ?b = enc x @ []"
    by (simp_all add: rb_new_def rb_wf_def rb_avail_def rb_remaining_def)
  obtain y where y: "new_active ?b = Ret (RD_OK, Some y, rb_adj (hsize x) ?b)"
    "kread y (rb_adj (hsize x) ?b) = Ret (RD_OK, x, rb_adj (length (enc x)) ?b)"
    using kread_whole [OF assms(1) b] by blast
  obtain a cp f u z where x: "x = KdbList a cp [KdbSymbolAtom f, KdbSymbolAtom u, z]" using assms(2) by (auto simp: is_upd_def)
  have l: "unat (word_of_nat (length (enc x)) :: u64) = length (enc x)" using assms(3) by (intro unat_word_of_nat64) simp
  obtain e where e: "enc x @ c = i8typ LIST # e" by (simp add: x vec_hdr_def)
  let ?L = "word_of_nat (length (enc x)) :: u64"
  have n: "new_active (rb_new (enc x @ c) (unat ?L) 0) = Ret (RD_OK, Some y, rb_adj (hsize x) ?b)" using y(1) by (simp only: l)
  have r: "kread y (rb_adj (hsize x) ?b) = Ret (RD_OK, KdbList a cp [KdbSymbolAtom f, KdbSymbolAtom u, z], rb_adj (length (enc x)) ?b)"
    using y(2) by (simp only: x)
  show ?thesis
    using assms(4) by (intro scribe_list [OF e n r]) (simp, simp only: x)
qed

lemma wanted_of_0: "wanted_of 0 fn tbls i xs = filter (\<lambda>x. \<exists>t \<in> tbls. upd_call x = Some (fn, t)) xs"
  by (induction xs arbitrary: i) (simp_all add: wanted_def)

section \<open>Properties\<close>

text \<open>C9. The journal reader, from the bytes of the file to the text on the screen. On a journal of update messages of
  three elements it reports their number and then prints, of those that call \<open>upd\<close> for \<open>trade\<close>, when each of them
  can be formatted, the text the formatters give, each once and in order. (What that text is: theory \<open>Kdb_Format\<close>.)\<close>

theorem journal_reader_prints:
  assumes "reads_file os fd (hdr @ enc_list xs)" "length hdr = 8" "jnl_objects xs" "8 + length (enc_list xs) < 2 ^ 64"
    and "\<forall>x \<in> set xs. is_upd x \<and> (upd_call x = Some (asc ''upd'', asc ''trade'') \<longrightarrow> printable x)"
  shows "\<exists>ts w1. journal_reader fl os w = Ret (0, Opening (word_of_nat (length xs)) # map Matching ts, w1) \<and>
    list_all2 (\<lambda>x t. format_obj fl x = Ret t) (filter (\<lambda>x. upd_call x = Some (asc ''upd'', asc ''trade'')) xs) ts"
proof -
  let ?n = "word_of_nat (length xs) :: u64" and ?fn = "asc ''upd''" and ?tbls = "{asc ''trade''}"
  let ?ws = "wanted_of 0 ?fn ?tbls 0 xs" and ?text = "\<lambda>x. THE t. format_obj fl x = Ret t"
  obtain w1 where i: "jnl_init os \<lparr>jo_read_only = True, jo_validate = True, jo_max_replay = - 1\<rparr> w =
      Ret (Opened \<lparr>j_rd_only = True, j_fd = fd, j_msg_count = ?n\<rparr>, w1)"
    using init_counts [OF assms(1-4)] by blast
  obtain w2 w3 where w3: "jnl_file os fd (hdr @ enc_list (xs @ [])) (fst w1) w2 w3"
    using assms(1) by (fastforce simp: reads_file_def)
  have wanted: "?ws = filter (\<lambda>x. upd_call x = Some (?fn, asc ''trade'')) xs" by (simp add: wanted_of_0)
  then have printed: "format_obj fl x = Ret (?text x)" if "x \<in> set ?ws" for x
    using format_printable(1) [of fl x] assms(5) that by (auto simp: returns_def)
  have "length xs < 2 ^ 64" using length_enc_list [of xs] assms(4) by linarith
  then have n: "length xs \<le> unat ?n" by (simp add: unat_word_of_nat64)
  have "\<exists>w4. jnl_filter_msgs os fd ?n (mk_upd_tbl_filter 0 ?fn ?tbls (reader_scribe fl)) [Opening ?n] (fst w1, snd w1) =
      Ret (Inr (?n, word_of_nat (length ?ws)), foldl (\<lambda>s x. s @ [Matching (?text x)]) [Opening ?n] ?ws, w4)"
  proof (intro exI, rule jnl_filter_msgs_wanted [OF w3 assms(2)])
    fix x c s
    assume "x \<in> set ?ws"
    then show "reader_scribe fl (enc x @ c) (word_of_nat (length (enc x))) s = Ret (1, s @ [Matching (?text x)])"
      using assms(3,5) printed wanted_of_subset [of 0 ?fn ?tbls 0 xs] by (intro scribe_prints) (auto simp: jnl_objects_def)
  qed (use assms(3-5) n is_upd_call in auto)
  moreover have "foldl (\<lambda>s x. s @ [Matching (?text x)]) out zs = out @ map Matching (map ?text zs)" for out zs
    by (induction zs arbitrary: out) simp_all
  ultimately obtain w4 where "journal_reader fl os w = Ret (0, Opening ?n # map Matching (map ?text ?ws), w4)"
    by (auto simp: journal_reader_def i terminates_def)
  moreover have "list_all2 (\<lambda>x t. format_obj fl x = Ret t) ?ws (map ?text ?ws)"
    using printed by (auto simp: list_all2_map2 list_all2_same)
  ultimately show ?thesis using wanted by (intro exI [of _ "map ?text ?ws"] exI [of _ w4]) simp
qed

text \<open>\<open>(`upd;`trade;5)\<close> and \<open>(`upd;`quote;6)\<close>\<close>

definition sample_trade :: kobj where
  "sample_trade = KdbList 0 3 [KdbSymbolAtom (asc ''upd''), KdbSymbolAtom (asc ''trade''), KdbAtom (KdbLongAtom 5)]"

definition sample_quote :: kobj where
  "sample_quote = KdbList 0 3 [KdbSymbolAtom (asc ''upd''), KdbSymbolAtom (asc ''quote''), KdbAtom (KdbLongAtom 6)]"

lemma sample_messages:
  "jnl_objects [sample_trade, sample_quote]" "length (enc_list [sample_trade, sample_quote]) = 54"
  "\<forall>x \<in> set [sample_trade, sample_quote]. is_upd x \<and> (upd_call x = Some (asc ''upd'', asc ''trade'') \<longrightarrow> printable x)"
  "format_obj fl sample_trade = Ret (asc ''(`upd;`trade;5)'')"
  by (simp_all add: sample_trade_def sample_quote_def jnl_objects_def asc_def vec_hdr_def is_upd_def format_KdbSymbolAtom_def
      format_KdbList_def format_KdbLongAtom_def fmt_digit space_def)

lemma journal_reader_prints_witness:
  "\<forall>fl. \<exists>w1. journal_reader fl (one_file (jnl_header @ enc_list [sample_trade, sample_quote])) ((), []) =
     Ret (0, [Opening 2, Matching (asc ''(`upd;`trade;5)'')], w1)"
proof
  fix fl
  let ?os = "one_file (jnl_header @ enc_list [sample_trade, sample_quote])"
  have "reads_file ?os 3 (jnl_header @ enc_list [sample_trade, sample_quote])"
    by (simp add: reads_file_def jnl_file_def one_file_def)
  from journal_reader_prints [OF this length_jnl_header sample_messages(1) _ sample_messages(3), of fl "((), [])"]
  obtain ts w1 where r: "journal_reader fl ?os ((), []) = Ret (0, Opening 2 # map Matching ts, w1)"
    "list_all2 (\<lambda>x t. format_obj fl x = Ret t)
      (filter (\<lambda>x. upd_call x = Some (asc ''upd'', asc ''trade'')) [sample_trade, sample_quote]) ts"
    unfolding sample_messages(2) by auto
  have "filter (\<lambda>x. upd_call x = Some (asc ''upd'', asc ''trade'')) [sample_trade, sample_quote] = [sample_trade]"
    by (simp add: sample_trade_def sample_quote_def asc_def)
  then have "ts = [asc ''(`upd;`trade;5)'']"
    using r(2) sample_messages(4) [of fl] by (auto simp: list_all2_Cons1)
  then show "\<exists>w1. journal_reader fl ?os ((), []) = Ret (0, [Opening 2, Matching (asc ''(`upd;`trade;5)'')], w1)"
    using r(1) by (intro exI [of _ w1]) (simp only: list.map)
qed

end
