(* ===== verification/Tp_Epoll.thy ===== *)
theory Tp_Epoll
  imports Mg_Io
begin

text \<open>
  What the coroutines of \<^verbatim>\<open>tpmux\<close> share: the objects of \<^verbatim>\<open>mg_coro_domain_obj.h\<close>, the class
  \<open>EpollCtl\<close> (\<^verbatim>\<open>mg_coro_epoll.cpp\<close>), and how a coroutine that awaits an event is represented.
\<close>

section \<open>Domain objects\<close>

record subscription =
  m_service :: bytes
  m_username :: bytes
  m_tables :: "bytes list"

record tp_msg_counts =
  m_num_msg_total :: u32
  m_num_msg_included :: u32

datatype errno_msg = ErrnoMsg (errnum: int) (errmsg: string)

record tcp_conn =
  m_sock_fd :: int
  m_host :: bytes
  m_conn_service :: bytes

section \<open>EpollCtl\<close>

abbreviation (input) EPOLLIN :: u32 where "EPOLLIN \<equiv> 1"
abbreviation (input) EPOLLOUT :: u32 where "EPOLLOUT \<equiv> 4"
abbreviation (input) EPOLLERR :: u32 where "EPOLLERR \<equiv> 8"
abbreviation (input) EPOLL_CTL_ADD :: int where "EPOLL_CTL_ADD \<equiv> 1"
abbreviation (input) EPOLL_CTL_DEL :: int where "EPOLL_CTL_DEL \<equiv> 2"
abbreviation (input) EPOLL_CTL_MOD :: int where "EPOLL_CTL_MOD \<equiv> 3"
abbreviation (input) EAGAIN :: int where "EAGAIN \<equiv> 11"

text \<open>The object is its descriptor.\<close>

type_synonym epoll_ctl = int

definition epoll_upd :: "'w posix \<Rightarrow> epoll_ctl \<Rightarrow> int \<Rightarrow> u32 \<Rightarrow> int \<Rightarrow> 'w io \<Rightarrow> (int + int) \<times> 'w io" where
  "epoll_upd px ep fd events action w = io_epoll_ctl px ep action fd events w"

definition mod_interest :: "'w posix \<Rightarrow> epoll_ctl \<Rightarrow> int \<Rightarrow> u32 \<Rightarrow> 'w io \<Rightarrow> (int + int) \<times> 'w io" where
  "mod_interest px ep fd events = epoll_upd px ep fd events EPOLL_CTL_MOD"

definition add_interest :: "'w posix \<Rightarrow> epoll_ctl \<Rightarrow> int \<Rightarrow> u32 \<Rightarrow> 'w io \<Rightarrow> (int + int) \<times> 'w io" where
  "add_interest px ep fd events = epoll_upd px ep fd events EPOLL_CTL_ADD"

definition clr_interest :: "'w posix \<Rightarrow> epoll_ctl \<Rightarrow> int \<Rightarrow> 'w io \<Rightarrow> (int + int) \<times> 'w io" where
  "clr_interest px ep fd = epoll_upd px ep fd 0 EPOLL_CTL_DEL"

section \<open>Awaiting\<close>

text \<open>
  A coroutine is a function of the events it is resumed with: the flags that \<open>onEvent\<close> stores and
  \<open>await_resume\<close> gives, and what the other coroutines and the system have done to the world
  meanwhile. When there are no more events it is still waiting; otherwise it has returned a
  value or left by an exception.
\<close>

type_synonym 'w wake = "u32 \<times> ('w \<Rightarrow> 'w)"

definition woken :: "('w \<Rightarrow> 'w) \<Rightarrow> 'w io \<Rightarrow> 'w io" where
  "woken g w = (g (fst w), snd w)"

datatype 'r coro = Awaits | CoReturn 'r | CoThrow

text \<open>
  What \<open>co_await\<close> gives of a \<open>Task\<close> made in the expression: nothing as long as the task waits, and the value it
  returns. An exception is undefined behaviour: it is stored in \<open>p_exception\<close>, which the destructor of the
  promise destroys twice, explicitly and as a member.
\<close>

definition co_result :: "'r coro \<Rightarrow> 'r option outcome" where
  "co_result c = (case c of Awaits \<Rightarrow> Ret None | CoReturn r \<Rightarrow> Ret (Some r) | CoThrow \<Rightarrow> Undef)"

lemma co_result_simps [simp]:
  "co_result Awaits = Ret None" "co_result (CoReturn r) = Ret (Some r)" "co_result CoThrow = Undef"
  by (simp_all add: co_result_def)

text \<open>
  A loop that need not await an event need not end: it repeats its turn until that gives \<open>Inl\<close>, and its
  value is \<open>None\<close> when that never happens.
\<close>

partial_function (option) until_inl :: "('s \<Rightarrow> 'r + 's) \<Rightarrow> 's \<Rightarrow> 'r option" where
  [code]: "until_inl f s = (case f s of Inl r \<Rightarrow> Some r | Inr s1 \<Rightarrow> until_inl f s1)"

lemma until_inl_simps:
  "f s = Inl r \<Longrightarrow> until_inl f s = Some r"
  "f s = Inr s1 \<Longrightarrow> until_inl f s = until_inl f s1"
  by (simp_all add: until_inl.simps [of f s])

lemma until_inl_never:
  assumes "\<And>s. bad s \<Longrightarrow> \<exists>s1. f s = Inr s1 \<and> bad s1" "bad s"
  shows "until_inl f s = None"
proof -
  let ?P = "\<lambda>f' s r. f' = f \<longrightarrow> \<not> bad s"
  have "?P f' s r" if "until_inl f' s = Some r" for f' s r
    using that
  proof (rule until_inl.raw_induct [where P = ?P, rotated])
    fix loop f' s r
    assume IH: "\<And>f' s r. loop f' s = Some r \<Longrightarrow> ?P f' s r"
      and r: "(case f' s of Inl r \<Rightarrow> Some r | Inr s1 \<Rightarrow> loop f' s1) = Some r"
    show "?P f' s r"
    proof (intro impI notI)
      assume "f' = f" "bad s"
      with assms(1) obtain s1 where "f s = Inr s1" "bad s1" by blast
      then show False using IH [of f s1 r] r \<open>f' = f\<close> by simp
    qed
  qed
  then show ?thesis using assms(2) by (cases "until_inl f s") auto
qed

lemma until_inl_inv:
  assumes "until_inl f s = Some r" "ok s"
    and "\<And>s s1. ok s \<Longrightarrow> f s = Inr s1 \<Longrightarrow> ok s1" "\<And>s r. ok s \<Longrightarrow> f s = Inl r \<Longrightarrow> fin r"
  shows "fin r"
proof -
  let ?P = "\<lambda>f' s r. f' = f \<longrightarrow> ok s \<longrightarrow> fin r"
  have "?P f s r"
    using assms(1)
  proof (rule until_inl.raw_induct [where P = ?P, rotated])
    fix loop f' s r
    assume IH: "\<And>f' s r. loop f' s = Some r \<Longrightarrow> ?P f' s r"
      and r: "(case f' s of Inl r \<Rightarrow> Some r | Inr s1 \<Rightarrow> loop f' s1) = Some r"
    show "?P f' s r"
      using IH r assms(3,4) by (auto split: sum.splits)
  qed
  then show ?thesis using assms(2) by simp
qed

text \<open>Whether epoll watches a descriptor after some calls, all of them successful.\<close>

definition watched :: "epoll_ctl \<Rightarrow> int \<Rightarrow> io_call list \<Rightarrow> bool" where
  "watched ep fd log =
     foldl (\<lambda>b c. case c of
         IoEpollCtl e op d ev \<Rightarrow> if e = ep \<and> d = fd then op \<noteq> EPOLL_CTL_DEL else b
       | IoClose d \<Rightarrow> if d = fd then False else b
       | _ \<Rightarrow> b) False log"

lemma watched_simps [simp]:
  "watched ep fd [] = False"
  "watched ep fd (l @ [IoEpollCtl e op d ev]) = (if e = ep \<and> d = fd then op \<noteq> EPOLL_CTL_DEL else watched ep fd l)"
  "watched ep fd (l @ [IoClose d]) = (if d = fd then False else watched ep fd l)"
  "watched ep fd (l @ [IoRead d n]) = watched ep fd l"
  "watched ep fd (l @ [IoWrite d bs]) = watched ep fd l"
  by (simp_all add: watched_def)

text \<open>\<open>read\<close> into a buffer at an offset.\<close>

definition store_at :: "nat \<Rightarrow> bytes \<Rightarrow> bytes \<Rightarrow> bytes" where
  "store_at off bs mem = take off mem @ bs @ drop (off + length bs) mem"

lemma length_store_at [simp]: "off + length bs \<le> length mem \<Longrightarrow> length (store_at off bs mem) = length mem"
  by (simp add: store_at_def)

lemma take_store_at [simp]: "off \<le> length mem \<Longrightarrow> take (off + length bs) (store_at off bs mem) = take off mem @ bs"
  by (simp add: store_at_def)

end
