(* ===== verification/Tp_Connect.thy ===== *)
theory Tp_Connect
  imports Tp_Epoll Kdb_Types
begin

text \<open>
  The coroutines \<open>tcp_connect\<close> (\<^verbatim>\<open>tpmux/src/mg_coro_tcp_connect.cpp\<close>) and \<open>kdb_connect\<close>
  (\<^verbatim>\<open>tpmux/src/mg_coro_kdb_connect.cpp\<close>): a socket connected to one of the addresses of a host, and the
  handshake of kdb+ on it.
\<close>

section \<open>tcp\_connect\<close>

abbreviation (input) EFD_FLAGS :: int where "EFD_FLAGS \<equiv> 2049"
abbreviation (input) SOCK_NONBLOCK :: int where "SOCK_NONBLOCK \<equiv> 2048"
abbreviation (input) EINPROGRESS :: int where "EINPROGRESS \<equiv> 115"
abbreviation (input) SOL_SOCKET :: int where "SOL_SOCKET \<equiv> 1"
abbreviation (input) SO_ERROR :: int where "SO_ERROR \<equiv> 4"

record addrinfo =
  ai_family :: int
  ai_socktype :: int
  ai_protocol :: int
  ai_addr :: bytes

type_synonym 'w tcp_out = "(errno_msg + tcp_conn) coro \<times> 'w wake list \<times> 'w io"

abbreviation tcp_error :: "int \<Rightarrow> string \<Rightarrow> (errno_msg + 'r) coro" where
  "tcp_error e msg \<equiv> CoReturn (Inl (ErrnoMsg e msg))"

definition freeaddrinfo :: "'w io \<Rightarrow> 'w io" where
  "freeaddrinfo w = (fst w, snd w @ [IoFreeaddrinfo])"

text \<open>A connection that has been begun: \<open>Inr\<close> goes on with the next address.\<close>

definition tcp_await :: "'w posix \<Rightarrow> epoll_ctl \<Rightarrow> tcp_conn \<Rightarrow> 'w wake list \<Rightarrow> 'w io \<Rightarrow> 'w tcp_out + 'w wake list \<times> 'w io" where
  "tcp_await px ep conn evs w =
     (let fd = m_sock_fd conn; shut = (\<lambda>w. snd (io_close px fd w))
      in case add_interest px ep fd EPOLLOUT w of
           (Inl e, w1) \<Rightarrow> Inl (tcp_error e ''Could not EpollCtl::add_interest'', evs, shut w1)
         | (Inr r, w1) \<Rightarrow>
             (case evs of
                [] \<Rightarrow> Inl (Awaits, [], w1)
              | (revs, g) # evs1 \<Rightarrow>
                  if revs AND EPOLLERR \<noteq> 0
                  then Inl (tcp_error 0 ''EPOLLERR detected after connect-op'', evs1, shut (snd (clr_interest px ep fd (woken g w1))))
                  else case clr_interest px ep fd (woken g w1) of
                         (Inl e, w2) \<Rightarrow> Inl (tcp_error e ''Could not EpollCtl::add_interest'', evs1, shut w2)
                       | (Inr r, w2) \<Rightarrow>
                           (case io_getsockopt px fd SOL_SOCKET SO_ERROR w2 of
                              (Inl e, w3) \<Rightarrow> Inr (evs1, shut w3)
                            | (Inr sk_errno, w3) \<Rightarrow>
                                if sk_errno \<noteq> 0 then Inr (evs1, shut w3) else Inl (CoReturn (Inr conn), evs1, w3))))"

fun tcp_try :: "'w posix \<Rightarrow> epoll_ctl \<Rightarrow> bytes \<Rightarrow> bytes \<Rightarrow> addrinfo list \<Rightarrow> 'w wake list \<Rightarrow> 'w io \<Rightarrow> 'w tcp_out" where
  "tcp_try px ep host service [] evs w = (tcp_error 0 ''Could not establish TCP connection'', evs, w)"
| "tcp_try px ep host service (a # res) evs w =
     (case io_socket px (ai_family a) (ai_socktype a OR SOCK_NONBLOCK) (ai_protocol a) w of
        (Inl e, w1) \<Rightarrow> tcp_try px ep host service res evs w1
      | (Inr fd, w1) \<Rightarrow>
          let conn = \<lparr>m_sock_fd = fd, m_host = host, m_conn_service = service\<rparr>;
              (r, w2) = io_connect px fd (ai_addr a) w1
          in if \<exists>e. r = Inl e \<and> e \<noteq> EINPROGRESS \<and> e \<noteq> EAGAIN
             then tcp_try px ep host service res evs (snd (io_close px fd w2))
             else if r = Inr 0 then (CoReturn (Inr conn), evs, freeaddrinfo w2)
             else case tcp_await px ep conn evs w2 of
                    Inl out \<Rightarrow> out
                  | Inr (evs1, w3) \<Rightarrow> tcp_try px ep host service res evs1 w3)"

text \<open>\<open>gai\<close> is the list that \<open>ar_result\<close> points to when the lookup has ended; after a lookup that failed
  (\<open>None\<close>) the pointer, which is not initialised, is used all the same.\<close>

definition tcp_connect :: "'w posix \<Rightarrow> ('w \<Rightarrow> addrinfo list option) \<Rightarrow> epoll_ctl \<Rightarrow> bytes \<Rightarrow> bytes \<Rightarrow> 'w wake list \<Rightarrow> 'w io \<Rightarrow>
    'w tcp_out outcome" where
  "tcp_connect px gai ep host service evs w =
     (case io_eventfd px 0 EFD_FLAGS w of
        (Inl e, w1) \<Rightarrow> Ret (tcp_error e ''Failed to create event_fd'', evs, w1)
      | (Inr event_fd, w1) \<Rightarrow>
          (case add_interest px ep event_fd EPOLLIN w1 of
             (Inl e, w2) \<Rightarrow> Ret (tcp_error e ''Could not .add_interest'', evs, w2)
           | (Inr r, w2) \<Rightarrow>
               (case io_getaddrinfo_a px host service w2 of
                  (Inl e, w3) \<Rightarrow> Ret (tcp_error e ''Failed in getaddrinfo_a'', evs, w3)
                | (Inr r, w3) \<Rightarrow>
                    (case evs of
                       [] \<Rightarrow> Ret (Awaits, [], w3)
                     | (revs, g) # evs1 \<Rightarrow>
                         if revs AND EPOLLERR \<noteq> 0
                         then Ret (tcp_error 0 ''EPOLLERR detected after getadrrinfo_a op'', evs1, woken g w3)
                         else case gai (fst (woken g w3)) of
                                None \<Rightarrow> Undef
                              | Some res \<Rightarrow>
                                  (case clr_interest px ep event_fd (woken g w3) of
                                     (Inl e, w4) \<Rightarrow> Ret (tcp_error e ''Could not .clr_interest'', evs1, w4)
                                   | (Inr r, w4) \<Rightarrow>
                                       Ret (tcp_try px ep host service res evs1 (snd (io_close px event_fd w4))))))))"

section \<open>kdb\_connect\<close>

type_synonym 'w kdb_out = "(errno_msg + u8) coro \<times> 'w wake list \<times> 'w io"

definition credentials :: "bytes \<Rightarrow> bytes" where
  "credentials user = user @ [58, 3, 0]"

text \<open>The array \<open>creds\<close>; one that is too small is overrun.\<close>

definition creds_array :: "bytes \<Rightarrow> bytes outcome" where
  "creds_array user =
     (if 128 < length (credentials user) then Undef
      else Ret (credentials user @ replicate (128 - length (credentials user)) 0))"

text \<open>One write of the credentials, from \<open>retry\<close> on: it is always of \<open>len\<close> bytes. The result is \<open>None\<close> when
  they are written.\<close>

definition creds_write :: "'w posix \<Rightarrow> int \<Rightarrow> bytes \<Rightarrow> nat \<Rightarrow> nat \<times> nat \<times> 'w wake list \<times> 'w io \<Rightarrow>
    ((errno_msg + u8) coro option \<times> 'w wake list \<times> 'w io) outcome + nat \<times> nat \<times> 'w wake list \<times> 'w io" where
  "creds_write px fd creds len = (\<lambda>(off, retries, evs, w).
     if length creds < off + len then Inl Undef
     else case io_write px fd (take len (drop off creds)) w of
            (Inl e, w1) \<Rightarrow>
              if e = EAGAIN
              then if retries < 3
                   then (case evs of
                           [] \<Rightarrow> Inl (Ret (Some Awaits, [], w1))
                         | (revs, g) # evs1 \<Rightarrow>
                             if revs AND EPOLLERR \<noteq> 0
                             then Inl (Ret (Some (tcp_error 0 ''EPOLLERR detected while waiting for write''), evs1, woken g w1))
                             else Inr (off, retries + 1, evs1, woken g w1))
                   else Inl (Ret (Some (tcp_error e ''Failed attempting to write credentials''), evs, w1))
              else Inl (Ret (Some (tcp_error e ''Failed while writing credentials''), evs, w1))
          | (Inr n, w1) \<Rightarrow>
              if off + n < len then Inr (off + n, retries, evs, w1) else Inl (Ret (None, evs, w1)))"

text \<open>The answer to the credentials.\<close>

definition kdb_reply :: "'w posix \<Rightarrow> epoll_ctl \<Rightarrow> int \<Rightarrow> 'w wake list \<Rightarrow> 'w io \<Rightarrow> 'w kdb_out" where
  "kdb_reply px ep fd evs w =
     (case mod_interest px ep fd EPOLLIN w of
        (Inl e, w1) \<Rightarrow> (tcp_error e ''Failed in EpollCtl::mod_interest'', evs, w1)
      | (Inr r, w1) \<Rightarrow>
          (case evs of
             [] \<Rightarrow> (Awaits, [], w1)
           | (revs, g) # evs1 \<Rightarrow>
               if revs AND EPOLLERR \<noteq> 0
               then (tcp_error 0 ''EPOLLERR detected while waiting for write'', evs1, woken g w1)
               else case io_read px fd 1 (woken g w1) of
                      (Inl e, w2) \<Rightarrow> (tcp_error e ''Failed during read'', evs1, w2)
                    | (Inr bs, w2) \<Rightarrow>
                        if length bs = 1
                        then (case clr_interest px ep fd w2 of
                                (Inl e, w3) \<Rightarrow> (tcp_error e ''Failed in EpollCtl::clr_interest'', evs1, w3)
                              | (Inr r, w3) \<Rightarrow> (CoReturn (Inr (hd bs)), evs1, w3))
                        else (tcp_error 0 ''Failed in kdb IPC-handshake'', evs1, w2)))"

definition kdb_connect :: "'w posix \<Rightarrow> epoll_ctl \<Rightarrow> tcp_conn \<Rightarrow> bytes \<Rightarrow> 'w wake list \<Rightarrow> 'w io \<Rightarrow> 'w kdb_out outcome option" where
  "kdb_connect px ep conn user evs w =
     (case creds_array user of
        Ret creds \<Rightarrow>
          (case add_interest px ep (m_sock_fd conn) EPOLLOUT w of
             (Inl e, w1) \<Rightarrow> Some (Ret (tcp_error e ''Failed to EpollCtl::add_interest'', evs, w1))
           | (Inr r, w1) \<Rightarrow>
               map_option (\<lambda>out. obind out (\<lambda>(c, evs1, w2).
                   case c of Some end \<Rightarrow> Ret (end, evs1, w2) | None \<Rightarrow> Ret (kdb_reply px ep (m_sock_fd conn) evs1 w2)))
                 (until_inl (creds_write px (m_sock_fd conn) creds (length (credentials user))) (0, 0, evs, w1)))
      | Throw e \<Rightarrow> Some (Throw e)
      | Undef \<Rightarrow> Some Undef)"

section \<open>The handshake\<close>

lemma length_creds: "creds_array user = Ret creds \<Longrightarrow> length creds = 128 \<and> take (length (credentials user)) creds = credentials user"
  by (auto simp: creds_array_def split: if_splits)

text \<open>The handshake: one write of user name, colon, version 3 and a NUL; the byte that is read in answer is
  the level that is returned; and epoll no longer watches the socket.\<close>

theorem kdb_connect_logs_in:
  assumes "\<forall>op ev w. \<exists>r e w1. px_epoll_ctl px ep op (m_sock_fd conn) ev w = ((Some r, e), w1)"
    and "\<forall>bs w. \<exists>e w1. px_write px (m_sock_fd conn) bs w = ((Some (length bs), e), w1)"
    and "\<forall>w. \<exists>e w1. px_read px (m_sock_fd conn) 1 w = ((Some [lvl], e), w1)"
    and "length user \<le> 125" "revs AND EPOLLERR = 0"
  shows "\<exists>w1. kdb_connect px ep conn user ((revs, g) # evs) (w, []) = Some (Ret (CoReturn (Inr lvl), evs, w1,
    [IoEpollCtl ep EPOLL_CTL_ADD (m_sock_fd conn) EPOLLOUT, IoWrite (m_sock_fd conn) (user @ [58, 3, 0]),
     IoEpollCtl ep EPOLL_CTL_MOD (m_sock_fd conn) EPOLLIN, IoRead (m_sock_fd conn) 1,
     IoEpollCtl ep EPOLL_CTL_DEL (m_sock_fd conn) 0]))"
proof -
  let ?fd = "m_sock_fd conn"
  have ctl: "\<exists>r w1. io_epoll_ctl px ep op ?fd ev (w, l) = (Inr r, w1, l @ [IoEpollCtl ep op ?fd ev])" for op ev w l
    using assms(1) [rule_format, of op ev w] by (auto simp: io_epoll_ctl_def sys_def expected_def)
  have wr: "\<exists>w1. io_write px ?fd bs (w, l) = (Inr (length bs), w1, l @ [IoWrite ?fd bs])" for bs w l
    using assms(2) [rule_format, of bs w] by (auto simp: io_write_def sys_def expected_def)
  have rd: "\<exists>w1. io_read px ?fd 1 (w, l) = (Inr [lvl], w1, l @ [IoRead ?fd 1])" for w l
    using assms(3) [rule_format, of w] by (auto simp: io_read_def sys_def expected_def)
  let ?l1 = "[IoEpollCtl ep EPOLL_CTL_ADD ?fd EPOLLOUT]"
  let ?l2 = "?l1 @ [IoWrite ?fd (credentials user)]"
  let ?l3 = "?l2 @ [IoEpollCtl ep EPOLL_CTL_MOD ?fd EPOLLIN]"
  let ?l4 = "?l3 @ [IoRead ?fd 1]"
  obtain r1 w1 where w1: "io_epoll_ctl px ep EPOLL_CTL_ADD ?fd EPOLLOUT (w, []) = (Inr r1, w1, ?l1)"
    using ctl [of EPOLL_CTL_ADD EPOLLOUT w "[]"] by auto
  obtain w2 where w2: "io_write px ?fd (credentials user) (w1, ?l1) = (Inr (length (credentials user)), w2, ?l2)"
    using wr by blast
  obtain r3 w3 where w3: "io_epoll_ctl px ep EPOLL_CTL_MOD ?fd EPOLLIN (w2, ?l2) = (Inr r3, w3, ?l3)" using ctl by blast
  obtain w4 where w4: "io_read px ?fd 1 (g w3, ?l3) = (Inr [lvl], w4, ?l4)" using rd by blast
  obtain r5 w5 where w5: "io_epoll_ctl px ep EPOLL_CTL_DEL ?fd 0 (w4, ?l4) = (Inr r5, w5, ?l4 @ [IoEpollCtl ep EPOLL_CTL_DEL ?fd 0])"
    using ctl by blast
  have "\<not> 128 < length (credentials user)" using assms(4) by (simp add: credentials_def)
  then obtain creds where creds: "creds_array user = Ret creds" by (simp add: creds_array_def)
  have "creds_write px ?fd creds (length (credentials user)) (0, 0, (revs, g) # evs, w1, ?l1) = Inl (Ret (None, (revs, g) # evs, w2, ?l2))"
    using w2 length_creds [OF creds] \<open>\<not> 128 < length (credentials user)\<close> by (simp add: creds_write_def)
  moreover have "kdb_reply px ep ?fd ((revs, g) # evs) (w2, ?l2) =
      (CoReturn (Inr lvl), evs, w5, ?l4 @ [IoEpollCtl ep EPOLL_CTL_DEL ?fd 0])"
    using assms(5) w3 w4 w5 by (simp add: kdb_reply_def mod_interest_def clr_interest_def epoll_upd_def woken_def)
  ultimately show ?thesis
    using creds by (simp add: kdb_connect_def add_interest_def epoll_upd_def w1 until_inl_simps credentials_def)
qed

text \<open>When the socket takes only \<open>n\<close> bytes of the credentials, the rest is written with \<open>n\<close> bytes more: \<open>len\<close> is
  not reduced. The peer gets the credentials and \<open>n\<close> zero bytes that belong to no message.\<close>

theorem kdb_connect_short_write:
  assumes "creds_array user = Ret creds" "0 < n" "n < length (credentials user)" "n + length (credentials user) \<le> 128"
    and "px_write px fd (credentials user) w = ((Some n, e), w1)"
    and "px_write px fd (drop n (credentials user) @ replicate n 0) w1 = ((Some (length (credentials user)), e1), w2)"
  shows "until_inl (creds_write px fd creds (length (credentials user))) (0, 0, evs, w, log) =
    Some (Ret (None, evs, w2, log @ [IoWrite fd (credentials user), IoWrite fd (drop n (credentials user) @ replicate n 0)]))"
proof -
  let ?c = "credentials user" and ?f = "creds_write px fd creds (length (credentials user))"
  have creds: "creds = ?c @ replicate (128 - length ?c) 0" using assms(1) by (auto simp: creds_array_def split: if_splits)
  have "take (length ?c) (drop n creds) = drop n ?c @ replicate n 0"
    using assms(2-4) by (simp add: creds)
  then have "?f (n, 0, evs, w1, log @ [IoWrite fd ?c]) =
      Inl (Ret (None, evs, w2, log @ [IoWrite fd ?c, IoWrite fd (drop n ?c @ replicate n 0)]))"
    using assms(2-4,6) by (simp add: creds_write_def io_write_def sys_def expected_def creds)
  moreover have "?f (0, 0, evs, w, log) = Inr (n, 0, evs, w1, log @ [IoWrite fd ?c])"
    using assms(3-5) by (simp add: creds_write_def io_write_def sys_def expected_def creds)
  ultimately show ?thesis by (simp add: until_inl_simps)
qed

lemma creds_write_log:
  assumes "until_inl (creds_write px fd creds len) s = Some r" "watched ep fd (snd (snd (snd (snd s))))"
  shows "case r of Ret (c, evs, w) \<Rightarrow> watched ep fd (snd w) \<and> (\<forall>l. c \<noteq> Some (CoReturn (Inr l))) | _ \<Rightarrow> True"
  using assms(1)
proof (rule until_inl_inv [where ok = "\<lambda>s. watched ep fd (snd (snd (snd (snd s))))"])
  fix s s1
  assume s: "watched ep fd (snd (snd (snd (snd s))))" "creds_write px fd creds len s = Inr s1"
  then show "watched ep fd (snd (snd (snd (snd s1))))"
    by (auto simp: creds_write_def io_write_def sys_def woken_def split: if_splits sum.splits prod.splits list.splits)
next
  fix s and r :: "((errno_msg + u8) coro option \<times> 'a wake list \<times> 'a io) outcome"
  assume s: "watched ep fd (snd (snd (snd (snd s))))" "creds_write px fd creds len s = Inl r"
  then show "case r of Ret (c, evs, w) \<Rightarrow> watched ep fd (snd w) \<and> (\<forall>l. c \<noteq> Some (CoReturn (Inr l))) | _ \<Rightarrow> True"
    by (auto simp: creds_write_def io_write_def sys_def woken_def split: if_splits sum.splits prod.splits list.splits)
qed (use assms(2) in simp)

text \<open>A handshake that fails, for instance because the login is refused, returns while epoll still watches the
  socket, with the callback of an \<open>Awaiter\<close> that lived in the coroutine; only the successful one ends the watch.\<close>

theorem kdb_connect_stays_watched:
  assumes "kdb_connect px ep conn user evs (w, []) = Some (Ret (CoReturn r, evs', w', log))"
    and "\<forall>op ev w. \<exists>k e w1. px_epoll_ctl px ep op (m_sock_fd conn) ev w = ((Some k, e), w1)"
  shows "watched ep (m_sock_fd conn) log \<longleftrightarrow> (\<exists>e. r = Inl e)"
proof -
  let ?fd = "m_sock_fd conn"
  have ctl: "io_epoll_ctl px ep op ?fd ev v = (r, v1) \<Longrightarrow> (\<exists>k. r = Inr k) \<and> snd v1 = snd v @ [IoEpollCtl ep op ?fd ev]" for op ev v r v1
    using assms(2) [rule_format, of op ev "fst v"] by (auto simp: io_epoll_ctl_def sys_def expected_def)
  obtain creds where creds: "creds_array user = Ret creds"
    using assms(1) by (auto simp: kdb_connect_def split: outcome.splits)
  obtain k w1 where w1: "io_epoll_ctl px ep EPOLL_CTL_ADD ?fd EPOLLOUT (w, []) = (Inr k, w1)" "snd w1 = [IoEpollCtl ep EPOLL_CTL_ADD ?fd EPOLLOUT]"
    using ctl by (metis append_Nil snd_conv surj_pair)
  obtain c evs2 w2 where loop: "until_inl (creds_write px ?fd creds (length (credentials user))) (0, 0, evs, w1) = Some (Ret (c, evs2, w2))"
    and fin: "(case c of Some end \<Rightarrow> (end, evs2, w2) | None \<Rightarrow> kdb_reply px ep ?fd evs2 w2) = (CoReturn r, evs', w', log)"
    using assms(1) w1(1) creds
    by (auto simp: kdb_connect_def add_interest_def epoll_upd_def split: option.splits)
  have w2: "watched ep ?fd (snd w2)" "c \<noteq> Some (CoReturn (Inr l))" for l
    using creds_write_log [OF loop, of ep] w1(2) watched_simps(2) [of ep ?fd "[]"] by auto
  show ?thesis
  proof (cases c)
    case None
    then show ?thesis
      using fin w2(1)
      by (auto simp: kdb_reply_def mod_interest_def clr_interest_def epoll_upd_def io_read_def sys_def woken_def watched_def
          split: sum.splits prod.splits list.splits if_splits dest!: ctl)
  next
    case (Some d)
    then show ?thesis using fin w2 by (cases r) auto
  qed
qed

section \<open>Sockets\<close>

text \<open>A system that keeps track of the open descriptors: \<open>socket\<close> opens a new one, \<open>close\<close> closes, and the
  other calls leave them alone.\<close>

definition fd_table :: "'w posix \<Rightarrow> ('w \<Rightarrow> int set) \<Rightarrow> bool" where
  "fd_table px fds \<longleftrightarrow>
     (\<forall>w d t p. case px_socket px d t p w of
        ((Some fd, e), w1) \<Rightarrow> fd \<notin> fds w \<and> fds w1 = insert fd (fds w) | ((None, e), w1) \<Rightarrow> fds w1 = fds w) \<and>
     (\<forall>w fd. fds (snd (px_close px fd w)) = fds w - {fd}) \<and>
     (\<forall>w fd a. fds (snd (px_connect px fd a w)) = fds w) \<and>
     (\<forall>w ep op fd ev. fds (snd (px_epoll_ctl px ep op fd ev w)) = fds w) \<and>
     (\<forall>w fd l k. fds (snd (px_getsockopt px fd l k w)) = fds w)"

lemma fd_table_syscalls:
  assumes "fd_table px fds"
  shows "fds (snd (px_close px fd w)) = fds w - {fd}" "fds (snd (px_connect px fd a w)) = fds w"
    "fds (snd (px_epoll_ctl px ep op fd ev w)) = fds w" "fds (snd (px_getsockopt px fd l k w)) = fds w"
    and "case px_socket px d t p w of
      ((Some fd, e), w1) \<Rightarrow> fd \<notin> fds w \<and> fds w1 = insert fd (fds w) | ((None, e), w1) \<Rightarrow> fds w1 = fds w"
  subgoal by (rule assms [unfolded fd_table_def, THEN conjunct2, THEN conjunct1, rule_format])
  subgoal by (rule assms [unfolded fd_table_def, THEN conjunct2, THEN conjunct2, THEN conjunct1, rule_format])
  subgoal by (rule assms [unfolded fd_table_def, THEN conjunct2, THEN conjunct2, THEN conjunct2, THEN conjunct1, rule_format])
  subgoal by (rule assms [unfolded fd_table_def, THEN conjunct2, THEN conjunct2, THEN conjunct2, THEN conjunct2, rule_format])
  subgoal by (rule assms [unfolded fd_table_def, THEN conjunct1, rule_format])
  done

lemma fd_table_calls:
  assumes "fd_table px fds"
  shows "fds (fst (snd (io_close px fd w))) = fds (fst w) - {fd}"
    "io_connect px fd a w = (r, w1) \<Longrightarrow> fds (fst w1) = fds (fst w)"
    "io_epoll_ctl px ep op fd ev w = (r, w1) \<Longrightarrow> fds (fst w1) = fds (fst w)"
    "io_getsockopt px fd l k w = (r, w1) \<Longrightarrow> fds (fst w1) = fds (fst w)"
    "io_socket px d t p w = (r, w1) \<Longrightarrow>
      (case r of Inr fd \<Rightarrow> fd \<notin> fds (fst w) \<and> fds (fst w1) = insert fd (fds (fst w)) | Inl e \<Rightarrow> fds (fst w1) = fds (fst w))"
proof -
  note calls = fd_table_syscalls [OF assms]
  show "fds (fst (snd (io_close px fd w))) = fds (fst w) - {fd}"
    by (simp only: sys_world io_close_def calls)
  show "io_connect px fd a w = (r, w1) \<Longrightarrow> fds (fst w1) = fds (fst w)"
    by (drule arg_cong [where f = "\<lambda>x. fds (fst (snd x))"]) (simp only: sys_world io_connect_def calls snd_conv)
  show "io_epoll_ctl px ep op fd ev w = (r, w1) \<Longrightarrow> fds (fst w1) = fds (fst w)"
    by (drule arg_cong [where f = "\<lambda>x. fds (fst (snd x))"]) (simp only: sys_world io_epoll_ctl_def calls snd_conv)
  show "io_getsockopt px fd l k w = (r, w1) \<Longrightarrow> fds (fst w1) = fds (fst w)"
    by (drule arg_cong [where f = "\<lambda>x. fds (fst (snd x))"]) (simp only: sys_world io_getsockopt_def calls snd_conv)
  obtain r0 e0 v where v: "px_socket px d t p (fst w) = ((r0, e0), v)" by (cases "px_socket px d t p (fst w)") auto
  then show "io_socket px d t p w = (r, w1) \<Longrightarrow>
      (case r of Inr fd \<Rightarrow> fd \<notin> fds (fst w) \<and> fds (fst w1) = insert fd (fds (fst w)) | Inl e \<Rightarrow> fds (fst w1) = fds (fst w))"
    using calls(5) [where d = d and t = t and p = p and w = "fst w"] by (cases r0) (auto simp: io_socket_def sys_def expected_def)
qed

lemma tcp_await_fds:
  assumes "fd_table px fds" "\<forall>(revs, g) \<in> set evs. \<forall>w. fds (g w) = fds w" "m_sock_fd conn \<notin> F"
    and "fds (fst w) = insert (m_sock_fd conn) F"
  shows "case tcp_await px ep conn evs w of
      Inr (evs1, w1) \<Rightarrow> fds (fst w1) = F \<and> set evs1 \<subseteq> set evs
    | Inl (CoReturn (Inl e), evs1, w1) \<Rightarrow> fds (fst w1) = F
    | Inl (CoReturn (Inr c), evs1, w1) \<Rightarrow> c = conn \<and> fds (fst w1) = insert (m_sock_fd conn) F
    | Inl (Awaits, evs1, w1) \<Rightarrow> True
    | Inl (CoThrow, evs1, w1) \<Rightarrow> False"
proof -
  note calls = fd_table_calls [OF assms(1)]
  have shut: "fds (fst (snd (io_close px (m_sock_fd conn) v))) = F" if "fds (fst v) = insert (m_sock_fd conn) F" for v
    using assms(3) that calls(1) by auto
  let ?fd = "m_sock_fd conn"
  obtain r1 w1 where r1: "io_epoll_ctl px ep EPOLL_CTL_ADD ?fd EPOLLOUT w = (r1, w1)" by (cases "io_epoll_ctl px ep EPOLL_CTL_ADD ?fd EPOLLOUT w")
  then have f1: "fds (fst w1) = insert ?fd F" using calls(3) assms(4) by blast
  note defs = tcp_await_def add_interest_def clr_interest_def epoll_upd_def r1 Let_def
  show ?thesis
  proof (cases r1)
    case (Inl e)
    then show ?thesis using shut [OF f1] by (simp add: defs)
  next
    case (Inr k)
    show ?thesis
    proof (cases evs)
      case Nil
      then show ?thesis using Inr by (simp add: defs)
    next
      case (Cons ev evs1)
      obtain revs g where ev: "ev = (revs, g)" by (cases ev)
      obtain r2 w2 where r2: "io_epoll_ctl px ep EPOLL_CTL_DEL ?fd 0 (woken g w1) = (r2, w2)"
        by (cases "io_epoll_ctl px ep EPOLL_CTL_DEL ?fd 0 (woken g w1)")
      have "fds (fst (woken g w1)) = insert ?fd F" using assms(2) f1 by (simp add: Cons ev woken_def)
      then have f2: "fds (fst w2) = insert ?fd F" using calls(3) [OF r2] by simp
      obtain r3 w3 where r3: "io_getsockopt px ?fd SOL_SOCKET SO_ERROR w2 = (r3, w3)"
        by (cases "io_getsockopt px ?fd SOL_SOCKET SO_ERROR w2")
      then have f3: "fds (fst w3) = insert ?fd F" using calls(4) f2 by blast
      show ?thesis
        using Inr Cons ev shut [OF f2] shut [OF f3] f3
        by (cases r2; cases r3) (auto simp: defs r2 r3)
    qed
  qed
qed

lemma tcp_await_next:
  assumes "fd_table px fds" "\<forall>(revs, g) \<in> set evs. \<forall>w. fds (g w) = fds w" "m_sock_fd conn \<notin> F"
    and "fds (fst w) = insert (m_sock_fd conn) F" "tcp_await px ep conn evs w = Inr (evs1, w1)"
  shows "fds (fst w1) = F" "\<forall>(revs, g) \<in> set evs1. \<forall>w. fds (g w) = fds w"
  using tcp_await_fds [OF assms(1-4), of ep] assms(2) by (auto 0 3 simp: assms(5) dest: subsetD bspec)

lemma tcp_socket_fds:
  assumes "fd_table px fds" "io_socket px d t p w = (Inr fd, w1)" "io_connect px fd addr w1 = (r2, w2)"
  shows "fd \<notin> fds (fst w)" "fds (fst w2) = insert fd (fds (fst w))" "fds (fst (snd (io_close px fd w2))) = fds (fst w)"
proof -
  note calls = fd_table_calls [OF assms(1)]
  show f: "fd \<notin> fds (fst w)" "fds (fst w2) = insert fd (fds (fst w))"
    using calls(5) [OF assms(2)] calls(2) [OF assms(3)] by simp_all
  then show "fds (fst (snd (io_close px fd w2))) = fds (fst w)" using calls(1) by auto
qed

text \<open>C30. Over all the addresses of a host, \<open>tcp_connect\<close> closes every socket it opens, except the one it returns:
  whether it fails or succeeds, the open descriptors are the same as before it tried, plus that one.\<close>

theorem tcp_sockets_closed:
  assumes "fd_table px fds" "\<forall>(revs, g) \<in> set evs. \<forall>w. fds (g w) = fds w"
    and "tcp_try px ep host service res evs w = (CoReturn r, evs', w')"
  shows "case r of Inl e \<Rightarrow> fds (fst w') = fds (fst w)
    | Inr conn \<Rightarrow> m_sock_fd conn \<notin> fds (fst w) \<and> fds (fst w') = insert (m_sock_fd conn) (fds (fst w))"
  using assms
proof (induction px ep host service res evs w rule: tcp_try.induct)
  case (1 px ep host service evs w)
  then show ?case by auto
next
  case (2 px ep host service a res evs w)
  obtain r1 w1 where r1: "io_socket px (ai_family a) (ai_socktype a OR SOCK_NONBLOCK) (ai_protocol a) w = (r1, w1)"
    by (cases "io_socket px (ai_family a) (ai_socktype a OR SOCK_NONBLOCK) (ai_protocol a) w")
  show ?case
  proof (cases r1)
    case (Inl e)
    then have "fds (fst w1) = fds (fst w)" using fd_table_calls(5) [OF "2.prems"(1) r1] by simp
    then show ?thesis using "2.IH"(1) [OF r1 [symmetric] Inl "2.prems"(1,2)] "2.prems"(3) Inl by (cases r) (simp_all add: r1)
  next
    case (Inr fd)
    let ?conn = "\<lparr>m_sock_fd = fd, m_host = host, m_conn_service = service\<rparr>"
    obtain r2 w2 where r2: "io_connect px fd (ai_addr a) w1 = (r2, w2)" by (cases "io_connect px fd (ai_addr a) w1")
    note f = tcp_socket_fds [OF "2.prems"(1) r1 [unfolded Inr] r2]
    have open_fd: "m_sock_fd ?conn \<notin> fds (fst w)" "fds (fst w2) = insert (m_sock_fd ?conn) (fds (fst w))" using f by simp_all
    note await = tcp_await_fds [OF "2.prems"(1,2) open_fd, of ep]
    consider (failed) "\<exists>e. r2 = Inl e \<and> e \<noteq> EINPROGRESS \<and> e \<noteq> EAGAIN" | (at_once) "r2 = Inr 0"
      | (begun) "\<not> (\<exists>e. r2 = Inl e \<and> e \<noteq> EINPROGRESS \<and> e \<noteq> EAGAIN)" "r2 \<noteq> Inr 0" by blast
    then show ?thesis
    proof cases
      case failed
      then show ?thesis using "2.IH"(2) [OF r1 [symmetric] Inr refl refl r2 [symmetric]] "2.prems" r1 r2 Inr f(3) by (cases r) simp_all
    next
      case at_once
      then show ?thesis using "2.prems"(3) r1 r2 Inr f by (auto simp: freeaddrinfo_def)
    next
      case begun
      show ?thesis
      proof (cases "tcp_await px ep ?conn evs w2")
        case (Inl out)
        then show ?thesis using "2.prems"(3) r1 r2 begun \<open>r1 = Inr fd\<close> await f by (cases r) auto
      next
        case (Inr c)
        obtain evs1 w3 where c: "c = (evs1, w3)" by (cases c)
        note w3 = tcp_await_next [OF "2.prems"(1,2) open_fd Inr [unfolded c]]
        have "tcp_try px ep host service res evs1 w3 = (CoReturn r, evs', w')"
          using "2.prems"(3) r1 r2 begun \<open>r1 = Inr fd\<close> Inr c by auto
        then show ?thesis
          using "2.IH"(3) [OF r1 [symmetric] \<open>r1 = Inr fd\<close> refl refl r2 [symmetric] begun Inr c [symmetric] "2.prems"(1) w3(2)] w3(1)
          by (cases r) simp_all
      qed
    qed
  qed
qed

section \<open>Witnesses\<close>

definition login_px :: "unit posix" where
  "login_px = ok_px\<lparr>px_read := \<lambda>fd n w. ((Some [6], 0), w)\<rparr>"

definition a_conn :: tcp_conn where
  "a_conn = \<lparr>m_sock_fd = 6, m_host = [104], m_conn_service = [53]\<rparr>"

theorem kdb_connect_logs_in_witness:
  "\<exists>w1. kdb_connect login_px 3 a_conn [117, 115] [(4, id)] ((), []) = Some (Ret (CoReturn (Inr 6), [], w1,
    [IoEpollCtl 3 1 6 4, IoWrite 6 [117, 115, 58, 3, 0], IoEpollCtl 3 3 6 1, IoRead 6 1, IoEpollCtl 3 2 6 0]))"
  using kdb_connect_logs_in [of login_px 3 a_conn 6 "[117, 115]" 4 id "[]" "()"]
  by (simp add: login_px_def ok_px_def a_conn_def)

text \<open>The first write takes one byte.\<close>

definition one_px :: "nat posix" where
  "one_px = ok_px\<lparr>px_write := \<lambda>fd bs w. ((Some (if w = 0 then 1 else length bs), 0), w + 1)\<rparr>"

theorem kdb_connect_short_write_witness:
  "\<exists>creds. creds_array [117, 115] = Ret creds \<and> until_inl (creds_write one_px 6 creds (length (credentials [117, 115]))) (0, 0, [], 0, []) =
    Some (Ret (None, [], 2, [IoWrite 6 [117, 115, 58, 3, 0], IoWrite 6 [115, 58, 3, 0, 0]]))"
proof -
  obtain creds where creds: "creds_array [117, 115] = Ret creds" by (simp add: creds_array_def credentials_def)
  have c: "credentials [117, 115] = [117, 115, 58, 3, 0]" by (simp add: credentials_def)
  have "px_write one_px 6 [117, 115, 58, 3, 0] 0 = ((Some 1, 0), 1)" "px_write one_px 6 [115, 58, 3, 0, 0] 1 = ((Some 5, 0), 2)"
    by (simp_all add: one_px_def)
  with kdb_connect_short_write [OF creds, of 1 one_px 6 0 0 1 0 2 "[]" "[]"] creds
  show ?thesis by (simp add: c)
qed

text \<open>A peer that refuses the login: it closes the connection, so that there is nothing to read.\<close>

theorem kdb_connect_stays_watched_witness:
  "\<exists>w1 log. kdb_connect ok_px 3 a_conn [117, 115] [(4, id)] ((), []) =
      Some (Ret (CoReturn (Inl (ErrnoMsg 0 ''Failed in kdb IPC-handshake'')), [], w1, log)) \<and> watched 3 6 log"
proof -
  have out: "kdb_connect ok_px 3 a_conn [117, 115] [(4, id)] ((), []) =
      Some (Ret (CoReturn (Inl (ErrnoMsg 0 ''Failed in kdb IPC-handshake'')), [], (),
        [IoEpollCtl 3 1 6 4, IoWrite 6 [117, 115, 58, 3, 0], IoEpollCtl 3 3 6 1, IoRead 6 1]))"
    by code_simp
  from kdb_connect_stays_watched [OF this]
  have "watched 3 (m_sock_fd a_conn) [IoEpollCtl 3 1 6 4, IoWrite 6 [117, 115, 58, 3, 0], IoEpollCtl 3 3 6 1, IoRead 6 1]"
    by (simp add: ok_px_def)
  with out show ?thesis by (simp add: a_conn_def)
qed

text \<open>A world that is the list of open descriptors; connections are begun, and do not end at once.\<close>

definition table_px :: "int list posix" where
  "table_px = ok_px\<lparr>px_socket := \<lambda>d t p w. ((Some (foldr max w 0 + 1), 0), (foldr max w 0 + 1) # w),
     px_close := \<lambda>fd w. ((Some 0, 0), removeAll fd w), px_connect := \<lambda>fd a w. ((None, 115), w),
     px_getsockopt := \<lambda>fd l k w. ((Some 111, 0), w)\<rparr>"

lemma foldr_max_ge: "x \<in> set l \<Longrightarrow> x \<le> foldr max l (0 :: int)"
  by (induction l) auto

lemma table_px_fds: "fd_table table_px set"
  using foldr_max_ge by (fastforce simp: fd_table_def table_px_def ok_px_def)

definition two_addrs :: "addrinfo list" where
  "two_addrs = [\<lparr>ai_family = 2, ai_socktype = 1, ai_protocol = 6, ai_addr = [1]\<rparr>, \<lparr>ai_family = 2, ai_socktype = 1, ai_protocol = 6, ai_addr = [2]\<rparr>]"

text \<open>Both addresses refuse the connection.\<close>

theorem tcp_sockets_closed_witness:
  "\<exists>evs' w'. tcp_try table_px 3 [104] [53] two_addrs [(4, id), (4, id)] ([4], []) =
      (CoReturn (Inl (ErrnoMsg 0 ''Could not establish TCP connection'')), evs', w') \<and> set (fst w') = {4}"
proof -
  obtain evs' w' where out: "tcp_try table_px 3 [104] [53] two_addrs [(4, id), (4, id)] ([4], []) =
      (CoReturn (Inl (ErrnoMsg 0 ''Could not establish TCP connection'')), evs', w')"
    by (simp add: two_addrs_def tcp_await_def add_interest_def clr_interest_def epoll_upd_def io_epoll_ctl_def io_socket_def
        io_connect_def io_getsockopt_def io_close_def sys_def expected_def table_px_def ok_px_def woken_def)
  from tcp_sockets_closed [OF table_px_fds _ this] show ?thesis using out by auto
qed

end
