(* ===== verification/Tp_Read.thy ===== *)
theory Tp_Read
  imports Tp_Epoll Kdb_Message
begin

text \<open>
  The coroutine \<open>kdb_read_message\<close> of \<^verbatim>\<open>tpmux/src/mg_coro_kdb_read_msg.cpp\<close>: it reads one message from
  a socket with a \<open>KdbIpcMessageReader\<close>.
\<close>

section \<open>The coroutine\<close>

text \<open>How it ends, with the events left over.\<close>

type_synonym read_end = "(errno_msg + read_msg_result) coro"

type_synonym 'w read_out = "(read_end \<times> 'w wake list \<times> 'w io) outcome"

text \<open>What follows the loops.\<close>

definition read_finish :: "'w posix \<Rightarrow> epoll_ctl \<Rightarrow> int \<Rightarrow> read_msg_result \<Rightarrow> 'w wake list \<Rightarrow> 'w io \<Rightarrow>
    'w read_out" where
  "read_finish px ep fd res evs w =
     (case clr_interest px ep fd w of
        (Inl e, w1) \<Rightarrow> Ret (CoReturn (Inl (ErrnoMsg e ''Failed in EpollCtl::clr_interest'')), evs, w1)
      | (Inr r, w1) \<Rightarrow> Ret (CoReturn (Inr res), evs, w1))"

text \<open>
  One turn of the loop over the bytes behind the header: \<open>Inl\<close> is its end. \<open>d_mem\<close> is the memory of
  \<open>ary\<close>, as long as its capacity. After too many \<open>EAGAIN\<close> the error of \<open>result\<close> is read, which holds a
  value.
\<close>

record 'w read_state =
  d_evs :: "'w wake list"
  d_mem :: bytes
  d_off :: nat
  d_nfrs :: nat
  d_rdr :: msg_reader
  d_res :: read_msg_result

definition read_turn :: "'w posix \<Rightarrow> (u64 \<Rightarrow> bool) \<Rightarrow> epoll_ctl \<Rightarrow> int \<Rightarrow> 'w read_state \<Rightarrow> 'w io \<Rightarrow>
    'w read_out + 'w read_state \<times> 'w io" where
  "read_turn px alloc ep fd s w =
     (let len = min (length (d_mem s) - d_off s) (unat (getInputBytesRemaining (d_rdr s)))
      in case io_read px fd len w of
           (Inl e, w1) \<Rightarrow>
             if e = EAGAIN
             then if d_nfrs s < 3
                  then (case d_evs s of
                          [] \<Rightarrow> Inl (Ret (Awaits, [], w1))
                        | (revs, g) # evs \<Rightarrow>
                            if revs AND EPOLLERR \<noteq> 0
                            then Inl (Ret (CoReturn (Inl (ErrnoMsg e ''EPOLLERR detected'')), evs, woken g w1))
                            else Inr (s\<lparr>d_evs := evs, d_nfrs := d_nfrs s + 1\<rparr>, woken g w1))
                  else Inl Undef
             else if e = EINTR
             then if d_nfrs s < 3 then Inr (s\<lparr>d_nfrs := d_nfrs s + 1\<rparr>, w1)
                  else Inl (Ret (CoReturn (Inl (ErrnoMsg e ''Too many retries'')), d_evs s, w1))
             else Inl (Ret (CoReturn (Inl (ErrnoMsg e ''Failed during read'')), d_evs s, w1))
         | (Inr bs, w1) \<Rightarrow>
             let mem = store_at (d_off s) bs (d_mem s); hav = d_off s + length bs
             in case readMsg alloc (take hav mem) hav (d_rdr s) (d_res s) of
                  Ret (dun, rdr, res) \<Rightarrow>
                    if dun then Inl (read_finish px ep fd res (d_evs s) w1)
                    else let rem = unat (word_of_nat hav - (getInputBytesConsumed rdr - getInputBytesConsumed (d_rdr s)))
                         in if hav < rem then Inl Undef
                            else Inr (\<lparr>d_evs = d_evs s,
                                   d_mem = (if 0 < rem then store_at 0 (take rem (drop (hav - rem) mem)) mem else mem),
                                   d_off = rem, d_nfrs = 0, d_rdr = rdr, d_res = res\<rparr>, w1)
                | Throw e \<Rightarrow> Inl (Ret (CoThrow, d_evs s, w1))
                | Undef \<Rightarrow> Inl Undef)"

text \<open>The loop awaits an event only after \<open>EAGAIN\<close>.\<close>

definition read_data ::
  "'w posix \<Rightarrow> (u64 \<Rightarrow> bool) \<Rightarrow> epoll_ctl \<Rightarrow> int \<Rightarrow> 'w read_state \<Rightarrow> 'w io \<Rightarrow> 'w read_out option" where
  "read_data px alloc ep fd s w = until_inl (\<lambda>(s, w). read_turn px alloc ep fd s w) (s, w)"

text \<open>The header: every read goes to the start of the buffer.\<close>

fun read_hdr :: "'w posix \<Rightarrow> (u64 \<Rightarrow> bool) \<Rightarrow> epoll_ctl \<Rightarrow> int \<Rightarrow> 'w wake list \<Rightarrow> bytes \<Rightarrow> nat \<Rightarrow> 'w io \<Rightarrow>
    'w read_out option" where
  "read_hdr px alloc ep fd evs mem tot w =
     (if tot < SZ_MSG_HDR
      then case evs of
             [] \<Rightarrow> Some (Ret (Awaits, [], w))
           | (revs, g) # evs1 \<Rightarrow>
               if revs AND EPOLLERR \<noteq> 0 then Some (Ret (CoReturn (Inl (ErrnoMsg 0 ''Error reported via revents'')), evs1, woken g w))
               else (case io_read px fd SZ_MSG_HDR (woken g w) of
                       (Inl e, w1) \<Rightarrow> Some (Ret (CoReturn (Inl (ErrnoMsg e ''Failed during read'')), evs1, w1))
                     | (Inr bs, w1) \<Rightarrow> read_hdr px alloc ep fd evs1 (store_at 0 bs mem) (tot + length bs) w1)
      else case readMsg alloc (take SZ_MSG_HDR mem) SZ_MSG_HDR mr_new no_result of
             Ret (dun, rdr, res) \<Rightarrow>
               if dun then Some (read_finish px ep fd res evs w) else 
                 read_data px alloc ep fd \<lparr>d_evs = evs, d_mem = mem, d_off = 0, d_nfrs = 0, d_rdr = rdr, d_res = res\<rparr> w
           | Throw e \<Rightarrow> Some (Ret (CoThrow, evs, w))
           | Undef \<Rightarrow> Some Undef)"

declare read_hdr.simps [simp del]

definition kdb_read_message :: "'w posix \<Rightarrow> (u64 \<Rightarrow> bool) \<Rightarrow> epoll_ctl \<Rightarrow> int \<Rightarrow> bytes \<Rightarrow> 'w wake list \<Rightarrow> 'w io \<Rightarrow>
    'w read_out option" where
  "kdb_read_message px alloc ep fd ary evs w =
     (let mem = ary @ replicate (SZ_MSG_HDR - length ary) 0
      in case add_interest px ep fd EPOLLIN w of
           (Inl e, w1) \<Rightarrow> Some (Ret (CoReturn (Inl (ErrnoMsg 0 ''Failed in EpollCtl::add_interest'')), evs, w1))
         | (Inr r, w1) \<Rightarrow> read_hdr px alloc ep fd evs mem 0 w1)"

lemma read_data_simps:
  "read_turn px alloc ep fd s w = Inl out \<Longrightarrow> read_data px alloc ep fd s w = Some out"
  "read_turn px alloc ep fd s w = Inr (s1, w1) \<Longrightarrow> read_data px alloc ep fd s w = read_data px alloc ep fd s1 w1"
  by (simp_all add: read_data_def until_inl_simps)

lemma read_data_never:
  assumes "\<And>s w. bad s w \<Longrightarrow> \<exists>s1 w1. read_turn px alloc ep fd s w = Inr (s1, w1) \<and> bad s1 w1" "bad s w"
  shows "read_data px alloc ep fd s w = None"
  unfolding read_data_def by (rule until_inl_never [where bad = "case_prod bad"]) (use assms in auto)

section \<open>A peer\<close>

text \<open>A socket from which \<open>left\<close> is still to be read: a read takes a prefix, and nothing only when nothing
  is left or asked for.\<close>

definition peer :: "'w posix \<Rightarrow> int \<Rightarrow> ('w \<Rightarrow> bytes) \<Rightarrow> bool" where
  "peer px fd left \<longleftrightarrow>
     (\<forall>n w. \<exists>bs e w1. px_read px fd n w = ((Some bs, e), w1) \<and> left w = bs @ left w1 \<and> length bs \<le> n \<and>
        (bs = [] \<longrightarrow> n = 0 \<or> left w = [])) \<and>
     (\<forall>w ep op d ev. \<exists>n e w1. px_epoll_ctl px ep op d ev w = ((Some n, e), w1) \<and> left w1 = left w)"

lemma peer_read:
  assumes "peer px fd left"
  obtains bs w1 where "io_read px fd n w = (Inr bs, w1)" "left (fst w) = bs @ left (fst w1)" "length bs \<le> n"
    "bs = [] \<Longrightarrow> n = 0 \<or> left (fst w) = []"
proof -
  obtain bs e w1 where "px_read px fd n (fst w) = ((Some bs, e), w1)" "left (fst w) = bs @ left w1" "length bs \<le> n"
    "bs = [] \<longrightarrow> n = 0 \<or> left (fst w) = []"
    using assms unfolding peer_def by blast
  then show thesis using that [of bs "(w1, snd w @ [IoRead fd n])"]
    by (simp add: io_read_def sys_def expected_def split_beta)
qed

lemma peer_clr:
  assumes "peer px fd left"
  obtains w1 where "read_finish px ep fd res evs w = Ret (CoReturn (Inr res), evs, w1)" "left (fst w1) = left (fst w)"
proof -
  obtain n e w1 where "px_epoll_ctl px ep EPOLL_CTL_DEL fd 0 (fst w) = ((Some n, e), w1)" "left w1 = left (fst w)"
    using assms unfolding peer_def by blast
  then show thesis
    using that [of "(w1, snd w @ [IoEpollCtl ep EPOLL_CTL_DEL fd 0])"]
    by (simp add: read_finish_def clr_interest_def epoll_upd_def io_epoll_ctl_def sys_def expected_def split_beta)
qed

text \<open>The reader behind the header.\<close>

lemma readMsg_hdr_only:
  assumes "kcan x" "8 + length (enc x) < 2 ^ 31"
  shows "\<exists>rdr res. readMsg alloc (msg_hdr typ (8 + length (enc x))) 8 mr_new no_result = Ret (False, rdr, res) \<and>
    reader_at typ x 8 rdr \<and> rr_msg_typ res = msg_type_i8 typ"
proof -
  let ?src = "msg_hdr typ (8 + length (enc x))"
  let ?b = "rb_new ?src 8 0"
  let ?r1 = "mr_new\<lparr>mr_msg_typ := msg_type_i8 typ, mr_compressed := False, mr_ipc_len := word_of_nat (8 + length (enc x)),
    mr_msg_len := word_of_nat (8 + length (enc x)), mr_byt_usd := 8, mr_byt_dez := 0\<rparr>"
  let ?res1 = "no_result\<lparr>rr_msg_typ := msg_type_i8 typ\<rparr>"
  let ?out = "obind (readMsgData ?r1 (rb_adj 8 ?b) ?res1) (\<lambda>(d, r2, b2, res2).
    Ret (d, r2\<lparr>mr_byt_usd := mr_byt_usd r2 + word_of_nat (rb_off b2 - 8)\<rparr>, res2))"
  have f: "feeds (?src @ enc x) ?b" using feeds_rb_new [of ?src "?src @ enc x" 0] by simp
  define out where "out = ?out"
  have "readMsg alloc ?src 8 mr_new no_result = out"
    unfolding out_def using readMsgHdr_first [OF _ f assms(2), of mr_new alloc no_result] by (simp add: readMsg_def mr_new_def)
  moreover have "step_ok typ x (8 + 0) (rb_remaining (rb_adj 8 ?b)) out"
    unfolding out_def by (rule readMsg_data [OF assms(1,2), of ?r1 0 "typ" ?res1 "rb_adj 8 ?b" "[]"])
      (use feeds_move' [OF f, of 8] in \<open>simp_all add: held_def stands_def rb_adj_def mr_new_def\<close>)
  moreover have "0 < length (enc x)" by (rule length_enc_pos)
  ultimately show ?thesis by (auto simp: step_ok_def)
qed

text \<open>The state of the loop: \<open>k\<close> bytes of the message are consumed, \<open>d_off\<close> pending in the buffer.\<close>

definition reading :: "KdbMsgType \<Rightarrow> kobj \<Rightarrow> nat \<Rightarrow> 'w read_state \<Rightarrow> bool" where
  "reading typ x k s \<longleftrightarrow>
     reader_at typ x k (d_rdr s) \<and> 8 \<le> k \<and> rr_msg_typ (d_res s) = msg_type_i8 typ \<and>
     k + d_off s < 8 + length (enc x) \<and> 8 + length (enc x) \<le> length (d_mem s)"

lemma reading_remaining:
  assumes "reading typ x k s" "8 + length (enc x) < 2 ^ 31"
  shows "unat (getInputBytesRemaining (d_rdr s)) = 8 + length (enc x) - k"
proof -
  have "mr_ipc_len (d_rdr s) = word_of_nat (8 + length (enc x))" "mr_byt_usd (d_rdr s) = word_of_nat k"
    using assms(1) by (auto simp: reading_def reader_at_def)
  then show ?thesis
    using assms unat_diff_of_nat [of k "8 + length (enc x)"] by (simp add: getInputBytesRemaining_def reading_def)
qed

text \<open>One turn, where what is pending and still to come agrees with the message as far as it goes.\<close>

definition got :: "KdbMsgType \<Rightarrow> kobj \<Rightarrow> read_msg_result" where
  "got typ x = \<lparr>rr_result = RD_OK, rr_msg_typ = msg_type_i8 typ, rr_message = Some x\<rparr>"

definition pending :: "'w read_state \<Rightarrow> bytes" where
  "pending s = take (d_off s) (d_mem s)"

lemma read_turn_cases [consumes 5, case_names fin more]:
  assumes p: "peer px fd left" and x: "kcan x" "8 + length (enc x) < 2 ^ 31"
    and st: "reading typ x k s" and str: "pending s @ left (fst w) @ a = drop k (message typ x) @ b"
  obtains (fin) w1 j where "read_turn px alloc ep fd s w = Inl (Ret (CoReturn (Inr (got typ x)), d_evs s, w1))"
      "j \<le> d_off s" "8 + length (enc x) - k - d_off s + j \<le> length (left (fst w))"
      "left (fst w1) = drop (8 + length (enc x) - k - d_off s + j) (left (fst w))"
      "\<exists>bs w0. io_read px fd (min (length (d_mem s) - d_off s) (8 + length (enc x) - k)) w = (Inr bs, w0) \<and>
        length bs = 8 + length (enc x) - k - d_off s + j"
  | (more) k' s1 w1 where
      "read_turn px alloc ep fd s w = Inr (s1, w1)"
      "reading typ x k' s1" "d_evs s1 = d_evs s" "pending s1 @ left (fst w1) @ a = drop k' (message typ x) @ b"
      "left (fst w) \<noteq> [] \<Longrightarrow> length (left (fst w1)) < length (left (fst w))"
      "k' + d_off s1 + length (left (fst w1)) = k + d_off s + length (left (fst w))"
      "\<exists>bs. io_read px fd (min (length (d_mem s) - d_off s) (8 + length (enc x) - k)) w = (Inr bs, w1) \<and>
        left (fst w) = bs @ left (fst w1)"
proof -
  define L off mem where "L = 8 + length (enc x)" and "off = d_off s" and "mem = d_mem s"
  have L: "L < 2 ^ 31" using x(2) by (simp add: L_def)
  have st': "reader_at typ x k (d_rdr s)" "8 \<le> k" "rr_msg_typ (d_res s) = msg_type_i8 typ" "k + off < L" "L \<le> length mem"
    using st by (simp_all add: reading_def L_def off_def mem_def)
  define n where "n = min (length mem - off) (L - k)"
  have n: "0 < n" "n \<le> length mem - off" "n \<le> L - k" using st'(4,5) by (simp_all add: n_def)
  have n': "min (length (d_mem s) - d_off s) (unat (getInputBytesRemaining (d_rdr s))) = n"
    using reading_remaining [OF st x(2)] by (simp add: n_def L_def off_def mem_def)
  obtain bs w1 where rd: "io_read px fd n w = (Inr bs, w1)" "left (fst w) = bs @ left (fst w1)" "length bs \<le> n"
    "bs = [] \<Longrightarrow> n = 0 \<or> left (fst w) = []"
    using peer_read [OF p, of n w] by blast
  define mem1 src where "mem1 = store_at off bs mem" and "src = take off mem @ bs"
  have src: "take (off + length bs) mem1 = src" "length src = off + length bs" "length mem1 = length mem"
    using st'(4,5) rd(3) n by (simp_all add: mem1_def src_def)
  have str': "src @ left (fst w1) @ a = drop k (message typ x) @ b"
    using str rd(2) by (simp add: src_def pending_def off_def mem_def)
  then have "src = take (length src) (drop k (message typ x) @ b)" by (metis append_eq_conv_conj)
  then have sok: "step_ok typ x k (length src) (readMsg alloc src (length src) (d_rdr s) (d_res s))"
    using st' L by (intro readMsg_step [OF x st'(1)]) (simp_all add: L_def)
  note body = read_turn_def [of px alloc ep fd s w] n' rd(1) mem1_def [unfolded mem_def off_def, symmetric]
    src(1) [folded src(2)] src(2) [unfolded off_def, symmetric]
  show thesis
  proof (cases "L - k \<le> length src")
    case True
    then obtain rdr1 where r: "readMsg alloc src (length src) (d_rdr s) (d_res s) = Ret (True, rdr1, got typ x)"
      using sok by (auto simp: step_ok_def L_def got_def)
    obtain w2 where w2: "read_finish px ep fd (got typ x) (d_evs s) w1 = Ret (CoReturn (Inr (got typ x)), d_evs s, w2)"
      "left (fst w2) = left (fst w1)" using peer_clr [OF p] by blast
    have "read_turn px alloc ep fd s w = Inl (Ret (CoReturn (Inr (got typ x)), d_evs s, w2))"
      by (simp add: body r w2(1) Let_def)
    moreover have "L - k - off + (length src - (L - k)) = length bs"
      using True st'(4) src(2) by simp
    moreover have "length src - (L - k) \<le> off" using src(2) rd(3) n(3) by simp
    ultimately show thesis
      using fin [of w2 "length src - (L - k)"] w2(2) rd(1,2) by (simp add: n_def flip: L_def off_def mem_def)
  next
    case False
    then obtain rdr1 res1 k' where r: "readMsg alloc src (length src) (d_rdr s) (d_res s) = Ret (False, rdr1, res1)"
      "reader_at typ x k' rdr1" "0 < k' \<longrightarrow> rr_msg_typ res1 = msg_type_i8 typ" "k \<le> k'" "k' - k \<le> length src"
      using sok by (auto simp: step_ok_def L_def)
    define off' where "off' = length src - (k' - k)"
    have kL: "k' \<le> L" using False r(4,5) by simp
    then have "getInputBytesConsumed rdr1 - getInputBytesConsumed (d_rdr s) = word_of_nat (k' - k)"
      using reader_at_usd [OF r(2)] reader_at_usd [OF st'(1)] r(4) by (simp add: getInputBytesConsumed_def of_nat_diff)
    moreover have "length src < 2 ^ 64" using False L by simp
    ultimately have rem: "unat (word_of_nat (length src) - (getInputBytesConsumed rdr1 - getInputBytesConsumed (d_rdr s))) = off'"
      using r(5) by (simp add: off'_def unat_word_of_nat64 flip: of_nat_diff)
    have off': "off' \<le> length src" "length src - off' = k' - k" "length src \<le> length mem1"
      using r(5) n(2) rd(3) src(2,3) st'(4,5) by (simp_all add: off'_def)
    define p2 where "p2 = drop (k' - k) src"
    have p2: "length p2 = off'" "take off' (drop (length src - off') mem1) = p2"
      using src(1,2) off' by (simp_all add: p2_def off'_def) (metis add_diff_inverse_nat drop_take less_nat_zero_code not_less)
    define s1 where "s1 = \<lparr>d_evs = d_evs s, d_mem = (if 0 < off' then store_at 0 p2 mem1 else mem1),
      d_off = off', d_nfrs = 0, d_rdr = rdr1, d_res = res1\<rparr>"
    have go: "read_turn px alloc ep fd s w = Inr (s1, w1)"
      using off'(1) by (simp add: body r(1) rem p2(2) Let_def s1_def)
    have mem2: "length (d_mem s1) = length mem" "pending s1 = p2"
      using src(3) off' p2(1) by (auto simp: s1_def pending_def store_at_def)
    have "pending s1 @ left (fst w1) @ a = drop (k' - k) (src @ left (fst w1) @ a)"
      using mem2(2) r(5) by (simp add: p2_def)
    also have "\<dots> = drop k' (message typ x) @ b"
      unfolding str' using r(4) kL by (simp add: L_def)
    finally have str2: "pending s1 @ left (fst w1) @ a = drop k' (message typ x) @ b" .
    have ev2: "d_evs s1 = d_evs s" by (simp add: s1_def)
    have st2: "reading typ x k' s1"
      using r(2-5) st'(2,5) False mem2(1) by (simp add: reading_def off'_def L_def s1_def)
    have "left (fst w) \<noteq> [] \<Longrightarrow> length (left (fst w1)) < length (left (fst w))"
      using rd(2,4) n(1) by (cases bs) auto
    moreover have "k' + d_off s1 + length (left (fst w1)) = k + d_off s + length (left (fst w))"
      using rd(2) src(2) r(4,5) by (simp add: off'_def s1_def off_def)
    moreover have "\<exists>bs. io_read px fd (min (length (d_mem s) - d_off s) (8 + length (enc x) - k)) w = (Inr bs, w1) \<and>
        left (fst w) = bs @ left (fst w1)"
      using rd(1,2) by (simp add: n_def flip: L_def off_def mem_def)
    ultimately show thesis using more [OF go st2 ev2 str2] by blast
  qed
qed

text \<open>Enough bytes to come: the loop ends with the object. Too few: it does not end.\<close>

lemma read_data_completes:
  assumes p: "peer px fd left" and x: "kcan x" "8 + length (enc x) < 2 ^ 31"
  shows "reading typ x k s \<Longrightarrow> pending s @ left (fst w) = drop k (message typ x) @ rest \<Longrightarrow>
    \<exists>w1 j. read_data px alloc ep fd s w = Some (Ret (CoReturn (Inr (got typ x)), d_evs s, w1)) \<and>
      left (fst w1) = drop j rest"
proof (induction "length (left (fst w))" arbitrary: k s w rule: less_induct)
  case less
  have "pending s @ left (fst w) @ [] = drop k (message typ x) @ rest" using less.prems(2) by simp
  from p x less.prems(1) this show ?case
  proof (cases rule: read_turn_cases [where alloc = alloc and ep = ep])
    case (fin w1 j)
    let ?n = "8 + length (enc x) - k - d_off s + j"
    have "drop (length (pending s) + ?n) (pending s @ left (fst w)) = left (fst w1)"
      using fin(4) by simp
    moreover have "length (pending s) + ?n = length (drop k (message typ x)) + j"
      using less.prems(1) by (simp add: reading_def pending_def)
    ultimately have "left (fst w1) = drop (length (drop k (message typ x)) + j) (pending s @ left (fst w))" by (simp only:)
    also have "\<dots> = drop j rest" unfolding less.prems(2) by simp
    finally show ?thesis using fin(1) by (auto simp: read_data_simps)
  next
    case (more k' s1 w1)
    have "length (pending s @ left (fst w)) = length (drop k (message typ x) @ rest)"
      by (simp only: less.prems(2))
    then have "left (fst w) \<noteq> []" using less.prems(1) by (auto simp: reading_def pending_def)
    then obtain w2 j where "read_data px alloc ep fd s1 w1 = Some (Ret (CoReturn (Inr (got typ x)), d_evs s, w2))"
      "left (fst w2) = drop j rest"
      using less.hyps [OF more(5) more(2)] more(3,4) by auto
    then show ?thesis by (auto simp: read_data_simps(2) [OF more(1)])
  qed
qed

lemma read_data_starved:
  assumes p: "peer px fd left" and x: "kcan x" "8 + length (enc x) < 2 ^ 31"
    and st: "reading typ x k s" "pending s @ left (fst w) @ a = drop k (message typ x)"
    and few: "k + d_off s + length (left (fst w)) < 8 + length (enc x)"
  shows "read_data px alloc ep fd s w = None"
proof (rule read_data_never [where bad = "\<lambda>s w. \<exists>k. reading typ x k s \<and> pending s @ left (fst w) @ a = drop k (message typ x) \<and>
    k + d_off s + length (left (fst w)) < 8 + length (enc x)"])
  fix s :: "'a read_state" and w :: "'a io"
  assume "\<exists>k. reading typ x k s \<and> pending s @ left (fst w) @ a = drop k (message typ x) \<and>
    k + d_off s + length (left (fst w)) < 8 + length (enc x)"
  then obtain k where k: "reading typ x k s" "pending s @ left (fst w) @ a = drop k (message typ x) @ []"
    "k + d_off s + length (left (fst w)) < 8 + length (enc x)" by auto
  from p x k(1,2) show "\<exists>s1 w1. read_turn px alloc ep fd s w = Inr (s1, w1) \<and>
    (\<exists>k. reading typ x k s1 \<and> pending s1 @ left (fst w1) @ a = drop k (message typ x) \<and>
      k + d_off s1 + length (left (fst w1)) < 8 + length (enc x))"
  proof (cases rule: read_turn_cases [where alloc = alloc and ep = ep])
    case (fin w1 j)
    then show ?thesis using k(1,3) by (simp add: reading_def)
  next
    case (more k' s1 w1)
    then show ?thesis using k(3) by auto
  qed
qed (use st few in auto)

text \<open>The header in one read.\<close>

lemma read_hdr_whole:
  assumes p: "peer px fd left" and x: "kcan x" "8 + length (enc x) < 2 ^ 31"
    and mem: "8 + length (enc x) \<le> length mem" and revs: "revs AND EPOLLERR = 0"
    and hdr: "io_read px fd 8 (woken g w) = (Inr (msg_hdr typ (8 + length (enc x))), w1)"
  shows "\<exists>s. read_hdr px alloc ep fd ((revs, g) # evs) mem 0 w = read_data px alloc ep fd s w1 \<and>
    reading typ x 8 s \<and> pending s = [] \<and> d_evs s = evs"
proof -
  let ?h = "msg_hdr typ (8 + length (enc x))"
  obtain rdr res where r: "readMsg alloc ?h 8 mr_new no_result = Ret (False, rdr, res)"
    "reader_at typ x 8 rdr" "rr_msg_typ res = msg_type_i8 typ"
    using readMsg_hdr_only [OF x] by blast
  let ?s = "\<lparr>d_evs = evs, d_mem = store_at 0 ?h mem, d_off = 0, d_nfrs = 0, d_rdr = rdr, d_res = res\<rparr>"
  have "take 8 (store_at 0 ?h mem) = ?h" by (simp add: store_at_def)
  then have "read_hdr px alloc ep fd ((revs, g) # evs) mem 0 w = read_data px alloc ep fd ?s w1"
    using revs hdr r(1) by (simp add: read_hdr.simps [of _ _ _ _ "_ # _"] read_hdr.simps [of _ _ _ _ evs])
  moreover have "reading typ x 8 ?s" "pending ?s = []" "d_evs ?s = evs"
    using r mem length_enc_pos [of x] by (simp_all add: reading_def pending_def del: length_enc_pos)
  ultimately show ?thesis by blast
qed

section \<open>Properties\<close>

text \<open>A peer whose first eight bytes come in one read.\<close>

definition whole_hdr :: "'w posix \<Rightarrow> int \<Rightarrow> ('w \<Rightarrow> bytes) \<Rightarrow> bool" where
  "whole_hdr px fd left \<longleftrightarrow>
     peer px fd left \<and> (\<forall>w. 8 \<le> length (left w) \<longrightarrow> (\<exists>e w1. px_read px fd 8 w = ((Some (take 8 (left w)), e), w1)))"

lemma kdb_read_message_hdr:
  assumes p: "whole_hdr px fd left" and x: "kcan x" "8 + length (enc x) < 2 ^ 31"
    and mem: "8 + length (enc x) \<le> length ary" and ev: "revs AND EPOLLERR = 0" "\<forall>w. left (g w) = left w"
    and hdr: "left (fst w) = msg_hdr typ (8 + length (enc x)) @ tl_b"
  obtains s w1 where "kdb_read_message px alloc ep fd ary ((revs, g) # evs) w = read_data px alloc ep fd s w1"
    "reading typ x 8 s" "pending s = []" "left (fst w1) = tl_b" "d_evs s = evs"
proof -
  let ?h = "msg_hdr typ (8 + length (enc x))"
  have peer: "peer px fd left" using p by (simp add: whole_hdr_def)
  obtain n e v where v: "px_epoll_ctl px ep EPOLL_CTL_ADD fd EPOLLIN (fst w) = ((Some n, e), v)" "left v = left (fst w)"
    using peer unfolding peer_def by blast
  let ?w1 = "(v, snd w @ [IoEpollCtl ep EPOLL_CTL_ADD fd EPOLLIN])"
  have add: "add_interest px ep fd EPOLLIN w = (Inr n, ?w1)"
    using v(1) by (simp add: add_interest_def epoll_upd_def io_epoll_ctl_def sys_def expected_def split_beta)
  have g: "left (g v) = ?h @ tl_b" using ev(2) v(2) hdr by simp
  then have "8 \<le> length (left (g v))" "take 8 (left (g v)) = ?h" by simp_all
  then obtain e' v' where r: "px_read px fd 8 (g v) = ((Some ?h, e'), v')"
    using p unfolding whole_hdr_def by metis
  have "\<exists>bs e w1. px_read px fd 8 (g v) = ((Some bs, e), w1) \<and> left (g v) = bs @ left w1"
    using peer unfolding peer_def by blast
  then have left: "left v' = tl_b" using r g by auto
  have "io_read px fd 8 (woken g ?w1) = (Inr ?h, (v', snd ?w1 @ [IoRead fd 8]))"
    using r by (simp add: io_read_def woken_def sys_def expected_def)
  from read_hdr_whole [OF peer x mem ev(1) this, of alloc ep evs] obtain s where
    "read_hdr px alloc ep fd ((revs, g) # evs) ary 0 ?w1 = read_data px alloc ep fd s (v', snd ?w1 @ [IoRead fd 8])"
    "reading typ x 8 s" "pending s = []" "d_evs s = evs" by blast
  then show thesis
    using that [of s "(v', snd ?w1 @ [IoRead fd 8])"] left mem
    by (simp add: kdb_read_message_def add)
qed

lemma kdb_read_message_got:
  assumes "whole_hdr px fd left" "kcan x" "8 + length (enc x) < 2 ^ 31" "8 + length (enc x) \<le> length ary"
    and "revs AND EPOLLERR = 0" "\<forall>w. left (g w) = left w" "left w = message typ x @ rest"
  shows "\<exists>w1 j. kdb_read_message px alloc ep fd ary ((revs, g) # evs) (w, log) = Some (Ret (CoReturn (Inr (got typ x)), evs, w1)) \<and>
    left (fst w1) = drop j rest"
proof -
  have hdr: "left (fst (w, log)) = msg_hdr typ (8 + length (enc x)) @ enc x @ rest"
    using assms(7) by (simp add: message_def)
  obtain s w1 where s: "kdb_read_message px alloc ep fd ary ((revs, g) # evs) (w, log) = read_data px alloc ep fd s w1"
    "reading typ x 8 s" "pending s = []" "left (fst w1) = enc x @ rest" "d_evs s = evs"
    using kdb_read_message_hdr [OF assms(1-6) hdr] by blast
  have peer: "peer px fd left" using assms(1) by (simp add: whole_hdr_def)
  have "pending s @ left (fst w1) = drop 8 (message typ x) @ rest" using s(3,4) by (simp add: drop_message)
  from read_data_completes [OF peer assms(2,3) s(2) this, of alloc ep] show ?thesis by (simp add: s(1,5))
qed

text \<open>C15. A buffer that can hold the message, and a header that comes in one read: however the rest of the
  message is cut, \<open>kdb_read_message\<close> returns the object that was sent, without waiting again. What it
  has taken from the socket is the message and perhaps some bytes behind it.\<close>

theorem read_message_returns:
  assumes "whole_hdr px fd left" "kcan x" "8 + length (enc x) < 2 ^ 31" "8 + length (enc x) \<le> length ary"
    and "revs AND EPOLLERR = 0" "\<forall>w. left (g w) = left w" "left w = message typ x @ rest"
  shows "\<exists>w1 j. kdb_read_message px alloc ep fd ary ((revs, g) # evs) (w, log) = Some (Ret (CoReturn (Inr (got typ x)), evs, w1)) \<and>
    left (fst w1) = drop j rest"
  by (rule kdb_read_message_got [OF assms])

text \<open>C39. When the peer closes the connection inside a message, \<open>kdb_read_message\<close> neither returns nor waits: a
  read that gives nothing is not taken for the end, and the loop goes on for ever.\<close>

theorem read_message_eof_never_returns:
  assumes "whole_hdr px fd left" "kcan x" "8 + length (enc x) < 2 ^ 31" "8 + length (enc x) \<le> length ary"
    and "revs AND EPOLLERR = 0" "\<forall>w. left (g w) = left w"
    and "left w = take n (message typ x)" "8 \<le> n" "n < 8 + length (enc x)"
  shows "kdb_read_message px alloc ep fd ary ((revs, g) # evs) (w, log) = None"
proof -
  have hdr: "left (fst (w, log)) = msg_hdr typ (8 + length (enc x)) @ take (n - 8) (enc x)"
    using assms(7,8) by (simp add: message_def)
  obtain s w1 where s: "kdb_read_message px alloc ep fd ary ((revs, g) # evs) (w, log) = read_data px alloc ep fd s w1"
    "reading typ x 8 s" "pending s = []" "left (fst w1) = take (n - 8) (enc x)"
    using kdb_read_message_hdr [OF assms(1-6) hdr] by blast
  have peer: "peer px fd left" using assms(1) by (simp add: whole_hdr_def)
  have str: "pending s @ left (fst w1) @ drop (n - 8) (enc x) = drop 8 (message typ x)"
    using s(3,4) by (simp add: drop_message)
  have "d_off s = 0" using s(2,3) by (auto simp: reading_def pending_def)
  then have few: "8 + d_off s + length (left (fst w1)) < 8 + length (enc x)" using s(4) assms(8,9) by simp
  show ?thesis unfolding s(1) by (rule read_data_starved [OF peer assms(2,3) s(2) str few])
qed

text \<open>A header that comes in two reads is lost: the second one overwrites the first. When it does not
  begin with a 1, the reader refuses the header, and the loop asks for no bytes for ever.\<close>

theorem read_message_cut_header_never_returns:
  assumes "peer px fd left" "revs AND EPOLLERR = 0" "revs' AND EPOLLERR = 0"
    and "px_epoll_ctl px ep EPOLL_CTL_ADD fd EPOLLIN w = ((Some r, e), w1)"
    and "px_read px fd 8 (g w1) = ((Some b1, e1), w2)" "length b1 < 8"
    and "px_read px fd 8 (g' w2) = ((Some b2, e2), w3)" "8 \<le> length b1 + length b2" "hd b2 \<noteq> 1" "length b2 \<le> 8"
  shows "kdb_read_message px alloc ep fd ary ((revs, g) # (revs', g') # evs) (w, log) = None"
proof -
  let ?mem = "ary @ replicate (8 - length ary) 0"
  let ?m2 = "store_at 0 b2 (store_at 0 b1 ?mem)"
  have b2: "b2 \<noteq> []" using assms(6,8) by auto
  have h: "take 8 ?m2 \<noteq> []" "hd (take 8 ?m2) = hd b2" "8 \<le> length ?m2"
    using b2 assms(6,10) by (auto simp: store_at_def)
  have "readMsg alloc (take 8 ?m2) 8 mr_new no_result = Ret (False, mr_new, no_result\<lparr>rr_result := RD_ERR_IPC\<rparr>)"
    using h assms(9)
    by (simp add: readMsg_def readMsgHdr_def mr_new_def rb_read_def rb_peek_def Let_def hd_take)
  then have "kdb_read_message px alloc ep fd ary ((revs, g) # (revs', g') # evs) (w, log) =
      read_data px alloc ep fd \<lparr>d_evs = evs, d_mem = ?m2, d_off = 0, d_nfrs = 0, d_rdr = mr_new,
        d_res = no_result\<lparr>rr_result := RD_ERR_IPC\<rparr>\<rparr>
        (w3, log @ [IoEpollCtl ep EPOLL_CTL_ADD fd EPOLLIN, IoRead fd 8, IoRead fd 8])"
    using assms
    by (simp add: kdb_read_message_def add_interest_def epoll_upd_def io_epoll_ctl_def sys_def expected_def Let_def
      read_hdr.simps [of _ _ _ _ "_ # _"] read_hdr.simps [of _ _ _ _ evs] io_read_def woken_def)
  also have "\<dots> = None"
  proof (rule read_data_never [where bad = "\<lambda>s w. d_off s = 0 \<and> mr_ipc_len (d_rdr s) = 0 \<and> mr_byt_usd (d_rdr s) = 0"])
    fix s :: "'a read_state" and w :: "'a io"
    assume s: "d_off s = 0 \<and> mr_ipc_len (d_rdr s) = 0 \<and> mr_byt_usd (d_rdr s) = 0"
    obtain bs w1 where "io_read px fd 0 w = (Inr bs, w1)" "length bs \<le> 0"
      using peer_read [OF assms(1), of 0 w] by blast
    then have "io_read px fd 0 w = (Inr [], w1)" by simp
    moreover have "readMsg alloc [] 0 (d_rdr s) (d_res s) = Ret (False, d_rdr s, (d_res s)\<lparr>rr_result := RD_INCOMPLETE\<rparr>)"
      using s by (simp add: readMsg_def readMsgHdr_def rb_new_def rb_remaining_def)
    ultimately show "\<exists>s1 w1. read_turn px alloc ep fd s w = Inr (s1, w1) \<and>
        d_off s1 = 0 \<and> mr_ipc_len (d_rdr s1) = 0 \<and> mr_byt_usd (d_rdr s1) = 0"
      using s by (simp add: read_turn_def getInputBytesRemaining_def store_at_def Let_def)
  qed (simp add: mr_new_def)
  finally show ?thesis .
qed

text \<open>The loop asks for all bytes of the message that the reader has not consumed, also for those that
  are pending in the buffer. When the peer has already sent more, every pending byte costs a byte of
  what follows the message: it is read, and dropped.\<close>

theorem read_turn_overruns:
  assumes "peer px fd left" "kcan x" "8 + length (enc x) < 2 ^ 31" "reading typ x k s"
    and "pending s @ left (fst w) = drop k (message typ x) @ rest" "d_off s \<le> length rest"
    and "8 + length (enc x) - k \<le> length (d_mem s) - d_off s"
    and "\<forall>n w. \<exists>e w1. px_read px fd n w = ((Some (take n (left w)), e), w1)"
  shows "\<exists>w1. read_turn px alloc ep fd s w = Inl (Ret (CoReturn (Inr (got typ x)), d_evs s, w1)) \<and>
    left (fst w1) = drop (d_off s) rest"
proof -
  let ?n = "8 + length (enc x) - k"
  have len: "length (pending s) = d_off s" using assms(4) by (simp add: reading_def pending_def)
  have "length (pending s @ left (fst w)) = ?n + length rest" using assms(5) by simp
  then have left: "length (left (fst w)) = ?n + length rest - d_off s" using len by simp
  have "pending s @ left (fst w) @ [] = drop k (message typ x) @ rest" using assms(5) by simp
  from assms(1-4) this show ?thesis
  proof (cases rule: read_turn_cases [where alloc = alloc and ep = ep])
    case (fin w1 j)
    obtain e v where "px_read px fd ?n (fst w) = ((Some (take ?n (left (fst w))), e), v)" using assms(8) by blast
    then have e: "?n - d_off s + j = ?n"
      using fin(5) left assms(6,7) by (auto simp: io_read_def sys_def expected_def min_absorb2)
    have "left (fst w1) = drop ?n (left (fst w))" using fin(4) unfolding e .
    also have "\<dots> = drop (d_off s + ?n) (pending s @ left (fst w))" using len by simp
    also have "\<dots> = drop (d_off s) rest" unfolding assms(5) by simp
    finally show ?thesis using fin(1) by blast
  next
    case (more k' s1 w1)
    obtain e v where "px_read px fd ?n (fst w) = ((Some (take ?n (left (fst w))), e), v)" using assms(8) by blast
    then have "left (fst w) = take ?n (left (fst w)) @ left (fst w1)"
      using more(7) assms(7) by (auto simp: io_read_def sys_def expected_def min_absorb2)
    then have "length (left (fst w)) = length (take ?n (left (fst w))) + length (left (fst w1))"
      by (metis length_append)
    then have "length (left (fst w)) = ?n + length (left (fst w1))" using left assms(6) by simp
    moreover have "k < 8 + length (enc x)" "k' + d_off s1 < 8 + length (enc x)"
      using more(2) assms(4) by (simp_all add: reading_def)
    ultimately show ?thesis using more(6) by linarith
  qed
qed

section \<open>Witnesses\<close>

text \<open>A peer that gives at most three bytes at a time, except for the header.\<close>

definition by3_px :: "bytes posix" where
  "by3_px = ok_px\<lparr>px_read := \<lambda>fd n s. let k = (if n = 8 then 8 else min n 3) in ((Some (take k s), 0), drop k s)\<rparr>"

lemma by3_peer: "whole_hdr by3_px fd id"
  by (auto simp: whole_hdr_def peer_def by3_px_def ok_px_def Let_def)

definition sample_long :: kobj where
  "sample_long = KdbAtom (KdbLongAtom 42)"

lemma sample_long_facts: "kcan sample_long" "length (enc sample_long) = 9"
  by (simp_all add: sample_long_def)

theorem read_message_returns_witness:
  "\<exists>w1. kdb_read_message by3_px (\<lambda>_. True) 3 6 (replicate 64 0) [(1, id)] (message RESPONSE sample_long, []) =
    Some (Ret (CoReturn (Inr (got RESPONSE sample_long)), [], w1))"
  using read_message_returns [OF by3_peer sample_long_facts(1), of "replicate 64 0" 1 id "message RESPONSE sample_long" RESPONSE "[]"
      "\<lambda>_. True" 3 6 "[]" "[]"] sample_long_facts(2)
  by auto

theorem read_message_eof_never_returns_witness:
  "kdb_read_message by3_px (\<lambda>_. True) 3 6 (replicate 64 0) [(1, id)] (take 12 (message RESPONSE sample_long), []) = None"
  by (rule read_message_eof_never_returns [OF by3_peer sample_long_facts(1), where n = 12]) (simp_all add: sample_long_facts(2))

text \<open>One that gives at most four bytes at a time, and one that gives what it is asked for.\<close>

definition by4_px :: "bytes posix" where
  "by4_px = ok_px\<lparr>px_read := \<lambda>fd n s. ((Some (take (min n 4) s), 0), drop (min n 4) s)\<rparr>"

theorem read_message_cut_header_never_returns_witness:
  "kdb_read_message by4_px (\<lambda>_. True) 3 6 [] [(1, id), (1, id)] ([1, 2, 0, 0, 17, 0, 0, 0], []) = None"
proof -
  have "peer by4_px 6 id"
    by (auto simp: peer_def by4_px_def ok_px_def)
  from read_message_cut_header_never_returns [OF this, of 1 1 3 "[1, 2, 0, 0, 17, 0, 0, 0]" 0 0 "[1, 2, 0, 0, 17, 0, 0, 0]"
      id "[1, 2, 0, 0]" 0 "[17, 0, 0, 0]" id "[17, 0, 0, 0]" 0 "[]" "\<lambda>_. True" "[]" "[]" "[]"]
  show ?thesis by (simp add: by4_px_def ok_px_def)
qed

definition all_px :: "bytes posix" where
  "all_px = ok_px\<lparr>px_read := \<lambda>fd n s. ((Some (take n s), 0), drop n s)\<rparr>"

text \<open>The state with the header read and three bytes pending.\<close>

theorem read_turn_overruns_witness:
  "\<exists>s w1. pending s = take 3 (enc sample_long) \<and>
    read_turn all_px (\<lambda>_. True) 3 6 s (drop 3 (enc sample_long) @ [1, 0, 0, 0, 22], []) =
      Inl (Ret (CoReturn (Inr (got RESPONSE sample_long)), [], w1)) \<and> fst w1 = [0, 22]"
proof -
  obtain rdr :: msg_reader and res :: read_msg_result where r: "reader_at RESPONSE sample_long 8 rdr" "rr_msg_typ res = msg_type_i8 RESPONSE"
    using readMsg_hdr_only [OF sample_long_facts(1), of "\<lambda>_. True" RESPONSE] sample_long_facts(2) by auto
  let ?s = "\<lparr>d_evs = [], d_mem = enc sample_long @ replicate 64 0, d_off = 3, d_nfrs = 0, d_rdr = rdr, d_res = res\<rparr>"
  have peer: "peer all_px 6 id"
    by (auto simp: peer_def all_px_def ok_px_def)
  have "reading RESPONSE sample_long 8 ?s" "pending ?s = take 3 (enc sample_long)"
    using r by (simp_all add: reading_def pending_def sample_long_facts(2))
  moreover have "message RESPONSE sample_long = msg_hdr RESPONSE 17 @ enc sample_long"
    by (simp add: message_def sample_long_facts(2))
  moreover have "\<forall>n w. \<exists>e w1. px_read all_px 6 n w = ((Some (take n (id w)), e), w1)"
    by (simp add: all_px_def ok_px_def)
  ultimately show ?thesis
    using read_turn_overruns [OF peer sample_long_facts(1), of RESPONSE 8 ?s "(drop 3 (enc sample_long) @ [1, 0, 0, 0, 22], [])"
        "[1, 0, 0, 0, 22]" "\<lambda>_. True" 3] sample_long_facts(2)
    by (intro exI [of _ ?s]) (auto simp: append_assoc [symmetric] simp del: append_assoc)
qed

end
