(* ===== verification/Tp_Recv.thy ===== *)
theory Tp_Recv
  imports Tp_Epoll Kdb_Journal
begin

text \<open>
  The coroutine \<open>kdb_read_tcp_messages\<close> of \<^verbatim>\<open>tpmux/src/mg_coro_kdb_recv_tcp_msgs.cpp\<close>: it reads what
  a tickerplant sends into a buffer and appends the payloads of the update messages about the
  subscribed tables to a journal.
\<close>

section \<open>The coroutine\<close>

text \<open>\<open>r_ary\<close> is the memory of the vector \<open>ary\<close>, as long as its capacity. The offsets stay far below
  \<open>2 ^ 64\<close>, but their difference is unsigned and wraps when \<open>rd_off\<close> has passed \<open>wr_off\<close>.\<close>

record recv =
  r_ary :: bytes
  r_rd_off :: nat
  r_wr_off :: nat
  r_counts :: tp_msg_counts

definition rem_off :: "nat \<Rightarrow> nat \<Rightarrow> u64" where
  "rem_off rd wr = word_of_nat wr - word_of_nat rd"

definition handle_close :: "'w posix \<Rightarrow> epoll_ctl \<Rightarrow> int \<Rightarrow> 'w io \<Rightarrow> int \<times> 'w io" where
  "handle_close px ep fd w = (- 1, snd (io_close px fd (snd (clr_interest px ep fd w))))"

text \<open>A message that matches: \<open>len - SZ_MSG_HDR\<close> bytes behind its header are written. The result of
  \<open>handle_close\<close> after a failed write is dropped.\<close>

definition recv_included :: "'w posix \<Rightarrow> epoll_ctl \<Rightarrow> int \<Rightarrow> int \<Rightarrow> nat \<Rightarrow> recv \<Rightarrow> 'w io \<Rightarrow> (recv \<times> 'w io) outcome" where
  "recv_included px ep fd jfd len s w =
     (if length (r_ary s) < r_rd_off s + len then Undef
      else let (io_res, w1) = io_write px jfd (take (len - SZ_MSG_HDR) (drop (SZ_MSG_HDR + r_rd_off s) (r_ary s))) w;
               w2 = (case io_res of Inl e \<Rightarrow> snd (handle_close px ep fd w1) | Inr n \<Rightarrow> w1)
           in Ret (s\<lparr>r_rd_off := r_rd_off s + len,
                r_counts := \<lparr>m_num_msg_total = m_num_msg_total (r_counts s) + 1,
                             m_num_msg_included = m_num_msg_included (r_counts s) + 1\<rparr>\<rparr>, w2))"

definition recv_skipped :: "nat \<Rightarrow> recv \<Rightarrow> recv" where
  "recv_skipped len s =
     s\<lparr>r_rd_off := r_rd_off s + len,
       r_counts := (r_counts s)\<lparr>m_num_msg_total := m_num_msg_total (r_counts s) + 1\<rparr>\<rparr>"

lemma filter_msg_Ret:
  assumes "filter_msg s rem fn tbls = Ret n"
  shows "n = - 1 \<or> s \<noteq> []"
  using assms by (auto simp: filter_msg_def mem_at_def split: if_splits)

text \<open>The inner loop; \<open>None\<close> is its end, \<open>Some\<close> what the coroutine returns from it. A length 0, which
  \<open>filter_msg\<close> never gives, would be an endless loop without effect.\<close>

type_synonym recv_end = "(errno_msg + int) coro"

function recv_scan :: "'w posix \<Rightarrow> epoll_ctl \<Rightarrow> int \<Rightarrow> int \<Rightarrow> bytes \<Rightarrow> bytes set \<Rightarrow> recv \<Rightarrow> 'w io \<Rightarrow>
    (recv_end option \<times> recv \<times> 'w io) outcome" where
  "recv_scan px ep fd jfd fn tbls s w =
     (if rem_off (r_rd_off s) (r_wr_off s) = 0 then Ret (None, s, w)
      else obind (filter_msg (drop (r_rd_off s) (r_ary s)) (rem_off (r_rd_off s) (r_wr_off s)) fn tbls) (\<lambda>len.
        if 0 < len then obind (recv_included px ep fd jfd (nat len) s w) (\<lambda>(s1, w1). recv_scan px ep fd jfd fn tbls s1 w1)
        else if len < - 2 then recv_scan px ep fd jfd fn tbls (recv_skipped (nat \<bar>len\<bar>) s) w
        else if len = - 2 then Ret (None, s, w)
        else if len = - 1 then let (r, w1) = handle_close px ep fd w in Ret (Some (CoReturn (Inr r)), s, w1)
        else Undef))"
  by pat_completeness auto
termination
proof (relation "measure (\<lambda>(px, ep, fd, jfd, fn, tbls, s, w). length (r_ary s) - r_rd_off s)", goal_cases)
  case (2 px ep fd jfd fn tbls s w n x x1 y)
  then show ?case
    by (auto dest!: filter_msg_Ret simp: recv_included_def Let_def split: if_splits prod.splits)
next
  case (3 px ep fd jfd fn tbls s w n)
  then show ?case
    by (auto dest!: filter_msg_Ret simp: recv_skipped_def)
qed simp

declare recv_scan.simps [simp del]

text \<open>What follows the inner loop.\<close>

definition recv_compact :: "recv \<Rightarrow> recv" where
  "recv_compact s =
     (if length (r_ary s) - r_wr_off s < length (r_ary s) div 4
      then s\<lparr>r_ary := take (r_wr_off s - r_rd_off s) (drop (r_rd_off s) (r_ary s)) @ drop (r_wr_off s - r_rd_off s) (r_ary s),
             r_wr_off := r_wr_off s - r_rd_off s, r_rd_off := 0\<rparr>
      else s)"

definition recv_after :: "'w posix \<Rightarrow> epoll_ctl \<Rightarrow> int \<Rightarrow> recv \<Rightarrow> 'w io \<Rightarrow> recv_end \<times> recv \<times> 'w io" where
  "recv_after px ep fd s w =
     (if r_rd_off s = r_wr_off s then (Awaits, s\<lparr>r_rd_off := 0, r_wr_off := 0\<rparr>, w)
      else if r_wr_off s < r_rd_off s
      then let (r, w1) = handle_close px ep fd w in (CoReturn (Inr r), s, w1)
      else (Awaits, recv_compact s, w))"

definition recv_store :: "bytes \<Rightarrow> recv \<Rightarrow> recv" where
  "recv_store bs s = s\<lparr>r_ary := store_at (r_wr_off s) bs (r_ary s), r_wr_off := r_wr_off s + length bs\<rparr>"

text \<open>One turn of the outer loop, from the event on. \<open>value()\<close> throws when it is called after \<open>EAGAIN\<close>.\<close>

definition recv_event :: "'w posix \<Rightarrow> epoll_ctl \<Rightarrow> int \<Rightarrow> int \<Rightarrow> bytes \<Rightarrow> bytes set \<Rightarrow> u32 \<Rightarrow> recv \<Rightarrow> 'w io \<Rightarrow>
    (recv_end \<times> recv \<times> 'w io) outcome" where
  "recv_event px ep fd jfd fn tbls revs s w =
     (if revs AND EPOLLERR \<noteq> 0 then Ret (CoReturn (Inl (ErrnoMsg 0 ''error signal from epoll-revents'')), s, w)
      else case io_read px fd (length (r_ary s) - r_wr_off s) w of
        (Inl e, w1) \<Rightarrow>
          if e = EAGAIN then Ret (CoThrow, s, w1)
          else if e = EINTR then Ret (Awaits, s, w1)
          else let (r, w2) = handle_close px ep fd w1 in Ret (CoReturn (Inr r), s, w2)
      | (Inr bs, w1) \<Rightarrow>
          if bs = [] then let (r, w2) = handle_close px ep fd w1 in Ret (CoReturn (Inr r), s, w2)
          else obind (recv_scan px ep fd jfd fn tbls (recv_store bs s) w1) (\<lambda>(r, s1, w2).
            case r of Some c \<Rightarrow> Ret (c, s1, w2) | None \<Rightarrow> Ret (recv_after px ep fd s1 w2)))"

fun recv_run :: "'w posix \<Rightarrow> epoll_ctl \<Rightarrow> int \<Rightarrow> int \<Rightarrow> bytes \<Rightarrow> bytes set \<Rightarrow> 'w wake list \<Rightarrow> recv \<Rightarrow> 'w io \<Rightarrow>
    (recv_end \<times> recv \<times> 'w io) outcome" where
  "recv_run px ep fd jfd fn tbls [] s w = Ret (Awaits, s, w)"
| "recv_run px ep fd jfd fn tbls ((revs, g) # evs) s w =
     obind (recv_event px ep fd jfd fn tbls revs s (woken g w)) (\<lambda>(r, s1, w1).
       case r of Awaits \<Rightarrow> recv_run px ep fd jfd fn tbls evs s1 w1 | _ \<Rightarrow> Ret (r, s1, w1))"

definition upd_name :: bytes where
  "upd_name = [117, 112, 100]"

definition kdb_read_tcp_messages :: "'w posix \<Rightarrow> epoll_ctl \<Rightarrow> tcp_conn \<Rightarrow> journal \<Rightarrow> subscription \<Rightarrow> tp_msg_counts \<Rightarrow>
    'w wake list \<Rightarrow> 'w io \<Rightarrow> (recv_end \<times> recv \<times> 'w io) outcome" where
  "kdb_read_tcp_messages px ep conn jnl sub counts evs w =
     (let s = \<lparr>r_ary = replicate (256 * 1024) 0, r_rd_off = 0, r_wr_off = 0, r_counts = counts\<rparr>
      in case add_interest px ep (m_sock_fd conn) EPOLLIN w of
           (Inl e, w1) \<Rightarrow> Ret (CoReturn (Inl (ErrnoMsg e ''Failed in EpollCtl::add_interest'')), s, w1)
         | (Inr r, w1) \<Rightarrow> recv_run px ep (m_sock_fd conn) (j_fd jnl) upd_name (set (m_tables sub)) evs s w1)"

section \<open>Messages in the buffer\<close>

text \<open>An uncompressed message is its type and its object; here every one is an update call.\<close>

type_synonym upd_msg = "KdbMsgType \<times> kobj"

definition upd_ok :: "upd_msg \<Rightarrow> bool" where
  "upd_ok m \<longleftrightarrow> kcan (snd m) \<and> upd_call (snd m) \<noteq> None \<and> 8 + length (enc (snd m)) < 2 ^ 31"

definition msg_image :: "upd_msg \<Rightarrow> bytes" where
  "msg_image m = msg_hdr (fst m) (8 + length (enc (snd m))) @ enc (snd m)"

definition msgs_image :: "upd_msg list \<Rightarrow> bytes" where
  "msgs_image ms = concat (map msg_image ms)"

definition subscribed :: "bytes \<Rightarrow> bytes set \<Rightarrow> upd_msg \<Rightarrow> bool" where
  "subscribed fn tbls m \<longleftrightarrow> (\<exists>t \<in> tbls. upd_call (snd m) = Some (fn, t))"

definition count_msgs :: "bytes \<Rightarrow> bytes set \<Rightarrow> upd_msg list \<Rightarrow> tp_msg_counts \<Rightarrow> tp_msg_counts" where
  "count_msgs fn tbls ms c =
     \<lparr>m_num_msg_total = m_num_msg_total c + word_of_nat (length ms),
      m_num_msg_included = m_num_msg_included c + word_of_nat (length (filter (subscribed fn tbls) ms))\<rparr>"

text \<open>
  The byte strings that have been given to \<open>write\<close> for a descriptor, in order. How many bytes of one \<open>write\<close> has taken
  is not asked by the code, which goes on as if it were all of them: after a short write the file has less.
\<close>

definition payloads :: "int \<Rightarrow> io_call list \<Rightarrow> bytes list" where
  "payloads fd log = List.map_filter (\<lambda>c. case c of IoWrite d bs \<Rightarrow> if d = fd then Some bs else None | _ \<Rightarrow> None) log"

lemma payloads_simps [simp]:
  "payloads fd [] = []"
  "payloads fd (l @ l') = payloads fd l @ payloads fd l'"
  "payloads fd (IoWrite d bs # l) = (if d = fd then bs # payloads fd l else payloads fd l)"
  "payloads fd (IoRead d n # l) = payloads fd l"
  "payloads fd (IoEpollCtl a b c e # l) = payloads fd l"
  "payloads fd (IoClose d # l) = payloads fd l"
  by (simp_all add: payloads_def map_filter_def)

text \<open>A socket whose reads give one chunk after the other, and a journal for which \<open>write\<close> does not fail; it may take any
  number of the bytes.\<close>

definition tp_socket :: "'w posix \<Rightarrow> int \<Rightarrow> int \<Rightarrow> ('w \<Rightarrow> bytes list) \<Rightarrow> bool" where
  "tp_socket px fd jfd due \<longleftrightarrow>
     (\<forall>w n c cs. due w = c # cs \<longrightarrow> length c \<le> n \<longrightarrow>
        (\<exists>e w1. px_read px fd n w = ((Some c, e), w1) \<and> due w1 = cs)) \<and>
     (\<forall>w bs. \<exists>n e w1. px_write px jfd bs w = ((Some n, e), w1) \<and> due w1 = due w) \<and>
     (\<forall>w ep op d ev. \<exists>n e w1. px_epoll_ctl px ep op d ev w = ((Some n, e), w1) \<and> due w1 = due w)"

lemma tp_socket_read:
  assumes "tp_socket px fd jfd due" "due (fst w) = c # cs" "length c \<le> n"
  obtains w1 where "io_read px fd n w = (Inr c, w1)" "due (fst w1) = cs" "snd w1 = snd w @ [IoRead fd n]"
  using assms by (fastforce simp: tp_socket_def io_read_def sys_def expected_def split: prod.splits)

lemma tp_socket_write:
  assumes "tp_socket px fd jfd due"
  obtains n w1 where "io_write px jfd bs w = (Inr n, w1)" "due (fst w1) = due (fst w)" "snd w1 = snd w @ [IoWrite jfd bs]"
proof -
  obtain n e w1 where "px_write px jfd bs (fst w) = ((Some n, e), w1)" "due w1 = due (fst w)"
    using assms unfolding tp_socket_def by blast
  then show thesis using that [of n "(w1, snd w @ [IoWrite jfd bs])"]
    by (simp add: io_write_def sys_def expected_def split_beta)
qed

lemma length_msg_image: "length (msg_image m) = 8 + length (enc (snd m))"
  by (simp add: msg_image_def)

lemma msgs_image_Nil [simp]: "msgs_image ms = [] \<longleftrightarrow> ms = []"
  by (cases ms) (simp_all add: msgs_image_def msg_image_def msg_hdr_def)

lemma rem_off_le: "rd \<le> wr \<Longrightarrow> rem_off rd wr = word_of_nat (wr - rd)"
  by (simp add: rem_off_def of_nat_diff)

lemma unat_rem_off: "rd \<le> wr \<Longrightarrow> wr < 2 ^ 64 \<Longrightarrow> unat (rem_off rd wr) = wr - rd"
  by (simp add: rem_off_le unat_word_of_nat64 del: of_nat_diff)

text \<open>The state with \<open>ms\<close> scanned.\<close>

definition scanned :: "bytes \<Rightarrow> bytes set \<Rightarrow> upd_msg list \<Rightarrow> recv \<Rightarrow> recv" where
  "scanned fn tbls ms s =
     s\<lparr>r_rd_off := r_rd_off s + length (msgs_image ms), r_counts := count_msgs fn tbls ms (r_counts s)\<rparr>"

lemma scan_one:
  assumes sock: "tp_socket px fd jfd due" and m: "upd_ok m"
    and buf: "drop (r_rd_off s) (r_ary s) = msg_image m @ rest"
    and wr: "r_rd_off s + length (msg_image m) \<le> r_wr_off s" "r_wr_off s < 2 ^ 64"
  shows "\<exists>w1. recv_scan px ep fd jfd fn tbls s w = recv_scan px ep fd jfd fn tbls (scanned fn tbls [m] s) w1 \<and>
    due (fst w1) = due (fst w) \<and>
    payloads jfd (snd w1) = payloads jfd (snd w) @ (if subscribed fn tbls m then [enc (snd m)] else [])"
proof -
  let ?rem = "rem_off (r_rd_off s) (r_wr_off s)" and ?n = "8 + length (enc (snd m))"
  have le: "r_rd_off s \<le> r_wr_off s" using wr(1) by simp
  have n: "?n \<le> unat ?rem" "?n < 2 ^ 31" "0 < length (enc (snd m))"
    using wr m length_enc_pos [of "snd m"] unfolding unat_rem_off [OF le wr(2)] by (simp_all add: length_msg_image upd_ok_def)
  then have rem: "?rem \<noteq> 0" by auto
  obtain f t where ft: "upd_call (snd m) = Some (f, t)" using m by (auto simp: upd_ok_def)
  have flt: "filter_msg (drop (r_rd_off s) (r_ary s)) ?rem fn tbls = Ret (if subscribed fn tbls m then int ?n else - int ?n)"
    using filter_msg_upd [of "snd m" f t ?rem "fst m" rest fn tbls] m ft n
    by (auto simp: buf msg_image_def upd_ok_def subscribed_def)
  have len: "length (r_ary s) - r_rd_off s = length (msg_image m @ rest)" using buf by (metis length_drop)
  show ?thesis
  proof (cases "subscribed fn tbls m")
    case True
    have pay: "take (length (enc (snd m))) (drop (8 + r_rd_off s) (r_ary s)) = enc (snd m)"
    proof -
      have "drop (8 + r_rd_off s) (r_ary s) = drop 8 (drop (r_rd_off s) (r_ary s))" by (simp add: add.commute)
      then show ?thesis by (simp only: buf) (simp add: msg_image_def)
    qed
    obtain k w1 where w1: "io_write px jfd (enc (snd m)) w = (Inr k, w1)" "due (fst w1) = due (fst w)"
      "snd w1 = snd w @ [IoWrite jfd (enc (snd m))]" by (rule tp_socket_write [OF sock])
    have "\<not> length (r_ary s) < r_rd_off s + ?n" using len n(3) by (simp add: length_msg_image)
    then have "recv_included px ep fd jfd ?n s w = Ret (scanned fn tbls [m] s, w1)"
      using True by (simp add: recv_included_def pay w1(1) scanned_def count_msgs_def msgs_image_def length_msg_image)
    then have "recv_scan px ep fd jfd fn tbls s w = recv_scan px ep fd jfd fn tbls (scanned fn tbls [m] s) w1"
      using True n(3) rem by (subst recv_scan.simps) (simp add: flt nat_add_distrib)
    then show ?thesis using w1(2,3) True by (intro exI [of _ w1]) simp
  next
    case False
    have "nat \<bar>- int ?n\<bar> = ?n" by simp
    then have "recv_skipped (nat \<bar>- int ?n\<bar>) s = scanned fn tbls [m] s"
      using False by (simp add: recv_skipped_def scanned_def count_msgs_def msgs_image_def length_msg_image)
    then have "recv_scan px ep fd jfd fn tbls s w = recv_scan px ep fd jfd fn tbls (scanned fn tbls [m] s) w"
      using False n(3) rem by (subst recv_scan.simps) (simp add: flt)
    then show ?thesis using False by (intro exI [of _ w]) simp
  qed
qed

lemma scanned_append: "scanned fn tbls ms (scanned fn tbls [m] s) = scanned fn tbls (m # ms) s"
  by (simp add: scanned_def count_msgs_def msgs_image_def)

lemma scanned_simps [simp]:
  "r_ary (scanned fn tbls ms s) = r_ary s"
  "r_rd_off (scanned fn tbls ms s) = r_rd_off s + length (msgs_image ms)"
  "r_wr_off (scanned fn tbls ms s) = r_wr_off s"
  "r_counts (scanned fn tbls ms s) = count_msgs fn tbls ms (r_counts s)"
  by (simp_all add: scanned_def)

definition included :: "bytes \<Rightarrow> bytes set \<Rightarrow> upd_msg list \<Rightarrow> bytes list" where
  "included fn tbls ms = map (enc \<circ> snd) (filter (subscribed fn tbls) ms)"

lemma included_append [simp]: "included fn tbls (ms @ ms') = included fn tbls ms @ included fn tbls ms'"
  by (simp add: included_def)

lemma scan_many:
  assumes "tp_socket px fd jfd due" "list_all upd_ok ms"
    and "drop (r_rd_off s) (r_ary s) = msgs_image ms @ rest"
    and "r_rd_off s + length (msgs_image ms) \<le> r_wr_off s" "r_wr_off s < 2 ^ 64"
  shows "\<exists>w1. recv_scan px ep fd jfd fn tbls s w = recv_scan px ep fd jfd fn tbls (scanned fn tbls ms s) w1 \<and>
    due (fst w1) = due (fst w) \<and> payloads jfd (snd w1) = payloads jfd (snd w) @ included fn tbls ms"
  using assms(2-)
proof (induction ms arbitrary: s w)
  case Nil
  have "scanned fn tbls [] s = s" by (simp add: scanned_def count_msgs_def msgs_image_def)
  then show ?case by (intro exI [of _ w]) (simp add: included_def)
next
  case (Cons m ms)
  let ?s = "scanned fn tbls [m] s"
  have buf: "drop (r_rd_off s) (r_ary s) = msg_image m @ msgs_image ms @ rest"
    using Cons.prems(2) by (simp add: msgs_image_def)
  obtain w1 where w1: "recv_scan px ep fd jfd fn tbls s w = recv_scan px ep fd jfd fn tbls ?s w1"
    "due (fst w1) = due (fst w)" "payloads jfd (snd w1) = payloads jfd (snd w) @ included fn tbls [m]"
    using scan_one [OF assms(1) _ buf, of ep fn tbls w] Cons.prems by (auto simp: msgs_image_def included_def)
  have "drop (r_rd_off ?s) (r_ary ?s) = drop (length (msg_image m)) (drop (r_rd_off s) (r_ary s))"
    by (simp add: msgs_image_def add.commute)
  then have "drop (r_rd_off ?s) (r_ary ?s) = msgs_image ms @ rest" by (simp add: buf)
  then obtain w2 where "recv_scan px ep fd jfd fn tbls ?s w1 = recv_scan px ep fd jfd fn tbls (scanned fn tbls ms ?s) w2"
    "due (fst w2) = due (fst w1)" "payloads jfd (snd w2) = payloads jfd (snd w1) @ included fn tbls ms"
    using Cons.IH [of ?s w1] Cons.prems by (auto simp: msgs_image_def)
  then show ?case
    using w1 included_append [of fn tbls "[m]" ms] by (intro exI [of _ w2]) (simp add: scanned_append)
qed

text \<open>What is left when the buffer ends inside a message.\<close>

lemma filter_msg_part:
  assumes "upd_ok m" "p @ q = msg_image m" "q \<noteq> []" "length p = unat rem"
  shows "filter_msg (p @ rest) rem fn tbls = Ret (- 1)"
proof (cases "rem < 8")
  case False
  then have p: "8 \<le> length p" using assms(4) by (simp add: word_less_nat_alt)
  define n where "n = 8 + length (enc (snd m))"
  have n: "n < 2 ^ 31" using assms(1) by (simp add: n_def upd_ok_def)
  define p' where "p' = drop 8 p"
  have "msg_hdr (fst m) n @ enc (snd m) = p @ q" using assms(2) by (simp add: msg_image_def n_def)
  then have p8: "p = msg_hdr (fst m) n @ p'"
  proof -
    have "take 8 (p @ q) = msg_hdr (fst m) n" by (simp flip: \<open>msg_hdr (fst m) n @ enc (snd m) = p @ q\<close>)
    then have "take 8 p = msg_hdr (fst m) n" using p by simp
    then show ?thesis using append_take_drop_id [of 8 p] by (simp add: p'_def)
  qed
  have "length (p @ q) = n" unfolding assms(2) by (simp add: msg_image_def n_def)
  then have "unat rem < n" using assms(3,4) by (cases q) auto
  moreover have "unat (word_of_nat n :: u64) = n" using n by (intro unat_word_of_nat64) simp
  ultimately have r: "rem < word_of_int (int n)" by (simp add: word_less_nat_alt)
  have h: "take 4 (drop 4 (p @ rest)) = le SZ_INT n" "mem_at (p @ rest) 0 = Ret 1" "\<not> length (p @ rest) < 8"
    by (simp_all add: p8 msg_hdr_def mem_at_def del: le.simps)
  have 4: "sint (of_mem (le SZ_INT n) :: u32) = int n" using of_mem_le_4 [OF n] by simp
  show ?thesis
    using False r by (simp only: filter_msg_def h 4 Let_def obind.simps if_False simp_thms) simp
qed (simp add: filter_msg_def)

text \<open>The coroutine between deliveries: everything has been scanned.\<close>

definition idle :: "nat \<Rightarrow> recv \<Rightarrow> bool" where
  "idle cap s \<longleftrightarrow> length (r_ary s) = cap \<and> r_rd_off s = 0 \<and> r_wr_off s = 0"

definition quiet :: "('w \<Rightarrow> bytes list) \<Rightarrow> 'w wake \<Rightarrow> bool" where
  "quiet due = (\<lambda>(revs, g). revs AND EPOLLERR = 0 \<and> (\<forall>w. due (g w) = due w))"

lemma recv_event_scans:
  assumes sock: "tp_socket px fd jfd due" and ms: "list_all upd_ok ms" and s: "idle cap s" "cap < 2 ^ 64"
    and due: "due (fst w) = (msgs_image ms @ p) # cs" "msgs_image ms @ p \<noteq> []" "length (msgs_image ms @ p) \<le> cap"
    and revs: "revs AND EPOLLERR = 0"
  shows "\<exists>s1 w1 rest. recv_event px ep fd jfd fn tbls revs s w =
      obind (recv_scan px ep fd jfd fn tbls s1 w1) (\<lambda>(r, s1, w2).
            case r of Some c \<Rightarrow> Ret (c, s1, w2) | None \<Rightarrow> Ret (recv_after px ep fd s1 w2)) \<and>
    length (r_ary s1) = cap \<and> drop (r_rd_off s1) (r_ary s1) = p @ rest \<and>
    r_rd_off s1 = length (msgs_image ms) \<and> r_wr_off s1 = length (msgs_image ms @ p) \<and>
    r_counts s1 = count_msgs fn tbls ms (r_counts s) \<and>
    due (fst w1) = cs \<and> payloads jfd (snd w1) = payloads jfd (snd w) @ included fn tbls ms"
proof -
  let ?c = "msgs_image ms @ p"
  let ?s = "recv_store ?c s"
  obtain w1 where w1: "io_read px fd cap w = (Inr ?c, w1)" "due (fst w1) = cs" "snd w1 = snd w @ [IoRead fd cap]"
    by (rule tp_socket_read [OF sock due(1,3)])
  have st: "r_ary ?s = msgs_image ms @ p @ drop (length ?c) (r_ary s)" "r_rd_off ?s = 0" "r_wr_off ?s = length ?c"
    "r_counts ?s = r_counts s"
    using s(1) by (simp_all add: recv_store_def store_at_def idle_def)
  have "drop (r_rd_off ?s) (r_ary ?s) = msgs_image ms @ p @ drop (length ?c) (r_ary s)" by (simp add: st)
  from scan_many [OF sock ms this, of ep fn tbls w1] obtain w2 where w2:
    "recv_scan px ep fd jfd fn tbls ?s w1 = recv_scan px ep fd jfd fn tbls (scanned fn tbls ms ?s) w2"
    "due (fst w2) = due (fst w1)" "payloads jfd (snd w2) = payloads jfd (snd w1) @ included fn tbls ms"
    using st due(3) s(2) by auto
  have e: "recv_event px ep fd jfd fn tbls revs s w =
      obind (recv_scan px ep fd jfd fn tbls (scanned fn tbls ms ?s) w2) (\<lambda>(r, s1, w2).
            case r of Some c \<Rightarrow> Ret (c, s1, w2) | None \<Rightarrow> Ret (recv_after px ep fd s1 w2))"
    using s(1) revs due(2) by (simp add: recv_event_def idle_def w1(1) w2(1) del: append_is_Nil_conv)
  show ?thesis
    by (rule exI [of _ "scanned fn tbls ms ?s"], rule exI [of _ w2], rule exI [of _ "drop (length ?c) (r_ary s)"], intro conjI, rule e)
      (use st w1(2,3) w2(2,3) s(1) due(3) in \<open>simp_all add: idle_def\<close>)
qed

lemma recv_event_whole:
  assumes "tp_socket px fd jfd due" "list_all upd_ok ms" "idle cap s" "cap < 2 ^ 64"
    and "due (fst w) = msgs_image ms # cs" "msgs_image ms \<noteq> []" "length (msgs_image ms) \<le> cap"
    and "revs AND EPOLLERR = 0"
  shows "\<exists>s1 w1. recv_event px ep fd jfd fn tbls revs s w = Ret (Awaits, s1, w1) \<and> idle cap s1 \<and>
    r_counts s1 = count_msgs fn tbls ms (r_counts s) \<and> due (fst w1) = cs \<and>
    payloads jfd (snd w1) = payloads jfd (snd w) @ included fn tbls ms"
proof -
  obtain s1 w1 where s1: "recv_event px ep fd jfd fn tbls revs s w =
      obind (recv_scan px ep fd jfd fn tbls s1 w1) (\<lambda>(r, s1, w2).
            case r of Some c \<Rightarrow> Ret (c, s1, w2) | None \<Rightarrow> Ret (recv_after px ep fd s1 w2))"
    "length (r_ary s1) = cap" "r_rd_off s1 = r_wr_off s1"
    "r_counts s1 = count_msgs fn tbls ms (r_counts s)"
    "due (fst w1) = cs" "payloads jfd (snd w1) = payloads jfd (snd w) @ included fn tbls ms"
    using recv_event_scans [OF assms(1-4), of w "[]" cs revs ep fn tbls] assms(5-8) by auto
  have "recv_scan px ep fd jfd fn tbls s1 w1 = Ret (None, s1, w1)"
    using s1(3) by (subst recv_scan.simps) (simp add: rem_off_def)
  then have "recv_event px ep fd jfd fn tbls revs s w = Ret (Awaits, s1\<lparr>r_rd_off := 0, r_wr_off := 0\<rparr>, w1)"
    using s1(3) by (simp add: s1(1) recv_after_def)
  then show ?thesis
    using s1 by (intro exI [of _ "s1\<lparr>r_rd_off := 0, r_wr_off := 0\<rparr>"] exI [of _ w1]) (simp add: idle_def)
qed

lemma recv_event_cut:
  assumes "tp_socket px fd jfd due" "list_all upd_ok ms" "idle cap s" "cap < 2 ^ 64"
    and "due (fst w) = (msgs_image ms @ p) # cs" "length (msgs_image ms @ p) \<le> cap"
    and "revs AND EPOLLERR = 0" "upd_ok m" "p @ q = msg_image m" "p \<noteq> []" "q \<noteq> []"
  shows "\<exists>s1 w1 l. recv_event px ep fd jfd fn tbls revs s w = Ret (CoReturn (Inr (- 1)), s1, w1) \<and>
    r_counts s1 = count_msgs fn tbls ms (r_counts s) \<and>
    payloads jfd (snd w1) = payloads jfd (snd w) @ included fn tbls ms \<and>
    snd w1 = l @ [IoEpollCtl ep EPOLL_CTL_DEL fd 0, IoClose fd]"
proof -
  obtain s1 w1 rest where s1: "recv_event px ep fd jfd fn tbls revs s w =
      obind (recv_scan px ep fd jfd fn tbls s1 w1) (\<lambda>(r, s1, w2).
            case r of Some c \<Rightarrow> Ret (c, s1, w2) | None \<Rightarrow> Ret (recv_after px ep fd s1 w2))"
    "drop (r_rd_off s1) (r_ary s1) = p @ rest" "r_rd_off s1 = length (msgs_image ms)" "r_wr_off s1 = length (msgs_image ms @ p)"
    "r_counts s1 = count_msgs fn tbls ms (r_counts s)"
    "payloads jfd (snd w1) = payloads jfd (snd w) @ included fn tbls ms"
    using recv_event_scans [OF assms(1-4), of w p cs revs ep fn tbls] assms(5-7,10) by auto
  have rem: "unat (rem_off (r_rd_off s1) (r_wr_off s1)) = length p"
    using s1(3,4) assms(4,6) by (subst unat_rem_off) simp_all
  have "rem_off (r_rd_off s1) (r_wr_off s1) \<noteq> 0" using rem assms(10) by auto
  moreover have "filter_msg (drop (r_rd_off s1) (r_ary s1)) (rem_off (r_rd_off s1) (r_wr_off s1)) fn tbls = Ret (- 1)"
    unfolding s1(2) by (rule filter_msg_part [OF assms(8,9,11)]) (simp add: rem)
  ultimately have "recv_scan px ep fd jfd fn tbls s1 w1 =
      Ret (Some (CoReturn (Inr (- 1))), s1, snd (handle_close px ep fd w1))"
    by (subst recv_scan.simps) (simp add: handle_close_def)
  moreover have "snd (snd (handle_close px ep fd w1)) = snd w1 @ [IoEpollCtl ep EPOLL_CTL_DEL fd 0, IoClose fd]"
    by (simp add: handle_close_def clr_interest_def epoll_upd_def io_epoll_ctl_def io_close_def sys_def split_beta)
  ultimately show ?thesis
    using s1(5,6) by (intro exI [of _ s1] exI [of _ "snd (handle_close px ep fd w1)"]) (simp add: s1(1))
qed

lemma recv_run_whole:
  assumes sock: "tp_socket px fd jfd due" and cap: "cap < 2 ^ 64"
  shows "idle cap s \<Longrightarrow> due (fst w) = map msgs_image mss @ cs \<Longrightarrow> length evs = length mss \<Longrightarrow>
    list_all (quiet due) evs \<Longrightarrow>
    list_all (\<lambda>ms. list_all upd_ok ms \<and> msgs_image ms \<noteq> [] \<and> length (msgs_image ms) \<le> cap) mss \<Longrightarrow>
    \<exists>s1 w1. recv_run px ep fd jfd fn tbls (evs @ evs') s w = recv_run px ep fd jfd fn tbls evs' s1 w1 \<and> idle cap s1 \<and>
      r_counts s1 = count_msgs fn tbls (concat mss) (r_counts s) \<and> due (fst w1) = cs \<and>
      payloads jfd (snd w1) = payloads jfd (snd w) @ included fn tbls (concat mss)"
proof (induction mss arbitrary: evs s w)
  case Nil
  then show ?case by (intro exI [of _ s] exI [of _ w]) (simp add: count_msgs_def included_def)
next
  case (Cons ms mss)
  then obtain revs g evs1 where evs: "evs = (revs, g) # evs1" by (cases evs) auto
  have q: "revs AND EPOLLERR = 0" "due (fst (woken g w)) = due (fst w)" "snd (woken g w) = snd w"
    using Cons.prems(4) by (simp_all add: evs quiet_def woken_def)
  obtain s1 w1 where s1: "recv_event px ep fd jfd fn tbls revs s (woken g w) = Ret (Awaits, s1, w1)" "idle cap s1"
    "r_counts s1 = count_msgs fn tbls ms (r_counts s)" "due (fst w1) = map msgs_image mss @ cs"
    "payloads jfd (snd w1) = payloads jfd (snd w) @ included fn tbls ms"
    using recv_event_whole [OF sock _ Cons.prems(1) cap, of ms "woken g w" "map msgs_image mss @ cs" revs ep fn tbls]
      Cons.prems(2,5) q by auto
  obtain s2 w2 where "recv_run px ep fd jfd fn tbls (evs1 @ evs') s1 w1 = recv_run px ep fd jfd fn tbls evs' s2 w2" "idle cap s2"
    "r_counts s2 = count_msgs fn tbls (concat mss) (r_counts s1)" "due (fst w2) = cs"
    "payloads jfd (snd w2) = payloads jfd (snd w1) @ included fn tbls (concat mss)"
    using Cons.IH [OF s1(2,4), of evs1] Cons.prems(3-5) by (auto simp: evs)
  then show ?case
    using s1 by (intro exI [of _ s2] exI [of _ w2]) (simp add: evs count_msgs_def)
qed

section \<open>Properties\<close>

lemma kdb_read_tcp_messages_run:
  assumes "tp_socket px (m_sock_fd conn) (j_fd jnl) due"
  shows "\<exists>w1. kdb_read_tcp_messages px ep conn jnl sub counts evs (w, log) =
      recv_run px ep (m_sock_fd conn) (j_fd jnl) upd_name (set (m_tables sub)) evs
        \<lparr>r_ary = replicate 262144 0, r_rd_off = 0, r_wr_off = 0, r_counts = counts\<rparr> w1 \<and>
    due (fst w1) = due w \<and> payloads (j_fd jnl) (snd w1) = payloads (j_fd jnl) log"
proof -
  obtain n e w1 where w1: "px_epoll_ctl px ep EPOLL_CTL_ADD (m_sock_fd conn) EPOLLIN w = ((Some n, e), w1)" "due w1 = due w"
    using assms unfolding tp_socket_def by blast
  then have "add_interest px ep (m_sock_fd conn) EPOLLIN (w, log) =
      (Inr n, (w1, log @ [IoEpollCtl ep EPOLL_CTL_ADD (m_sock_fd conn) EPOLLIN]))"
    by (simp add: add_interest_def epoll_upd_def io_epoll_ctl_def sys_def expected_def)
  then show ?thesis
    using w1(2)
    by (intro exI [of _ "(w1, log @ [IoEpollCtl ep EPOLL_CTL_ADD (m_sock_fd conn) EPOLLIN])"])
      (simp add: kdb_read_tcp_messages_def Let_def)
qed

text \<open>C14. When every read of the socket ends with a message: what is given to
  \<open>write\<close> for the journal is, in order, the payloads of exactly the update messages about a subscribed table, each once; every message is counted; and
  the coroutine waits for the next event with an empty buffer.\<close>

theorem recv_journals_messages:
  assumes "tp_socket px (m_sock_fd conn) (j_fd jnl) due" "due w = map msgs_image mss @ cs" "length evs = length mss"
    and "list_all (quiet due) evs"
    and "list_all (\<lambda>ms. list_all upd_ok ms \<and> ms \<noteq> [] \<and> length (msgs_image ms) \<le> 262144) mss"
  shows "\<exists>s1 w1 log. kdb_read_tcp_messages px ep conn jnl sub counts evs (w, []) = Ret (Awaits, s1, w1, log) \<and>
    payloads (j_fd jnl) log = included upd_name (set (m_tables sub)) (concat mss) \<and>
    r_counts s1 = count_msgs upd_name (set (m_tables sub)) (concat mss) counts \<and>
    r_rd_off s1 = r_wr_off s1 \<and> due w1 = cs"
proof -
  let ?s = "\<lparr>r_ary = replicate 262144 0, r_rd_off = 0, r_wr_off = 0, r_counts = counts\<rparr>"
  obtain w0 where w0: "kdb_read_tcp_messages px ep conn jnl sub counts evs (w, []) =
      recv_run px ep (m_sock_fd conn) (j_fd jnl) upd_name (set (m_tables sub)) evs ?s w0"
    "due (fst w0) = due w" "payloads (j_fd jnl) (snd w0) = []"
    using kdb_read_tcp_messages_run [OF assms(1), of ep sub counts evs w "[]"] by auto
  have s: "idle 262144 ?s" by (simp add: idle_def)
  have mss: "list_all (\<lambda>ms. list_all upd_ok ms \<and> msgs_image ms \<noteq> [] \<and> length (msgs_image ms) \<le> 262144) mss"
    using assms(5) by (rule list.pred_mono_strong) simp
  show ?thesis
    using recv_run_whole [OF assms(1) _ s _ assms(3,4) mss, of w0 cs ep upd_name "set (m_tables sub)" "[]"] assms(2) w0
    by (fastforce simp: idle_def)
qed

text \<open>C38. A read that ends inside a message makes the coroutine close the connection: \<open>filter_msg\<close> reports
  missing bytes as -1, and the coroutine takes -1 for a parse error. What came before the message
  is in the journal, the message is lost.\<close>

theorem recv_cut_message_closes:
  assumes "tp_socket px (m_sock_fd conn) (j_fd jnl) due" "due w = map msgs_image mss @ (msgs_image ms @ p) # cs"
    and "length evs = length mss" "list_all (quiet due) (evs @ [ev])"
    and "list_all (\<lambda>ms. list_all upd_ok ms \<and> ms \<noteq> [] \<and> length (msgs_image ms) \<le> 262144) mss"
    and "list_all upd_ok ms" "length (msgs_image ms @ p) \<le> 262144" "upd_ok m" "p @ q = msg_image m" "p \<noteq> []" "q \<noteq> []"
  shows "\<exists>s1 w1 log. kdb_read_tcp_messages px ep conn jnl sub counts (evs @ ev # evs') (w, []) =
      Ret (CoReturn (Inr (- 1)), s1, w1, log @ [IoEpollCtl ep EPOLL_CTL_DEL (m_sock_fd conn) 0, IoClose (m_sock_fd conn)]) \<and>
    payloads (j_fd jnl) log = included upd_name (set (m_tables sub)) (concat mss @ ms)"
proof -
  let ?s = "\<lparr>r_ary = replicate 262144 0, r_rd_off = 0, r_wr_off = 0, r_counts = counts\<rparr>"
    and ?t = "set (m_tables sub)" and ?fd = "m_sock_fd conn"
  obtain w0 where w0: "kdb_read_tcp_messages px ep conn jnl sub counts (evs @ ev # evs') (w, []) =
      recv_run px ep ?fd (j_fd jnl) upd_name ?t (evs @ ev # evs') ?s w0"
    "due (fst w0) = due w" "payloads (j_fd jnl) (snd w0) = []"
    using kdb_read_tcp_messages_run [OF assms(1), of ep sub counts "evs @ ev # evs'" w "[]"] by auto
  have s: "idle 262144 ?s" by (simp add: idle_def)
  have mss: "list_all (\<lambda>ms. list_all upd_ok ms \<and> msgs_image ms \<noteq> [] \<and> length (msgs_image ms) \<le> 262144) mss"
    using assms(5) by (rule list.pred_mono_strong) simp
  obtain revs g where ev: "ev = (revs, g)" by (cases ev)
  have q: "list_all (quiet due) evs" "revs AND EPOLLERR = 0" "\<And>w. due (fst (woken g w)) = due (fst w)" "\<And>w. snd (woken g w) = snd w"
    using assms(4) by (simp_all add: ev quiet_def woken_def)
  obtain s1 w1 where s1: "recv_run px ep ?fd (j_fd jnl) upd_name ?t (evs @ ev # evs') ?s w0 =
      recv_run px ep ?fd (j_fd jnl) upd_name ?t (ev # evs') s1 w1" "idle 262144 s1"
    "due (fst w1) = (msgs_image ms @ p) # cs" "payloads (j_fd jnl) (snd w1) = included upd_name ?t (concat mss)"
    using recv_run_whole [OF assms(1) _ s _ assms(3) q(1) mss, of w0 "(msgs_image ms @ p) # cs" ep upd_name ?t "ev # evs'"]
      assms(2) w0 by auto
  obtain s2 w2 l where "recv_event px ep ?fd (j_fd jnl) upd_name ?t revs s1 (woken g w1) = Ret (CoReturn (Inr (- 1)), s2, w2)"
    "payloads (j_fd jnl) (snd w2) = payloads (j_fd jnl) (snd w1) @ included upd_name ?t ms"
    "snd w2 = l @ [IoEpollCtl ep EPOLL_CTL_DEL ?fd 0, IoClose ?fd]"
    using recv_event_cut [OF assms(1,6) s1(2) _ _ assms(7) q(2) assms(8-11), of "woken g w1" cs ep upd_name ?t] s1(3) q(3,4)
    by auto
  then show ?thesis
    using w0(1) s1(1,4) by (intro exI [of _ s2] exI [of _ "fst w2"] exI [of _ l]) (cases w2, simp add: ev)
qed

section \<open>Witnesses\<close>

text \<open>A system whose world is the chunks that arrive.\<close>

definition chunk_px :: "bytes list posix" where
  "chunk_px = ok_px\<lparr>px_read := \<lambda>fd n w.
     case w of [] \<Rightarrow> ((None, EAGAIN), []) | c # cs \<Rightarrow> ((Some (take n c), 0), if length c \<le> n then cs else drop n c # cs)\<rparr>"

lemma chunk_px_socket: "tp_socket chunk_px fd jfd id"
  by (simp add: tp_socket_def chunk_px_def ok_px_def)

text \<open>\<open>(`upd;`t;1b)\<close> and \<open>(`upd;`u;1b)\<close>\<close>

definition upd_sample :: "u8 \<Rightarrow> upd_msg" where
  "upd_sample t = (ASYNC, KdbList ATTR_NONE 3 [KdbSymbolAtom upd_name, KdbSymbolAtom [t], KdbAtom (KdbBoolAtom 1)])"

lemma upd_sample_facts:
  "t \<noteq> 0 \<Longrightarrow> upd_ok (upd_sample t)" "subscribed upd_name tbls (upd_sample t) \<longleftrightarrow> [t] \<in> tbls"
  "length (msg_image (upd_sample t)) = 24" "length (enc (snd (upd_sample t))) = 16"
  by (simp_all add: upd_sample_def upd_ok_def upd_name_def subscribed_def length_msg_image vec_hdr_def)

definition sample_conn :: tcp_conn where
  "sample_conn = \<lparr>m_sock_fd = 6, m_host = [], m_conn_service = []\<rparr>"

definition sample_sub :: subscription where
  "sample_sub = \<lparr>m_service = [], m_username = [], m_tables = [[116]]\<rparr>"

definition sample_out :: journal where
  "sample_out = \<lparr>j_rd_only = False, j_fd = 7, j_msg_count = 0\<rparr>"

lemmas sample_simps = sample_conn_def sample_sub_def sample_out_def quiet_def msgs_image_def upd_sample_facts
  included_def count_msgs_def

theorem recv_journals_messages_witness:
  "\<exists>s1 w1 log. kdb_read_tcp_messages chunk_px 3 sample_conn sample_out sample_sub \<lparr>m_num_msg_total = 5, m_num_msg_included = 2\<rparr>
      [(1, id), (1, id)] ([msgs_image [upd_sample 116, upd_sample 117], msgs_image [upd_sample 116]], []) = Ret (Awaits, s1, w1, log) \<and>
    payloads 7 log = [enc (snd (upd_sample 116)), enc (snd (upd_sample 116))] \<and>
    r_counts s1 = \<lparr>m_num_msg_total = 8, m_num_msg_included = 4\<rparr>"
  using recv_journals_messages [OF chunk_px_socket, where conn = sample_conn and jnl = sample_out and sub = sample_sub
      and mss = "[[upd_sample 116, upd_sample 117], [upd_sample 116]]" and cs = "[]" and evs = "[(1, id), (1, id)]"
      and counts = "\<lparr>m_num_msg_total = 5, m_num_msg_included = 2\<rparr>" and ep = 3
      and w = "[msgs_image [upd_sample 116, upd_sample 117], msgs_image [upd_sample 116]]"]
  by (simp add: sample_simps) blast

theorem recv_cut_message_closes_witness:
  "\<exists>s1 w1 log. kdb_read_tcp_messages chunk_px 3 sample_conn sample_out sample_sub \<lparr>m_num_msg_total = 0, m_num_msg_included = 0\<rparr>
      [(1, id)] ([msgs_image [upd_sample 116] @ [1, 0, 0, 0]], []) =
      Ret (CoReturn (Inr (- 1)), s1, w1, log @ [IoEpollCtl 3 EPOLL_CTL_DEL 6 0, IoClose 6])"
proof -
  let ?m = "upd_sample 116"
  have "take 4 (msg_image ?m) = [1, 0, 0, 0]" by (simp add: msg_image_def msg_hdr_def upd_sample_def)
  then have "[1, 0, 0, 0] @ drop 4 (msg_image ?m) = msg_image ?m" using append_take_drop_id [of 4 "msg_image ?m"] by simp
  then show ?thesis
    using recv_cut_message_closes [OF chunk_px_socket, where conn = sample_conn and jnl = sample_out and sub = sample_sub
        and mss = "[]" and ms = "[?m]" and p = "[1, 0, 0, 0]" and cs = "[]" and evs = "[]" and ev = "(1, id)" and evs' = "[]"
        and counts = "\<lparr>m_num_msg_total = 0, m_num_msg_included = 0\<rparr>" and ep = 3 and m = ?m and q = "drop 4 (msg_image ?m)"
        and w = "[msgs_image [?m] @ [1, 0, 0, 0]]"]
    by (simp add: sample_simps length_msg_image) blast
qed

end
