(* ===== verification/Tp_Subscribe.thy ===== *)
theory Tp_Subscribe
  imports Tp_Read Tp_Recv
begin

text \<open>
  The coroutine \<open>kdb_subscribe_and_replay\<close> of \<^verbatim>\<open>tpmux/src/mg_coro_kdb_subscribe_replay.cpp\<close>: it asks a
  tickerplant for a subscription, and copies from the tickerplant's journal what has been published
  before. The journal is read through the calls \<open>jos path\<close> on a world of its own.
\<close>

section \<open>The request\<close>

definition u_sub :: bytes where
  "u_sub = [46, 117, 46, 115, 117, 98]"

definition trade_name :: bytes where
  "trade_name = [116, 114, 97, 100, 101]"

definition quote_name :: bytes where
  "quote_name = [113, 117, 111, 116, 101]"

text \<open>The tables are not those of the \<open>Subscription\<close>.\<close>

definition sub_request :: kobj where
  "sub_request =
     foldl list_push (KdbList ATTR_NONE 0 [])
       [KdbSymbolAtom u_sub, KdbSymbolVector (sv_of_vals [trade_name, quote_name] ATTR_NONE), KdbSymbolAtom []]"

definition monitor_close :: "'w posix \<Rightarrow> int \<Rightarrow> 'w io \<Rightarrow> int \<times> 'w io" where
  "monitor_close px fd w = (- 1, snd (io_close px fd w))"

type_synonym sub_end = "(errno_msg + int) coro"

abbreviation sub_error :: "string \<Rightarrow> sub_end" where
  "sub_error msg \<equiv> CoReturn (Inl (ErrnoMsg 0 msg))"

text \<open>The loop that writes the request; a write of no bytes is tried again.\<close>

definition sub_write :: "'w posix \<Rightarrow> int \<Rightarrow> bytes \<Rightarrow> nat \<Rightarrow> nat \<times> 'w io \<Rightarrow> (sub_end option \<times> 'w io) + nat \<times> 'w io" where
  "sub_write px fd ary ipc_len = (\<lambda>(wrt, w).
     case io_write px fd (take (ipc_len - wrt) (drop wrt ary)) w of
       (Inl e, w1) \<Rightarrow> Inl (Some (sub_error ''Failure reported during write''), snd (monitor_close px fd w1))
     | (Inr n, w1) \<Rightarrow> if wrt + n < ipc_len then Inr (wrt + n, w1) else Inl (None, w1))"

section \<open>The response\<close>

text \<open>What the response is refused for, and the count of messages and the path of the journal otherwise. The type of the
  first element is asked for before the length of the list.\<close>

datatype response = BadStructure | IllegalCount | FewerMessages | Accepted u64 bytes

definition type_at :: "kobj list \<Rightarrow> nat \<Rightarrow> KdbType outcome" where
  "type_at xs i = (if i < length xs then Ret (m_typ (xs ! i)) else Undef)"

definition check_response :: "tp_msg_counts \<Rightarrow> read_msg_result \<Rightarrow> response outcome" where
  "check_response counts res =
     (if rr_msg_typ res \<noteq> msg_type_i8 RESPONSE then Ret BadStructure
      else case rr_message res of
        None \<Rightarrow> Undef
      | Some (KdbList attr cap xs) \<Rightarrow>
          obind (type_at xs 0) (\<lambda>t0.
          if t0 \<noteq> LONG_ATOM then Ret BadStructure
          else if length xs \<noteq> 3 then Ret BadStructure
          else if m_typ (xs ! 1) \<noteq> SYMBOL_ATOM then Ret BadStructure
          else if m_typ (xs ! 2) \<noteq> LIST then Ret BadStructure
          else case (xs ! 0, xs ! 1) of
            (KdbAtom (KdbLongAtom n), KdbSymbolAtom path) \<Rightarrow>
              if sint n < 0 then Ret IllegalCount
              else if sint n < int (unat (m_num_msg_total counts)) then Ret FewerMessages
              else Ret (Accepted n path)
          | _ \<Rightarrow> Undef)
      | Some _ \<Rightarrow> Ret BadStructure)"

text \<open>The path from a file symbol: \<open>None\<close> is the exception of \<open>at(0)\<close> on an empty one. A path of colons only has no
  first other character, and the position that says so is added to the pointer.\<close>

definition journal_path :: "bytes \<Rightarrow> bytes option outcome" where
  "journal_path path =
     (if path = [] then Ret None
      else let tail = (if hd path = 58 \<and> 1 < length path then dropWhile (\<lambda>c. c = 58) path else path)
           in if tail = [] then Undef else Ret (Some (takeWhile (\<lambda>c. c \<noteq> 0) tail)))"

section \<open>The coroutine\<close>

text \<open>The listener: a message to the local journal. A write that fails stops the replay, without an error.\<close>

definition scribe :: "'w posix \<Rightarrow> int \<Rightarrow> bytes \<Rightarrow> u64 \<Rightarrow> 'w io \<Rightarrow> (int \<times> 'w io) outcome" where
  "scribe px dst_fd src len w =
     (if length src < unat len then Undef
      else case io_write px dst_fd (take (unat len) src) w of
             (Inl e, w1) \<Rightarrow> Ret (- 1, w1)
           | (Inr n, w1) \<Rightarrow> Ret (1, w1))"

record ('w, 'v) subscribed =
  s_end :: sub_end
  s_counts :: tp_msg_counts
  s_evs :: "'w wake list"
  s_io :: "'w io"
  s_jnl :: "'v sys"

definition replay_opts :: jnl_options where
  "replay_opts = \<lparr>jo_read_only = True, jo_validate = False, jo_max_replay = - 1\<rparr>"

text \<open>From the path of the journal on; the journal is not closed.\<close>

definition sub_replay :: "'w posix \<Rightarrow> 'v os \<Rightarrow> int \<Rightarrow> int \<Rightarrow> subscription \<Rightarrow> u64 \<Rightarrow> tp_msg_counts \<Rightarrow> 'w wake list \<Rightarrow> 'w io \<Rightarrow>
    'v sys \<Rightarrow> ('w, 'v) subscribed outcome" where
  "sub_replay px os fd dst_fd sub n counts evs w v =
     (let fail = (\<lambda>msg w v. Ret \<lparr>s_end = sub_error msg, s_counts = counts, s_evs = evs,
                    s_io = snd (monitor_close px fd w), s_jnl = v\<rparr>)
      in obind (jnl_init os replay_opts v) (\<lambda>(init, v1).
         case init of
           Failed e \<Rightarrow> fail ''Failed while reading remote journal'' w v1
         | Thrown e \<Rightarrow> Ret \<lparr>s_end = CoThrow, s_counts = counts, s_evs = evs, s_io = w, s_jnl = v1\<rparr>
         | Opened src_jnl \<Rightarrow>
             obind (jnl_filter_msgs os (j_fd src_jnl) n
                      (mk_upd_tbl_filter (ucast (m_num_msg_total counts)) upd_name (set (m_tables sub)) (scribe px dst_fd)) w v1)
               (\<lambda>(res, w1, v2).
                  case res of
                    Inl e \<Rightarrow> fail ''Failed while filtering remote journal'' w1 v2
                  | Inr (total_n, used) \<Rightarrow>
                      Ret \<lparr>s_end = CoReturn (Inr 0),
                           s_counts = \<lparr>m_num_msg_total = ucast total_n, m_num_msg_included = m_num_msg_included counts + ucast used\<rparr>,
                           s_evs = evs, s_io = w1, s_jnl = v2\<rparr>)))"

definition sub_response :: "'w posix \<Rightarrow> (bytes \<Rightarrow> 'v os) \<Rightarrow> int \<Rightarrow> int \<Rightarrow> subscription \<Rightarrow> tp_msg_counts \<Rightarrow>
    errno_msg + read_msg_result \<Rightarrow> 'w wake list \<Rightarrow> 'w io \<Rightarrow> 'v sys \<Rightarrow> ('w, 'v) subscribed outcome" where
  "sub_response px jos fd dst_fd sub counts rd evs w v =
     (let stop = (\<lambda>c w. Ret \<lparr>s_end = c, s_counts = counts, s_evs = evs, s_io = w, s_jnl = v\<rparr>);
          close_w = snd (monitor_close px fd w)
      in case rd of
           Inl e \<Rightarrow> stop (CoReturn (Inl e)) close_w
         | Inr res \<Rightarrow>
             obind (check_response counts res) (\<lambda>r.
             case r of
               BadStructure \<Rightarrow> stop (sub_error ''Bad repsonse struture'') close_w
             | IllegalCount \<Rightarrow> stop (sub_error ''illegal .u.i value upon subscription'') close_w
             | FewerMessages \<Rightarrow> stop (sub_error ''fewer messages in src-journal than we have apparently alread read'') close_w
             | Accepted n path \<Rightarrow>
                 obind (journal_path path) (\<lambda>p.
                 case p of
                   None \<Rightarrow> stop CoThrow w
                 | Some src_path \<Rightarrow> sub_replay px (jos src_path) fd dst_fd sub n counts evs w v)))"

definition kdb_subscribe_and_replay :: "'w posix \<Rightarrow> (bytes \<Rightarrow> 'v os) \<Rightarrow> (u64 \<Rightarrow> bool) \<Rightarrow> epoll_ctl \<Rightarrow> tcp_conn \<Rightarrow> journal \<Rightarrow>
    subscription \<Rightarrow> tp_msg_counts \<Rightarrow> 'w wake list \<Rightarrow> 'w io \<Rightarrow> 'v sys \<Rightarrow> ('w, 'v) subscribed outcome option" where
  "kdb_subscribe_and_replay px jos alloc ep conn dst_jnl sub counts evs w v =
     (let fd = m_sock_fd conn; stop = (\<lambda>c evs w. \<lparr>s_end = c, s_counts = counts, s_evs = evs, s_io = w, s_jnl = v\<rparr>)
      in case obind (ipcMessageLen wireSz sub_request) (\<lambda>ipc_len.
                obind (mw_new wireSz SYNC sub_request) (\<lambda>writer.
                obind (mw_write kwrite 512 writer) (\<lambda>(res, out, writer1). Ret (unat ipc_len, res, out)))) of
           Ret (ipc_len, res, out) \<Rightarrow>
             if res \<noteq> WR_OK
             then Some (Ret (stop (sub_error ''Failed to serialise subscribe-message'') evs (snd (monitor_close px fd w))))
             else let ary = out @ replicate (512 - length out) 0
                  in (case until_inl (sub_write px fd ary ipc_len) (0, w) of
                        None \<Rightarrow> None
                      | Some (Some c, w1) \<Rightarrow> Some (Ret (stop c evs w1))
                      | Some (None, w1) \<Rightarrow>
                          map_option (\<lambda>rd_out. obind rd_out (\<lambda>(rd, evs1, w2).
                              obind (co_result rd) (\<lambda>r. case r of
                                None \<Rightarrow> Ret (stop Awaits evs1 w2)
                              | Some rd_msg_res \<Rightarrow> sub_response px jos fd (j_fd dst_jnl) sub counts rd_msg_res evs1 w2 v)))
                            (kdb_read_message px alloc ep fd ary evs w1))
         | Throw e \<Rightarrow> Some (Throw e)
         | Undef \<Rightarrow> Some Undef)"

definition request_image :: bytes where
  "request_image = [1, 1, 0, 0, 42, 0, 0, 0, 0, 0, 3, 0, 0, 0, - 11, 46, 117, 46, 115, 117, 98, 0, 11, 0, 2, 0, 0, 0,
     116, 114, 97, 100, 101, 0, 113, 117, 111, 116, 101, 0, - 11, 0]"

lemma request_image: "request_image = message SYNC sub_request" "length request_image = 42"
  by code_simp+

lemma sub_request_written:
  "obind (ipcMessageLen wireSz sub_request) (\<lambda>ipc_len.
     obind (mw_new wireSz SYNC sub_request) (\<lambda>writer.
     obind (mw_write kwrite 512 writer) (\<lambda>(res, out, writer1). Ret (unat ipc_len, res, out)))) =
   Ret (42, WR_OK, request_image)"
  by code_simp

section \<open>What is written while a message is read\<close>

text \<open>Nothing.\<close>

lemma read_finish_log:
  "read_finish px ep fd res evs w = Ret (c, evs1, w1) \<Longrightarrow> payloads d (snd w1) = payloads d (snd w)"
  by (auto simp: read_finish_def clr_interest_def epoll_upd_def io_epoll_ctl_def sys_def split: sum.splits prod.splits)

lemma read_data_log:
  assumes "read_data px alloc ep fd s w = Some out"
  shows "case out of Ret (c, evs1, w1) \<Rightarrow> payloads d (snd w1) = payloads d (snd w) | _ \<Rightarrow> True"
  using assms unfolding read_data_def
proof (rule until_inl_inv [where ok = "\<lambda>(s, w1). payloads d (snd w1) = payloads d (snd w)"])
  fix x y
  assume "case x of (s, w1) \<Rightarrow> payloads d (snd w1) = payloads d (snd w)"
    "(case x of (s, w) \<Rightarrow> read_turn px alloc ep fd s w) = Inr y"
  then show "case y of (s, w1) \<Rightarrow> payloads d (snd w1) = payloads d (snd w)"
    by (cases x) (auto simp: read_turn_def Let_def io_read_def sys_def woken_def
        split: sum.splits prod.splits list.splits if_splits outcome.splits)
next
  fix x and r :: "'a read_out"
  assume "case x of (s, w1) \<Rightarrow> payloads d (snd w1) = payloads d (snd w)"
    "(case x of (s, w) \<Rightarrow> read_turn px alloc ep fd s w) = Inl r"
  then show "case r of Ret (c, evs1, w1) \<Rightarrow> payloads d (snd w1) = payloads d (snd w) | _ \<Rightarrow> True"
    by (cases x; cases r) (auto simp: read_turn_def Let_def io_read_def sys_def woken_def
        split: sum.splits prod.splits list.splits if_splits outcome.splits dest: read_finish_log [where d = d])
qed simp

lemma read_hdr_log:
  "read_hdr px alloc ep fd evs mem tot w = Some (Ret (c, evs1, w1)) \<Longrightarrow> payloads d (snd w1) = payloads d (snd w)"
proof (induction px alloc ep fd evs mem tot w rule: read_hdr.induct)
  case (1 px alloc ep fd evs mem tot w)
  note out = "1.prems" [unfolded read_hdr.simps [of px alloc ep fd evs]]
  show ?case
  proof (cases "tot < SZ_MSG_HDR")
    case False
    then show ?thesis
      using out by (auto simp: split: outcome.splits if_splits prod.splits dest: read_finish_log [where d = d] read_data_log [where d = d])
  next
    case True
    show ?thesis
    proof (cases evs)
      case Nil
      then show ?thesis using out True by simp
    next
      case (Cons ev evs2)
      obtain revs g where ev: "ev = (revs, g)" by (cases ev)
      obtain r w2 where r: "io_read px fd SZ_MSG_HDR (woken g w) = (r, w2)" by (cases "io_read px fd SZ_MSG_HDR (woken g w)")
      then have w2: "payloads d (snd w2) = payloads d (snd w)" by (auto simp: io_read_def sys_def woken_def split: prod.splits)
      show ?thesis
      proof (cases r)
        case (Inl e)
        then show ?thesis using out True Cons ev r w2 by (auto simp: woken_def split: if_splits)
      next
        case (Inr bs)
        show ?thesis
        proof (cases "revs AND EPOLLERR = 0")
          case z: True
          then have "read_hdr px alloc ep fd evs2 (store_at 0 bs mem) (tot + length bs) w2 = Some (Ret (c, evs1, w1))"
            using out True Cons ev r Inr by simp
          then show ?thesis
            using "1.IH" [OF True Cons ev [symmetric] _ r [symmetric] Inr] z w2 by simp
        next
          case z: False
          then show ?thesis using out True Cons ev r by (auto simp: woken_def)
        qed
      qed
    qed
  qed
qed

lemma kdb_read_message_log:
  assumes "kdb_read_message px alloc ep fd ary evs w = Some (Ret (c, evs1, w1))"
  shows "payloads d (snd w1) = payloads d (snd w)"
  using assms
  by (auto simp: kdb_read_message_def Let_def add_interest_def epoll_upd_def io_epoll_ctl_def sys_def
      split: sum.splits prod.splits dest!: read_hdr_log [where d = d])

section \<open>Subscription and replay\<close>

text \<open>The response of the tickerplant, and the local journal.\<close>

definition sub_reply :: "u64 \<Rightarrow> bytes \<Rightarrow> kobj list \<Rightarrow> kobj" where
  "sub_reply n path schema = KdbList ATTR_NONE 3 [KdbAtom (KdbLongAtom n), KdbSymbolAtom path, KdbList ATTR_NONE (length schema) schema]"

text \<open>No \<open>write\<close> to \<open>fd\<close> fails. How many bytes one takes is left open, as the code does not look at it.\<close>

definition takes_writes :: "'w posix \<Rightarrow> int \<Rightarrow> bool" where
  "takes_writes px fd \<longleftrightarrow> (\<forall>bs w. \<exists>n e w1. px_write px fd bs w = ((Some n, e), w1))"

lemma scribe_writes:
  assumes "takes_writes px fd" "unat len \<le> length src"
  shows "scribe px fd src len w = Ret (1, snd (io_write px fd (take (unat len) src) w))"
proof -
  obtain n e w1 where "px_write px fd (take (unat len) src) (fst w) = ((Some n, e), w1)"
    using assms(1) unfolding takes_writes_def by blast
  then show ?thesis using assms(2) by (simp add: scribe_def io_write_def sys_def expected_def)
qed

text \<open>The local journal with some objects written to it.\<close>

definition copied :: "'w posix \<Rightarrow> int \<Rightarrow> kobj list \<Rightarrow> 'w io \<Rightarrow> 'w io" where
  "copied px fd xs w = foldl (\<lambda>w x. snd (io_write px fd (enc x) w)) w xs"

lemma copied_payloads: "payloads fd (snd (copied px fd xs w)) = payloads fd (snd w) @ map enc xs"
proof (induction xs arbitrary: w)
  case Nil
  then show ?case by (simp add: copied_def)
next
  case (Cons x xs)
  have "payloads fd (snd (snd (io_write px fd (enc x) w))) = payloads fd (snd w) @ [enc x]"
    by (simp add: io_write_def sys_def expected_def split: prod.splits)
  then show ?case using Cons by (simp add: copied_def)
qed

lemma copied_keeps:
  assumes "\<forall>bs w. due (snd (px_write px fd bs w)) = due w"
  shows "due (fst (copied px fd xs w)) = due (fst w)"
proof (induction xs arbitrary: w)
  case Nil
  then show ?case by (simp add: copied_def)
next
  case (Cons x xs)
  have "due (fst (snd (io_write px fd (enc x) w))) = due (fst w)"
    using assms by (simp add: io_write_def sys_world)
  then show ?case using Cons by (simp add: copied_def)
qed

text \<open>The journal of the tickerplant: it opens, has a header and then messages.\<close>

definition src_journal :: "'v os \<Rightarrow> kobj list \<Rightarrow> 'v \<Rightarrow> bool" where
  "src_journal os xs v \<longleftrightarrow>
     (\<exists>fd v0 v1 v2 v3 hdr. os_open os True v = (Inr fd, v0) \<and> os_fstat os fd v0 = (Inr (length (hdr @ enc_list xs)), v1) \<and>
        jnl_file os fd (hdr @ enc_list xs) v1 v2 v3 \<and> length hdr = 8 \<and> 8 + length (enc_list xs) < 2 ^ 64 \<and> jnl_objects xs)"

lemma ucast_u32_nat: "ucast (word_of_nat n :: u64) = (word_of_nat n :: u32)"
proof -
  have "ucast (word_of_int (int n) :: u64) = (word_of_int (int n) :: u32)"
    by (rule ucast_down_wi) (simp add: is_down)
  then show ?thesis by simp
qed

lemma sub_replay_copies:
  assumes src: "src_journal os (xs @ ys) v" "\<forall>x \<in> set xs. upd_call x \<noteq> None"
    and dst: "takes_writes px dst_fd"
    and n: "length xs \<le> unat n" "ys = [] \<or> length xs = unat n"
  shows "\<exists>jfd len v1. sub_replay px os fd dst_fd sub n counts evs w (v, vlog) =
      Ret \<lparr>s_end = CoReturn (Inr 0),
           s_counts = \<lparr>m_num_msg_total = word_of_nat (length xs), m_num_msg_included = m_num_msg_included counts +
             word_of_nat (length (wanted_of (ucast (m_num_msg_total counts)) upd_name (set (m_tables sub)) 0 xs))\<rparr>,
           s_evs = evs, s_io = copied px dst_fd (wanted_of (ucast (m_num_msg_total counts)) upd_name (set (m_tables sub)) 0 xs) w,
           s_jnl = (v1, vlog @ [Open, Fstat jfd, Fstat jfd, Mmap jfd len, Munmap len])\<rparr>"
proof -
  let ?N = "ucast (m_num_msg_total counts) :: u64" and ?t = "set (m_tables sub)"
  obtain jfd v0 v1 v2 v3 hdr where j: "os_open os True v = (Inr jfd, v0)"
    "os_fstat os jfd v0 = (Inr (length (hdr @ enc_list (xs @ ys))), v1)" "jnl_file os jfd (hdr @ enc_list (xs @ ys)) v1 v2 v3"
    "length hdr = 8" "8 + length (enc_list (xs @ ys)) < 2 ^ 64" "jnl_objects (xs @ ys)"
    using src(1) by (auto simp: src_journal_def)
  let ?g = "\<lambda>m w. snd (io_write px dst_fd m w)" and ?w = "wanted_of ?N upd_name ?t 0 xs"
  have "jnl_init os replay_opts (v, vlog) =
      Ret (Opened \<lparr>j_rd_only = True, j_fd = jfd, j_msg_count = 0\<rparr>, v1, vlog @ [Open, Fstat jfd])"
    using j(1,2,4) by (simp add: jnl_init_def jnl_validate_def replay_opts_def sys_def)
  moreover have "jnl_filter_msgs os jfd n (mk_upd_tbl_filter ?N upd_name ?t (scribe px dst_fd)) w (v1, vlog @ [Open, Fstat jfd]) =
      Ret (Inr (word_of_nat (length xs), word_of_nat (length ?w)), foldl (\<lambda>s x. ?g (enc x) s) w ?w,
        os_munmap os (8 + length (enc_list (xs @ ys))) v3,
        (vlog @ [Open, Fstat jfd]) @ [Fstat jfd, Mmap jfd (8 + length (enc_list (xs @ ys))), Munmap (8 + length (enc_list (xs @ ys)))])"
    using scribe_writes [OF dst] by (intro jnl_filter_msgs_upd [OF j(3-6) src(2) _ n]) blast
  ultimately have "sub_replay px os fd dst_fd sub n counts evs w (v, vlog) =
      Ret \<lparr>s_end = CoReturn (Inr 0),
           s_counts = \<lparr>m_num_msg_total = word_of_nat (length xs), m_num_msg_included = m_num_msg_included counts + word_of_nat (length ?w)\<rparr>,
           s_evs = evs, s_io = foldl (\<lambda>s x. ?g (enc x) s) w ?w, s_jnl = (os_munmap os (8 + length (enc_list (xs @ ys))) v3,
             (vlog @ [Open, Fstat jfd]) @ [Fstat jfd, Mmap jfd (8 + length (enc_list (xs @ ys))), Munmap (8 + length (enc_list (xs @ ys)))])\<rparr>"
    by (simp only: sub_replay_def Let_def obind.simps init_result.case sum.case prod.case journal.simps ucast_u32_nat)
  then show ?thesis by (auto simp: copied_def)
qed

lemma check_reply:
  assumes "int (unat (m_num_msg_total counts)) \<le> sint n"
  shows "check_response counts (got RESPONSE (sub_reply n path schema)) = Ret (Accepted n path)"
  using assms
  by (simp add: check_response_def got_def sub_reply_def type_at_def numeral_2_eq_2 linorder_not_less)
    (meson dual_order.trans unsigned_greater_eq)

text \<open>The request is written at once, and the response is there when it is read.\<close>

definition answers :: "'w posix \<Rightarrow> int \<Rightarrow> ('w \<Rightarrow> bytes) \<Rightarrow> kobj \<Rightarrow> bytes \<Rightarrow> 'w \<Rightarrow> bool" where
  "answers px fd left x rest w \<longleftrightarrow>
     whole_hdr px fd left \<and> kcan x \<and> 8 + length (enc x) \<le> 512 \<and>
     (\<exists>e w1. px_write px fd (message SYNC sub_request) w = ((Some 42, e), w1) \<and> left w1 = message RESPONSE x @ rest)"

lemma subscribe_responds:
  assumes ans: "answers px (m_sock_fd conn) left (sub_reply n path schema) rest w"
    and n: "int (unat (m_num_msg_total counts)) \<le> sint n" and path: "journal_path path = Ret (Some p)"
    and ev: "revs AND EPOLLERR = 0" "\<forall>w. left (g w) = left w"
    and fds: "m_sock_fd conn \<noteq> j_fd dst_jnl"
  shows "\<exists>w1 j. kdb_subscribe_and_replay px jos alloc ep conn dst_jnl sub counts ((revs, g) # evs) (w, log) v =
      Some (sub_replay px (jos p) (m_sock_fd conn) (j_fd dst_jnl) sub n counts evs w1 v) \<and>
    payloads (j_fd dst_jnl) (snd w1) = payloads (j_fd dst_jnl) log \<and> left (fst w1) = drop j rest"
proof -
  let ?fd = "m_sock_fd conn" and ?x = "sub_reply n path schema"
  let ?ary = "request_image @ replicate (512 - length request_image) 0"
  obtain e v1 where v1: "px_write px ?fd request_image w = ((Some 42, e), v1)" "left v1 = message RESPONSE ?x @ rest"
    and x: "kcan ?x" "8 + length (enc ?x) \<le> 512" and peer: "whole_hdr px ?fd left"
    using ans unfolding answers_def request_image(1) by blast
  let ?w1 = "(v1, log @ [IoWrite ?fd request_image])"
  have "sub_write px ?fd ?ary 42 (0, w, log) = Inl (None, ?w1)"
    using v1(1) request_image(2) by (simp add: sub_write_def io_write_def sys_def expected_def)
  then have wr: "until_inl (sub_write px ?fd ?ary 42) (0, w, log) = Some (None, ?w1)"
    by (rule until_inl_simps)
  have "8 + length (enc ?x) < 2 ^ 31" "8 + length (enc ?x) \<le> length ?ary"
    using x(2) request_image(2) by simp_all
  from kdb_read_message_got [OF peer x(1) this ev v1(2)] obtain w2 j where rd:
    "kdb_read_message px alloc ep ?fd ?ary ((revs, g) # evs) ?w1 = Some (Ret (CoReturn (Inr (got RESPONSE ?x)), evs, w2))"
    "left (fst w2) = drop j rest" by blast
  have "kdb_subscribe_and_replay px jos alloc ep conn dst_jnl sub counts ((revs, g) # evs) (w, log) v =
      Some (sub_replay px (jos p) ?fd (j_fd dst_jnl) sub n counts evs w2 v)"
    using wr rd(1) check_reply [OF n] path
    by (simp add: kdb_subscribe_and_replay_def sub_request_written sub_response_def)
  moreover have "payloads (j_fd dst_jnl) (snd w2) = payloads (j_fd dst_jnl) log"
    using kdb_read_message_log [OF rd(1), of "j_fd dst_jnl"] fds by simp
  ultimately show ?thesis using rd(2) by blast
qed

text \<open>C19. A tickerplant that accepts the subscription and reports \<open>n\<close> messages: of the first \<open>n\<close> messages of its
  journal those about the subscribed tables, from the number on that has been seen before, are given to \<open>write\<close>
  for the local journal, in order and each once, and counted. The tickerplant's journal stays open.\<close>

theorem subscribe_replays:
  assumes "answers px (m_sock_fd conn) left (sub_reply n path schema) rest w"
    and "int (unat (m_num_msg_total counts)) \<le> sint n" "journal_path path = Ret (Some p)"
    and "revs AND EPOLLERR = 0" "\<forall>w. left (g w) = left w"
    and "m_sock_fd conn \<noteq> j_fd dst_jnl" "takes_writes px (j_fd dst_jnl)"
    and "src_journal (jos p) (xs @ ys) v" "\<forall>x \<in> set xs. upd_call x \<noteq> None" "length xs = unat n"
  shows "\<exists>w1 v1. kdb_subscribe_and_replay px jos alloc ep conn dst_jnl sub counts ((revs, g) # evs) (w, log) (v, []) =
      Some (Ret \<lparr>s_end = CoReturn (Inr 0),
        s_counts = \<lparr>m_num_msg_total = ucast n, m_num_msg_included = m_num_msg_included counts +
          word_of_nat (length (wanted_of (ucast (m_num_msg_total counts)) upd_name (set (m_tables sub)) 0 xs))\<rparr>,
        s_evs = evs, s_io = w1, s_jnl = v1\<rparr>) \<and>
    payloads (j_fd dst_jnl) (snd w1) = payloads (j_fd dst_jnl) log @
      map enc (wanted_of (ucast (m_num_msg_total counts)) upd_name (set (m_tables sub)) 0 xs) \<and>
    filter is_close (snd v1) = []"
proof -
  obtain w0 where w0: "kdb_subscribe_and_replay px jos alloc ep conn dst_jnl sub counts ((revs, g) # evs) (w, log) (v, []) =
      Some (sub_replay px (jos p) (m_sock_fd conn) (j_fd dst_jnl) sub n counts evs w0 (v, []))"
    "payloads (j_fd dst_jnl) (snd w0) = payloads (j_fd dst_jnl) log"
    using subscribe_responds [OF assms(1-6), of jos alloc ep sub evs log "(v, [])"] by blast
  have n: "word_of_nat (length xs) = (ucast n :: u32)" using assms(10) by (simp add: ucast_u32_nat [symmetric])
  show ?thesis
    using sub_replay_copies [OF assms(8,9,7), of n "m_sock_fd conn" sub counts evs w0 "[]"] assms(10) w0 n
    by (fastforce simp: copied_payloads simp del: of_nat_unat)
qed

text \<open>A write to the local journal that fails ends the replay, and the coroutine returns as if all had been
  copied: it counts the message that was lost and forgets those behind it.\<close>

theorem replay_loses_messages:
  assumes "src_journal os (xs @ x # ys) v" "\<forall>y \<in> set (xs @ [x]). upd_call y \<noteq> None"
    and "wanted_of N upd_name tbls 0 xs = []" "wanted N upd_name tbls (word_of_nat (length xs)) x"
    and "N = ucast (m_num_msg_total counts)" "tbls = set (m_tables sub)" "length xs < unat n"
    and "px_write px dst_fd (enc x) w = ((None, e), w1)"
  shows "\<exists>v1. sub_replay px os fd dst_fd sub n counts evs (w, log) (v, vlog) =
      Ret \<lparr>s_end = CoReturn (Inr 0), s_counts = \<lparr>m_num_msg_total = word_of_nat (length xs + 1), m_num_msg_included = m_num_msg_included counts\<rparr>,
           s_evs = evs, s_io = (w1, log @ [IoWrite dst_fd (enc x)]), s_jnl = v1\<rparr>"
proof -
  let ?zs = "xs @ x # ys" and ?cb = "mk_upd_tbl_filter N upd_name tbls (scribe px dst_fd)"
  obtain jfd v0 v1 v2 v3 hdr where j: "os_open os True v = (Inr jfd, v0)"
    "os_fstat os jfd v0 = (Inr (length (hdr @ enc_list ?zs)), v1)" "jnl_file os jfd (hdr @ enc_list ?zs) v1 v2 v3"
    "length hdr = 8" "8 + length (enc_list ?zs) < 2 ^ 64" "jnl_objects ?zs"
    using assms(1) by (auto simp: src_journal_def)
  have objs: "\<forall>y \<in> set xs. kcan y \<and> upd_call y \<noteq> None \<and> length (enc y) < 2 ^ 31"
    and x: "kcan x" "length (enc x) < 2 ^ 31" "upd_call x \<noteq> None"
    using j(6) assms(2) by (simp_all add: jnl_objects_def)
  have k: "word_of_nat (length xs) < n" and lim: "unat (0 :: u64) + length xs \<le> unat n"
    using assms(7) unat_word_of_nat64 [of "length xs"] unat_lim [of n] by (simp_all add: word_less_nat_alt)
  have L: "unat (word_of_nat (length (enc x)) :: u64) = length (enc x)"
    using x(2) by (intro unat_word_of_nat64) simp
  have cb: "?cb (word_of_nat (length xs)) (enc_list (x # ys) @ []) (word_of_nat (length (enc x))) (w, log) =
      Ret (- 1, w1, log @ [IoWrite dst_fd (enc x)])"
  proof -
    obtain t where t: "upd_call x = Some (upd_name, t)" "t \<in> tbls" "N \<le> word_of_nat (length xs)"
      using assms(4) by (auto simp: wanted_def)
    then show ?thesis
      using filter_upd_msg_call [OF x(1) t(1) x(2), of "enc_list ys" upd_name tbls] length_enc_pos [of x] L assms(8)
      by (simp add: mk_upd_tbl_filter_def scribe_def io_write_def sys_def expected_def del: length_enc_pos)
  qed
  have "replay ?cb n 0 0 ?zs [] (w, log) = replay ?cb n (word_of_nat (length xs)) 0 (x # ys) [] (w, log)"
    using replay_upd [OF objs _ lim, of N upd_name tbls "scribe px dst_fd" "\<lambda>m w. w" 0 "x # ys" "[]" "(w, log)"] assms(3) by simp
  also have "\<dots> = Ret (word_of_nat (length xs) + 1, 0, False, w1, log @ [IoWrite dst_fd (enc x)])"
    using cb k by simp
  finally have "replay ?cb n 0 0 ?zs [] (w, log) = Ret (word_of_nat (length xs) + 1, 0, False, w1, log @ [IoWrite dst_fd (enc x)])" .
  then have "jnl_filter_msgs os jfd n ?cb (w, log) (v1, vlog @ [Open, Fstat jfd]) =
      Ret (Inr (word_of_nat (length xs) + 1, 0), (w1, log @ [IoWrite dst_fd (enc x)]), os_munmap os (8 + length (enc_list ?zs)) v3,
        (vlog @ [Open, Fstat jfd]) @ [Fstat jfd, Mmap jfd (8 + length (enc_list ?zs)), Munmap (8 + length (enc_list ?zs))])"
    using jnl_filter_msgs_replay [of os jfd hdr ?zs "[]" v1 v2 v3 n ?cb "(w, log)" "vlog @ [Open, Fstat jfd]"] j(3-6)
    by (simp add: ends_def)
  moreover have "jnl_init os replay_opts (v, vlog) =
      Ret (Opened \<lparr>j_rd_only = True, j_fd = jfd, j_msg_count = 0\<rparr>, v1, vlog @ [Open, Fstat jfd])"
    using j(1,2,4) by (simp add: jnl_init_def jnl_validate_def replay_opts_def sys_def)
  moreover have "ucast (word_of_nat (length xs) + 1 :: u64) = (word_of_nat (length xs + 1) :: u32)"
    using ucast_u32_nat [of "length xs + 1"] by (simp add: add.commute)
  ultimately show ?thesis
    unfolding assms(5,6)
    by (simp only: sub_replay_def Let_def obind.simps init_result.case sum.case prod.case journal.simps) simp
qed

section \<open>Witnesses\<close>

text \<open>A tickerplant that takes a login and a subscription: the world is what it has sent. It has published
  three messages, and reports two.\<close>

definition sample_schema :: "kobj list" where
  "sample_schema = [KdbAtom (KdbLongAtom 1)]"

definition tp_reply :: kobj where
  "tp_reply = sub_reply 2 [58, 47, 97] sample_schema"

definition tp_px :: "bytes posix" where
  "tp_px = ok_px\<lparr>px_read := \<lambda>fd n w. ((Some (take n w), 0), drop n w),
     px_write := \<lambda>fd bs w. ((Some (length bs), 0),
       if fd \<noteq> 6 then w else if bs = request_image then message RESPONSE tp_reply else [3])\<rparr>"

definition published :: "kobj list" where
  "published = map (\<lambda>t. snd (upd_sample t)) [116, 117]"

definition tp_file :: bytes where
  "tp_file = jnl_header @ enc_list (published @ [snd (upd_sample 116)])"

lemma tp_reply_facts: "kcan tp_reply" "length (enc tp_reply) = 35"
  by (simp_all add: tp_reply_def sub_reply_def sample_schema_def vec_hdr_def)

lemma tp_px_facts:
  "takes_writes tp_px 7" "answers tp_px 6 id tp_reply [] w"
proof -
  show "takes_writes tp_px 7" by (simp add: takes_writes_def tp_px_def ok_px_def)
  have "peer tp_px 6 id" by (auto simp: peer_def tp_px_def ok_px_def)
  then show "answers tp_px 6 id tp_reply [] w"
    using request_image(2)
    by (simp add: answers_def whole_hdr_def tp_reply_facts request_image(1) [symmetric]) (simp add: tp_px_def ok_px_def)
qed

lemma published_facts:
  "jnl_objects (published @ [snd (upd_sample 116)])" "\<forall>x \<in> set published. upd_call x \<noteq> None" "length published = 2"
  "wanted_of 0 upd_name {[116]} 0 published = [snd (upd_sample 116)]"
  using upd_sample_facts(1) [of 116] upd_sample_facts(1) [of 117]
  by (simp_all add: published_def jnl_objects_def upd_ok_def upd_sample_facts)
    (simp_all add: upd_sample_def wanted_def)

lemma tp_file_journal: "src_journal (one_file tp_file) (published @ [snd (upd_sample 116)]) ()"
  unfolding src_journal_def
proof (intro exI conjI)
  show "jnl_file (one_file tp_file) 3 (jnl_header @ enc_list (published @ [snd (upd_sample 116)])) () () ()"
    using one_file_jnl [of tp_file 3] by (simp add: tp_file_def)
  show "8 + length (enc_list (published @ [snd (upd_sample 116)])) < 2 ^ 64"
    by (simp add: published_def upd_sample_facts)
qed (simp_all add: one_file_def tp_file_def length_jnl_header published_facts(1))

theorem subscribe_replays_witness:
  "\<exists>w1 v1. kdb_subscribe_and_replay tp_px (\<lambda>p. one_file tp_file) (\<lambda>_. True) 3 sample_conn sample_out sample_sub
      \<lparr>m_num_msg_total = 0, m_num_msg_included = 0\<rparr> [(1, id)] ([], []) ((), []) =
      Some (Ret \<lparr>s_end = CoReturn (Inr 0), s_counts = \<lparr>m_num_msg_total = 2, m_num_msg_included = 1\<rparr>,
        s_evs = [], s_io = w1, s_jnl = v1\<rparr>) \<and> payloads 7 (snd w1) = [enc (snd (upd_sample 116))]"
proof -
  have path: "journal_path [58, 47, 97] = Ret (Some [47, 97])" by code_simp
  show ?thesis
    using subscribe_replays [where px = tp_px and conn = sample_conn and left = id and n = 2 and path = "[58, 47, 97]"
        and schema = sample_schema and rest = "[]" and w = "[]" and counts = "\<lparr>m_num_msg_total = 0, m_num_msg_included = 0\<rparr>"
        and revs = 1 and g = id and dst_jnl = sample_out and jos = "\<lambda>p. one_file tp_file" and xs = published
        and ys = "[snd (upd_sample 116)]" and v = "()" and alloc = "\<lambda>_. True" and ep = 3 and sub = sample_sub and evs = "[]" and log = "[]",
        OF _ _ path] tp_px_facts tp_file_journal published_facts
    by (simp add: sample_conn_def sample_out_def sample_sub_def tp_reply_def) blast
qed

text \<open>A local journal that cannot be written.\<close>

definition full_px :: "unit posix" where
  "full_px = ok_px\<lparr>px_write := \<lambda>fd bs w. ((None, 28), w)\<rparr>"

theorem replay_loses_messages_witness:
  "\<exists>v1. sub_replay full_px (one_file tp_file) 6 7 sample_sub 3 \<lparr>m_num_msg_total = 1, m_num_msg_included = 0\<rparr> [] ((), []) ((), []) =
      Ret \<lparr>s_end = CoReturn (Inr 0), s_counts = \<lparr>m_num_msg_total = 3, m_num_msg_included = 0\<rparr>,
           s_evs = [], s_io = ((), [IoWrite 7 (enc (snd (upd_sample 116)))]), s_jnl = v1\<rparr>"
proof -
  let ?x = "snd (upd_sample 116)" and ?c = "\<lparr>m_num_msg_total = 1, m_num_msg_included = 0\<rparr> :: tp_msg_counts"
  have "\<forall>y \<in> set (published @ [?x]). upd_call y \<noteq> None" "wanted_of 1 upd_name {[116]} 0 published = []"
    "wanted 1 upd_name {[116]} (word_of_nat (length published)) ?x"
    by (simp_all add: published_def wanted_def upd_sample_def)
  moreover have "1 = ucast (m_num_msg_total ?c)" "{[116]} = set (m_tables sample_sub)" "length published < unat (3 :: u64)"
    "px_write full_px 7 (enc ?x) () = ((None, 28), ())"
    by (simp_all add: sample_sub_def published_facts(3) full_px_def)
  ultimately have "\<exists>v1. sub_replay full_px (one_file tp_file) 6 7 sample_sub 3 ?c [] ((), []) ((), []) =
      Ret \<lparr>s_end = CoReturn (Inr 0), s_counts = \<lparr>m_num_msg_total = word_of_nat (length published + 1), m_num_msg_included = m_num_msg_included ?c\<rparr>,
           s_evs = [], s_io = ((), [] @ [IoWrite 7 (enc ?x)]), s_jnl = v1\<rparr>"
    by (rule replay_loses_messages [OF tp_file_journal])
  then show ?thesis by (simp only: published_facts(3)) simp
qed

end
