(* ===== verification/Tp_App.thy ===== *)
theory Tp_App
  imports Tp_Connect Tp_Subscribe
begin

text \<open>
  The coroutine \<open>subscribe\<close> of \<^verbatim>\<open>tpmux/src/mg_coro_app.cpp\<close>, which awaits the others one after the other,
  and what it is for: a journal of the messages about chosen tables of a tickerplant, those of
  its log first and then those that arrive.
\<close>

section \<open>subscribe\<close>

definition localhost :: bytes where
  "localhost = [108, 111, 99, 97, 108, 104, 111, 115, 116]"

record ('w, 'v) app_run =
  a_end :: "int coro"
  a_counts :: tp_msg_counts
  a_io :: "'w io"
  a_jnl :: "'v sys"

definition app_listen :: "'w posix \<Rightarrow> epoll_ctl \<Rightarrow> tcp_conn \<Rightarrow> journal \<Rightarrow> subscription \<Rightarrow> ('w, 'v) subscribed \<Rightarrow> ('w, 'v) app_run outcome" where
  "app_listen px ep conn jnl sub s =
     (let stop = (\<lambda>c. Ret \<lparr>a_end = c, a_counts = s_counts s, a_io = s_io s, a_jnl = s_jnl s\<rparr>)
      in obind (co_result (s_end s)) (\<lambda>r. case r of
           None \<Rightarrow> stop Awaits
         | Some (Inl e) \<Rightarrow> stop (CoReturn (- 1))
         | Some (Inr ok) \<Rightarrow>
             obind (kdb_read_tcp_messages px ep conn jnl sub (s_counts s) (s_evs s) (s_io s)) (\<lambda>(c, rs, w1).
             obind (co_result c) (\<lambda>res_rtm.
               Ret \<lparr>a_end = (case res_rtm of None \<Rightarrow> Awaits | Some res \<Rightarrow> CoReturn (- 1)),
                    a_counts = r_counts rs, a_io = w1, a_jnl = s_jnl s\<rparr>))))"

text \<open>\<open>after c evs w f\<close>: what follows a \<open>co_await\<close> that ends with \<open>c\<close>.\<close>

definition after :: "'r coro \<Rightarrow> tp_msg_counts \<Rightarrow> 'w io \<Rightarrow> 'v sys \<Rightarrow> ('r \<Rightarrow> ('w, 'v) app_run outcome option) \<Rightarrow>
    ('w, 'v) app_run outcome option" where
  "after c counts w v f =
     (case co_result c of
        Ret None \<Rightarrow> Some (Ret \<lparr>a_end = Awaits, a_counts = counts, a_io = w, a_jnl = v\<rparr>)
      | Ret (Some r) \<Rightarrow> f r
      | Throw e \<Rightarrow> Some (Throw e)
      | Undef \<Rightarrow> Some Undef)"

definition subscribe :: "'w posix \<Rightarrow> ('w \<Rightarrow> addrinfo list option) \<Rightarrow> (bytes \<Rightarrow> 'v os) \<Rightarrow> (u64 \<Rightarrow> bool) \<Rightarrow> epoll_ctl \<Rightarrow> journal \<Rightarrow>
    subscription \<Rightarrow> tp_msg_counts \<Rightarrow> 'w wake list \<Rightarrow> 'w io \<Rightarrow> 'v sys \<Rightarrow> ('w, 'v) app_run outcome option" where
  "subscribe px gai jos alloc ep jnl sub counts evs w v =
     (let stop = (\<lambda>n w. Some (Ret \<lparr>a_end = CoReturn n, a_counts = counts, a_io = w, a_jnl = v\<rparr>))
      in case tcp_connect px gai ep localhost (m_service sub) evs w of
           Throw e \<Rightarrow> Some (Throw e)
         | Undef \<Rightarrow> Some Undef
         | Ret (c, evs1, w1) \<Rightarrow> after c counts w1 v (\<lambda>ret.
             case ret of
               Inl msg \<Rightarrow> stop (errnum msg) w1
             | Inr conn \<Rightarrow>
                 (case kdb_connect px ep conn (m_username sub) evs1 w1 of
                    None \<Rightarrow> None
                  | Some (Throw e) \<Rightarrow> Some (Throw e)
                  | Some Undef \<Rightarrow> Some Undef
                  | Some (Ret (c, evs2, w2)) \<Rightarrow> after c counts w2 v (\<lambda>res_kc.
                      case res_kc of
                        Inl e \<Rightarrow> stop (- 1) w2
                      | Inr lvl \<Rightarrow>
                          map_option (\<lambda>out. obind out (app_listen px ep conn jnl sub))
                            (kdb_subscribe_and_replay px jos alloc ep conn jnl sub counts evs2 w2 v)))))"

section \<open>Messages that arrive\<close>

text \<open>A socket on which \<open>left\<close> has arrived and is still to be read; and \<open>write\<close> to the journal does not fail.\<close>

definition stream_socket :: "'w posix \<Rightarrow> int \<Rightarrow> int \<Rightarrow> ('w \<Rightarrow> bytes) \<Rightarrow> bool" where
  "stream_socket px fd jfd left \<longleftrightarrow>
     (\<forall>n w. \<exists>e w1. px_read px fd n w = ((Some (take n (left w)), e), w1) \<and> left w1 = drop n (left w)) \<and>
     (\<forall>bs w. \<exists>n e w1. px_write px jfd bs w = ((Some n, e), w1) \<and> left w1 = left w) \<and>
     (\<forall>ep op d ev w. \<exists>n e w1. px_epoll_ctl px ep op d ev w = ((Some n, e), w1) \<and> left w1 = left w)"

definition arrived :: "('w \<Rightarrow> bytes) \<Rightarrow> 'w \<Rightarrow> bytes list" where
  "arrived left w = (if left w = [] then [] else [left w])"

lemma stream_socket_whole_hdr:
  assumes "stream_socket px fd jfd left"
  shows "whole_hdr px fd left"
proof -
  have rd: "\<exists>e w1. px_read px fd n w = ((Some (take n (left w)), e), w1) \<and> left w1 = drop n (left w)"
    and ctl: "\<exists>n e w1. px_epoll_ctl px ep op d ev w = ((Some n, e), w1) \<and> left w1 = left w" for n ep op d ev w
    using assms unfolding stream_socket_def by blast+
  have "\<exists>bs e w1. px_read px fd n w = ((Some bs, e), w1) \<and> left w = bs @ left w1 \<and> length bs \<le> n \<and>
      (bs = [] \<longrightarrow> n = 0 \<or> left w = [])" for n w
    using rd [of n w] by (elim exE conjE) (intro exI conjI, assumption, simp_all)
  then show ?thesis
    unfolding whole_hdr_def peer_def using ctl rd by blast
qed

lemma stream_socket_tp:
  assumes "stream_socket px fd jfd left"
  shows "tp_socket px fd jfd (arrived left)"
proof -
  have rd: "\<exists>e w1. px_read px fd n w = ((Some (take n (left w)), e), w1) \<and> left w1 = drop n (left w)"
    and wr: "\<exists>n e w1. px_write px jfd bs w = ((Some n, e), w1) \<and> left w1 = left w"
    and ctl: "\<exists>n e w1. px_epoll_ctl px ep op d ev w = ((Some n, e), w1) \<and> left w1 = left w" for n bs ep op d ev w
    using assms unfolding stream_socket_def by blast+
  have "\<exists>e w1. px_read px fd n w = ((Some c, e), w1) \<and> arrived left w1 = cs" if "arrived left w = c # cs" "length c \<le> n" for n w c cs
    using rd [of n w] that by (auto simp: arrived_def split: if_splits)
  moreover have "\<exists>n e w1. px_write px jfd bs w = ((Some n, e), w1) \<and> arrived left w1 = arrived left w" for bs w
    using wr [of bs w] unfolding arrived_def by metis
  moreover have "\<exists>n e w1. px_epoll_ctl px ep op d ev w = ((Some n, e), w1) \<and> arrived left w1 = arrived left w" for ep op d ev w
    using ctl [of ep op d ev w] unfolding arrived_def by metis
  ultimately show ?thesis unfolding tp_socket_def by blast
qed

text \<open>An event that brings some bytes to a socket that has been read empty.\<close>

definition brings :: "('w \<Rightarrow> bytes) \<Rightarrow> 'w wake \<Rightarrow> bytes \<Rightarrow> bool" where
  "brings left = (\<lambda>(revs, g) c. revs AND EPOLLERR = 0 \<and> (\<forall>w. left w = [] \<longrightarrow> left (g w) = c))"

lemma recv_run_arrivals:
  assumes sock: "stream_socket px fd jfd left" and cap: "cap < 2 ^ 64"
  shows "idle cap s \<Longrightarrow> left (fst w) = [] \<Longrightarrow> list_all2 (\<lambda>ev ms. brings left ev (msgs_image ms)) evs mss \<Longrightarrow>
    list_all (\<lambda>ms. list_all upd_ok ms \<and> ms \<noteq> [] \<and> length (msgs_image ms) \<le> cap) mss \<Longrightarrow>
    \<exists>s1 w1. recv_run px ep fd jfd fn tbls evs s w = Ret (Awaits, s1, w1) \<and>
      r_counts s1 = count_msgs fn tbls (concat mss) (r_counts s) \<and>
      payloads jfd (snd w1) = payloads jfd (snd w) @ included fn tbls (concat mss)"
proof (induction mss arbitrary: evs s w)
  case Nil
  then show ?case by (simp add: count_msgs_def included_def)
next
  case (Cons ms mss)
  then obtain revs g evs1 where evs: "evs = (revs, g) # evs1" "brings left (revs, g) (msgs_image ms)"
    "list_all2 (\<lambda>ev ms. brings left ev (msgs_image ms)) evs1 mss"
    by (cases evs) auto
  have ms: "list_all upd_ok ms" "msgs_image ms \<noteq> []" "length (msgs_image ms) \<le> cap" using Cons.prems(4) by simp_all
  have q: "revs AND EPOLLERR = 0" "arrived left (fst (woken g w)) = msgs_image ms # []" "snd (woken g w) = snd w"
    using evs(2) Cons.prems(2) ms(2) by (simp_all add: brings_def woken_def arrived_def)
  obtain s1 w1 where s1: "recv_event px ep fd jfd fn tbls revs s (woken g w) = Ret (Awaits, s1, w1)" "idle cap s1"
    "r_counts s1 = count_msgs fn tbls ms (r_counts s)" "arrived left (fst w1) = []"
    "payloads jfd (snd w1) = payloads jfd (snd w) @ included fn tbls ms"
    using recv_event_whole [OF stream_socket_tp [OF sock] ms(1) Cons.prems(1) cap q(2) ms(2,3) q(1), of ep fn tbls] q(3) by auto
  have "left (fst w1) = []" using s1(4) by (simp add: arrived_def split: if_splits)
  with Cons.IH [OF s1(2) this evs(3)] Cons.prems(4) obtain s2 w2 where
    "recv_run px ep fd jfd fn tbls evs1 s1 w1 = Ret (Awaits, s2, w2)"
    "r_counts s2 = count_msgs fn tbls (concat mss) (r_counts s1)"
    "payloads jfd (snd w2) = payloads jfd (snd w1) @ included fn tbls (concat mss)"
    by auto
  then show ?case
    using s1 by (simp add: evs count_msgs_def)
qed

section \<open>The journal of a subscription\<close>

text \<open>C4. The coroutine \<open>subscribe\<close> by itself. When its \<open>tcp_connect\<close> and \<open>kdb_connect\<close> have succeeded, the
  tickerplant accepts the subscription and reports \<open>n\<close> messages, and every later event brings whole messages, what it
  gives to \<open>write\<close> for the local journal are the messages about the subscribed tables: those among the first \<open>n\<close>
  of the tickerplant's journal that have not been counted before, and then those that arrive, each once and in order.
  And it goes on waiting, with counts that agree. (An event that cuts a message ends it: theory \<open>Tp_Recv\<close>.)\<close>

theorem subscribe_journals:
  assumes "tcp_connect px gai ep localhost (m_service sub) evs0 (w0, []) = Ret (CoReturn (Inr conn), evs1, w1)"
    and "kdb_connect px ep conn (m_username sub) evs1 w1 = Some (Ret (CoReturn (Inr lvl), (revs, g) # evs, w, log))"
    and sock: "stream_socket px (m_sock_fd conn) (j_fd jnl) left" "m_sock_fd conn \<noteq> j_fd jnl"
    and ans: "answers px (m_sock_fd conn) left (sub_reply n path schema) [] w"
    and n: "int (unat (m_num_msg_total counts)) \<le> sint n" "journal_path path = Ret (Some p)"
    and g: "revs AND EPOLLERR = 0" "\<forall>w. left (g w) = left w"
    and src: "src_journal (jos p) (xs @ ys) v" "\<forall>x \<in> set xs. upd_call x \<noteq> None" "length xs = unat n"
    and live: "list_all2 (\<lambda>ev ms. brings left ev (msgs_image ms)) evs mss"
    and mss: "list_all (\<lambda>ms. list_all upd_ok ms \<and> ms \<noteq> [] \<and> length (msgs_image ms) \<le> 262144) mss"
  defines "tbls \<equiv> set (m_tables sub)"
  defines "old \<equiv> wanted_of (ucast (m_num_msg_total counts)) upd_name tbls 0 xs"
  shows "\<exists>w2 log2 v2. subscribe px gai jos alloc ep jnl sub counts evs0 (w0, []) (v, []) =
      Some (Ret \<lparr>a_end = Awaits,
        a_counts = count_msgs upd_name tbls (concat mss)
          \<lparr>m_num_msg_total = ucast n, m_num_msg_included = m_num_msg_included counts + word_of_nat (length old)\<rparr>,
        a_io = (w2, log2), a_jnl = v2\<rparr>) \<and>
    payloads (j_fd jnl) log2 = payloads (j_fd jnl) log @ map enc old @ included upd_name tbls (concat mss)"
proof -
  let ?fd = "m_sock_fd conn" and ?jfd = "j_fd jnl"
  let ?c = "\<lparr>m_num_msg_total = ucast n, m_num_msg_included = m_num_msg_included counts + word_of_nat (length old)\<rparr> :: tp_msg_counts"
  have writes: "takes_writes px ?jfd" "\<forall>bs w. left (snd (px_write px ?jfd bs w)) = left w"
  proof -
    have wr: "\<exists>n e w1. px_write px ?jfd bs w = ((Some n, e), w1) \<and> left w1 = left w" for bs w
      using sock(1) unfolding stream_socket_def by blast
    show "takes_writes px ?jfd" unfolding takes_writes_def using wr by blast
    show "\<forall>bs w. left (snd (px_write px ?jfd bs w)) = left w" using wr by (metis snd_conv)
  qed
  obtain w3 where w3: "kdb_subscribe_and_replay px jos alloc ep conn jnl sub counts ((revs, g) # evs) (w, log) (v, []) =
      Some (sub_replay px (jos p) ?fd ?jfd sub n counts evs w3 (v, []))"
    "payloads ?jfd (snd w3) = payloads ?jfd log" "left (fst w3) = []"
    using subscribe_responds [OF ans n g sock(2), of jos alloc ep sub evs log "(v, [])"] by auto
  let ?w4 = "copied px ?jfd old w3"
  have w4: "payloads ?jfd (snd ?w4) = payloads ?jfd log @ map enc old" "left (fst ?w4) = []"
    by (simp_all add: copied_payloads w3(2,3) copied_keeps [OF writes(2)])
  have n32: "word_of_nat (length xs) = (ucast n :: u32)" using src(3) by (simp add: ucast_u32_nat [symmetric])
  have "length xs \<le> unat n" "ys = [] \<or> length xs = unat n" using src(3) by simp_all
  from sub_replay_copies [OF src(1,2) writes(1) this, of ?fd sub counts evs w3 "[]"] obtain v1 where
    rp: "sub_replay px (jos p) ?fd ?jfd sub n counts evs w3 (v, []) =
      Ret \<lparr>s_end = CoReturn (Inr 0), s_counts = ?c, s_evs = evs, s_io = ?w4, s_jnl = v1\<rparr>"
    unfolding old_def tbls_def n32 by blast
  obtain w5 where w5: "kdb_read_tcp_messages px ep conn jnl sub ?c evs ?w4 =
      recv_run px ep ?fd ?jfd upd_name tbls evs \<lparr>r_ary = replicate 262144 0, r_rd_off = 0, r_wr_off = 0, r_counts = ?c\<rparr> w5"
    "arrived left (fst w5) = arrived left (fst ?w4)" "payloads ?jfd (snd w5) = payloads ?jfd (snd ?w4)"
    using kdb_read_tcp_messages_run [OF stream_socket_tp [OF sock(1)], of ep sub ?c evs "fst ?w4" "snd ?w4"]
    by (auto simp: tbls_def)
  have "left (fst w5) = []" using w5(2) w4(2) by (simp add: arrived_def split: if_splits)
  with recv_run_arrivals [OF sock(1) _ _ this live mss, where s = "\<lparr>r_ary = replicate 262144 0, r_rd_off = 0, r_wr_off = 0, r_counts = ?c\<rparr>"
        and ep = ep and fn = upd_name and tbls = tbls]
  obtain s1 w6 where w6: "kdb_read_tcp_messages px ep conn jnl sub ?c evs ?w4 = Ret (Awaits, s1, w6)"
    "r_counts s1 = count_msgs upd_name tbls (concat mss) ?c"
    "payloads ?jfd (snd w6) = payloads ?jfd (snd ?w4) @ included upd_name tbls (concat mss)"
    using w5(1,3) by (auto simp: idle_def)
  have "subscribe px gai jos alloc ep jnl sub counts evs0 (w0, []) (v, []) =
      Some (Ret \<lparr>a_end = Awaits, a_counts = count_msgs upd_name tbls (concat mss) ?c, a_io = w6, a_jnl = v1\<rparr>)"
    using assms(1,2) w3(1) rp w6(1,2)
    by (simp add: subscribe_def after_def app_listen_def)
  with w6(3) w4(1) show ?thesis
    by (intro exI [of _ "fst w6"] exI [of _ "snd w6"] exI [of _ v1]) simp
qed

section \<open>Witness\<close>

text \<open>The tickerplant of \<open>Tp_Subscribe\<close>; afterwards one event brings two messages, and another one.\<close>

definition an_addr :: "bytes \<Rightarrow> addrinfo list option" where
  "an_addr w = Some [\<lparr>ai_family = 2, ai_socktype = 1, ai_protocol = 6, ai_addr = [1]\<rparr>]"

definition tp_conn :: tcp_conn where
  "tp_conn = \<lparr>m_sock_fd = 6, m_host = localhost, m_conn_service = []\<rparr>"

definition live :: "upd_msg list list" where
  "live = [[upd_sample 117, upd_sample 116], [upd_sample 116]]"

definition live_evs :: "bytes wake list" where
  "live_evs = map (\<lambda>ms. (1, \<lambda>w. msgs_image ms)) live"

lemma tp_px_connects:
  "\<exists>w1. tcp_connect tp_px an_addr 3 localhost [] ((1, id) # evs) ([], []) = Ret (CoReturn (Inr tp_conn), evs, w1) \<and>
     fst w1 = [] \<and> payloads 7 (snd w1) = []"
  by (simp add: tcp_connect_def add_interest_def clr_interest_def epoll_upd_def io_eventfd_def io_epoll_ctl_def io_getaddrinfo_a_def
      io_socket_def io_connect_def io_close_def sys_def expected_def woken_def freeaddrinfo_def tp_px_def ok_px_def an_addr_def
      tp_conn_def payloads_def map_filter_def)

lemma tp_px_logs_in:
  "\<exists>log1. kdb_connect tp_px 3 tp_conn [] ((4, id) # evs) ([], log) = Some (Ret (CoReturn (Inr 3), evs, [], log1)) \<and>
     payloads 7 log1 = payloads 7 log"
proof -
  let ?l1 = "log @ [IoEpollCtl 3 EPOLL_CTL_ADD 6 EPOLLOUT]"
  let ?creds = "[58, 3, 0] @ replicate 125 0"
  have calls: "px_epoll_ctl tp_px ep op d ev w = ((Some 0, 0), w)" "px_read tp_px fd n w = ((Some (take n w), 0), drop n w)" for ep op d ev fd n w
    by (simp_all add: tp_px_def ok_px_def)
  have len: "length (credentials []) = 3" by (simp add: credentials_def)
  have creds: "creds_array [] = Ret ?creds" by (simp add: creds_array_def credentials_def)
  have "request_image \<noteq> [58, 3, 0]" by (simp add: request_image_def)
  then have "creds_write tp_px 6 ?creds 3 (0, 0, (4, id) # evs, [], ?l1) = Inl (Ret (None, (4, id) # evs, [3], ?l1 @ [IoWrite 6 [58, 3, 0]]))"
    by (simp add: creds_write_def io_write_def sys_def expected_def tp_px_def)
  then have "until_inl (creds_write tp_px 6 ?creds 3) (0, 0, (4, id) # evs, [], ?l1) =
      Some (Ret (None, (4, id) # evs, [3], ?l1 @ [IoWrite 6 [58, 3, 0]]))"
    by (rule until_inl_simps)
  then show ?thesis
    by (simp add: kdb_connect_def creds len tp_conn_def kdb_reply_def add_interest_def mod_interest_def
        clr_interest_def epoll_upd_def io_epoll_ctl_def io_read_def sys_def expected_def woken_def calls)
qed

lemma live_facts:
  "list_all2 (\<lambda>ev ms. brings id ev (msgs_image ms)) live_evs live"
  "list_all (\<lambda>ms. list_all upd_ok ms \<and> ms \<noteq> [] \<and> length (msgs_image ms) \<le> 262144) live"
  "included upd_name {[116]} (concat live) = [enc (snd (upd_sample 116)), enc (snd (upd_sample 116))]"
  "count_msgs upd_name {[116]} (concat live) \<lparr>m_num_msg_total = 2, m_num_msg_included = 1\<rparr> =
    \<lparr>m_num_msg_total = 5, m_num_msg_included = 3\<rparr>"
  by (simp_all add: live_def live_evs_def brings_def msgs_image_def upd_sample_facts included_def count_msgs_def)

theorem subscribe_journals_witness:
  "\<exists>w2 log2 v2. subscribe tp_px an_addr (\<lambda>p. one_file tp_file) (\<lambda>_. True) 3 sample_out sample_sub
      \<lparr>m_num_msg_total = 0, m_num_msg_included = 0\<rparr> ((1, id) # (4, id) # (1, id) # live_evs) ([], []) ((), []) =
      Some (Ret \<lparr>a_end = Awaits, a_counts = \<lparr>m_num_msg_total = 5, m_num_msg_included = 3\<rparr>, a_io = (w2, log2), a_jnl = v2\<rparr>) \<and>
    payloads 7 log2 = [enc (snd (upd_sample 116)), enc (snd (upd_sample 116)), enc (snd (upd_sample 116))]"
proof -
  let ?c = "\<lparr>m_num_msg_total = 0, m_num_msg_included = 0\<rparr> :: tp_msg_counts" and ?evs = "(1, id) # live_evs"
  obtain log1 where conn: "tcp_connect tp_px an_addr 3 localhost (m_service sample_sub) ((1, id) # (4, id) # ?evs) ([], []) =
      Ret (CoReturn (Inr tp_conn), (4, id) # ?evs, [], log1)" "payloads 7 log1 = []"
    using tp_px_connects [of "(4, id) # ?evs"] by (auto simp: sample_sub_def)
  obtain log2 where login: "kdb_connect tp_px 3 tp_conn (m_username sample_sub) ((4, id) # ?evs) ([], log1) =
      Some (Ret (CoReturn (Inr 3), ?evs, [], log2))" "payloads 7 log2 = []"
    using tp_px_logs_in [of ?evs log1] conn(2) by (auto simp: sample_sub_def)
  have sock: "stream_socket tp_px (m_sock_fd tp_conn) (j_fd sample_out) id" "m_sock_fd tp_conn \<noteq> j_fd sample_out"
    by (simp_all add: stream_socket_def tp_px_def ok_px_def tp_conn_def sample_out_def)
  have ans: "answers tp_px (m_sock_fd tp_conn) id (sub_reply 2 [58, 47, 97] sample_schema) [] []"
    using tp_px_facts(2) by (simp add: tp_conn_def tp_reply_def)
  have path: "int (unat (m_num_msg_total ?c)) \<le> sint (2 :: u64)" "journal_path [58, 47, 97] = Ret (Some [47, 97])"
    by (simp, code_simp)
  have g: "(1 :: u32) AND EPOLLERR = 0" "\<forall>w. id (id w) = id (w :: bytes)" and n: "length published = unat (2 :: u64)"
    by (simp_all add: published_facts)
  from subscribe_journals [OF conn(1) login(1) sock ans path g tp_file_journal published_facts(2) n live_facts(1,2), of "\<lambda>_. True"] login(2)
  show ?thesis
    using published_facts(4) live_facts(3,4) by (simp add: sample_sub_def sample_out_def)
qed

end
