(* ===== verification/Tp_Task.thy ===== *)
theory Tp_Task
  imports Tp_Epoll
begin

text \<open>
  \<open>Task\<close>, \<open>TopLevelTask\<close> and \<open>TaskContainer\<close> of \<^verbatim>\<open>tpmux/include/mg_coro_task.h\<close>, which \<^verbatim>\<open>ring/include/MgCoro.H\<close>
  repeats: coroutine frames in a heap, the transfer of control between them, and how the events of
  \<open>EpollCtl\<close> resume them.
\<close>

section \<open>Coroutines\<close>

text \<open>
  What a coroutine does until it next gives up control: it returns, leaves by an exception, awaits an
  event of \<open>EpollCtl\<close>, which it goes on with, or awaits a task it makes in the same expression. An event \<open>'e\<close> is
  its flags and, for a coroutine that looks at it, the world at that moment. One type \<open>'v\<close> stands for the values of
  all of them. A value of the type awaits finitely often on every path: a coroutine with a loop that may go on for ever
  is represented, for any number of events, by its unfolding to that depth, which ends with \<open>BThrow\<close> behind it.
\<close>

datatype ('e, 'v) body =
    BReturn 'v
  | BThrow
  | BEvent "'e \<Rightarrow> ('e, 'v) body"
  | BCall "('e, 'v) body" "'v \<Rightarrow> ('e, 'v) body"

text \<open>Where a frame is suspended. Of an awaited task the frame knows the address, and whether the task is a
  temporary that is destroyed at the end of the expression.\<close>

datatype ('e, 'v) point =
    AtStart "('e, 'v) body"
  | AtEvent "'e \<Rightarrow> ('e, 'v) body"
  | AtCall nat bool "'v \<Rightarrow> ('e, 'v) body"
  | AtFinal

datatype result_type = UNSET | EXCEPTION | RESULT

text \<open>A frame with its promise: a \<open>Promise\<close> of \<open>Task\<close>, or a \<open>Policy\<close> of \<open>TopLevelTask\<close> when \<open>f_top\<close>. \<open>None\<close> is a member
  without an initial value (\<open>p_result_type\<close>, \<open>p_result\<close>) or a null handle (\<open>p_cont\<close>).\<close>

record ('e, 'v) frame =
  f_top :: bool
  f_at :: "('e, 'v) point"
  f_type :: "result_type option"
  f_result :: "'v option"
  f_cont :: "nat option"

text \<open>\<open>m_armed\<close> is the handle that the last \<open>Awaiter::await_suspend\<close> has stored: the coroutine the next event of the
  descriptor resumes.\<close>

record ('e, 'v) machine =
  m_heap :: "nat \<Rightarrow> ('e, 'v) frame option"
  m_next :: nat
  m_armed :: "nat option"

definition m_upd :: "nat \<Rightarrow> ('e, 'v) frame option \<Rightarrow> ('e, 'v) machine \<Rightarrow> ('e, 'v) machine" where
  "m_upd a f m = m\<lparr>m_heap := (m_heap m)(a := f)\<rparr>"

text \<open>\<open>at_frame a m f\<close> uses the handle \<open>a\<close>; a handle of a frame that has been destroyed must not be used.\<close>

definition at_frame :: "nat \<Rightarrow> ('e, 'v) machine \<Rightarrow> (('e, 'v) frame \<Rightarrow> 'r outcome) \<Rightarrow> 'r outcome" where
  "at_frame a m f = (case m_heap m a of None \<Rightarrow> Undef | Some fr \<Rightarrow> f fr)"

section \<open>Task\<close>

text \<open>The call of a coroutine function: its frame is allocated and suspended at once (\<open>initial_suspend\<close>).\<close>

definition task_new :: "('e, 'v) body \<Rightarrow> ('e, 'v) machine \<Rightarrow> nat \<times> ('e, 'v) machine" where
  "task_new b m =
     (m_next m, m\<lparr>m_heap := (m_heap m)(m_next m \<mapsto> \<lparr>f_top = False, f_at = AtStart b, f_type = None, f_result = None, f_cont = None\<rparr>),
                  m_next := m_next m + 1\<rparr>)"

definition task_done :: "nat \<Rightarrow> ('e, 'v) machine \<Rightarrow> bool outcome" where
  "task_done a m = at_frame a m (\<lambda>f. Ret (case f_at f of AtFinal \<Rightarrow> True | _ \<Rightarrow> False))"

text \<open>\<open>destroy\<close> runs the destructor of the promise, which asks for \<open>p_result_type\<close> and destroys \<open>p_exception\<close> a second
  time when there is an exception.\<close>

definition task_destroy :: "nat \<Rightarrow> ('e, 'v) machine \<Rightarrow> ('e, 'v) machine outcome" where
  "task_destroy a m =
     at_frame a m (\<lambda>f. case f_type f of
       None \<Rightarrow> Undef
     | Some EXCEPTION \<Rightarrow> Undef
     | Some _ \<Rightarrow> Ret (m_upd a None m))"

text \<open>\<open>value\<close> gives a default value, here \<open>None\<close>, as long as the task is not done.\<close>

definition task_value :: "nat \<Rightarrow> ('e, 'v) machine \<Rightarrow> 'v option outcome" where
  "task_value a m =
     obind (task_done a m) (\<lambda>d. if d then at_frame a m (\<lambda>f. case f_result f of None \<Rightarrow> Undef | Some v \<Rightarrow> Ret (Some v)) else Ret None)"

text \<open>A coroutine that runs: its address and what it does next.\<close>

type_synonym ('e, 'v) running = "nat \<times> ('e, 'v) body \<times> ('e, 'v) machine"

text \<open>\<open>Awaiter::await_suspend\<close>: the frame \<open>a\<close> is suspended, becomes the continuation of the task \<open>b\<close>, and control
  is transferred to the task, which has not run yet.\<close>

definition await_suspend :: "nat \<Rightarrow> bool \<Rightarrow> ('v \<Rightarrow> ('e, 'v) body) \<Rightarrow> nat \<Rightarrow> ('e, 'v) machine \<Rightarrow> ('e, 'v) running outcome" where
  "await_suspend b temp k a m =
     at_frame a m (\<lambda>fa.
     at_frame b m (\<lambda>fb.
     case f_at fb of
       AtStart c \<Rightarrow> Ret (b, c, m_upd b (Some (fb\<lparr>f_cont := Some a\<rparr>)) (m_upd a (Some (fa\<lparr>f_at := AtCall b temp k\<rparr>)) m))
     | _ \<Rightarrow> Undef))"

text \<open>\<open>await_resume\<close> in the frame \<open>a\<close>, to which control comes back: the result is moved out of the promise, and a
  temporary task is destroyed. The promise has a continuation, so that \<open>BrokenPromise\<close> is not thrown. After an exception
  the \<open>int\<close> of a top-level task has no value, and to destroy a temporary with one is undefined.\<close>

definition await_resume :: "nat \<Rightarrow> ('e, 'v) machine \<Rightarrow> ('e, 'v) running outcome" where
  "await_resume a m =
     at_frame a m (\<lambda>fa.
     case f_at fa of
       AtCall b temp k \<Rightarrow>
         at_frame b m (\<lambda>fb.
         case f_result fb of
           None \<Rightarrow> Undef
         | Some v \<Rightarrow> obind (if temp then task_destroy b m else Ret m) (\<lambda>m1. Ret (a, k v, m1)))
     | _ \<Rightarrow> Undef)"

text \<open>\<open>final_suspend\<close>: the frame stays, and control goes to the continuation; a null handle cannot be resumed.\<close>

definition final_suspend :: "nat \<Rightarrow> ('e, 'v) frame \<Rightarrow> ('e, 'v) machine \<Rightarrow> ('e, 'v) running outcome" where
  "final_suspend a f m =
     (case f_cont f of
        None \<Rightarrow> Undef
      | Some c \<Rightarrow> await_resume c (m_upd a (Some (f\<lparr>f_at := AtFinal\<rparr>)) m))"

section \<open>Running\<close>

definition out_running :: "('e, 'v) running outcome \<Rightarrow> ('e, 'v) machine outcome + ('e, 'v) running" where
  "out_running r = (case r of Ret x \<Rightarrow> Inr x | Throw e \<Rightarrow> Inl (Throw e) | Undef \<Rightarrow> Inl Undef)"

text \<open>A step of the running coroutine. A top-level task is not suspended at its end (\<open>SuspendNever\<close>), so that
  its frame is destroyed then; an exception in it is only logged.\<close>

fun co_step :: "('e, 'v) running \<Rightarrow> ('e, 'v) machine outcome + ('e, 'v) running" where
  "co_step (a, BReturn v, m) =
     (case m_heap m a of
        None \<Rightarrow> Inl Undef
      | Some f \<Rightarrow> if f_top f then Inl (Ret (m_upd a None m))
                   else out_running (final_suspend a (f\<lparr>f_result := Some v, f_type := Some RESULT\<rparr>) m))"
| "co_step (a, BThrow, m) =
     (case m_heap m a of
        None \<Rightarrow> Inl Undef
      | Some f \<Rightarrow> if f_top f then Inl (Ret (m_upd a None m))
                   else out_running (final_suspend a (f\<lparr>f_type := Some EXCEPTION\<rparr>) m))"
| "co_step (a, BEvent k, m) =
     (case m_heap m a of None \<Rightarrow> Inl Undef | Some f \<Rightarrow> Inl (Ret ((m_upd a (Some (f\<lparr>f_at := AtEvent k\<rparr>)) m)\<lparr>m_armed := Some a\<rparr>)))"
| "co_step (a, BCall c k, m) = (case task_new c m of (b, m1) \<Rightarrow> out_running (await_suspend b True k a m1))"

text \<open>Until all coroutines are suspended.\<close>

definition co_run :: "('e, 'v) running \<Rightarrow> ('e, 'v) machine outcome option" where
  "co_run = until_inl co_step"

definition co_start :: "('e, 'v) running outcome \<Rightarrow> ('e, 'v) machine outcome option" where
  "co_start r = (case r of Ret x \<Rightarrow> co_run x | Throw e \<Rightarrow> Some (Throw e) | Undef \<Rightarrow> Some Undef)"

text \<open>\<open>Awaiter::onEvent\<close> of the awaiter that holds the handle \<open>a\<close>. \<open>m_armed\<close> is made \<open>None\<close> first, to see whether
  another event is awaited afterwards.\<close>

definition on_event :: "nat \<Rightarrow> 'e \<Rightarrow> ('e, 'v) machine \<Rightarrow> ('e, 'v) machine outcome option" where
  "on_event a events m =
     (case m_heap m a of
        None \<Rightarrow> Some Undef
      | Some f \<Rightarrow>
          (case f_at f of
             AtFinal \<Rightarrow> Some (Ret m)
           | AtEvent k \<Rightarrow> co_run (a, k events, m\<lparr>m_armed := None\<rparr>)
           | _ \<Rightarrow> Some Undef))"

section \<open>TopLevelTask and TaskContainer\<close>

text \<open>\<open>TopLevelTask::await\<close>: a coroutine that is not suspended at its start, and awaits the task it is given; the point
  its frame starts with is overwritten at once. The result is its handle.\<close>

definition top_await :: "nat \<Rightarrow> ('e, 'v) machine \<Rightarrow> nat \<times> ('e, 'v) machine outcome option" where
  "top_await t m =
     (let a = m_next m;
          f = \<lparr>f_top = True, f_at = AtStart BThrow, f_type = None, f_result = None, f_cont = None\<rparr>;
          m1 = m\<lparr>m_heap := (m_heap m)(a \<mapsto> f), m_next := a + 1, m_armed := None\<rparr>
      in (a, co_start (await_suspend t False BReturn a m1)))"

type_synonym task_container = "nat list"

definition tc_add :: "nat \<Rightarrow> task_container \<times> ('e, 'v) machine \<Rightarrow> (task_container \<times> ('e, 'v) machine) outcome option" where
  "tc_add t = (\<lambda>(tasks, m). case top_await t m of (a, r) \<Rightarrow> map_option (\<lambda>o1. obind o1 (\<lambda>m1. Ret (tasks @ [a], m1))) r)"

text \<open>\<open>complete\<close> erases the tasks that are done and says whether none is left. What \<open>erase\<close> moves down is assigned over the
  erased handle, whose frame is destroyed only when it is the last of the vector.\<close>

fun tc_complete :: "task_container \<Rightarrow> ('e, 'v) machine \<Rightarrow> (bool \<times> task_container \<times> ('e, 'v) machine) outcome" where
  "tc_complete [] m = Ret (True, [], m)"
| "tc_complete (a # tasks) m =
     obind (task_done a m) (\<lambda>d.
       if d then tc_complete tasks (if tasks = [] then m_upd a None m else m)
       else obind (tc_complete tasks m) (\<lambda>(all_done, rest, m1). Ret (False, a # rest, m1)))"

section \<open>What awaiting means\<close>

text \<open>The specification: what a coroutine does with the events that come, without frames and handles.\<close>

primrec eval :: "('e, 'v) body \<Rightarrow> 'e list \<Rightarrow> ('v coro \<times> 'e list) outcome" where
  "eval (BReturn v) = (\<lambda>evs. Ret (CoReturn v, evs))"
| "eval BThrow = (\<lambda>evs. Ret (CoThrow, evs))"
| "eval (BEvent k) = (\<lambda>evs. case evs of [] \<Rightarrow> Ret (Awaits, []) | e # es \<Rightarrow> eval (k e) es)"
| "eval (BCall b k) = (\<lambda>evs. obind (eval b evs) (\<lambda>(c, es). obind (co_result c) (\<lambda>r.
     case r of None \<Rightarrow> Ret (Awaits, []) | Some v \<Rightarrow> eval (k v) es)))"

lemma eval_shorter: "eval b evs = Ret (c, l) \<Longrightarrow> length l \<le> length evs"
proof (induction b arbitrary: evs c l)
  case (BEvent k)
  then show ?case by (fastforce split: list.splits)
next
  case (BCall b k)
  then show ?case by (fastforce split: option.splits)
qed simp_all

lemma eval_cong:
  "(\<And>evs. eval b evs = eval b' evs) \<Longrightarrow> eval (BCall b k) evs = eval (BCall b' k) evs"
  by simp

text \<open>Coroutines that wait for each other: \<open>chain h x ks a\<close> from the innermost, \<open>x\<close>, out to \<open>a\<close>.\<close>

type_synonym ('e, 'v) waiting = "(nat \<times> bool \<times> ('v \<Rightarrow> ('e, 'v) body)) list"

definition unfinished :: "('e, 'v) frame \<Rightarrow> bool" where
  "unfinished f \<longleftrightarrow> f_type f = None \<and> f_result f = None"

fun chain :: "(nat \<Rightarrow> ('e, 'v) frame option) \<Rightarrow> nat \<Rightarrow> ('e, 'v) waiting \<Rightarrow> nat \<Rightarrow> bool" where
  "chain h x [] a \<longleftrightarrow> x = a \<and> (\<exists>f. h x = Some f \<and> unfinished f)"
| "chain h x ((c, temp, k) # ks) a \<longleftrightarrow>
     (\<exists>f. h x = Some f \<and> \<not> f_top f \<and> unfinished f \<and> f_cont f = Some c) \<and>
     (\<exists>g. h c = Some g \<and> f_at g = AtCall x temp k) \<and> x \<notin> set (map fst ((c, temp, k) # ks)) \<and> chain h c ks a"

text \<open>The program that is left when the innermost goes on with \<open>b\<close>.\<close>

fun plug :: "('e, 'v) body \<Rightarrow> ('e, 'v) waiting \<Rightarrow> ('e, 'v) body" where
  "plug b [] = b"
| "plug b ((c, temp, k) # ks) = plug (BCall b k) ks"

lemma eval_plug: "(\<And>evs. eval b evs = eval b' evs) \<Longrightarrow> eval (plug b ks) evs = eval (plug b' ks) evs"
  by (induction ks arbitrary: b b') (auto simp: case_prod_beta)

lemma plug_append: "plug b (ks @ ks') = plug (plug b ks) ks'"
  by (induction ks arbitrary: b) auto

lemma chain_ends: "chain h x ks a \<Longrightarrow> a = last (x # map fst ks) \<and> distinct (x # map fst ks)"
  by (induction h x ks a rule: chain.induct) auto

lemma chain_append:
  "chain h x ks a \<Longrightarrow> chain h a ks' a' \<Longrightarrow> (set (map fst ks) \<union> {x} - {a}) \<inter> set (map fst ks') = {} \<Longrightarrow> 
   chain h x (ks @ ks') a'"
proof (induction h x ks a rule: chain.induct)
  case (1 h x a)
  then show ?case by auto
next
  case (2 h x c temp k ks a)
  have a: "a \<in> set (c # map fst ks)" using chain_ends [of h c ks a] "2.prems"(1) last_in_set [of "c # map fst ks"] by simp
  then have "x \<noteq> a" using "2.prems"(1) by auto
  have "(set (map fst ks) \<union> {c} - {a}) \<inter> set (map fst ks') = {}" using "2.prems"(3) by auto
  then have "chain h c (ks @ ks') a'" using "2.IH" "2.prems"(1,2) by simp
  then show ?case using "2.prems"(1,3) \<open>x \<noteq> a\<close> by auto
qed

definition machine_ok :: "('e, 'v) machine \<Rightarrow> bool" where
  "machine_ok m \<longleftrightarrow> (\<forall>a \<ge> m_next m. m_heap m a = None)"

text \<open>The coroutine \<open>a\<close> has run, and everything else is as it was.\<close>

definition tidy :: "nat \<Rightarrow> ('e, 'v) machine \<Rightarrow> ('e, 'v) machine \<Rightarrow> bool" where
  "tidy a m m' \<longleftrightarrow> machine_ok m' \<and> m_next m \<le> m_next m' \<and> m_armed m' = m_armed m \<and>
     (\<forall>y. y \<noteq> a \<longrightarrow> m_heap m' y = m_heap m y) \<and>
     (\<forall>f. m_heap m a = Some f \<longrightarrow> (\<exists>p. m_heap m' a = Some (f\<lparr>f_at := p\<rparr>)))"

text \<open>It waits, or one it awaits does.\<close>

definition suspended :: "nat \<Rightarrow> ('e, 'v) machine \<Rightarrow> ('e, 'v) body \<Rightarrow> ('e, 'v) machine \<Rightarrow> bool" where
  "suspended a m b m' \<longleftrightarrow> machine_ok m' \<and> m_next m \<le> m_next m' \<and>
     (\<exists>x ks k f. m_armed m' = Some x \<and> chain (m_heap m') x ks a \<and> (\<forall>(c, temp, k) \<in> set ks. temp) \<and>
        m_heap m' x = Some f \<and> f_at f = AtEvent k \<and> (\<forall>evs. eval b evs = eval (plug (BEvent k) ks) evs) \<and>
        (\<forall>y \<in> set (x # map fst ks). y \<noteq> a \<longrightarrow> m_next m \<le> y) \<and>
        (\<forall>y. y \<notin> set (x # map fst ks) \<longrightarrow> m_heap m' y = m_heap m y)) \<and>
     (\<forall>f. m_heap m a = Some f \<longrightarrow> (\<exists>p. m_heap m' a = Some (f\<lparr>f_at := p\<rparr>)))"

definition follows :: "nat \<Rightarrow> ('e, 'v) body \<Rightarrow> ('e, 'v) machine \<Rightarrow> bool" where
  "follows a b m \<longleftrightarrow>
     (\<exists>v m'. co_run (a, b, m) = co_run (a, BReturn v, m') \<and> (\<forall>evs. eval b evs = Ret (CoReturn v, evs)) \<and> tidy a m m') \<or>
     (\<exists>m'. co_run (a, b, m) = co_run (a, BThrow, m') \<and> (\<forall>evs. eval b evs = Ret (CoThrow, evs)) \<and> tidy a m m') \<or>
     (co_run (a, b, m) = Some Undef \<and> (\<forall>evs. eval b evs = Undef)) \<or>
     (\<exists>m'. co_run (a, b, m) = Some (Ret m') \<and> suspended a m b m')"

lemma co_run_simps:
  "co_step s = Inl r \<Longrightarrow> co_run s = Some r"
  "co_step s = Inr s1 \<Longrightarrow> co_run s = co_run s1"
  by (simp_all add: co_run_def until_inl_simps)

lemma follows_after:
  assumes "follows a b m1" "co_run (a, b0, m) = co_run (a, b, m1)" "\<And>evs. eval b0 evs = eval b evs"
    and "m_next m \<le> m_next m1" "m_armed m1 = m_armed m" "\<And>y. y \<noteq> a \<Longrightarrow> m_heap m1 y = m_heap m y"
    and "m_heap m a = Some f" "m_heap m1 a = Some (f\<lparr>f_at := p\<rparr>)"
  shows "follows a b0 m"
proof -
  have t: "tidy a m m'" if "tidy a m1 m'" for m'
    using that assms(4-8) by (auto simp: tidy_def)
  have s: "suspended a m b0 m'" if susp: "suspended a m1 b m'" for m'
  proof -
    obtain x ks k g where x: "m_armed m' = Some x" "chain (m_heap m') x ks a" "m_heap m' x = Some g" "f_at g = AtEvent k"
      "\<And>evs. eval b evs = eval (plug (BEvent k) ks) evs" "\<And>y. y \<in> set (x # map fst ks) \<Longrightarrow> y \<noteq> a \<Longrightarrow> m_next m1 \<le> y"
      "\<And>y. y \<notin> set (x # map fst ks) \<Longrightarrow> m_heap m' y = m_heap m1 y" "\<forall>(c, temp, k) \<in> set ks. temp"
      using susp unfolding suspended_def by blast
    have "a \<in> set (x # map fst ks)" using chain_ends [OF x(2)] last_in_set [of "x # map fst ks"] by simp
    then have "m_heap m' y = m_heap m y" if "y \<notin> set (x # map fst ks)" for y
      using x(7) [OF that] assms(6) [of y] that by (cases "y = a") auto
    moreover have "m_next m \<le> y" if "y \<in> set (x # map fst ks)" "y \<noteq> a" for y
      using x(6) [OF that] assms(4) by simp
    ultimately have "\<exists>x ks k f. m_armed m' = Some x \<and> chain (m_heap m') x ks a \<and> (\<forall>(c, temp, k) \<in> set ks. temp) \<and>
        m_heap m' x = Some f \<and> f_at f = AtEvent k \<and>
        (\<forall>evs. eval b0 evs = eval (plug (BEvent k) ks) evs) \<and> (\<forall>y \<in> set (x # map fst ks). y \<noteq> a \<longrightarrow> m_next m \<le> y) \<and>
        (\<forall>y. y \<notin> set (x # map fst ks) \<longrightarrow> m_heap m' y = m_heap m y)"
      by (intro exI [of _ x] exI [of _ ks] exI [of _ k] exI [of _ g]) (use x(1-5,8) assms(3) in simp)
    moreover have "machine_ok m'" "m_next m \<le> m_next m'" "\<exists>p. m_heap m' a = Some (f\<lparr>f_at := p\<rparr>)"
      using susp assms(4,8) by (auto simp: suspended_def)
    ultimately show ?thesis using assms(7) by (auto simp: suspended_def)
  qed
  show ?thesis
    using assms(1) unfolding follows_def assms(2,3) by (blast intro: t s)
qed

lemma body_follows:
  fixes b :: "('e, 'v) body"
  shows "machine_ok m \<Longrightarrow> m_heap m a = Some f \<Longrightarrow> \<not> f_top f \<Longrightarrow> unfinished f \<Longrightarrow> follows a b m"
proof (induction b arbitrary: a m f)
  case (BReturn v)
  then have "tidy a m m" by (auto simp: tidy_def intro: exI [of _ "f_at f"])
  then show ?case by (auto simp: follows_def)
next
  case BThrow
  then have "tidy a m m" by (auto simp: tidy_def intro: exI [of _ "f_at f"])
  then show ?case by (auto simp: follows_def)
next
  case (BEvent k)
  let ?m = "(m_upd a (Some (f\<lparr>f_at := AtEvent k\<rparr>)) m)\<lparr>m_armed := Some a\<rparr>"
  have "co_run (a, BEvent k, m) = Some (Ret ?m)" using BEvent by (intro co_run_simps) simp
  moreover have "suspended a m (BEvent k) ?m"
    unfolding suspended_def
    using BEvent.prems by (auto simp: machine_ok_def m_upd_def unfinished_def intro!: exI [of _ a] exI [of _ "[]"])
  ultimately show ?case by (auto simp: follows_def)
next
  case (BCall c k)
  let ?b = "m_next m"
  define fb where "fb = \<lparr>f_top = False, f_at = AtStart c, f_type = None, f_result = None, f_cont = Some a\<rparr>"
  define m1 where "m1 = \<lparr>m_heap = (m_heap m)(?b \<mapsto> fb, a \<mapsto> f\<lparr>f_at := AtCall ?b True k\<rparr>), m_next = ?b + 1, m_armed = m_armed m\<rparr>"
  have ab: "a < ?b" using BCall.prems(1,2) by (metis linorder_not_less machine_ok_def option.distinct(1))
  have m1: "machine_ok m1" "m_heap m1 ?b = Some fb" "m_heap m1 a = Some (f\<lparr>f_at := AtCall ?b True k\<rparr>)"
    "m_next m1 = ?b + 1" "m_armed m1 = m_armed m" "\<And>y. y \<noteq> a \<Longrightarrow> y \<noteq> ?b \<Longrightarrow> m_heap m1 y = m_heap m y"
    using BCall.prems(1) ab by (auto simp: m1_def machine_ok_def)
  have "co_step (a, BCall c k, m) = Inr (?b, c, m1)"
    using BCall.prems(2) ab by (auto simp: task_new_def await_suspend_def at_frame_def m_upd_def out_running_def m1_def fb_def fun_upd_twist)
  then have run: "co_run (a, BCall c k, m) = co_run (?b, c, m1)" by (rule co_run_simps)
  have "\<not> f_top fb" "unfinished fb" by (simp_all add: fb_def unfinished_def)
  from BCall.IH(1) [OF m1(1,2) this] have "follows ?b c m1" .
  then consider
      (returns) v m2 where "co_run (?b, c, m1) = co_run (?b, BReturn v, m2)" "\<forall>evs. eval c evs = Ret (CoReturn v, evs)" "tidy ?b m1 m2"
    | (throws) m2 where "co_run (?b, c, m1) = co_run (?b, BThrow, m2)" "\<forall>evs. eval c evs = Ret (CoThrow, evs)" "tidy ?b m1 m2"
    | (undefined) "co_run (?b, c, m1) = Some Undef" "\<forall>evs. eval c evs = Undef"
    | (waits) m2 where "co_run (?b, c, m1) = Some (Ret m2)" "suspended ?b m1 c m2"
    unfolding follows_def by blast
  then show ?case
  proof cases
    case undefined
    then show ?thesis using run by (simp add: follows_def)
  next
    case throws
    obtain p where p: "m_heap m2 ?b = Some (fb\<lparr>f_at := p\<rparr>)" "m_heap m2 a = Some (f\<lparr>f_at := AtCall ?b True k\<rparr>)"
      using throws(3) m1(2,3) ab by (auto simp: tidy_def)
    then have "co_step (?b, BThrow, m2) = Inl Undef"
      using ab by (simp add: final_suspend_def await_resume_def at_frame_def m_upd_def out_running_def fb_def)
    then have "co_run (?b, BThrow, m2) = Some Undef" by (rule co_run_simps)
    then show ?thesis using run throws(1,2) by (simp add: follows_def)
  next
    case returns
    obtain p where p: "m_heap m2 ?b = Some (fb\<lparr>f_at := p\<rparr>)" "m_heap m2 a = Some (f\<lparr>f_at := AtCall ?b True k\<rparr>)"
      using returns(3) m1(2,3) ab by (auto simp: tidy_def)
    let ?m3 = "m_upd ?b None m2"
    have "co_step (?b, BReturn v, m2) = Inr (a, k v, ?m3)"
      using p ab by (simp add: final_suspend_def await_resume_def at_frame_def m_upd_def out_running_def fb_def task_destroy_def)
    then have run2: "co_run (?b, BReturn v, m2) = co_run (a, k v, ?m3)" by (rule co_run_simps)
    have m3: "machine_ok ?m3" "m_heap ?m3 a = Some (f\<lparr>f_at := AtCall ?b True k\<rparr>)" "m_next m \<le> m_next ?m3" "m_armed ?m3 = m_armed m"
      "\<And>y. y \<noteq> a \<Longrightarrow> m_heap ?m3 y = m_heap m y"
      using returns(3) p(2) ab m1 BCall.prems(1) by (auto simp: tidy_def machine_ok_def m_upd_def)
    have "follows a (k v) ?m3"
      using BCall.IH(2) [OF _ m3(1,2)] BCall.prems(3,4) by (simp add: unfinished_def)
    then show ?thesis
      by (rule follows_after) (use run returns(1,2) run2 m3 BCall.prems(2) in simp_all)
  next
    case waits
    obtain x ks k' g where x: "m_armed m2 = Some x" "chain (m_heap m2) x ks ?b" "m_heap m2 x = Some g" "f_at g = AtEvent k'"
      "\<And>evs. eval c evs = eval (plug (BEvent k') ks) evs" "\<And>y. y \<in> set (x # map fst ks) \<Longrightarrow> y \<noteq> ?b \<Longrightarrow> m_next m1 \<le> y"
      "\<And>y. y \<notin> set (x # map fst ks) \<Longrightarrow> m_heap m2 y = m_heap m1 y" "\<forall>(c, temp, k) \<in> set ks. temp"
      using waits(2) unfolding suspended_def by blast
    have new: "?b \<le> y" if "y \<in> set (x # map fst ks)" for y using x(6) [OF that] m1(4) by (cases "y = ?b") auto
    then have out: "a \<notin> set (x # map fst ks)" using ab by (meson linorder_not_less)
    obtain p where p: "m_heap m2 ?b = Some (fb\<lparr>f_at := p\<rparr>)" using waits(2) m1(2) by (auto simp: suspended_def)
    have a: "m_heap m2 a = Some (f\<lparr>f_at := AtCall ?b True k\<rparr>)" using x(7) [OF out] m1(3) by simp
    have "chain (m_heap m2) ?b [(a, True, k)] a"
      using p a ab BCall.prems(4) by (auto simp: fb_def unfinished_def)
    then have ch: "chain (m_heap m2) x (ks @ [(a, True, k)]) a"
      by (rule chain_append [OF x(2)]) (use out in auto)
    have "suspended a m (BCall c k) m2"
      unfolding suspended_def
    proof (intro conjI exI)
      show "machine_ok m2" "m_next m \<le> m_next m2" using waits(2) m1(4) by (auto simp: suspended_def)
      show "\<forall>evs. eval (BCall c k) evs = eval (plug (BEvent k') (ks @ [(a, True, k)])) evs"
        using x(5) by (simp add: plug_append)
      show "\<forall>y. y \<notin> set (x # map fst (ks @ [(a, True, k)])) \<longrightarrow> m_heap m2 y = m_heap m y"
      proof (intro allI impI)
        fix y assume y: "y \<notin> set (x # map fst (ks @ [(a, True, k)]))"
        have "?b \<in> set (x # map fst ks)" using chain_ends [OF x(2)] last_in_set [of "x # map fst ks"] by simp
        then have "y \<noteq> a" "y \<noteq> ?b" using y by auto
        then show "m_heap m2 y = m_heap m y" using x(7) [of y] m1(6) y by simp
      qed
    qed (use x(1,3,4,8) ch new a BCall.prems(2) in auto)
    then show ?thesis using run waits(1) by (auto simp: follows_def)
  qed
qed

section \<open>A task and those it awaits\<close>

text \<open>The task \<open>t\<close>, awaited by the top-level task \<open>p\<close>, waits: \<open>x\<close> is the coroutine that waits for the event, \<open>S\<close> all the frames from it
  to \<open>t\<close>, and \<open>prog\<close> what is left to do.\<close>

definition top_of :: "nat \<Rightarrow> ('e, 'v) waiting" where
  "top_of p = [(p, False, BReturn)]"

definition hosts :: "nat \<Rightarrow> nat \<Rightarrow> nat \<Rightarrow> ('e, 'v) waiting \<Rightarrow> ('e, 'v) machine \<Rightarrow> bool" where
  "hosts p t x ks m \<longleftrightarrow> chain (m_heap m) x (ks @ top_of p) p \<and> (\<forall>(c, temp, k) \<in> set ks. temp) \<and>
     last (x # map fst ks) = t \<and> (\<exists>g. m_heap m p = Some g \<and> f_top g)"

definition waiting :: "nat \<Rightarrow> nat \<Rightarrow> ('e, 'v) body \<Rightarrow> nat \<Rightarrow> nat set \<Rightarrow> ('e, 'v) machine \<Rightarrow> bool" where
  "waiting p t prog x S m \<longleftrightarrow>
     (\<exists>ks k f. hosts p t x ks m \<and> m_heap m x = Some f \<and> f_at f = AtEvent k \<and> S = set (x # map fst ks) \<and>
        (\<forall>evs. eval prog evs = eval (plug (BEvent k) ks) evs))"

text \<open>It is done; the top-level task is gone.\<close>

definition finished :: "nat \<Rightarrow> nat \<Rightarrow> 'v \<Rightarrow> ('e, 'v) machine \<Rightarrow> bool" where
  "finished p t v m \<longleftrightarrow> m_heap m p = None \<and>
     (\<exists>f. m_heap m t = Some f \<and> f_at f = AtFinal \<and> f_type f = Some RESULT \<and> f_result f = Some v)"

text \<open>Of the frames \<open>old\<close> only those in \<open>new\<close> are left, and nothing else has changed.\<close>

definition footprint :: "nat set \<Rightarrow> nat set \<Rightarrow> ('e, 'v) machine \<Rightarrow> ('e, 'v) machine \<Rightarrow> bool" where
  "footprint old new m m' \<longleftrightarrow> machine_ok m' \<and> m_next m \<le> m_next m' \<and>
     (\<forall>y. y \<notin> new \<longrightarrow> m_heap m' y = (if y \<in> old then None else m_heap m y)) \<and> (\<forall>y \<in> new. y \<in> old \<or> m_next m \<le> y)"

definition advances :: "nat \<Rightarrow> nat \<Rightarrow> ('e, 'v) body \<Rightarrow> nat set \<Rightarrow> ('e, 'v) machine \<Rightarrow> ('e, 'v) machine outcome option \<Rightarrow> bool" where
  "advances p t prog S m r \<longleftrightarrow>
     (\<exists>m' x S'. r = Some (Ret m') \<and> waiting p t prog x S' m' \<and> m_armed m' = Some x \<and> footprint S S' m m') \<or>
     (\<exists>m' v. r = Some (Ret m') \<and> finished p t v m' \<and> m_armed m' = m_armed m \<and> (\<forall>evs. eval prog evs = Ret (CoReturn v, evs)) \<and>
        footprint (insert p S) {t} m m') \<or>
     (r = Some Undef \<and> ((\<forall>evs. eval prog evs = Undef) \<or> (\<forall>evs. eval prog evs = Ret (CoThrow, evs))))"

lemma chain_cong: "chain h x ks a \<Longrightarrow> (\<And>y. y \<in> set (x # map fst ks) \<Longrightarrow> h' y = h y) \<Longrightarrow> chain h' x ks a"
  by (induction h x ks a rule: chain.induct) auto

lemma eval_plug_Undef: "(\<And>evs. eval b evs = Undef) \<Longrightarrow> eval (plug b ks) evs = Undef"
  by (induction ks arbitrary: b) auto

lemma chain_mapped: "chain h x ks a \<Longrightarrow> y \<in> set (x # map fst ks) \<Longrightarrow> h y \<noteq> None"
  by (induction h x ks a rule: chain.induct) auto

lemma suspended_waits:
  assumes susp: "suspended a m b m'" and ok: "machine_ok m" and h: "hosts p t a ks m"
  shows "\<exists>x S'. waiting p t (plug b ks) x S' m' \<and> m_armed m' = Some x \<and> footprint (set (a # map fst ks)) S' m m'"
proof -
  let ?kt = "ks @ top_of p"
  have ch: "chain (m_heap m) a ?kt p" and tmp: "\<forall>(c, temp, k) \<in> set ks. temp" and last: "last (a # map fst ks) = t"
    and top: "\<exists>g. m_heap m p = Some g \<and> f_top g"
    using h by (simp_all add: hosts_def)
  obtain x ks1 k g where x: "m_armed m' = Some x" "chain (m_heap m') x ks1 a" "m_heap m' x = Some g" "f_at g = AtEvent k"
      "\<And>evs. eval b evs = eval (plug (BEvent k) ks1) evs" "\<And>y. y \<in> set (x # map fst ks1) \<Longrightarrow> y \<noteq> a \<Longrightarrow> m_next m \<le> y"
      "\<And>y. y \<notin> set (x # map fst ks1) \<Longrightarrow> m_heap m' y = m_heap m y" "\<forall>(c, temp, k) \<in> set ks1. temp"
    using susp unfolding suspended_def by blast
  have a: "a \<in> set (x # map fst ks1)" using chain_ends [OF x(2)] last_in_set [of "x # map fst ks1"] by simp
  have old: "y < m_next m" if "y \<in> set (a # map fst ?kt)" for y
    using chain_mapped [OF ch that] ok by (meson linorder_not_less machine_ok_def)
  have na: "a \<notin> set (map fst ?kt)" using chain_ends [OF ch] by simp
  have kept: "m_heap m' y = m_heap m y" "y \<notin> set (x # map fst ks1)" if "y \<in> set (map fst ?kt)" for y
  proof -
    have "y \<noteq> a" "y < m_next m" using old [of y] that na by auto
    then show "y \<notin> set (x # map fst ks1)" using x(6) [of y] by (meson linorder_not_less)
    then show "m_heap m' y = m_heap m y" by (rule x(7))
  qed
  obtain c tp k' rest where kt: "?kt = (c, tp, k') # rest" by (cases ?kt) (auto simp: top_of_def)
  have "chain (m_heap m') a ?kt p"
  proof -
    have "chain (m_heap m') c rest p"
    proof (rule chain_cong)
      show "chain (m_heap m) c rest p" using ch unfolding kt by simp
      show "m_heap m' y = m_heap m y" if "y \<in> set (c # map fst rest)" for y
        by (rule kept(1)) (use that in \<open>simp add: kt\<close>)
    qed
    moreover have "m_heap m' c = m_heap m c" by (rule kept(1)) (simp add: kt)
    moreover obtain f where f: "m_heap m a = Some f" "\<not> f_top f" "unfinished f" "f_cont f = Some c"
      using ch unfolding kt by auto
    moreover obtain q where "m_heap m' a = Some (f\<lparr>f_at := q\<rparr>)" using susp f(1) by (auto simp: suspended_def)
    moreover obtain g where "m_heap m c = Some g" "f_at g = AtCall a tp k'" using ch unfolding kt by auto
    moreover have "a \<notin> set (map fst ((c, tp, k') # rest))" using na unfolding kt .
    ultimately show ?thesis unfolding kt by (simp add: unfinished_def)
  qed
  then have ch': "chain (m_heap m') x (ks1 @ ?kt) p"
    by (rule chain_append [OF x(2)]) (use kept(2) in auto)
  have lst: "last (x # map fst (ks1 @ ks)) = t"
  proof (cases ks)
    case Nil
    then show ?thesis using last chain_ends [OF x(2)] by simp
  qed (use last in simp)
  have p': "m_heap m' p = m_heap m p" by (rule kept(1)) (simp add: top_of_def)
  have "waiting p t (plug b ks) x (set (x # map fst (ks1 @ ks))) m'"
    unfolding waiting_def hosts_def
  proof (rule exI [of _ "ks1 @ ks"], rule exI [of _ k], rule exI [of _ g], intro conjI allI)
    show "eval (plug b ks) evs = eval (plug (BEvent k) (ks1 @ ks)) evs" for evs
      using eval_plug [OF x(5)] by (simp add: plug_append)
    show "chain (m_heap m') x ((ks1 @ ks) @ top_of p) p" using ch' by simp
    show "\<forall>(c, temp, k) \<in> set (ks1 @ ks). temp" using x(8) tmp by (simp add: ball_Un)
    show "\<exists>g. m_heap m' p = Some g \<and> f_top g" using top p' by simp
  qed (use x(3,4) lst in simp_all)
  moreover have "footprint (set (a # map fst ks)) (set (x # map fst (ks1 @ ks))) m m'"
    using susp x(6,7) a unfolding footprint_def suspended_def by auto
  ultimately show ?thesis using x(1) by blast
qed

lemma hosts_follows:
  assumes "machine_ok m" "hosts p t x ks m"
  shows "follows x b m" "\<exists>f c. m_heap m x = Some f \<and> \<not> f_top f \<and> unfinished f \<and> f_cont f = Some c \<and> x \<noteq> c"
proof -
  obtain c tp k' rest where kt: "ks @ top_of p = (c, tp, k') # rest" by (cases "ks @ top_of p") (auto simp: top_of_def)
  have "chain (m_heap m) x ((c, tp, k') # rest) p" using assms(2) by (simp add: hosts_def kt)
  then obtain f where f: "m_heap m x = Some f" "\<not> f_top f" "unfinished f" "f_cont f = Some c" "x \<noteq> c" by auto
  then show "\<exists>f c. m_heap m x = Some f \<and> \<not> f_top f \<and> unfinished f \<and> f_cont f = Some c \<and> x \<noteq> c" by blast
  show "follows x b m" by (rule body_follows [OF assms(1) f(1-3)])
qed

lemma task_advances:
  assumes "machine_ok m" "hosts p t x ks m"
  shows "advances p t (plug b ks) (set (x # map fst ks)) m (co_run (x, b, m))"
  using assms
proof (induction ks arbitrary: x b m)
  case Nil
  then have t: "t = x" and top: "\<exists>g. m_heap m p = Some g \<and> f_top g \<and> f_at g = AtCall x False BReturn"
    and xp: "x \<noteq> p"
    by (auto simp: hosts_def top_of_def)
  obtain f where f: "m_heap m x = Some f" "\<not> f_top f" "unfinished f" "f_cont f = Some p"
    using Nil.prems(2) by (auto simp: hosts_def top_of_def)
  consider
      (returns) v m2 where "co_run (x, b, m) = co_run (x, BReturn v, m2)" "\<forall>evs. eval b evs = Ret (CoReturn v, evs)" "tidy x m m2"
    | (throws) m2 where "co_run (x, b, m) = co_run (x, BThrow, m2)" "\<forall>evs. eval b evs = Ret (CoThrow, evs)" "tidy x m m2"
    | (undefined) "co_run (x, b, m) = Some Undef" "\<forall>evs. eval b evs = Undef"
    | (waits) m2 where "co_run (x, b, m) = Some (Ret m2)" "suspended x m b m2"
    using hosts_follows(1) [OF Nil.prems, of b] unfolding follows_def by blast
  then show ?case
  proof cases
    case returns
    obtain g where g: "m_heap m2 p = Some g" "f_top g" "f_at g = AtCall x False BReturn"
      using top returns(3) xp by (auto simp: tidy_def)
    obtain q where q: "m_heap m2 x = Some (f\<lparr>f_at := q\<rparr>)" using returns(3) f(1) by (auto simp: tidy_def)
    let ?fx = "f\<lparr>f_result := Some v, f_type := Some RESULT, f_at := AtFinal\<rparr>"
    let ?m3 = "m_upd x (Some ?fx) m2"
    have "co_step (x, BReturn v, m2) = Inr (p, BReturn v, ?m3)"
      using f q g xp by (simp add: final_suspend_def await_resume_def at_frame_def m_upd_def out_running_def)
    moreover have "co_step (p, BReturn v, ?m3) = Inl (Ret (m_upd p None ?m3))"
      using g xp by (simp add: m_upd_def)
    ultimately have "co_run (x, BReturn v, m2) = Some (Ret (m_upd p None ?m3))" by (simp add: co_run_simps)
    moreover have "finished p t v (m_upd p None ?m3)" using xp by (simp add: finished_def m_upd_def t)
    moreover have "x < m_next m2" using q returns(3) by (metis linorder_not_less machine_ok_def option.distinct(1) tidy_def)
    then have "footprint (insert p {x}) {t} m (m_upd p None ?m3)"
      using returns(3) Nil.prems(1) by (auto simp: footprint_def tidy_def m_upd_def t machine_ok_def)
    ultimately show ?thesis
      using returns(1-3) by (auto simp: advances_def tidy_def m_upd_def)
  next
    case throws
    obtain g where g: "m_heap m2 p = Some g" "f_top g" "f_at g = AtCall x False BReturn"
      using top throws(3) xp by (auto simp: tidy_def)
    obtain q where q: "m_heap m2 x = Some (f\<lparr>f_at := q\<rparr>)" using throws(3) f(1) by (auto simp: tidy_def)
    have "co_step (x, BThrow, m2) = Inl Undef"
      using f q g xp by (simp add: final_suspend_def await_resume_def at_frame_def m_upd_def out_running_def unfinished_def)
    then have "co_run (x, BThrow, m2) = Some Undef" by (rule co_run_simps)
    then show ?thesis using throws(1,2) by (simp add: advances_def)
  next
    case undefined
    then show ?thesis by (simp add: advances_def)
  next
    case waits
    then show ?thesis using suspended_waits [OF waits(2) Nil.prems] unfolding advances_def by blast
  qed
next
  case (Cons w ks)
  obtain c tp k2 where w: "w = (c, tp, k2)" by (cases w)
  have tp: "tp" and h': "chain (m_heap m) c (ks @ top_of p) p" and last: "last (c # map fst ks) = t"
    and xn: "x \<notin> set (map fst (w # ks @ top_of p))"
    using Cons.prems(2) by (auto simp: hosts_def w)
  obtain f where f: "m_heap m x = Some f" "\<not> f_top f" "unfinished f" "f_cont f = Some c"
    using Cons.prems(2) by (auto simp: hosts_def w)
  obtain g where g: "m_heap m c = Some g" "f_at g = AtCall x True k2"
    using Cons.prems(2) tp by (auto simp: hosts_def w)
  have xc: "x \<noteq> c" using xn by (simp add: w)
  consider
      (returns) v m2 where "co_run (x, b, m) = co_run (x, BReturn v, m2)" "\<forall>evs. eval b evs = Ret (CoReturn v, evs)" "tidy x m m2"
    | (throws) m2 where "co_run (x, b, m) = co_run (x, BThrow, m2)" "\<forall>evs. eval b evs = Ret (CoThrow, evs)" "tidy x m m2"
    | (undefined) "co_run (x, b, m) = Some Undef" "\<forall>evs. eval b evs = Undef"
    | (waits) m2 where "co_run (x, b, m) = Some (Ret m2)" "suspended x m b m2"
    using hosts_follows(1) [OF Cons.prems, of b] unfolding follows_def by blast
  then show ?case
  proof cases
    case returns
    obtain q where q: "m_heap m2 x = Some (f\<lparr>f_at := q\<rparr>)" "m_heap m2 c = Some g"
      using returns(3) f(1) g xc by (auto simp: tidy_def)
    let ?m3 = "m_upd x None m2"
    have "co_step (x, BReturn v, m2) = Inr (c, k2 v, ?m3)"
      using f g q xc
      by (simp add: final_suspend_def await_resume_def at_frame_def m_upd_def out_running_def task_destroy_def)
    then have run: "co_run (x, b, m) = co_run (c, k2 v, ?m3)" using returns(1) by (simp add: co_run_simps)
    have m3: "machine_ok ?m3" "m_next m \<le> m_next ?m3" "m_armed ?m3 = m_armed m" "\<And>y. y \<noteq> x \<Longrightarrow> m_heap ?m3 y = m_heap m y"
      "m_heap ?m3 x = None"
      using returns(3) by (auto simp: tidy_def machine_ok_def m_upd_def)
    have xp: "x \<noteq> p" using xn by (auto simp: top_of_def)
    have "hosts p t c ks ?m3"
      unfolding hosts_def
    proof (intro conjI)
      show "chain (m_heap ?m3) c (ks @ top_of p) p"
      proof (rule chain_cong [OF h'])
        fix y assume "y \<in> set (c # map fst (ks @ top_of p))"
        then have "y \<noteq> x" using xn w by auto
        then show "m_heap ?m3 y = m_heap m y" by (rule m3(4))
      qed
      show "\<exists>g. m_heap ?m3 p = Some g \<and> f_top g" using Cons.prems(2) m3(4) xp by (simp add: hosts_def)
    qed (use Cons.prems(2) last in \<open>auto simp: hosts_def\<close>)
    note IH = Cons.IH [OF m3(1) this, of "k2 v"]
    have ev: "eval (plug b (w # ks)) evs = eval (plug (k2 v) ks) evs" for evs
      unfolding w plug.simps by (rule eval_plug) (simp add: returns(2))
    have fp: "footprint (insert p (set (x # map fst (w # ks)))) {t} m m'" if "footprint (insert p (set (c # map fst ks))) {t} ?m3 m'" for m'
      using that m3 last unfolding footprint_def w by auto
    have fp2: "footprint (set (x # map fst (w # ks))) S' m m'" if "footprint (set (c # map fst ks)) S' ?m3 m'" for m' S'
      using that m3 unfolding footprint_def w by auto
    show ?thesis
      using IH unfolding run advances_def waiting_def ev m3(3) by (blast intro: fp fp2)
  next
    case throws
    obtain q where q: "m_heap m2 x = Some (f\<lparr>f_at := q\<rparr>)" "m_heap m2 c = Some g"
      using throws(3) f(1) g xc by (auto simp: tidy_def)
    then have "co_step (x, BThrow, m2) = Inl Undef"
      using f g xc by (simp add: final_suspend_def await_resume_def at_frame_def m_upd_def out_running_def unfinished_def)
    then have "co_run (x, BThrow, m2) = Some Undef" by (rule co_run_simps)
    moreover have "eval (plug b (w # ks)) evs = Undef" for evs
      using throws(2) by (simp add: w eval_plug_Undef)
    ultimately show ?thesis using throws(1) by (simp add: advances_def)
  next
    case undefined
    then show ?thesis by (simp add: advances_def eval_plug_Undef)
  next
    case waits
    obtain x' S' where "waiting p t (plug b (w # ks)) x' S' m2" "m_armed m2 = Some x'" "footprint (set (x # map fst (w # ks))) S' m m2"
      using suspended_waits [OF waits(2) Cons.prems] by blast
    then show ?thesis using waits(1) unfolding advances_def by blast
  qed
qed

lemma eval_plug_event:
  "(\<And>evs. eval b (e # evs) = eval b' evs) \<Longrightarrow> eval (plug b ks) (e # evs) = eval (plug b' ks) evs"
  by (induction ks arbitrary: b b') (auto simp: case_prod_beta)

lemma eval_plug_waits: "eval b [] = Ret (Awaits, []) \<Longrightarrow> eval (plug b ks) [] = Ret (Awaits, [])"
  by (induction ks arbitrary: b) auto

lemma waiting_event:
  assumes "machine_ok m" "waiting p t prog x S m"
  shows "eval prog [] = Ret (Awaits, [])"
    and "\<exists>prog'. (\<forall>evs. eval prog (e # evs) = eval prog' evs) \<and> advances p t prog' S (m\<lparr>m_armed := None\<rparr>) (on_event x e m)"
proof -
  obtain ks k f where x: "hosts p t x ks m" "m_heap m x = Some f" "f_at f = AtEvent k" "S = set (x # map fst ks)"
    "\<And>evs. eval prog evs = eval (plug (BEvent k) ks) evs"
    using assms(2) unfolding waiting_def by blast
  show "eval prog [] = Ret (Awaits, [])" unfolding x(5) by (rule eval_plug_waits) simp
  let ?m = "m\<lparr>m_armed := None\<rparr>"
  have "machine_ok ?m" "hosts p t x ks ?m" using assms(1) x(1) by (simp_all add: machine_ok_def hosts_def)
  from task_advances [OF this, of "k e"] have "advances p t (plug (k e) ks) S ?m (on_event x e m)"
    by (simp add: on_event_def x(2-4))
  moreover have "eval prog (e # evs) = eval (plug (k e) ks) evs" for evs
    unfolding x(5) by (rule eval_plug_event) simp
  ultimately show "\<exists>prog'. (\<forall>evs. eval prog (e # evs) = eval prog' evs) \<and> advances p t prog' S ?m (on_event x e m)" by blast
qed

section \<open>Several tasks\<close>

text \<open>The tasks of \<open>tpmux_main\<close> are made and added to the container.\<close>

fun launch :: "('e, 'v) body list \<Rightarrow> task_container \<times> nat list \<times> nat option list \<times> ('e, 'v) machine \<Rightarrow>
    (task_container \<times> nat list \<times> nat option list \<times> ('e, 'v) machine) outcome option" where
  "launch [] s = Some (Ret s)"
| "launch (b # bs) (tc, ts, ws, m) =
     (case task_new b m of (t, m1) \<Rightarrow>
        (case tc_add t (tc, m1) of
           None \<Rightarrow> None
         | Some (Throw e) \<Rightarrow> Some (Throw e)
         | Some Undef \<Rightarrow> Some Undef
         | Some (Ret (tc1, m2)) \<Rightarrow> launch bs (tc1, ts @ [t], ws @ [m_armed m2], m2)))"

definition m_empty :: "('e, 'v) machine" where
  "m_empty = \<lparr>m_heap = (\<lambda>_. None), m_next = 0, m_armed = None\<rparr>"

text \<open>
  What the loop of \<open>tpmux_main\<close> does with the events of one call of \<open>epoll_wait\<close>: an event goes to the awaiter that is
  registered for it, here the one of the task \<open>i\<close>. \<open>ws\<close> are the coroutines the awaiters resume. The awaiter of a task that
  has returned was a part of one of its frames, which are gone: an event that is still registered for it calls a
  function that is no longer there.
\<close>

definition dispatch :: "nat \<Rightarrow> 'e \<Rightarrow> nat option list \<times> ('e, 'v) machine \<Rightarrow> (nat option list \<times> ('e, 'v) machine) outcome option" where
  "dispatch i e = (\<lambda>(ws, m). case ws ! i of
       None \<Rightarrow> Some Undef
     | Some x \<Rightarrow> map_option (\<lambda>r. obind r (\<lambda>m1. Ret (ws[i := m_armed m1], m1))) (on_event x e m))"

fun dispatch_all :: "(nat \<times> 'e) list \<Rightarrow> nat option list \<times> ('e, 'v) machine \<Rightarrow> (nat option list \<times> ('e, 'v) machine) outcome option" where
  "dispatch_all [] s = Some (Ret s)"
| "dispatch_all ((i, e) # es) s =
     (case dispatch i e s of
        Some (Ret s1) \<Rightarrow> dispatch_all es s1
      | r \<Rightarrow> r)"

type_synonym ('e, 'v) spec = "nat \<times> nat \<times> ('e, 'v) body"

definition task_ok :: "('e, 'v) spec \<Rightarrow> nat option \<Rightarrow> nat set \<Rightarrow> ('e, 'v) machine \<Rightarrow> bool" where
  "task_ok = (\<lambda>(p, t, prog) w F m. F \<subseteq> {..<m_next m} \<and>
     (case w of
        Some x \<Rightarrow> \<exists>S. waiting p t prog x S m \<and> F = insert p S
      | None \<Rightarrow> \<exists>v. finished p t v m \<and> F = {p, t} \<and> (\<forall>evs. eval prog evs = Ret (CoReturn v, evs))))"

definition tasks_ok :: "('e, 'v) spec list \<Rightarrow> nat option list \<Rightarrow> nat set list \<Rightarrow> ('e, 'v) machine \<Rightarrow> bool" where
  "tasks_ok ts ws Fs m \<longleftrightarrow> machine_ok m \<and> length ws = length ts \<and> length Fs = length ts \<and>
     (\<forall>i < length ts. task_ok (ts ! i) (ws ! i) (Fs ! i) m) \<and>
     (\<forall>i < length ts. \<forall>j < length ts. i \<noteq> j \<longrightarrow> Fs ! i \<inter> Fs ! j = {})"

lemma waiting_frame:
  assumes "waiting p t prog x S m" "\<And>y. y \<in> insert p S \<Longrightarrow> m_heap m' y = m_heap m y"
  shows "waiting p t prog x S m'"
proof -
  obtain ks k f where w: "hosts p t x ks m" "m_heap m x = Some f" "f_at f = AtEvent k" "S = set (x # map fst ks)"
    "\<forall>evs. eval prog evs = eval (plug (BEvent k) ks) evs"
    using assms(1) unfolding waiting_def by blast
  have "chain (m_heap m') x (ks @ top_of p) p"
  proof (rule chain_cong)
    show "chain (m_heap m) x (ks @ top_of p) p" using w(1) by (simp add: hosts_def)
    show "m_heap m' y = m_heap m y" if "y \<in> set (x # map fst (ks @ top_of p))" for y
      by (rule assms(2)) (use that w(4) in \<open>auto simp: top_of_def\<close>)
  qed
  moreover have "m_heap m' p = m_heap m p" "m_heap m' x = m_heap m x" using assms(2) w(4) by simp_all
  ultimately have "hosts p t x ks m'" "m_heap m' x = Some f" using w(1,2) by (simp_all add: hosts_def)
  then show ?thesis using w(3-5) unfolding waiting_def by blast
qed

lemma task_ok_frame:
  assumes "task_ok s w F m" "\<And>y. y \<in> F \<Longrightarrow> m_heap m' y = m_heap m y" "m_next m \<le> m_next m'"
  shows "task_ok s w F m'"
proof -
  obtain p t prog where s: "s = (p, t, prog)" by (cases s)
  show ?thesis
  proof (cases w)
    case None
    then show ?thesis using assms unfolding task_ok_def s finished_def by fastforce
  next
    case (Some x)
    then obtain S where S: "waiting p t prog x S m" "F = insert p S" "F \<subseteq> {..<m_next m}"
      using assms(1) by (auto simp: task_ok_def s)
    have "waiting p t prog x S m'" by (rule waiting_frame [OF S(1)]) (use assms(2) S(2) in blast)
    then show ?thesis using S(2,3) assms(3) Some by (auto simp: task_ok_def s)
  qed
qed

text \<open>How a program ends with some events; \<open>None\<close> is undefined behaviour, to which an exception leads and an event that
  comes after the end.\<close>

definition result_of :: "('e, 'v) body \<Rightarrow> 'e list \<Rightarrow> 'v coro option" where
  "result_of prog evs = (case eval prog evs of Ret (c, l) \<Rightarrow> if c = CoThrow \<or> l \<noteq> [] then None else Some c | _ \<Rightarrow> None)"

text \<open>It ends well, perhaps before all of the events have come.\<close>

definition ends :: "('e, 'v) body \<Rightarrow> 'e list \<Rightarrow> bool" where
  "ends prog evs = (case eval prog evs of Ret (c, l) \<Rightarrow> c \<noteq> CoThrow | _ \<Rightarrow> False)"

lemma result_ends: "result_of prog evs \<noteq> None \<Longrightarrow> ends prog evs"
  by (auto simp: result_of_def ends_def split: outcome.splits if_splits)

lemma ends_start: "ends prog [] \<Longrightarrow> result_of prog [] \<noteq> None"
proof -
  have "eval prog [] = Ret (c, l) \<Longrightarrow> l = []" for c l by (auto dest: eval_shorter)
  then show "ends prog [] \<Longrightarrow> result_of prog [] \<noteq> None" by (auto simp: ends_def result_of_def split: outcome.splits)
qed

lemma tasks_ok_update:
  assumes ok: "tasks_ok ts ws Fs m" and i: "i < length ts" and s: "task_ok s w F m'"
    and new: "\<forall>y \<in> F. y \<in> Fs ! i \<or> m_next m \<le> y" and m': "machine_ok m'" "m_next m \<le> m_next m'"
    and kept: "\<And>y. y < m_next m \<Longrightarrow> y \<notin> Fs ! i \<Longrightarrow> m_heap m' y = m_heap m y"
  shows "tasks_ok (ts[i := s]) (ws[i := w]) (Fs[i := F]) m'"
proof -
  have len: "length ws = length ts" "length Fs = length ts" using ok by (simp_all add: tasks_ok_def)
  have lt: "y < m_next m" if "j < length ts" "y \<in> Fs ! j" for j y
    using ok that by (auto simp: tasks_ok_def task_ok_def case_prod_beta)
  have dis: "Fs ! j \<inter> Fs ! k = {}" if "j < length ts" "k < length ts" "j \<noteq> k" for j k
    using ok that by (simp add: tasks_ok_def)
  have other: "task_ok (ts ! j) (ws ! j) (Fs ! j) m'" if "j < length ts" "j \<noteq> i" for j
  proof (rule task_ok_frame)
    show "task_ok (ts ! j) (ws ! j) (Fs ! j) m" using ok that by (simp add: tasks_ok_def)
    show "m_heap m' y = m_heap m y" if "y \<in> Fs ! j" for y
      by (rule kept) (use lt dis [of j i] that i \<open>j < length ts\<close> \<open>j \<noteq> i\<close> in blast)+
  qed (rule m'(2))
  have F: "F \<inter> Fs ! j = {}" if "j < length ts" "j \<noteq> i" for j
    using new dis [of i j] lt [of j] that i by (fastforce simp: disjoint_iff)
  show ?thesis
    unfolding tasks_ok_def
  proof (intro conjI allI impI)
    show "task_ok (ts[i := s] ! j) (ws[i := w] ! j) (Fs[i := F] ! j) m'" if "j < length (ts[i := s])" for j
      using s other that len by (cases "j = i") simp_all
    show "Fs[i := F] ! j \<inter> Fs[i := F] ! k = {}" if "j < length (ts[i := s])" "k < length (ts[i := s])" "j \<noteq> k" for j k
      using that len i F dis by (cases "j = i"; cases "k = i") (auto simp: Int_commute)
  qed (use m'(1) len in simp_all)
qed

lemma waiting_mapped: "waiting p t prog x S m \<Longrightarrow> y \<in> S \<Longrightarrow> m_heap m y \<noteq> None"
proof -
  assume w: "waiting p t prog x S m" "y \<in> S"
  then obtain ks where "chain (m_heap m) x (ks @ top_of p) p" "S = set (x # map fst ks)" by (auto simp: waiting_def hosts_def)
  with w(2) show ?thesis by (intro chain_mapped [of "m_heap m" x "ks @ top_of p" p]) auto
qed

lemma tasks_ok_nth:
  assumes "tasks_ok ts ws Fs m" "i < length ts" "ts ! i = (p, t, prog)"
  shows "machine_ok m" "Fs ! i \<subseteq> {..<m_next m}"
    "ws ! i = Some x \<Longrightarrow> \<exists>S. waiting p t prog x S m \<and> Fs ! i = insert p S"
    "ws ! i = None \<Longrightarrow> \<exists>v. finished p t v m \<and> Fs ! i = {p, t} \<and> (\<forall>evs. eval prog evs = Ret (CoReturn v, evs))"
proof -
  have "machine_ok m" "task_ok (p, t, prog) (ws ! i) (Fs ! i) m" using assms(1,2) by (simp_all add: tasks_ok_def flip: assms(3))
  then show "machine_ok m" "Fs ! i \<subseteq> {..<m_next m}"
    "ws ! i = Some x \<Longrightarrow> \<exists>S. waiting p t prog x S m \<and> Fs ! i = insert p S"
    "ws ! i = None \<Longrightarrow> \<exists>v. finished p t v m \<and> Fs ! i = {p, t} \<and> (\<forall>evs. eval prog evs = Ret (CoReturn v, evs))"
    by (simp_all add: task_ok_def)
qed

lemma dispatch_step:
  assumes ok: "tasks_ok ts ws Fs m" and i: "i < length ts" "ts ! i = (p, t, prog)"
  shows "(\<exists>prog' ws' Fs' m'. dispatch i e (ws, m) = Some (Ret (ws', m')) \<and> tasks_ok (ts[i := (p, t, prog')]) ws' Fs' m' \<and>
      (\<forall>evs. eval prog (e # evs) = eval prog' evs)) \<or>
    (dispatch i e (ws, m) = Some Undef \<and> (\<forall>evs. result_of prog (e # evs) = None)) \<or> (\<forall>evs. \<not> ends prog (e # evs))"
proof (cases "ws ! i")
  case None
  then obtain v where v: "\<forall>evs. eval prog evs = Ret (CoReturn v, evs)"
    using tasks_ok_nth(4) [OF ok i] by blast
  then show ?thesis using None by (simp add: result_of_def dispatch_def)
next
  case (Some x)
  note m = tasks_ok_nth(1) [OF ok i]
  obtain S where S: "waiting p t prog x S m" "Fs ! i = insert p S"
    using tasks_ok_nth(3) [OF ok i Some] by blast
  let ?m = "m\<lparr>m_armed := None\<rparr>"
  obtain prog' where p': "\<forall>evs. eval prog (e # evs) = eval prog' evs" "advances p t prog' S ?m (on_event x e m)"
    using waiting_event(2) [OF m S(1)] by blast
  note res = p'(1)
  have pt: "p < m_next m" using tasks_ok_nth(2) [OF ok i] S(2) by auto
  have t: "t \<in> S" "p \<notin> S"
  proof -
    obtain ks where ks: "hosts p t x ks m" "S = set (x # map fst ks)" using S(1) by (auto simp: waiting_def)
    then show "t \<in> S" using last_in_set [of "x # map fst ks"] by (simp add: hosts_def)
    show "p \<notin> S" using ks chain_ends [of "m_heap m" x "ks @ top_of p" p] by (auto simp: hosts_def top_of_def)
  qed
  have nxt: "m_next ?m = m_next m" "m_heap ?m = m_heap m" by simp_all
  consider
      (waits) m' x' S' where "on_event x e m = Some (Ret m')" "waiting p t prog' x' S' m'" "m_armed m' = Some x'" "footprint S S' ?m m'"
    | (ends) m' v where "on_event x e m = Some (Ret m')" "finished p t v m'" "m_armed m' = None"
        "\<forall>evs. eval prog' evs = Ret (CoReturn v, evs)" "footprint (insert p S) {t} ?m m'"
    | (undefined) "(\<forall>evs. eval prog' evs = Undef) \<or> (\<forall>evs. eval prog' evs = Ret (CoThrow, evs))"
    using p'(2) unfolding advances_def by auto
  then show ?thesis
  proof cases
    case waits
    have fp: "machine_ok m'" "m_next m \<le> m_next m'" "\<And>y. y \<notin> S' \<Longrightarrow> m_heap m' y = (if y \<in> S then None else m_heap m y)"
      "\<And>y. y \<in> S' \<Longrightarrow> y \<in> S \<or> m_next m \<le> y"
      using waits(4) by (auto simp: footprint_def)
    have S': "y < m_next m'" if "y \<in> S'" for y
      using waiting_mapped [OF waits(2) that] fp(1) by (meson linorder_not_less machine_ok_def)
    have "tasks_ok (ts[i := (p, t, prog')]) (ws[i := Some x']) (Fs[i := insert p S']) m'"
    proof (rule tasks_ok_update [OF ok i(1)])
      show "task_ok (p, t, prog') (Some x') (insert p S') m'"
        using waits(2) S' pt fp(2) by (auto simp: task_ok_def)
      show "\<forall>y \<in> insert p S'. y \<in> Fs ! i \<or> m_next m \<le> y" using fp(4) S(2) by auto
      show "m_heap m' y = m_heap m y" if "y < m_next m" "y \<notin> Fs ! i" for y
        using fp(3,4) [of y] that S(2) by auto
    qed (use fp in simp_all)
    then show ?thesis
      using waits(1,3) Some res by (auto simp: dispatch_def)
  next
    case ends
    have fp: "machine_ok m'" "m_next m \<le> m_next m'" "\<And>y. y \<noteq> t \<Longrightarrow> m_heap m' y = (if y \<in> insert p S then None else m_heap m y)"
      using ends(5) by (auto simp: footprint_def)
    have "tasks_ok (ts[i := (p, t, prog')]) (ws[i := None]) (Fs[i := {p, t}]) m'"
    proof (rule tasks_ok_update [OF ok i(1)])
      have "t < m_next m" using tasks_ok_nth(2) [OF ok i] S(2) t(1) by auto
      then show "task_ok (p, t, prog') None {p, t} m'"
        using ends(2,4) pt fp(2) by (auto simp: task_ok_def)
      show "\<forall>y \<in> {p, t}. y \<in> Fs ! i \<or> m_next m \<le> y" using t S(2) by auto
      show "m_heap m' y = m_heap m y" if "y < m_next m" "y \<notin> Fs ! i" for y
        using fp(3) [of y] that S(2) t(1) by auto
    qed (use fp in simp_all)
    then show ?thesis
      using ends(1,3) Some res by (auto simp: dispatch_def)
  next
    case undefined
    then show ?thesis using res by (auto simp: ends_def)
  qed
qed

definition events_of :: "nat \<Rightarrow> (nat \<times> 'e) list \<Rightarrow> 'e list" where
  "events_of i es = map snd (filter (\<lambda>(j, e). j = i) es)"

text \<open>When an event comes for a task that has returned, what follows is undefined; else every task is where it would be alone.\<close>

lemma tasks_interleave_or_stale:
  assumes "tasks_ok ts ws Fs m" "\<forall>(i, e) \<in> set es. i < length ts" "\<forall>i < length ts. ends (snd (snd (ts ! i))) (events_of i es)"
  shows "if \<forall>i < length ts. result_of (snd (snd (ts ! i))) (events_of i es) \<noteq> None
    then \<exists>ws' m' ts' Fs'. dispatch_all es (ws, m) = Some (Ret (ws', m')) \<and> tasks_ok ts' ws' Fs' m' \<and> length ts' = length ts \<and>
      (\<forall>i < length ts. fst (ts' ! i) = fst (ts ! i) \<and> fst (snd (ts' ! i)) = fst (snd (ts ! i)) \<and>
         result_of (snd (snd (ts ! i))) (events_of i es) = result_of (snd (snd (ts' ! i))) [])
    else dispatch_all es (ws, m) = Some Undef"
  using assms
proof (induction es arbitrary: ts ws Fs m)
  case Nil
  have "result_of (snd (snd (ts ! i))) [] \<noteq> None" if i: "i < length ts" for i
  proof -
    obtain p t prog where tsi: "ts ! i = (p, t, prog)" by (cases "ts ! i") auto
    have "ends prog []" using Nil.prems(3) i tsi by (force simp: events_of_def)
    then show ?thesis by (simp add: tsi ends_start)
  qed
  then show ?case using Nil.prems(1) by (auto simp: events_of_def)
next
  case (Cons ie es)
  obtain i e where ie: "ie = (i, e)" by (cases ie)
  obtain p t prog where tsi: "ts ! i = (p, t, prog)" by (cases "ts ! i") auto
  have i: "i < length ts" using Cons.prems(2) by (auto simp: ie)
  have evs: "events_of j (ie # es) = (if j = i then e # events_of j es else events_of j es)" for j
    by (simp add: events_of_def ie)
  have "ends prog (e # events_of i es)" using Cons.prems(3) i tsi by (force simp: evs)
  then consider (step) prog' ws1 Fs1 m1 where "dispatch i e (ws, m) = Some (Ret (ws1, m1))"
      "tasks_ok (ts[i := (p, t, prog')]) ws1 Fs1 m1" "\<forall>evs. eval prog (e # evs) = eval prog' evs"
    | (stale) "dispatch i e (ws, m) = Some Undef" "\<forall>evs. result_of prog (e # evs) = None"
    using dispatch_step [OF Cons.prems(1) i tsi, of e] by metis
  then show ?case
  proof cases
    case stale
    then have "result_of (snd (snd (ts ! i))) (events_of i (ie # es)) = None" using tsi by (simp add: evs)
    then show ?thesis using stale(1) i by (auto simp: ie)
  next
    case step
    let ?ts = "ts[i := (p, t, prog')]"
    have r: "result_of (snd (snd (?ts ! j))) (events_of j es) = result_of (snd (snd (ts ! j))) (events_of j (ie # es))"
      "ends (snd (snd (?ts ! j))) (events_of j es) = ends (snd (snd (ts ! j))) (events_of j (ie # es))" if "j < length ts" for j
      using that i tsi step(3) by (cases "j = i"; simp add: evs result_of_def ends_def)+
    have same: "fst (?ts ! j) = fst (ts ! j)" "fst (snd (?ts ! j)) = fst (snd (ts ! j))" if "j < length ts" for j
      using that tsi by (cases "j = i"; simp)+
    have "\<forall>(i, e) \<in> set es. i < length ?ts" "\<forall>j < length ?ts. ends (snd (snd (?ts ! j))) (events_of j es)"
      using Cons.prems(2,3) r(2) by auto
    note IH = Cons.IH [OF step(2) this]
    have c: "(\<forall>j < length ts. result_of (snd (snd (?ts ! j))) (events_of j es) \<noteq> None) \<longleftrightarrow>
        (\<forall>j < length ts. result_of (snd (snd (ts ! j))) (events_of j (ie # es)) \<noteq> None)" using r(1) by simp
    have d: "(\<forall>j < length ts. fst (u ! j) = fst (?ts ! j) \<and> fst (snd (u ! j)) = fst (snd (?ts ! j)) \<and>
          result_of (snd (snd (?ts ! j))) (events_of j es) = result_of (snd (snd (u ! j))) []) \<longleftrightarrow>
        (\<forall>j < length ts. fst (u ! j) = fst (ts ! j) \<and> fst (snd (u ! j)) = fst (snd (ts ! j)) \<and>
          result_of (snd (snd (ts ! j))) (events_of j (ie # es)) = result_of (snd (snd (u ! j))) [])" for u
      using r(1) same by simp
    have "dispatch_all (ie # es) (ws, m) = dispatch_all es (ws1, m1)" using step(1) by (simp add: ie)
    then show ?thesis using IH unfolding length_list_update c d by (simp only:)
  qed
qed

lemma tasks_interleave:
  assumes "tasks_ok ts ws Fs m" "\<forall>(i, e) \<in> set es. i < length ts"
    and "\<forall>i < length ts. result_of (snd (snd (ts ! i))) (events_of i es) \<noteq> None"
  shows "\<exists>ws' m' ts' Fs'. dispatch_all es (ws, m) = Some (Ret (ws', m')) \<and> tasks_ok ts' ws' Fs' m' \<and> length ts' = length ts \<and>
    (\<forall>i < length ts. fst (ts' ! i) = fst (ts ! i) \<and> fst (snd (ts' ! i)) = fst (snd (ts ! i)) \<and>
       result_of (snd (snd (ts ! i))) (events_of i es) = result_of (snd (snd (ts' ! i))) [])"
  using tasks_interleave_or_stale [OF assms(1,2)] assms(3) result_ends by (smt (verit, best))

lemma tasks_ok_append:
  assumes ok: "tasks_ok ts ws Fs m" and s: "task_ok s w F m'" and F: "\<forall>y \<in> F. m_next m \<le> y"
    and m': "machine_ok m'" "m_next m \<le> m_next m'" and kept: "\<And>y. y < m_next m \<Longrightarrow> m_heap m' y = m_heap m y"
  shows "tasks_ok (ts @ [s]) (ws @ [w]) (Fs @ [F]) m'"
proof -
  have len: "length ws = length ts" "length Fs = length ts" using ok by (simp_all add: tasks_ok_def)
  have lt: "y < m_next m" if "j < length ts" "y \<in> Fs ! j" for j y
    using ok that by (auto simp: tasks_ok_def task_ok_def case_prod_beta)
  have dis: "Fs ! j \<inter> Fs ! k = {}" if "j < length ts" "k < length ts" "j \<noteq> k" for j k
    using ok that by (simp add: tasks_ok_def)
  have old: "task_ok (ts ! j) (ws ! j) (Fs ! j) m'" if "j < length ts" for j
  proof (rule task_ok_frame)
    show "task_ok (ts ! j) (ws ! j) (Fs ! j) m" using ok that by (simp add: tasks_ok_def)
  qed (use kept lt that m'(2) in auto)
  have F': "F \<inter> Fs ! j = {}" if "j < length ts" for j
    using F lt [OF that] by fastforce
  show ?thesis
    unfolding tasks_ok_def
  proof (intro conjI allI impI)
    show "task_ok ((ts @ [s]) ! j) ((ws @ [w]) ! j) ((Fs @ [F]) ! j) m'" if "j < length (ts @ [s])" for j
      using s old that len by (cases "j = length ts") (simp_all add: nth_append)
    show "(Fs @ [F]) ! j \<inter> (Fs @ [F]) ! k = {}" if "j < length (ts @ [s])" "k < length (ts @ [s])" "j \<noteq> k" for j k
      using that len F' dis by (cases "j = length ts"; cases "k = length ts") (auto simp: nth_append Int_commute)
  qed (use m'(1) len in simp_all)
qed

lemma launch_task:
  fixes b :: "('e, 'v) body"
  assumes ok: "tasks_ok ts ws Fs m" and b: "result_of b evs \<noteq> None" and new: "task_new b m = (t, m1)"
  shows "\<exists>p m2 F b'. tc_add t (tc, m1) = Some (Ret (tc @ [p], m2)) \<and>
    tasks_ok (ts @ [(p, t, b')]) (ws @ [m_armed m2]) (Fs @ [F]) m2 \<and> (\<forall>evs. eval b evs = eval b' evs)"
proof -
  let ?p = "t + 1"
  define ft where "ft = \<lparr>f_top = False, f_at = AtStart b, f_type = None, f_result = None, f_cont = Some ?p\<rparr>"
  define fp :: "('e, 'v) frame" where "fp = \<lparr>f_top = True, f_at = AtCall t False BReturn, f_type = None, f_result = None, f_cont = None\<rparr>"
  define m0 where "m0 = \<lparr>m_heap = (m_heap m)(t \<mapsto> ft, ?p \<mapsto> fp), m_next = t + 2, m_armed = None\<rparr>"
  have t: "t = m_next m" and m1: "m_next m1 = ?p" "m_heap m1 = (m_heap m)(t \<mapsto> ft\<lparr>f_cont := None\<rparr>)"
    using new by (auto simp: task_new_def ft_def)
  have free: "m_heap m y = None" if "t \<le> y" for y using ok that t by (simp add: tasks_ok_def machine_ok_def)
  have m0: "machine_ok m0" "m_heap m0 t = Some ft" "m_heap m0 ?p = Some fp" "m_armed m0 = None" "m_next m0 = t + 2"
    "\<And>y. y \<noteq> t \<Longrightarrow> y \<noteq> ?p \<Longrightarrow> m_heap m0 y = m_heap m y"
    using free by (auto simp: m0_def machine_ok_def)
  have add: "tc_add t (tc, m1) = map_option (\<lambda>o1. obind o1 (\<lambda>m2. Ret (tc @ [?p], m2))) (co_run (t, b, m0))"
  proof -
    have "m1 = \<lparr>m_heap = m_heap m1, m_next = m_next m1, m_armed = m_armed m1\<rparr>" by simp
    then have m1': "m1 = \<lparr>m_heap = (m_heap m)(t \<mapsto> ft\<lparr>f_cont := None\<rparr>), m_next = ?p, m_armed = m_armed m1\<rparr>" unfolding m1 .
    show ?thesis
      by (subst m1')
        (use t in \<open>simp add: tc_add_def top_await_def co_start_def await_suspend_def at_frame_def m_upd_def m0_def ft_def fp_def fun_upd_twist\<close>)
  qed
  have "hosts ?p t t [] m0"
    using m0(2,3) by (auto simp: hosts_def top_of_def ft_def fp_def unfinished_def)
  from task_advances [OF m0(1) this, of b] have adv: "advances ?p t b {t} m0 (co_run (t, b, m0))" by simp
  have "\<not> ((\<forall>evs. eval b evs = Undef) \<or> (\<forall>evs. eval b evs = Ret (CoThrow, evs)))"
  proof
    assume "(\<forall>evs. eval b evs = Undef) \<or> (\<forall>evs. eval b evs = Ret (CoThrow, evs))"
    then have "result_of b evs = None" by (auto simp: result_of_def)
    with b show False by simp
  qed
  then consider
      (waits) m' x S where "co_run (t, b, m0) = Some (Ret m')" "waiting ?p t b x S m'" "m_armed m' = Some x" "footprint {t} S m0 m'"
    | (ends) m' v where "co_run (t, b, m0) = Some (Ret m')" "finished ?p t v m'" "m_armed m' = None"
        "\<forall>evs. eval b evs = Ret (CoReturn v, evs)" "footprint {?p, t} {t} m0 m'"
    using adv m0(4) unfolding advances_def by auto
  then show ?thesis
  proof cases
    case waits
    have fp: "machine_ok m'" "t + 2 \<le> m_next m'" "\<And>y. y \<notin> S \<Longrightarrow> m_heap m' y = (if y = t then None else m_heap m0 y)"
      "\<And>y. y \<in> S \<Longrightarrow> y = t \<or> t + 2 \<le> y"
      using waits(4) m0(5) by (auto simp: footprint_def)
    have S: "y < m_next m'" if "y \<in> S" for y
      using waiting_mapped [OF waits(2) that] fp(1) by (meson linorder_not_less machine_ok_def)
    have "tasks_ok (ts @ [(?p, t, b)]) (ws @ [Some x]) (Fs @ [insert ?p S]) m'"
    proof (rule tasks_ok_append [OF ok])
      show "task_ok (?p, t, b) (Some x) (insert ?p S) m'"
        using waits(2) S fp(2) by (auto simp: task_ok_def)
      show "\<forall>y \<in> insert ?p S. m_next m \<le> y" using fp(4) t by fastforce
      show "m_heap m' y = m_heap m y" if "y < m_next m" for y
        using fp(3,4) [of y] m0(6) that t by fastforce
    qed (use fp t in simp_all)
    then show ?thesis using add waits(1,3) by (intro exI [of _ ?p] exI [of _ m']) auto
  next
    case ends
    have fp: "machine_ok m'" "t + 2 \<le> m_next m'" "\<And>y. y \<noteq> t \<Longrightarrow> m_heap m' y = (if y \<in> {?p, t} then None else m_heap m0 y)"
      using ends(5) m0(5) by (auto simp: footprint_def)
    have "tasks_ok (ts @ [(?p, t, b)]) (ws @ [None]) (Fs @ [{?p, t}]) m'"
    proof (rule tasks_ok_append [OF ok])
      show "task_ok (?p, t, b) None {?p, t} m'"
        using ends(2,4) fp(2) by (auto simp: task_ok_def)
      show "\<forall>y \<in> {?p, t}. m_next m \<le> y" using t by simp
      show "m_heap m' y = m_heap m y" if "y < m_next m" for y
        using fp(3) [of y] m0(6) that t by simp
    qed (use fp t in simp_all)
    then show ?thesis using add ends(1,3) by (intro exI [of _ ?p] exI [of _ m']) auto
  qed
qed

lemma launch_tasks:
  fixes bs :: "('e, 'v) body list"
  assumes "tasks_ok sp ws Fs m" "\<forall>i < length bs. result_of (bs ! i) (evs i) \<noteq> None"
  shows "\<exists>sp' ws' Fs' m'.
    launch bs (map fst sp, map (fst \<circ> snd) sp, ws, m) = Some (Ret (map fst (sp @ sp'), map (fst \<circ> snd) (sp @ sp'), ws', m')) \<and>
    tasks_ok (sp @ sp') ws' Fs' m' \<and> length sp' = length bs \<and>
    (\<forall>i < length bs. \<forall>l. eval (bs ! i) l = eval (snd (snd (sp' ! i))) l)"
  using assms
proof (induction bs arbitrary: sp ws Fs m evs)
  case Nil
  then show ?case by (intro exI [of _ "[]"] exI [of _ ws] exI [of _ Fs] exI [of _ m]) simp
next
  case (Cons b bs)
  obtain t m1 where new: "task_new b m = (t, m1)" by (cases "task_new b m")
  have "result_of b (evs 0) \<noteq> None" using Cons.prems(2) by auto
  from launch_task [OF Cons.prems(1) this new, of "map fst sp"] obtain p m2 F b' where
    s: "tc_add t (map fst sp, m1) = Some (Ret (map fst sp @ [p], m2))"
      "tasks_ok (sp @ [(p, t, b')]) (ws @ [m_armed m2]) (Fs @ [F]) m2" "\<forall>l. eval b l = eval b' l"
    by blast
  have "\<forall>i < length bs. result_of (bs ! i) (evs (Suc i)) \<noteq> None" using Cons.prems(2) by auto
  from Cons.IH [OF s(2) this] obtain sp' ws' Fs' m' where IH:
    "launch bs (map fst (sp @ [(p, t, b')]), map (fst \<circ> snd) (sp @ [(p, t, b')]), ws @ [m_armed m2], m2) =
       Some (Ret (map fst ((sp @ [(p, t, b')]) @ sp'), map (fst \<circ> snd) ((sp @ [(p, t, b')]) @ sp'), ws', m'))"
    "tasks_ok ((sp @ [(p, t, b')]) @ sp') ws' Fs' m'" "length sp' = length bs"
    "\<forall>i < length bs. \<forall>l. eval (bs ! i) l = eval (snd (snd (sp' ! i))) l"
    by blast
  have "eval ((b # bs) ! i) l = eval (snd (snd (((p, t, b') # sp') ! i))) l" if "i < length (b # bs)" for i l
    using that IH(4) s(3) by (cases i) simp_all
  then show ?case
    using IH(1-3) s(1) new by (intro exI [of _ "(p, t, b') # sp'"] exI [of _ ws'] exI [of _ Fs'] exI [of _ m']) (simp add: comp_def)
qed

text \<open>What the main loop sees of a task.\<close>

definition value_of :: "'v coro \<Rightarrow> 'v option" where
  "value_of c = (case c of CoReturn v \<Rightarrow> Some v | _ \<Rightarrow> None)"

lemma waiting_seen:
  assumes "waiting p t prog x S m"
  shows "task_value t m = Ret None" "task_done p m = Ret False" "result_of prog [] = Some Awaits"
proof -
  obtain ks k f where w: "hosts p t x ks m" "m_heap m x = Some f" "f_at f = AtEvent k"
    "\<forall>evs. eval prog evs = eval (plug (BEvent k) ks) evs"
    using assms unfolding waiting_def by blast
  have at: "\<exists>g. h c = Some g \<and> (\<exists>y tp k. f_at g = AtCall y tp k)"
    if "chain h x ws a" "c \<in> set (map fst ws)" for h :: "nat \<Rightarrow> ('a, 'b) frame option" and x ws a c
    using that by (induction h x ws a rule: chain.induct) auto
  have "chain (m_heap m) x (ks @ top_of p) p" using w(1) by (simp add: hosts_def)
  note at = at [OF this]
  show "task_done p m = Ret False"
    using at [of p] by (auto simp: top_of_def task_done_def at_frame_def)
  have t: "t = x \<or> t \<in> set (map fst (ks @ top_of p))"
    using w(1) last_in_set [of "x # map fst ks"] by (auto simp: hosts_def)
  then have "task_done t m = Ret False"
  proof
    assume "t \<in> set (map fst (ks @ top_of p))"
    from at [OF this] show ?thesis by (auto simp: task_done_def at_frame_def)
  qed (use w(2,3) in \<open>simp add: task_done_def at_frame_def\<close>)
  then show "task_value t m = Ret None" by (simp add: task_value_def)
  show "result_of prog [] = Some Awaits" using w(4) by (simp add: result_of_def eval_plug_waits)
qed

lemma task_seen:
  assumes "task_ok (p, t, prog) w F m"
  shows "\<exists>c. result_of prog [] = Some c \<and> task_value t m = Ret (value_of c) \<and>
    task_done p m = (if value_of c = None then Ret False else Undef)"
proof (cases w)
  case None
  then obtain v where v: "finished p t v m" "\<forall>evs. eval prog evs = Ret (CoReturn v, evs)" using assms by (auto simp: task_ok_def)
  then have "result_of prog [] = Some (CoReturn v)" by (simp add: result_of_def)
  moreover obtain f where "m_heap m p = None" "m_heap m t = Some f" "f_at f = AtFinal" "f_result f = Some v"
    using v(1) unfolding finished_def by blast
  then have "task_value t m = Ret (Some v)" "task_done p m = Undef"
    by (simp_all add: task_value_def task_done_def at_frame_def)
  moreover have "value_of (CoReturn v) = Some v" by (simp add: value_of_def)
  ultimately show ?thesis by (metis option.distinct(1))
next
  case (Some x)
  then obtain S where "waiting p t prog x S m" using assms by (auto simp: task_ok_def)
  from waiting_seen [OF this] show ?thesis by (simp add: value_of_def)
qed

lemma complete_seen:
  "(\<And>p. p \<in> set ps \<Longrightarrow> task_done p m \<in> {Ret False, Undef}) \<Longrightarrow>
   tc_complete ps m = (if \<forall>p \<in> set ps. task_done p m = Ret False then Ret (ps = [], ps, m) else Undef)"
proof (induction ps)
  case (Cons a ps)
  have "task_done a m \<in> {Ret False, Undef}" "\<forall>p \<in> set ps. task_done p m \<in> {Ret False, Undef}" using Cons.prems by simp_all
  then show ?case using Cons.IH by auto
qed simp

text \<open>The loop after some events: what the tasks give, and what \<open>complete\<close> says of the container.\<close>

lemma main_loop:
  fixes bs :: "('e, 'v) body list"
  assumes "\<forall>(i, e) \<in> set es. i < length bs" "\<forall>i < length bs. result_of (bs ! i) (events_of i es) \<noteq> None"
  shows "\<exists>tc ts ws m ws' m'. launch bs ([], [], [], m_empty) = Some (Ret (tc, ts, ws, m)) \<and>
    dispatch_all es (ws, m) = Some (Ret (ws', m')) \<and> length ts = length bs \<and>
    (\<forall>i < length bs. \<exists>c. result_of (bs ! i) (events_of i es) = Some c \<and> task_value (ts ! i) m' = Ret (value_of c)) \<and>
    tc_complete tc m' = (if \<forall>i < length bs. task_value (ts ! i) m' = Ret None then Ret (bs = [], tc, m') else Undef)"
proof -
  have "tasks_ok [] [] [] (m_empty :: ('e, 'v) machine)" by (simp add: tasks_ok_def m_empty_def machine_ok_def)
  from launch_tasks [OF this assms(2)] obtain sp ws Fs m where l:
    "launch bs ([], [], [], m_empty) = Some (Ret (map fst sp, map (fst \<circ> snd) sp, ws, m))" "tasks_ok sp ws Fs m"
    "length sp = length bs" "\<forall>i < length bs. \<forall>l. eval (bs ! i) l = eval (snd (snd (sp ! i))) l"
    by auto
  have res: "\<forall>i < length bs. \<forall>l. result_of (bs ! i) l = result_of (snd (snd (sp ! i))) l" using l(4) by (simp add: result_of_def)
  have "\<forall>(i, e) \<in> set es. i < length sp" "\<forall>i < length sp. result_of (snd (snd (sp ! i))) (events_of i es) \<noteq> None"
    using assms l(3) res by simp_all
  from tasks_interleave [OF l(2) this] obtain ws' m' sp' Fs' where d:
    "dispatch_all es (ws, m) = Some (Ret (ws', m'))" "tasks_ok sp' ws' Fs' m'" "length sp' = length sp"
    "\<forall>i < length sp. fst (sp' ! i) = fst (sp ! i) \<and> fst (snd (sp' ! i)) = fst (snd (sp ! i)) \<and>
       result_of (snd (snd (sp ! i))) (events_of i es) = result_of (snd (snd (sp' ! i))) []"
    by blast
  have seen: "\<exists>c. result_of (bs ! i) (events_of i es) = Some c \<and> task_value (map (fst \<circ> snd) sp ! i) m' = Ret (value_of c) \<and>
      task_done (map fst sp ! i) m' = (if value_of c = None then Ret False else Undef)" if i: "i < length bs" for i
  proof -
    have "task_ok (fst (sp' ! i), fst (snd (sp' ! i)), snd (snd (sp' ! i))) (ws' ! i) (Fs' ! i) m'"
      using d(2,3) l(3) i by (simp add: tasks_ok_def)
    from task_seen [OF this] show ?thesis using d(4) l(3) res i by simp
  qed
  have "tc_complete (map fst sp) m' =
      (if \<forall>p \<in> set (map fst sp). task_done p m' = Ret False then Ret (map fst sp = [], map fst sp, m') else Undef)"
  proof (rule complete_seen)
    fix p assume "p \<in> set (map fst sp)"
    then obtain i where "i < length bs" "p = map fst sp ! i" using l(3) by (metis in_set_conv_nth length_map)
    with seen [of i] show "task_done p m' \<in> {Ret False, Undef}" by (metis insert_iff)
  qed
  moreover have "(\<forall>p \<in> set (map fst sp). task_done p m' = Ret False) \<longleftrightarrow>
      (\<forall>i < length bs. task_value (map (fst \<circ> snd) sp ! i) m' = Ret None)" (is "?l \<longleftrightarrow> ?r")
  proof -
    have "?l \<longleftrightarrow> (\<forall>i < length bs. task_done (map fst sp ! i) m' = Ret False)"
      using l(3) by (metis in_set_conv_nth length_map)
    also have "\<dots> \<longleftrightarrow> ?r"
    proof (intro iff_allI imp_cong refl)
      fix i assume "i < length bs"
      from seen [OF this] show "task_done (map fst sp ! i) m' = Ret False \<longleftrightarrow> task_value (map (fst \<circ> snd) sp ! i) m' = Ret None"
        by (metis outcome.distinct(3) outcome.inject(1))
    qed
    finally show ?thesis .
  qed
  moreover have "map fst sp = [] \<longleftrightarrow> bs = []" using l(3) by (metis length_0_conv map_is_Nil_conv)
  moreover have "\<forall>i < length bs. \<exists>c. result_of (bs ! i) (events_of i es) = Some c \<and>
      task_value (map (fst \<circ> snd) sp ! i) m' = Ret (value_of c)" using seen by blast
  moreover have "length (map (fst \<circ> snd) sp) = length bs" using l(3) by simp
  ultimately show ?thesis
    using l(1) d(1)
    by (intro exI [of _ "map fst sp"] exI [of _ "map (fst \<circ> snd) sp"] exI [of _ ws] exI [of _ m] exI [of _ ws'] exI [of _ m'] conjI) (simp_all only:)
qed

definition two_bodies :: "(u32, u32) body list" where
  "two_bodies = [BCall (BEvent BReturn) (\<lambda>v. BEvent (\<lambda>e. BReturn (v + e))), BEvent (\<lambda>e. BCall (BReturn 7) BReturn)]"

lemma two_results:
  "\<forall>(i, e) \<in> set [(0, 1), (1, 1), (0, 4)]. i < length two_bodies"
  "\<forall>i < length two_bodies. result_of (two_bodies ! i) (events_of i [(0, 1), (1, 1), (0, 4)]) \<noteq> None"
  "result_of (two_bodies ! 0) (events_of 0 [(0, 1), (1, 1), (0, 4)]) = Some (CoReturn 5)"
  "\<forall>(i, e) \<in> set [(0, 1), (1, 1)]. i < length two_bodies"
  "\<forall>i < length two_bodies. result_of (two_bodies ! i) (events_of i [(0, 1), (1, 1)]) \<noteq> None"
  "result_of (two_bodies ! 1) (events_of 1 [(0, 1), (1, 1)]) = Some (CoReturn 7)" "1 < length two_bodies"
  by (simp_all add: two_bodies_def result_of_def events_of_def co_result_simps less_Suc_eq)

text \<open>
  \<open>complete\<close> is \<open>false\<close> as long as every task waits, and undefined as soon as one has returned: its top-level coroutine
  is not suspended at its end, so that the handle in the container dangles, and \<open>done()\<close> must not be called on it.
\<close>

theorem complete_undefined_after_return:
  fixes bs :: "('e, 'v) body list"
  assumes "\<forall>(i, e) \<in> set es. i < length bs" "\<forall>i < length bs. result_of (bs ! i) (events_of i es) \<noteq> None"
    and "launch bs ([], [], [], m_empty) = Some (Ret (tc, ts, ws, m))" "dispatch_all es (ws, m) = Some (Ret (ws', m'))"
  shows "tc_complete tc m' =
    (if \<forall>i < length bs. result_of (bs ! i) (events_of i es) = Some Awaits then Ret (bs = [], tc, m') else Undef)"
proof -
  have seen: "\<forall>i < length bs. \<exists>c. result_of (bs ! i) (events_of i es) = Some c \<and> task_value (ts ! i) m' = Ret (value_of c)"
    and tc: "tc_complete tc m' = (if \<forall>i < length bs. task_value (ts ! i) m' = Ret None then Ret (bs = [], tc, m') else Undef)"
    using main_loop [OF assms(1,2)] assms(3,4) by auto
  have "value_of c = None \<longleftrightarrow> c = Awaits" if "result_of (bs ! i) (events_of i es) = Some c" for i c
    using that by (cases c) (auto simp: value_of_def result_of_def split: outcome.splits if_splits)
  then have "task_value (ts ! i) m' = Ret None \<longleftrightarrow> result_of (bs ! i) (events_of i es) = Some Awaits" if "i < length bs" for i
    using seen that by (metis option.inject outcome.inject(1))
  then show ?thesis unfolding tc by simp
qed

lemma complete_undefined_after_return_witness:
  "\<exists>tc ts ws m ws' m'. launch two_bodies ([], [], [], m_empty) = Some (Ret (tc, ts, ws, m)) \<and>
     dispatch_all [(0, 1), (1, 1)] (ws, m) = Some (Ret (ws', m')) \<and> tc_complete tc m' = Undef"
proof -
  from main_loop [OF two_results(4,5)] obtain tc ts ws m ws' m' where
    r: "launch two_bodies ([], [], [], m_empty) = Some (Ret (tc, ts, ws, m))"
      "dispatch_all [(0, 1), (1, 1)] (ws, m) = Some (Ret (ws', m'))"
    by blast
  have "tc_complete tc m' = Undef"
    unfolding complete_undefined_after_return [OF two_results(4,5) r] using two_results(6,7) by fastforce
  with r show ?thesis by blast
qed

end
