(* ===== verification/Tp_Main.thy ===== *)
theory Tp_Main
  imports Tp_Task
begin

text \<open>
  The main loop of \<^verbatim>\<open>tpmux/src/mg_coro_app.cpp\<close> with its tests of \<open>TaskContainer::complete\<close>, over the machine of
  theory \<open>Tp_Task\<close>.
\<close>

text \<open>
  The loop of \<open>tpmux_main\<close>, once per element of \<open>waits\<close>: what a call of \<open>epoll_wait\<close> gives, an error, which the loop
  passes over, or events. The result says whether the loop has ended; it has not when it is blocked in \<open>epoll_wait\<close>.
\<close>

fun serve :: "(int + (nat \<times> 'e) list) list \<Rightarrow> task_container \<times> nat option list \<times> ('e, 'v) machine \<Rightarrow>
    (bool \<times> task_container \<times> nat option list \<times> ('e, 'v) machine) outcome option" where
  "serve waits (tc, ws, m) =
     (case tc_complete tc m of
        Throw e \<Rightarrow> Some (Throw e)
      | Undef \<Rightarrow> Some Undef
      | Ret (True, tc1, m1) \<Rightarrow> Some (Ret (True, tc1, ws, m1))
      | Ret (False, tc1, m1) \<Rightarrow>
          (case waits of
             [] \<Rightarrow> Some (Ret (False, tc1, ws, m1))
           | Inl e # waits1 \<Rightarrow> serve waits1 (tc1, ws, m1)
           | Inr es # waits1 \<Rightarrow>
               (case dispatch_all es (ws, m1) of
                  None \<Rightarrow> None
                | Some (Throw e) \<Rightarrow> Some (Throw e)
                | Some Undef \<Rightarrow> Some Undef
                | Some (Ret (ws2, m2)) \<Rightarrow> serve waits1 (tc1, ws2, m2))))"

declare serve.simps [simp del]

definition tpmux_run :: "('e, 'v) body list \<Rightarrow> (int + (nat \<times> 'e) list) list \<Rightarrow>
    (bool \<times> task_container \<times> nat option list \<times> ('e, 'v) machine) outcome option" where
  "tpmux_run bs waits =
     (case launch bs ([], [], [], m_empty) of
        None \<Rightarrow> None
      | Some (Throw e) \<Rightarrow> Some (Throw e)
      | Some Undef \<Rightarrow> Some Undef
      | Some (Ret (tc, ts, ws, m)) \<Rightarrow> serve waits (tc, ws, m))"

text \<open>The events that have come with some calls of \<open>epoll_wait\<close>, and that all tasks wait after them.\<close>

definition came :: "(int + (nat \<times> 'e) list) list \<Rightarrow> (nat \<times> 'e) list" where
  "came waits = concat (map (\<lambda>w. case w of Inl e \<Rightarrow> [] | Inr es \<Rightarrow> es) waits)"

definition all_wait :: "('e, 'v) body list \<Rightarrow> (nat \<times> 'e) list \<Rightarrow> bool" where
  "all_wait bs es \<longleftrightarrow> (\<forall>i < length bs. result_of (bs ! i) (events_of i es) = Some Awaits)"

text \<open>
  \<open>sound\<close>: the events are for tasks of the program, none of which throws or does something undefined. \<open>prompt\<close>: none of
  them comes for a task that has returned with an earlier one.
\<close>

definition sound :: "('e, 'v) body list \<Rightarrow> (nat \<times> 'e) list \<Rightarrow> bool" where
  "sound bs es \<longleftrightarrow> (\<forall>(i, e) \<in> set es. i < length bs) \<and> (\<forall>i < length bs. ends (bs ! i) (events_of i es))"

definition prompt :: "('e, 'v) body list \<Rightarrow> (nat \<times> 'e) list \<Rightarrow> bool" where
  "prompt bs es \<longleftrightarrow> (\<forall>i < length bs. result_of (bs ! i) (events_of i es) \<noteq> None)"

lemma all_wait_prompt: "all_wait bs es \<Longrightarrow> prompt bs es"
  by (simp add: all_wait_def prompt_def)

lemma came_simps [simp]:
  "came [] = []" "came (Inl e # waits) = came waits" "came (Inr es # waits) = es @ came waits"
  by (simp_all add: came_def)

lemma dispatch_all_append:
  "dispatch_all es s = Some (Ret s1) \<Longrightarrow> dispatch_all (es @ es1) s = dispatch_all es1 s1"
  by (induction es arbitrary: s) (auto split: option.splits outcome.splits)

lemma ball_nth: "(\<forall>p \<in> set (map f xs). P p) \<longleftrightarrow> (\<forall>i < length xs. P (f (xs ! i)))"
  by (simp add: all_set_conv_all_nth)

lemma complete_after:
  fixes ts :: "('e, 'v) spec list"
  assumes "tasks_ok ts ws Fs m" "sound (map (snd \<circ> snd) ts) es" "prompt (map (snd \<circ> snd) ts) es"
  obtains ws' m' where "dispatch_all es (ws, m) = Some (Ret (ws', m'))"
    "tc_complete (map fst ts) m' = (if all_wait (map (snd \<circ> snd) ts) es then Ret (ts = [], map fst ts, m') else Undef)"
proof -
  have "\<forall>(i, e) \<in> set es. i < length ts" "\<forall>i < length ts. result_of (snd (snd (ts ! i))) (events_of i es) \<noteq> None"
    using assms(2,3) by (simp_all add: sound_def prompt_def)
  from tasks_interleave [OF assms(1) this] obtain ws' m' ts' Fs' where d:
    "dispatch_all es (ws, m) = Some (Ret (ws', m'))" "tasks_ok ts' ws' Fs' m'" "length ts' = length ts"
    "\<forall>i < length ts. fst (ts' ! i) = fst (ts ! i) \<and> fst (snd (ts' ! i)) = fst (snd (ts ! i)) \<and>
       result_of (snd (snd (ts ! i))) (events_of i es) = result_of (snd (snd (ts' ! i))) []"
    by blast
  have done_iff: "task_done (fst (ts ! i)) m' =
      (if result_of (snd (snd (ts ! i))) (events_of i es) = Some Awaits then Ret False else Undef)" if i: "i < length ts" for i
  proof -
    have "task_ok (fst (ts' ! i), fst (snd (ts' ! i)), snd (snd (ts' ! i))) (ws' ! i) (Fs' ! i) m'"
      using d(2,3) i by (simp add: tasks_ok_def)
    from task_seen [OF this] obtain c where c: "result_of (snd (snd (ts ! i))) (events_of i es) = Some c"
      "task_done (fst (ts ! i)) m' = (if value_of c = None then Ret False else Undef)"
      using d(4) i by auto
    have "value_of c = None \<longleftrightarrow> c = Awaits"
      using c(1) by (cases c) (auto simp: value_of_def result_of_def split: outcome.splits if_splits)
    then show ?thesis using c by simp
  qed
  have "\<forall>p \<in> set (map fst ts). task_done p m' \<in> {Ret False, Undef}" unfolding ball_nth using done_iff by simp
  then have "tc_complete (map fst ts) m' =
      (if \<forall>p \<in> set (map fst ts). task_done p m' = Ret False then Ret (map fst ts = [], map fst ts, m') else Undef)"
    by (intro complete_seen) blast
  moreover have "(\<forall>p \<in> set (map fst ts). task_done p m' = Ret False) \<longleftrightarrow> all_wait (map (snd \<circ> snd) ts) es"
    unfolding ball_nth using done_iff by (auto simp: all_wait_def)
  ultimately show thesis using that d(1) by simp
qed

lemma dispatch_stale:
  assumes "tasks_ok ts ws Fs m" "sound (map (snd \<circ> snd) ts) es" "\<not> prompt (map (snd \<circ> snd) ts) es"
  shows "dispatch_all es (ws, m) = Some Undef"
proof -
  have "\<forall>(i, e) \<in> set es. i < length ts" "\<forall>i < length ts. ends (snd (snd (ts ! i))) (events_of i es)"
    using assms(2) by (simp_all add: sound_def)
  from tasks_interleave_or_stale [OF assms(1) this] show ?thesis
    using assms(3) by (auto simp: prompt_def split: if_splits)
qed

lemma complete_at:
  assumes "tasks_ok ts ws Fs m" "sound (map (snd \<circ> snd) ts) es" "dispatch_all es (ws, m) = Some (Ret (ws', m'))"
  shows "tc_complete (map fst ts) m' = (if all_wait (map (snd \<circ> snd) ts) es then Ret (ts = [], map fst ts, m') else Undef)"
proof -
  have "prompt (map (snd \<circ> snd) ts) es" using dispatch_stale [OF assms(1,2)] assms(3) by auto
  show ?thesis by (rule complete_after [OF assms(1,2) \<open>prompt _ _\<close>]) (simp add: assms(3))
qed

lemma all_le_Suc: "(\<forall>n \<le> Suc k. R n) \<longleftrightarrow> R 0 \<and> (\<forall>n \<le> k. R (Suc n))"
proof safe
  fix n assume "R 0" "\<forall>n \<le> k. R (Suc n)" "n \<le> Suc k"
  then show "R n" by (cases n) simp_all
qed simp_all

lemma serve_from:
  fixes ts :: "('e, 'v) spec list"
  assumes "tasks_ok ts ws0 Fs m0" "ts \<noteq> []"
  shows "\<forall>n \<le> length waits. sound (map (snd \<circ> snd) ts) (es @ came (take n waits)) \<Longrightarrow>
    dispatch_all es (ws0, m0) = Some (Ret (ws, m)) \<Longrightarrow>
    if \<forall>n \<le> length waits. all_wait (map (snd \<circ> snd) ts) (es @ came (take n waits))
    then \<exists>ws' m'. serve waits (map fst ts, ws, m) = Some (Ret (False, map fst ts, ws', m')) \<and>
      dispatch_all (es @ came waits) (ws0, m0) = Some (Ret (ws', m'))
    else serve waits (map fst ts, ws, m) = Some Undef"
proof (induction waits arbitrary: es ws m)
  case Nil
  then have "sound (map (snd \<circ> snd) ts) es" by (simp add: comp_def)
  from complete_at [OF assms(1) this Nil.prems(2)] show ?case using assms(2) Nil.prems(2) by (simp add: serve.simps comp_def)
next
  case (Cons w waits)
  let ?P = "\<lambda>es. all_wait (map (snd \<circ> snd) ts) es" and ?S = "\<lambda>es. sound (map (snd \<circ> snd) ts) es"
  define es1 where "es1 = came [w]"
  have came: "came (take (Suc n) (w # waits)) = es1 @ came (take n waits)" for n by (cases w) (simp_all add: es1_def)
  have split: "(\<forall>n \<le> length (w # waits). Q (es @ came (take n (w # waits)))) \<longleftrightarrow>
      Q es \<and> (\<forall>n \<le> length waits. Q ((es @ es1) @ came (take n waits)))" for Q
  proof -
    have "(\<forall>n \<le> length (w # waits). R n) \<longleftrightarrow> R 0 \<and> (\<forall>n \<le> length waits. R (Suc n))" for R
      by (auto simp: all_le_Suc)
    then show ?thesis by (simp only: came) (simp only: take0 came_simps append_Nil2 append_assoc)
  qed
  note S = Cons.prems(1) [unfolded split] and P = split [of ?P]
  have c: "tc_complete (map fst ts) m = (if ?P es then Ret (False, map fst ts, m) else Undef)"
    using complete_at [OF assms(1) conjunct1 [OF S] Cons.prems(2)] assms(2) by simp
  show ?case
  proof (cases "?P es")
    case False
    then show ?thesis using c unfolding P by (simp add: serve.simps)
  next
    case True
    have S1: "?S (es @ es1)" using conjunct2 [OF S] by (force dest: spec [of _ 0])
    show ?thesis
    proof (cases "prompt (map (snd \<circ> snd) ts) (es @ es1)")
      case prompt: True
      from complete_after [OF assms(1) S1 this] obtain ws2 m2 where d: "dispatch_all (es @ es1) (ws0, m0) = Some (Ret (ws2, m2))" .
      then have "dispatch_all es1 (ws, m) = Some (Ret (ws2, m2))" using dispatch_all_append [OF Cons.prems(2)] by simp
      then have "serve (w # waits) (map fst ts, ws, m) = serve waits (map fst ts, ws2, m2)"
        using True c by (cases w) (simp_all add: serve.simps [of "w # waits"] serve.simps [of "Inl _ # waits"] serve.simps [of "Inr _ # waits"] es1_def)
      moreover have "(es @ es1) @ came waits = es @ came (w # waits)" using came [of "length waits"] by simp
      ultimately show ?thesis using Cons.IH [OF conjunct2 [OF S] d] True unfolding P by (simp add: comp_def split: if_splits)
    next
      case late: False
      have "dispatch_all es1 (ws, m) = Some Undef"
        using dispatch_stale [OF assms(1) S1 late] dispatch_all_append [OF Cons.prems(2)] by simp
      moreover have "\<exists>es2. w = Inr es2 \<and> es2 = es1" using late True all_wait_prompt by (cases w) (auto simp: es1_def)
      ultimately have "serve (w # waits) (map fst ts, ws, m) = Some Undef" using True c by (auto simp: serve.simps [of "Inr _ # waits"])
      moreover have "\<not> (\<forall>n \<le> length waits. ?P ((es @ es1) @ came (take n waits)))"
        using late all_wait_prompt by (force dest: spec [of _ 0])
      ultimately show ?thesis unfolding P by simp
    qed
  qed
qed

lemma tpmux_from:
  fixes bs :: "('e, 'v) body list"
  assumes "bs \<noteq> []" "\<forall>n \<le> length waits. sound bs (came (take n waits))"
  shows "\<exists>tc ts ws m. launch bs ([], [], [], m_empty) = Some (Ret (tc, ts, ws, m)) \<and>
    (if \<forall>n \<le> length waits. all_wait bs (came (take n waits))
     then \<exists>ws' m'. tpmux_run bs waits = Some (Ret (False, tc, ws', m')) \<and> dispatch_all (came waits) (ws, m) = Some (Ret (ws', m'))
     else tpmux_run bs waits = Some Undef) \<and>
    (\<forall>es. sound bs es \<longrightarrow> \<not> prompt bs es \<longrightarrow> dispatch_all es (ws, m) = Some Undef)"
proof -
  have "tasks_ok [] [] [] (m_empty :: ('e, 'v) machine)" by (simp add: tasks_ok_def m_empty_def machine_ok_def)
  moreover have "\<forall>i < length bs. ends (bs ! i) (events_of i [])"
    using assms(2) by (force simp: sound_def dest: spec [of _ 0])
  then have "\<forall>i < length bs. result_of (bs ! i) [] \<noteq> None" unfolding events_of_def by (simp del: not_None_eq add: ends_start)
  ultimately obtain sp ws Fs m where l:
    "launch bs ([], [], [], m_empty) = Some (Ret (map fst sp, map (fst \<circ> snd) sp, ws, m))" "tasks_ok sp ws Fs m"
    "length sp = length bs" "\<forall>i < length bs. \<forall>l. eval (bs ! i) l = eval (snd (snd (sp ! i))) l"
    using launch_tasks [of "[]" "[]" "[]" m_empty bs "\<lambda>_. []"] by auto
  have eq: "sound (map (snd \<circ> snd) sp) es \<longleftrightarrow> sound bs es" "all_wait (map (snd \<circ> snd) sp) es \<longleftrightarrow> all_wait bs es"
      "prompt (map (snd \<circ> snd) sp) es \<longleftrightarrow> prompt bs es" for es
    using l(3,4) by (simp_all add: sound_def all_wait_def prompt_def ends_def result_of_def)
  have "sp \<noteq> []" using l(3) assms(1) by auto
  note run = serve_from [OF l(2) this, of waits "[]" ws m] and stale = dispatch_stale [OF l(2)]
  show ?thesis using run stale assms(2) unfolding eq by (auto simp: tpmux_run_def l(1) split: if_splits)
qed

text \<open>C5. Whatever the order in which the events of several tasks come, the loop goes on as long as all of them wait.
  After the events of the call of \<open>epoll_wait\<close> with which the first of them return, each task is where it would
  be if it had run alone and been given its own events: it has returned the same value, or still waits. If one of those
  events is for a task that an earlier one has made return, what it does is undefined.\<close>

theorem tasks_run_alone:
  fixes bs :: "('e, 'v) body list"
  assumes "bs \<noteq> []" "\<forall>n \<le> length waits. sound bs (came (take n waits)) \<and> all_wait bs (came (take n waits))"
    and "sound bs (came waits @ es)"
  shows "\<exists>tc ts ws0 m0 ws m. launch bs ([], [], [], m_empty) = Some (Ret (tc, ts, ws0, m0)) \<and> length ts = length bs \<and>
    tpmux_run bs waits = Some (Ret (False, tc, ws, m)) \<and>
    (if prompt bs (came waits @ es)
     then \<exists>ws' m'. dispatch_all es (ws, m) = Some (Ret (ws', m')) \<and>
       (\<forall>i < length bs. \<exists>c. result_of (bs ! i) (events_of i (came waits @ es)) = Some c \<and> task_value (ts ! i) m' = Ret (value_of c))
     else dispatch_all es (ws, m) = Some Undef)"
proof -
  obtain tc ts ws0 m0 ws m where r: "launch bs ([], [], [], m_empty) = Some (Ret (tc, ts, ws0, m0))"
    "tpmux_run bs waits = Some (Ret (False, tc, ws, m))" "dispatch_all (came waits) (ws0, m0) = Some (Ret (ws, m))"
    "\<not> prompt bs (came waits @ es) \<longrightarrow> dispatch_all (came waits @ es) (ws0, m0) = Some Undef"
    using tpmux_from [OF assms(1), of waits] assms(2,3) by auto
  note app = dispatch_all_append [OF r(3), of es]
  have idx: "\<forall>(i, e) \<in> set (came waits @ es). i < length bs" "\<forall>(i, e) \<in> set (came waits). i < length bs"
    "\<forall>i < length bs. result_of (bs ! i) (events_of i (came waits)) \<noteq> None"
    using assms(2) [rule_format, of "length waits"] assms(3) by (auto simp: sound_def all_wait_def)
  have len: "length ts = length bs" using main_loop [OF idx(2,3)] r(1) by auto
  show ?thesis
  proof (cases "prompt bs (came waits @ es)")
    case True
    then have "\<forall>i < length bs. result_of (bs ! i) (events_of i (came waits @ es)) \<noteq> None" unfolding prompt_def .
    from main_loop [OF idx(1) this] r(1) app show ?thesis using r(2) len True by auto
  next
    case False
    then show ?thesis using r len app by auto
  qed
qed

text \<open>C28. 
  The program does not end. Its loop, over any calls of \<open>epoll_wait\<close>, failing ones included, waits for more events as
  long as every task has waited after each of them; once a task has returned, the next test of \<open>complete\<close> is
  undefined, because the top-level coroutine is not suspended at its end and the handle in the container dangles.
\<close>

theorem main_loop_never_ends:
  fixes bs :: "('e, 'v) body list"
  assumes "bs \<noteq> []" "\<forall>n \<le> length waits. sound bs (came (take n waits))"
  shows "if \<forall>n \<le> length waits. all_wait bs (came (take n waits))
    then \<exists>tc ws m. tpmux_run bs waits = Some (Ret (False, tc, ws, m)) else tpmux_run bs waits = Some Undef"
  using tpmux_from [OF assms] by (auto split: if_splits)

lemma two_waits:
  "sound two_bodies []" "sound two_bodies [(0, 1)]" "sound two_bodies [(0, 1), (1, 1)]" "sound two_bodies [(0, 1), (1, 1), (1, 4)]"
  "all_wait two_bodies []" "all_wait two_bodies [(0, 1)]" "\<not> all_wait two_bodies [(0, 1), (1, 1)]"
  "\<not> prompt two_bodies [(0, 1), (1, 1), (1, 4)]" "sound two_bodies [(0, 1), (1, 1), (0, 4)]" "prompt two_bodies [(0, 1), (1, 1), (0, 4)]"
  by (simp_all add: sound_def prompt_def ends_def all_wait_def two_bodies_def result_of_def events_of_def co_result_simps less_Suc_eq)

text \<open>In the last call both tasks get an event: the second returns, and the first does with its second one. A second event
  for the second task would go to an awaiter that is gone.\<close>

lemma tasks_run_alone_witness:
  "\<exists>tc ts ws0 m0 ws m ws' m'. launch two_bodies ([], [], [], m_empty) = Some (Ret (tc, ts, ws0, m0)) \<and>
     tpmux_run two_bodies [Inl 4, Inr [(0, 1)]] = Some (Ret (False, tc, ws, m)) \<and>
     dispatch_all [(1, 1), (0, 4)] (ws, m) = Some (Ret (ws', m')) \<and> task_value (ts ! 0) m' = Ret (Some 5) \<and>
     dispatch_all [(1, 1), (1, 4)] (ws, m) = Some Undef"
proof -
  have ne: "two_bodies \<noteq> []" "0 < length two_bodies" by (simp_all add: two_bodies_def)
  have w: "\<forall>n \<le> length [Inl 4, Inr [(0, 1)]]. sound two_bodies (came (take n [Inl 4, Inr [(0, 1)]])) \<and>
      all_wait two_bodies (came (take n [Inl 4, Inr [(0, 1)]]))"
    using two_waits by (simp add: all_le_Suc)
  have "sound two_bodies (came [Inl 4, Inr [(0, 1)]] @ [(1, 1), (0, 4)])" using two_waits by simp
  from tasks_run_alone [OF ne(1) w this] two_waits(10) obtain tc ts ws0 m0 ws m ws' m' where
    r: "launch two_bodies ([], [], [], m_empty) = Some (Ret (tc, ts, ws0, m0))"
      "tpmux_run two_bodies [Inl 4, Inr [(0, 1)]] = Some (Ret (False, tc, ws, m))"
      "dispatch_all [(1, 1), (0, 4)] (ws, m) = Some (Ret (ws', m'))"
      "\<forall>i < length two_bodies. \<exists>c. result_of (two_bodies ! i) (events_of i [(0, 1), (1, 1), (0, 4)]) = Some c \<and>
         task_value (ts ! i) m' = Ret (value_of c)"
    by auto
  have "sound two_bodies (came [Inl 4, Inr [(0, 1)]] @ [(1, 1), (1, 4)])" using two_waits by simp
  from tasks_run_alone [OF ne(1) w this] two_waits(8) r(2) have "dispatch_all [(1, 1), (1, 4)] (ws, m) = Some Undef" by auto
  moreover from r(4) ne(2) two_results(3) have "task_value (ts ! 0) m' = Ret (Some 5)" by (fastforce simp: value_of_def)
  ultimately show ?thesis using r(1-3) by blast
qed

lemma main_loop_never_ends_witness:
  "(\<exists>tc ws m. tpmux_run two_bodies [Inr [(0, 1)], Inl 4] = Some (Ret (False, tc, ws, m))) \<and>
   tpmux_run two_bodies [Inr [(0, 1)], Inl 4, Inr [(1, 1)]] = Some Undef"
proof -
  have "two_bodies \<noteq> []" by (simp add: two_bodies_def)
  note m = main_loop_never_ends [OF this]
  show ?thesis
    using m [of "[Inr [(0, 1)], Inl 4]"] m [of "[Inr [(0, 1)], Inl 4, Inr [(1, 1)]]"] two_waits
    by (simp add: all_le_Suc)
qed

end
