(* ===== verification/Krb_Base64.thy ===== *)
theory Krb_Base64
  imports Mg_Prelude
begin

unbundle bit_operations_syntax

text \<open>
  \<open>base64_encode\<close> and \<open>base64_decode\<close> of \<^verbatim>\<open>krb5/src/mg_krb5.c\<close>, which carry the tokens of a Kerberos
  handshake through q. \<open>alloc\<close> says whether \<open>malloc\<close> succeeds for a size. A store behind the end of the
  allocated buffer is \<open>Undef\<close>.
\<close>

definition base64_table :: bytes where
  "base64_table = map word_of_nat ([65..<91] @ [97..<123] @ [48..<58] @ [43, 47])"

abbreviation b64_char :: "u8 \<Rightarrow> u8" where
  "b64_char v \<equiv> base64_table ! unat v"

text \<open>Stores at \<open>pos\<close>: \<open>out\<close> is what lies before \<open>pos\<close>.\<close>

definition b64_put :: "nat \<Rightarrow> bytes \<Rightarrow> bytes \<Rightarrow> bytes outcome" where
  "b64_put cap cs out = (if length out + length cs \<le> cap then Ret (out @ cs) else Undef)"

section \<open>base64_encode\<close>

fun enc_loop :: "nat \<Rightarrow> bytes \<Rightarrow> nat \<Rightarrow> bytes \<Rightarrow> (bytes \<times> nat \<times> bytes) outcome" where
  "enc_loop cap (a # b # c # rest) line_len out =
     obind (b64_put cap [b64_char (drop_bit 2 a), b64_char (push_bit 4 (a AND 3) OR drop_bit 4 b),
                         b64_char (push_bit 2 (b AND 15) OR drop_bit 6 c), b64_char (c AND 63)] out) (\<lambda>out1.
       if 72 \<le> line_len + 4 then obind (b64_put cap [10] out1) (enc_loop cap rest 0)
       else enc_loop cap rest (line_len + 4) out1)"
| "enc_loop cap rest line_len out = Ret (rest, line_len, out)"

definition enc_tail :: "nat \<Rightarrow> bytes \<times> nat \<times> bytes \<Rightarrow> (nat \<times> bytes) outcome" where
  "enc_tail cap = (\<lambda>(rest, line_len, out).
     case rest of
       [] \<Rightarrow> Ret (line_len, out)
     | [a] \<Rightarrow> obind (b64_put cap [b64_char (drop_bit 2 a), b64_char (push_bit 4 (a AND 3)), 61, 61] out)
                (\<lambda>out1. Ret (line_len + 4, out1))
     | a # b # _ \<Rightarrow> obind (b64_put cap [b64_char (drop_bit 2 a), b64_char (push_bit 4 (a AND 3) OR drop_bit 4 b),
                                       b64_char (push_bit 2 (b AND 15)), 61] out)
                (\<lambda>out1. Ret (line_len + 4, out1)))"

text \<open>The last line feed, and the terminator, which is not counted in \<open>out_len\<close>.\<close>

definition enc_end :: "nat \<Rightarrow> nat \<times> bytes \<Rightarrow> bytes outcome" where
  "enc_end cap = (\<lambda>(line_len, out).
     obind (if line_len \<noteq> 0 then b64_put cap [10] out else Ret out) (\<lambda>out1.
     obind (b64_put cap [0] out1) (\<lambda>_. Ret out1)))"

definition b64_olen :: "u64 \<Rightarrow> u64" where
  "b64_olen len = (let olen = len * 4 div 3 + 4 in olen + olen div 72 + 1)"

definition base64_encode :: "(u64 \<Rightarrow> bool) \<Rightarrow> bytes \<Rightarrow> bytes option outcome" where
  "base64_encode alloc src =
     (let len = word_of_nat (length src); olen = b64_olen len
      in if olen < len then Ret None
         else if \<not> alloc olen then Ret None
         else obind (enc_loop (unat olen) src 0 []) (\<lambda>s.
              obind (enc_tail (unat olen) s) (\<lambda>s1.
              obind (enc_end (unat olen) s1) (\<lambda>out. Ret (Some out)))))"

section \<open>base64_decode\<close>

definition dtable :: "u8 \<Rightarrow> u8" where
  "dtable = (foldl (\<lambda>d i. d(base64_table ! i := word_of_nat i)) (\<lambda>_. 128) [0..<length base64_table]) (61 := 0)"

definition b64_block :: "u8 list \<Rightarrow> bytes" where
  "b64_block block =
     [push_bit 2 (block ! 0) OR drop_bit 4 (block ! 1), push_bit 4 (block ! 1) OR drop_bit 2 (block ! 2),
      push_bit 6 (block ! 2) OR block ! 3]"

text \<open>\<open>block\<close> holds the first \<open>count\<close> entries of the array of that name.\<close>

fun dec_loop :: "nat \<Rightarrow> bytes \<Rightarrow> u8 list \<Rightarrow> nat \<Rightarrow> bytes \<Rightarrow> bytes option outcome" where
  "dec_loop cap [] block pad out = Ret (Some out)"
| "dec_loop cap (c # cs) block pad out =
     (let tmp = dtable c; pad1 = (if c = 61 then pad + 1 else pad); block1 = block @ [tmp]
      in if tmp = 128 then dec_loop cap cs block pad out
         else if length block1 = 4
         then obind (b64_put cap (b64_block block1) out) (\<lambda>out1.
                if pad1 \<noteq> 0
                then if pad1 = 1 then Ret (Some (take (length out1 - 1) out1))
                     else if pad1 = 2 then Ret (Some (take (length out1 - 2) out1))
                     else Ret None
                else dec_loop cap cs [] pad1 out1)
         else dec_loop cap cs block1 pad1 out)"

definition base64_decode :: "(u64 \<Rightarrow> bool) \<Rightarrow> bytes \<Rightarrow> bytes option outcome" where
  "base64_decode alloc src =
     (let count = length (filter (\<lambda>c. dtable c \<noteq> 128) src)
      in if count = 0 \<or> count mod 4 \<noteq> 0 then Ret None
         else let olen = count div 4 * 3
              in if \<not> alloc (word_of_nat olen) then Ret None else dec_loop olen src [] 0 [])"

section \<open>The text\<close>

text \<open>The encoding of RFC 1341: groups of four characters, in lines of 72.\<close>

fun b64_chars :: "bytes \<Rightarrow> bytes" where
  "b64_chars (a # b # c # rest) =
     [b64_char (drop_bit 2 a), b64_char (push_bit 4 (a AND 3) OR drop_bit 4 b),
      b64_char (push_bit 2 (b AND 15) OR drop_bit 6 c), b64_char (c AND 63)] @ b64_chars rest"
| "b64_chars [a, b] =
     [b64_char (drop_bit 2 a), b64_char (push_bit 4 (a AND 3) OR drop_bit 4 b), b64_char (push_bit 2 (b AND 15)), 61]"
| "b64_chars [a] = [b64_char (drop_bit 2 a), b64_char (push_bit 4 (a AND 3)), 61, 61]"
| "b64_chars [] = []"

function b64_lines :: "bytes \<Rightarrow> bytes" where
  "b64_lines cs = (if cs = [] then [] else take 72 cs @ 10 # b64_lines (drop 72 cs))"
  by auto
termination by (relation "measure length") auto

declare b64_lines.simps [simp del]

lemma b64_lines_simps:
  "b64_lines [] = []"
  "cs \<noteq> [] \<Longrightarrow> b64_lines cs = take 72 cs @ 10 # b64_lines (drop 72 cs)"
  by (subst b64_lines.simps; simp)+

text \<open>What is still to be written when the line has \<open>n\<close> characters.\<close>

definition b64_rest :: "nat \<Rightarrow> bytes \<Rightarrow> bytes" where
  "b64_rest n cs = (if n = 0 \<and> cs = [] then [] else take (72 - n) cs @ 10 # b64_lines (drop (72 - n) cs))"

lemma b64_rest_0: "b64_rest 0 cs = b64_lines cs"
  by (simp add: b64_rest_def b64_lines_simps)

lemma b64_rest_step:
  assumes "n + 4 \<le> 72" "length q = 4"
  shows "b64_rest n (q @ cs) = (if 72 \<le> n + 4 then q @ 10 # b64_rest 0 cs else q @ b64_rest (n + 4) cs)"
proof (cases "n = 68")
  case True
  then show ?thesis using assms by (auto simp: b64_rest_0) (auto simp: b64_rest_def)
next
  case False
  then have "72 - n = Suc (Suc (Suc (Suc (72 - (n + 4)))))" "n + 4 < 72" using assms(1) by simp_all
  then show ?thesis using assms(2) by (auto simp: b64_rest_def)
qed

lemma length_b64_chars: "length (b64_chars bs) = (length bs + 2) div 3 * 4"
proof (induction bs rule: b64_chars.induct)
  case (1 a b c rest)
  have "(length (a # b # c # rest) + 2) div 3 = (length rest + 2) div 3 + 1" by simp
  with 1 show ?case by (simp del: add_2_eq_Suc')
qed simp_all

lemma length_b64_lines: "length (b64_lines cs) = length cs + (length cs + 71) div 72"
proof (induction cs rule: b64_lines.induct)
  case (1 cs)
  show ?case
  proof (cases "cs = []")
    case False
    then have "length (b64_lines cs) = length (take 72 cs) + 1 + (length (drop 72 cs) + (length (drop 72 cs) + 71) div 72)"
      using "1.IH" by (simp add: b64_lines_simps)
    also have "\<dots> = length cs + (length cs + 71) div 72"
    proof (cases "72 \<le> length cs")
      case True
      then obtain k where "length cs = 72 + k" using le_Suc_ex by blast
      then show ?thesis by simp
    next
      case False
      moreover have "1 \<le> length cs" using \<open>cs \<noteq> []\<close> by (cases cs) simp_all
      ultimately have "(length cs + 71) div 72 = 1" by (intro div_nat_eqI) simp_all
      then show ?thesis using False by simp
    qed
    finally show ?thesis .
  qed (simp add: b64_lines_simps)
qed

lemma tail_fits:
  assumes "n \<le> 68"
  shows "take (72 - n) (b64_chars [a]) = b64_chars [a]" "drop (72 - n) (b64_chars [a]) = []"
    "take (72 - n) (b64_chars [a, b]) = b64_chars [a, b]" "drop (72 - n) (b64_chars [a, b]) = []"
  using assms by simp_all

lemma enc_from:
  assumes "n + 4 \<le> 72" "4 dvd n" "length out + length (b64_rest n (b64_chars bs)) + 1 \<le> cap"
  shows "obind (enc_loop cap bs n out) (\<lambda>s. obind (enc_tail cap s) (enc_end cap)) = Ret (out @ b64_rest n (b64_chars bs))"
  using assms
proof (induction cap bs n out rule: enc_loop.induct)
  case (1 cap a b c rest n out)
  define q where "q = [b64_char (drop_bit 2 a), b64_char (push_bit 4 (a AND 3) OR drop_bit 4 b),
    b64_char (push_bit 2 (b AND 15) OR drop_bit 6 c), b64_char (c AND 63)]"
  have q: "length q = 4" "b64_chars (a # b # c # rest) = q @ b64_chars rest" by (simp_all add: q_def)
  note st = b64_rest_step [OF "1.prems"(1) q(1), of "b64_chars rest"]
  have len: "length out + length (b64_rest n (q @ b64_chars rest)) + 1 \<le> cap" using "1.prems"(3) unfolding q(2) .
  have "b64_put cap q out = Ret (out @ q)" using len q(1) st by (auto simp: b64_put_def split: if_splits)
  note put = this
  note IH = "1.IH" [folded q_def]
  show ?case
  proof (cases "72 \<le> n + 4")
    case True
    have "b64_put cap [10] (out @ q) = Ret (out @ q @ [10])"
      using len q(1) st True by (simp add: b64_put_def)
    moreover have "obind (enc_loop cap rest 0 (out @ q @ [10])) (\<lambda>s. obind (enc_tail cap s) (enc_end cap)) =
        Ret ((out @ q @ [10]) @ b64_rest 0 (b64_chars rest))"
      by (rule IH(1) [OF put]) (use len q(1) st True calculation in simp_all)
    ultimately show ?thesis using put True unfolding q(2) st enc_loop.simps(1) q_def [symmetric] by (simp add: obind_assoc)
  next
    case False
    have "\<not> n + 4 \<le> 68 \<Longrightarrow> False" using False "1.prems"(2) by presburger
    then have "obind (enc_loop cap rest (n + 4) (out @ q)) (\<lambda>s. obind (enc_tail cap s) (enc_end cap)) =
        Ret ((out @ q) @ b64_rest (n + 4) (b64_chars rest))"
      using "1.prems"(2) len q(1) st False by (intro IH(2) [OF put]) auto
    then show ?thesis using put False unfolding q(2) st enc_loop.simps(1) q_def [symmetric] by (simp add: obind_assoc)
  qed
next
  case "2_1"
  then show ?case by (auto simp: enc_tail_def enc_end_def b64_put_def b64_rest_def b64_lines_simps)
next
  case "2_2"
  then show ?case by (simp add: tail_fits enc_tail_def enc_end_def b64_put_def b64_rest_def b64_lines_simps)
next
  case "2_3"
  then show ?case by (simp add: tail_fits enc_tail_def enc_end_def b64_put_def b64_rest_def b64_lines_simps)
qed

lemma unat_b64_olen:
  "unat (b64_olen (word_of_nat l)) =
     (let y = l * 4 mod 2 ^ 64 div 3 + 4 in y + y div 72 + 1)"
proof -
  define x where "x = l * 4 mod 2 ^ 64"
  have x: "x < 2 ^ 64" by (simp add: x_def)
  have "(word_of_nat l * 4 :: u64) = word_of_nat (l * 4)" by simp
  then have "unat (word_of_nat l * 4 :: u64) = x" unfolding x_def by (simp only: unat_of_nat) simp
  then have d: "unat (word_of_nat l * 4 div 3 :: u64) = x div 3" by (simp add: unat_div_distrib)
  have y: "unat (word_of_nat l * 4 div 3 + 4 :: u64) = x div 3 + 4"
    using x d by (subst unat_plus_nat) simp_all
  define w where "w = (word_of_nat l * 4 div 3 + 4 :: u64)"
  have w: "unat w = x div 3 + 4" using y by (simp add: w_def)
  have z: "unat (w div 72) = (x div 3 + 4) div 72" by (simp add: unat_div_distrib w)
  have yz: "unat (w + w div 72) = x div 3 + 4 + (x div 3 + 4) div 72"
    using x w z by (subst unat_plus_nat) simp_all
  then have "unat (w + w div 72 + 1) = x div 3 + 4 + (x div 3 + 4) div 72 + 1"
    using x by (subst unat_plus_nat) simp_all
  then show ?thesis by (simp add: b64_olen_def w_def x_def Let_def)
qed

text \<open>The size does not wrap around unnoticed.\<close>

lemma b64_olen_less:
  assumes "l < 2 ^ 64"
  shows "b64_olen (word_of_nat l) < word_of_nat l \<longleftrightarrow> 2 ^ 62 \<le> l"
proof -
  define x where "x = l * 4 mod 2 ^ 64"
  define y where "y = x div 3 + 4"
  have b: "x < 2 ^ 64" "3 * (y - 4) \<le> x" "x < 3 * (y - 4) + 3" "4 \<le> y" "72 * (y div 72) \<le> y"
    by (simp_all add: x_def y_def)
  have "unat (b64_olen (word_of_nat l)) = y + y div 72 + 1" by (simp add: unat_b64_olen y_def x_def Let_def)
  moreover have "unat (word_of_nat l :: u64) = l" using assms by (simp add: unat_word_of_nat64)
  moreover have "y + y div 72 + 1 < l \<longleftrightarrow> 2 ^ 62 \<le> l"
  proof (cases "2 ^ 62 \<le> l")
    case True
    define k where "k = l * 4 div 2 ^ 64"
    have k: "l * 4 = k * 2 ^ 64 + x" by (simp only: k_def x_def div_mult_mod_eq)
    have "1 \<le> k" using True b(1) k by (cases k) simp_all
    then have "2 ^ 64 + x \<le> l * 4" unfolding k by simp
    then have "y + y div 72 + 1 < l" using b by simp
    then show ?thesis using True by simp
  next
    case False
    then have "x = l * 4" by (simp add: x_def)
    then have "\<not> y + y div 72 + 1 < l" using b by linarith
    then show ?thesis using False by simp
  qed
  ultimately show ?thesis by (simp add: word_less_nat_alt)
qed

lemma base64_encode_text:
  assumes "length src < 2 ^ 64"
  shows "base64_encode alloc src =
    Ret (if length src < 2 ^ 62 \<and> alloc (b64_olen (word_of_nat (length src))) then Some (b64_lines (b64_chars src)) else None)"
proof (cases "length src < 2 ^ 62")
  case True
  let ?l = "length src" and ?olen = "b64_olen (word_of_nat (length src))"
  define y where "y = ?l * 4 div 3 + 4"
  have "?l * 4 mod 2 ^ 64 = ?l * 4" using True by simp
  then have olen: "unat ?olen = y + y div 72 + 1" by (simp add: unat_b64_olen y_def Let_def)
  define n where "n = (?l + 2) div 3 * 4"
  have n: "length (b64_chars src) = n" by (simp add: n_def length_b64_chars)
  have "n + 1 \<le> y" unfolding n_def y_def by linarith
  then have "n + (n + 71) div 72 + 1 \<le> y + y div 72 + 1"
  proof -
    have "(n + 71) div 72 \<le> (y + 70) div 72" using \<open>n + 1 \<le> y\<close> by (intro div_le_mono) simp
    also have "\<dots> \<le> y div 72 + 1" by linarith
    finally show ?thesis using \<open>n + 1 \<le> y\<close> by linarith
  qed
  then have "length (b64_rest 0 (b64_chars src)) + 1 \<le> unat ?olen"
    by (simp add: b64_rest_0 length_b64_lines n olen)
  from enc_from [of 0 "[]" src "unat ?olen"] this
  have run: "obind (enc_loop (unat ?olen) src 0 []) (\<lambda>s. obind (enc_tail (unat ?olen) s) (enc_end (unat ?olen))) =
      Ret (b64_lines (b64_chars src))"
    by (simp add: b64_rest_0)
  have "obind (enc_loop (unat ?olen) src 0 []) (\<lambda>s. obind (enc_tail (unat ?olen) s) (\<lambda>s1.
      obind (enc_end (unat ?olen) s1) (\<lambda>out. Ret (Some out)))) =
    obind (obind (enc_loop (unat ?olen) src 0 []) (\<lambda>s. obind (enc_tail (unat ?olen) s) (enc_end (unat ?olen)))) (\<lambda>out. Ret (Some out))"
    by (simp only: obind_assoc)
  also have "\<dots> = Ret (Some (b64_lines (b64_chars src)))" by (simp only: run obind.simps)
  finally show ?thesis
    using True b64_olen_less [OF assms] unfolding base64_encode_def Let_def by (simp only: if_True if_False simp_thms) simp
next
  case False
  then show ?thesis using b64_olen_less [OF assms] by (simp add: base64_encode_def)
qed

section \<open>Decoding\<close>

abbreviation b64_known :: "u8 \<Rightarrow> bool" where
  "b64_known c \<equiv> dtable c \<noteq> 128"

lemma foldl_upd:
  "distinct (map f xs) \<Longrightarrow> i \<in> set xs \<Longrightarrow> foldl (\<lambda>d i. d(f i := g i)) d xs (f i) = g i"
  "c \<notin> f ` set xs \<Longrightarrow> foldl (\<lambda>d i. d(f i := g i)) d xs c = d c"
proof (induction xs rule: rev_induct)
  case (snoc x xs)
  case 1
  then have "f i \<noteq> f x" if "i \<noteq> x" using that by (auto simp: rev_image_eqI)
  with 1 snoc.IH(1) show ?case by (cases "i = x") auto
qed auto

lemma base64_table: "distinct base64_table" "length base64_table = 64" "61 \<notin> set base64_table" "10 \<notin> set base64_table"
proof -
  define ns :: "nat list" where "ns = [65..<91] @ [97..<123] @ [48..<58] @ [43, 47]"
  have ns: "distinct ns" "\<forall>n \<in> set ns. n < 256 \<and> n \<noteq> 61 \<and> n \<noteq> 10" by (auto simp: ns_def)
  have inj: "n = k" if "(word_of_nat n :: u8) = word_of_nat k" "n < 256" "k < 256" for n k
    using that by (metis unat_u8_of_nat mod_less)
  show "distinct base64_table"
    unfolding base64_table_def distinct_map ns_def [symmetric] using ns inj by (auto intro!: inj_onI)
  show "length base64_table = 64" by (simp add: base64_table_def)
  show "61 \<notin> set base64_table" "10 \<notin> set base64_table"
    unfolding base64_table_def ns_def [symmetric] using ns(2) inj [of 61] inj [of 10] by auto
qed

lemma dtable_table: "i < 64 \<Longrightarrow> dtable (base64_table ! i) = word_of_nat i \<and> base64_table ! i \<noteq> 61"
proof -
  assume i: "i < 64"
  then have "base64_table ! i \<noteq> 61" using base64_table(2,3) by (metis nth_mem)
  moreover have "distinct (map ((!) base64_table) [0..<length base64_table])" using base64_table(1) by (simp add: map_nth)
  ultimately show ?thesis using i base64_table(2) by (simp add: dtable_def foldl_upd(1))
qed

lemma dtable_char:
  assumes "v < 64"
  shows "dtable (b64_char v) = v" "b64_char v \<noteq> 61" "dtable (b64_char v) \<noteq> 128"
proof -
  have "unat v < 64" using assms by (simp add: word_less_nat_alt)
  then have "dtable (b64_char v) = word_of_nat (unat v) \<and> b64_char v \<noteq> 61" by (rule dtable_table)
  then show v: "dtable (b64_char v) = v" "b64_char v \<noteq> 61" by simp_all
  show "dtable (b64_char v) \<noteq> 128" unfolding v(1) using assms by auto
qed

lemma dtable_other: "dtable 61 = 0" "dtable 10 = 128"
proof -
  have "10 \<notin> (!) base64_table ` set [0..<length base64_table]" using base64_table(4) by (auto simp: in_set_conv_nth)
  then show "dtable 10 = 128" by (simp add: dtable_def foldl_upd(2))
qed (simp add: dtable_def)

lemma byte_eqI:
  fixes a b :: u8
  assumes "bit a 0 = bit b 0" "bit a 1 = bit b 1" "bit a 2 = bit b 2" "bit a 3 = bit b 3"
    and "bit a 4 = bit b 4" "bit a 5 = bit b 5" "bit a 6 = bit b 6" "bit a 7 = bit b 7"
  shows "a = b"
proof (rule bit_word_eqI)
  fix n assume "n < LENGTH(8)"
  then have "n \<in> {0, 1, 2, 3, 4, 5, 6, 7}" by auto
  then show "bit a n = bit b n" using assms by blast
qed

lemma sextets:
  fixes a b c :: u8
  shows "drop_bit 2 a < 64" "push_bit 4 (a AND 3) OR drop_bit 4 b < 64" "push_bit 2 (b AND 15) OR drop_bit 6 c < 64" "c AND 63 < 64"
    "push_bit 4 (a AND 3) < 64" "push_bit 2 (b AND 15) < 64"
proof -
  have mask: "v < 64" if "take_bit 6 v = v" for v :: u8
  proof -
    have "unat v = take_bit 6 (unat v)" using that by (metis unsigned_take_bit_eq)
    also have "\<dots> < 64" using take_bit_nat_less_exp [of 6 "unat v"] by simp
    finally show ?thesis by (simp add: word_less_nat_alt)
  qed
  have high: "\<not> bit v 8" "\<not> bit v 9" "\<not> bit v 10" "\<not> bit v 11" "\<not> bit v 12" "\<not> bit v 13" for v :: u8
    using bit_imp_le_length [of v] by fastforce+
  show "drop_bit 2 a < 64" "push_bit 4 (a AND 3) OR drop_bit 4 b < 64" "push_bit 2 (b AND 15) OR drop_bit 6 c < 64" "c AND 63 < 64"
    "push_bit 4 (a AND 3) < 64" "push_bit 2 (b AND 15) < 64"
    by (rule mask; rule byte_eqI; simp add: bit_simps high)+
qed

lemma sextets_back:
  fixes a b c :: u8
  shows "push_bit 2 (drop_bit 2 a) OR drop_bit 4 (push_bit 4 (a AND 3) OR drop_bit 4 b) = a"
    "push_bit 4 (push_bit 4 (a AND 3) OR drop_bit 4 b) OR drop_bit 2 (push_bit 2 (b AND 15) OR drop_bit 6 c) = b"
    "push_bit 6 (push_bit 2 (b AND 15) OR drop_bit 6 c) OR (c AND 63) = c"
    "push_bit 2 (drop_bit 2 a) OR drop_bit 4 (push_bit 4 (a AND 3)) = a"
    "push_bit 4 (push_bit 4 (a AND 3) OR drop_bit 4 b) OR drop_bit 2 (push_bit 2 (b AND 15)) = b"
proof -
  show "push_bit 2 (drop_bit 2 a) OR drop_bit 4 (push_bit 4 (a AND 3) OR drop_bit 4 b) = a"
    "push_bit 4 (push_bit 4 (a AND 3) OR drop_bit 4 b) OR drop_bit 2 (push_bit 2 (b AND 15) OR drop_bit 6 c) = b"
    "push_bit 6 (push_bit 2 (b AND 15) OR drop_bit 6 c) OR (c AND 63) = c"
    "push_bit 2 (drop_bit 2 a) OR drop_bit 4 (push_bit 4 (a AND 3)) = a"
    "push_bit 4 (push_bit 4 (a AND 3) OR drop_bit 4 b) OR drop_bit 2 (push_bit 2 (b AND 15)) = b"
    by (rule byte_eqI; simp add: bit_simps)+
qed

text \<open>Other characters, such as the line feeds, are skipped.\<close>

lemma dec_loop_known: "dec_loop cap cs block pad out = dec_loop cap (filter b64_known cs) block pad out"
  by (induction cap cs block pad out rule: dec_loop.induct) (auto simp: Let_def intro!: obind_cong)

lemma b64_chars_known: "filter b64_known (b64_chars bs) = b64_chars bs"
proof (induction bs rule: b64_chars.induct)
  case (1 a b c rest)
  note k = sextets [THEN dtable_char(3)]
  show ?case unfolding b64_chars.simps using 1 k(1-4) by (simp del: push_bit_and)
next
  case (2 a b)
  note k = sextets [THEN dtable_char(3)]
  show ?case unfolding b64_chars.simps using k(1,2,6) dtable_other by (simp del: push_bit_and)
next
  case (3 a)
  note k = sextets [THEN dtable_char(3)]
  show ?case unfolding b64_chars.simps using k(1,5) dtable_other by (simp del: push_bit_and)
qed simp

lemma b64_lines_known: "filter b64_known (b64_lines cs) = filter b64_known cs"
proof (induction cs rule: b64_lines.induct)
  case (1 cs)
  show ?case
  proof (cases "cs = []")
    case False
    then have "filter b64_known (b64_lines cs) = filter b64_known (take 72 cs) @ filter b64_known (drop 72 cs)"
      using "1.IH" by (simp add: b64_lines_simps dtable_other)
    then show ?thesis by (simp flip: filter_append)
  qed (simp add: b64_lines_simps)
qed

lemma b64_block_list:
  "b64_block [v0, v1, v2, v3] = [push_bit 2 v0 OR drop_bit 4 v1, push_bit 4 v1 OR drop_bit 2 v2, push_bit 6 v2 OR v3]"
  by (simp add: b64_block_def)

lemma dec_block:
  assumes "v0 < 64" "v1 < 64" "length out + 3 \<le> cap"
  shows "v2 < 64 \<Longrightarrow> v3 < 64 \<Longrightarrow> dec_loop cap ([b64_char v0, b64_char v1, b64_char v2, b64_char v3] @ cs) [] 0 out = 
      dec_loop cap cs [] 0 (out @ b64_block [v0, v1, v2, v3])"
    "v2 < 64 \<Longrightarrow> dec_loop cap ([b64_char v0, b64_char v1, b64_char v2, 61] @ cs) [] 0 out =
      Ret (Some (out @ take 2 (b64_block [v0, v1, v2, 0])))"
    "dec_loop cap ([b64_char v0, b64_char v1, 61, 61] @ cs) [] 0 out = Ret (Some (out @ take 1 (b64_block [v0, v1, 0, 0])))"
proof -
  have ne: "v \<noteq> 128" if "v < 64" for v :: u8 using that by auto
  show "v2 < 64 \<Longrightarrow> v3 < 64 \<Longrightarrow> dec_loop cap ([b64_char v0, b64_char v1, b64_char v2, b64_char v3] @ cs) [] 0 out = 
      dec_loop cap cs [] 0 (out @ b64_block [v0, v1, v2, v3])"
    "v2 < 64 \<Longrightarrow> dec_loop cap ([b64_char v0, b64_char v1, b64_char v2, 61] @ cs) [] 0 out =
      Ret (Some (out @ take 2 (b64_block [v0, v1, v2, 0])))"
    "dec_loop cap ([b64_char v0, b64_char v1, 61, 61] @ cs) [] 0 out = Ret (Some (out @ take 1 (b64_block [v0, v1, 0, 0])))"
    using assms ne by (simp_all add: dtable_char dtable_other b64_put_def b64_block_list Let_def)
qed

lemma dec_chars:
  "length out + (length bs + 2) div 3 * 3 \<le> cap \<Longrightarrow> dec_loop cap (b64_chars bs) [] 0 out = Ret (Some (out @ bs))"
proof (induction bs arbitrary: out rule: b64_chars.induct)
  case (1 a b c rest)
  have "(length (a # b # c # rest) + 2) div 3 = (length rest + 2) div 3 + 1" by simp
  then have cap: "length out + 3 \<le> cap" "length (out @ [a, b, c]) + (length rest + 2) div 3 * 3 \<le> cap" using "1.prems" by simp_all
  show ?case
    unfolding b64_chars.simps dec_block(1) [OF sextets(1,2) cap(1) sextets(3,4)] b64_block_list sextets_back
    using "1.IH" [OF cap(2)] by simp
next
  case (2 a b)
  then have cap: "length out + 3 \<le> cap" by simp
  have "b64_block [drop_bit 2 a, push_bit 4 (a AND 3) OR drop_bit 4 b, push_bit 2 (b AND 15), 0] =
      [a, b, push_bit 6 (push_bit 2 (b AND 15)) OR 0]"
    by (simp only: b64_block_list sextets_back)
  then have "take 2 (b64_block [drop_bit 2 a, push_bit 4 (a AND 3) OR drop_bit 4 b, push_bit 2 (b AND 15), 0]) = [a, b]" by simp
  with dec_block(2) [OF sextets(1,2) cap sextets(6), where cs = "[]"]
  show ?case by (simp only: b64_chars.simps append.simps)
next
  case (3 a)
  then have cap: "length out + 3 \<le> cap" by simp
  have "b64_block [drop_bit 2 a, push_bit 4 (a AND 3), 0, 0] = [a, push_bit 4 (push_bit 4 (a AND 3)) OR drop_bit 2 0, push_bit 6 0 OR 0]"
    by (simp only: b64_block_list sextets_back)
  then have "take 1 (b64_block [drop_bit 2 a, push_bit 4 (a AND 3), 0, 0]) = [a]" by simp
  with dec_block(3) [OF sextets(1,5) cap, where cs = "[]"]
  show ?case by (simp only: b64_chars.simps append.simps)
qed simp

lemma dec_loop_stays:
  assumes "length block < 4" "length out + (length block + length (filter b64_known cs)) div 4 * 3 \<le> cap"
  shows "\<exists>r. dec_loop cap cs block pad out = Ret r \<and>
    (\<forall>o1. r = Some o1 \<longrightarrow> length o1 \<le> cap \<and> length out \<le> length o1 \<and>
       (4 \<le> length block + length (filter b64_known cs) \<longrightarrow> length out < length o1))"
  using assms
proof (induction cap cs block pad out rule: dec_loop.induct)
  case (1 cap block pad out)
  then show ?case by simp
next
  case (2 cap c cs block pad out)
  define pad1 where "pad1 = (if c = 61 then pad + 1 else pad)"
  define block1 where "block1 = block @ [dtable c]"
  let ?n = "length (filter b64_known cs)"
  consider "dtable c = 128" | "b64_known c" "length block1 = 4" | "b64_known c" "length block1 < 4"
    using "2.prems"(1) by (fastforce simp: block1_def)
  then show ?case
  proof cases
    case 1
    then show ?thesis using "2.IH"(1) [OF refl refl refl] "2.prems" by simp
  next
    case 2
    have b: "length block = 3" using 2(2) by (simp add: block1_def)
    have "length out + (4 + ?n) div 4 * 3 \<le> cap" using "2.prems"(2) 2(1) b by simp
    moreover have "(4 + ?n) div 4 = ?n div 4 + 1" by simp
    ultimately have le: "length out + 3 + ?n div 4 * 3 \<le> cap" by simp
    have put: "b64_put cap (b64_block block1) out = Ret (out @ b64_block block1)" "length (b64_block block1) = 3"
      using le by (simp_all add: b64_put_def b64_block_def)
    have cap: "length (out @ b64_block block1) + ?n div 4 * 3 \<le> cap" using le by (simp add: b64_block_def)
    have step: "dec_loop cap (c # cs) block pad out =
        (if pad1 \<noteq> 0 then if pad1 = 1 then Ret (Some (take (length (out @ b64_block block1) - 1) (out @ b64_block block1)))
           else if pad1 = 2 then Ret (Some (take (length (out @ b64_block block1) - 2) (out @ b64_block block1)))
           else Ret None
         else dec_loop cap cs [] pad1 (out @ b64_block block1))"
      using 2 put(1) unfolding dec_loop.simps Let_def pad1_def [symmetric] block1_def [symmetric] by simp
    show ?thesis
    proof (cases "pad1 = 0")
      case True
      note IH = "2.IH"(2) [OF refl pad1_def block1_def 2 put(1)]
      have "\<exists>r. dec_loop cap cs [] pad1 (out @ b64_block block1) = Ret r \<and>
          (\<forall>o1. r = Some o1 \<longrightarrow> length o1 \<le> cap \<and> length (out @ b64_block block1) \<le> length o1)"
        using IH True cap by auto
      then show ?thesis unfolding step using True put(2) by auto
    next
      case False
      then show ?thesis unfolding step using put(2) cap by auto
    qed
  next
    case 3
    have "dec_loop cap (c # cs) block pad out = dec_loop cap cs block1 pad1 out"
      using 3 unfolding dec_loop.simps Let_def pad1_def [symmetric] block1_def [symmetric] by simp
    moreover note IH = "2.IH"(3) [OF refl pad1_def block1_def]
    ultimately show ?thesis using IH 3 "2.prems"(2) by (simp add: block1_def)
  qed
qed

lemma base64_decode_total:
  "\<exists>r. base64_decode alloc src = Ret r \<and> (\<forall>out. r = Some out \<longrightarrow> out \<noteq> [] \<and> 4 * length out \<le> 3 * length src)"
proof -
  let ?n = "length (filter b64_known src)"
  have le: "?n \<le> length src" by simp
  show ?thesis
  proof (cases "?n = 0 \<or> ?n mod 4 \<noteq> 0 \<or> \<not> alloc (word_of_nat (?n div 4 * 3))")
    case False
    then obtain r where r: "dec_loop (?n div 4 * 3) src [] 0 [] = Ret r"
        "\<forall>out. r = Some out \<longrightarrow> length out \<le> ?n div 4 * 3 \<and> (4 \<le> ?n \<longrightarrow> 0 < length out)"
      using dec_loop_stays [of "[]" "[]" src "?n div 4 * 3" 0] by auto
    have "?n \<noteq> 0" "?n mod 4 = 0" using False by blast+
    then have n: "4 \<le> ?n" by presburger
    have "out \<noteq> [] \<and> 4 * length out \<le> 3 * length src" if "r = Some out" for out
    proof -
      have "length out \<le> ?n div 4 * 3" "0 < length out" using r(2) n that by simp_all
      moreover from this have "4 * length out \<le> 3 * length src" using le by linarith
      ultimately show ?thesis by simp
    qed
    moreover have "base64_decode alloc src = Ret r" unfolding base64_decode_def Let_def using r(1) False by (metis (no_types, lifting))
    ultimately show ?thesis by blast
  next
    case True
    then have "base64_decode alloc src = Ret None" unfolding base64_decode_def Let_def by (metis (no_types, lifting))
    then show ?thesis by simp
  qed
qed

text \<open>C29. 
  \<open>base64_decode\<close> never stores behind the buffer it has allocated, whatever the text, padding in odd
  places included; what it returns is never empty.
\<close>

theorem base64_decode_in_bounds:
  "\<exists>r. base64_decode alloc src = Ret r \<and> (\<forall>out. r = Some out \<longrightarrow> out \<noteq> [] \<and> 4 * length out \<le> 3 * length src)"
  by (rule base64_decode_total)

lemma base64_decode_in_bounds_witness:
  "\<exists>r. base64_decode (\<lambda>_. True) [81, 61, 81, 81] = Ret r \<and> (\<forall>out \<in> set_option r. out \<noteq> [] \<and> length out \<le> 3)"
  using base64_decode_in_bounds [of "\<lambda>_. True" "[81, 61, 81, 81]"] by fastforce

text \<open>C27. 
  \<open>base64_encode\<close> gives the lines of the encoding, and no store goes behind the buffer: where the
  computation of its size wraps around, which it does for exactly the lengths from \<open>2 ^ 62\<close> on, the check
  \<open>olen < len\<close> finds it.
\<close>

theorem base64_encode_spec:
  "length src < 2 ^ 64 \<Longrightarrow> base64_encode alloc src =
    Ret (if length src < 2 ^ 62 \<and> alloc (b64_olen (word_of_nat (length src))) then Some (b64_lines (b64_chars src)) else None)"
  by (rule base64_encode_text)

lemma base64_encode_spec_witness:
  "base64_encode (\<lambda>_. True) [72, 105] = Ret (Some [83, 71, 107, 61, 10])"
proof -
  have "b64_lines (b64_chars [72, 105]) = [83, 71, 107, 61, 10]" by code_simp
  with base64_encode_spec [of "[72, 105]" "\<lambda>_. True"] show ?thesis by simp
qed

lemma base64_decode_lines:
  assumes "\<forall>n. alloc n"
  shows "base64_decode alloc (b64_lines (b64_chars src)) = Ret (if src = [] then None else Some src)"
proof -
  have "filter b64_known (b64_lines (b64_chars src)) = b64_chars src"
    by (simp add: b64_lines_known b64_chars_known)
  moreover have "src \<noteq> [] \<Longrightarrow> 0 < (length src + 2) div 3" by (cases src) simp_all
  moreover have "dec_loop ((length src + 2) div 3 * 3) (b64_chars src) [] 0 [] = Ret (Some src)"
    using dec_chars [of "[]" src] by simp
  ultimately show ?thesis
    using assms dec_loop_known [of _ "b64_lines (b64_chars src)"]
    by (auto simp: base64_decode_def Let_def length_b64_chars)
qed

lemma base64_decode_encoded:
  "length src < 2 ^ 64 \<Longrightarrow> base64_encode alloc src = Ret (Some enc) \<Longrightarrow> src \<noteq> [] \<Longrightarrow> \<forall>n. alloc' n \<Longrightarrow>
   base64_decode alloc' enc = Ret (Some src)"
  by (auto simp: base64_encode_text base64_decode_lines split: if_splits)

text \<open>C18. What has been encoded decodes to the same bytes, except that the encoding of no bytes is refused.\<close>

theorem base64_roundtrip:
  assumes "length src < 2 ^ 62" "\<forall>n. alloc n"
  shows "\<exists>enc. base64_encode alloc src = Ret (Some enc) \<and>
    base64_decode alloc enc = Ret (if src = [] then None else Some src)"
  using assms by (simp add: base64_encode_text base64_decode_lines)

lemma base64_roundtrip_witness:
  "\<exists>enc. base64_encode (\<lambda>_. True) [0, 255, 16, 7] = Ret (Some enc) \<and> base64_decode (\<lambda>_. True) enc = Ret (Some [0, 255, 16, 7])"
  using base64_roundtrip [of "[0, 255, 16, 7]" "\<lambda>_. True"] by simp

end
