(* ===== verification/Krb_Gss.thy ===== *)
theory Krb_Gss
  imports Krb_Base64 "HOL-Library.Multiset"
begin

unbundle bit_operations_syntax

text \<open>
  The rest of \<^verbatim>\<open>krb5/src/mg_krb5.c\<close>: functions for q that set up a security context of GSSAPI as its
  initiator or its acceptor. The functions of GSSAPI are a parameter, the record \<open>gss_api\<close>, and act on a
  world of any type. Its handles are 64-bit words, null for the constants \<open>GSS_C_NO_...\<close>; a buffer whose
  pointer is null is \<open>None\<close>. What the functions of q take and give are \<open>K\<close> objects, as values. What is
  printed is left out of them.
\<close>

section \<open>Status codes and flags of GSSAPI\<close>

text \<open>The codes of RFC 2744.\<close>

definition GSS_S_COMPLETE :: u32 where "GSS_S_COMPLETE = 0"
definition GSS_S_CONTINUE_NEEDED :: u32 where "GSS_S_CONTINUE_NEEDED = 1"

definition GSS_CALLING_ERROR :: "u32 \<Rightarrow> u32" where
  "GSS_CALLING_ERROR x = x AND 0xFF000000"

definition GSS_ROUTINE_ERROR :: "u32 \<Rightarrow> u32" where
  "GSS_ROUTINE_ERROR x = x AND 0x00FF0000"

definition GSS_SUPPLEMENTARY_INFO :: "u32 \<Rightarrow> u32" where
  "GSS_SUPPLEMENTARY_INFO x = x AND 0x0000FFFF"

definition GSS_ERROR :: "u32 \<Rightarrow> u32" where
  "GSS_ERROR x = x AND 0xFFFF0000"

definition GSS_C_MUTUAL_FLAG :: u32 where "GSS_C_MUTUAL_FLAG = 2"
definition GSS_C_REPLAY_FLAG :: u32 where "GSS_C_REPLAY_FLAG = 4"
definition GSS_C_CONF_FLAG :: u32 where "GSS_C_CONF_FLAG = 16"
definition GSS_C_INTEG_FLAG :: u32 where "GSS_C_INTEG_FLAG = 32"
definition GSS_C_PROT_READY_FLAG :: u32 where "GSS_C_PROT_READY_FLAG = 128"

text \<open>The names \<open>mg_print_gss_error\<close> prints: it looks up the whole code, not the field it has found set.\<close>

definition calling_names :: "(u32 \<times> string) list" where
  "calling_names =
     [(0x01000000, ''GSS_S_CALL_INACCESSIBLE_READ''), (0x02000000, ''GSS_S_CALL_INACCESSIBLE_WRITE''),
      (0x03000000, ''GSS_S_CALL_BAD_STRUCTURE'')]"

definition routine_names :: "(u32 \<times> string) list" where
  "routine_names =
     [(0x00010000, ''GSS_S_BAD_MECH''), (0x00020000, ''GSS_S_BAD_NAME''), (0x00030000, ''GSS_S_BAD_NAMETYPE''),
      (0x00040000, ''GSS_S_BAD_BINDINGS''), (0x00050000, ''GSS_S_BAD_STATUS''), (0x00060000, ''GSS_S_BAD_MIC''),
      (0x00070000, ''GSS_S_NO_CRED''), (0x00080000, ''GSS_S_NO_CONTEXT''), (0x00090000, ''GSS_S_DEFECTIVE_TOKEN''),
      (0x000A0000, ''GSS_S_DEFECTIVE_CREDENTIAL''), (0x000B0000, ''GSS_S_CREDENTIALS_EXPIRED''),
      (0x000C0000, ''GSS_S_CONTEXT_EXPIRED''), (0x000D0000, ''GSS_S_FAILURE''), (0x000E0000, ''GSS_S_BAD_QOP''),
      (0x000F0000, ''GSS_S_UNAUTHORIZED''), (0x00100000, ''GSS_S_UNAVAILABLE''),
      (0x00110000, ''GSS_S_DUPLICATE_ELEMENT''), (0x00120000, ''GSS_S_NAME_NOT_MN'')]"

definition info_names :: "(u32 \<times> string) list" where
  "info_names =
     [(1, ''GSS_S_CONTINUE_NEEDED''), (2, ''GSS_S_DUPLICATE_TOKEN''), (4, ''GSS_S_OLD_TOKEN''),
      (8, ''GSS_S_UNSEQ_TOKEN''), (16, ''GSS_S_GAP_TOKEN'')]"

definition err_name :: "(u32 \<times> string) list \<Rightarrow> u32 \<Rightarrow> string" where
  "err_name names code = (case map_of names code of None \<Rightarrow> ''No mapping'' | Some n \<Rightarrow> n)"

definition mg_print_gss_error :: "u32 \<Rightarrow> (string \<times> string) list" where
  "mg_print_gss_error major_code =
     (if GSS_SUPPLEMENTARY_INFO major_code \<noteq> 0 then [(''routine error'', err_name info_names major_code)]
      else if GSS_ERROR major_code \<noteq> 0
      then (let calling = (GSS_CALLING_ERROR major_code \<noteq> 0); name1 = err_name calling_names major_code
            in (if calling then [(''calling error'', name1)] else []) @
               (if GSS_ROUTINE_ERROR major_code \<noteq> 0
                then [(''routine error'',
                       case map_of routine_names major_code of
                         None \<Rightarrow> if calling then name1 else ''No mapping''
                       | Some n \<Rightarrow> n)]
                else []))
      else [])"

section \<open>Objects of q\<close>

text \<open>A vector of chars or of bytes, an int, a vector of symbols, a list, a dictionary, the generic null, and a
  null pointer.\<close>

datatype kx =
    KxChars bytes
  | KxBytes bytes
  | KxInt u32
  | KxSyms "bytes list"
  | KxList "kx list"
  | KxDict kx kx
  | KxNull
  | KxNullPtr

datatype kres = KErr string | KVal kx

section \<open>Calls of GSSAPI\<close>

datatype gss_obj = GCtx u64 | GCred u64 | GName u64 | GBuf bytes

text \<open>
  The log: the two calls that establish a context, with the handles and the token they were given and the context
  and the token that came out, the names that have been displayed with the buffer that came out, and what has been
  obtained from GSSAPI and released.
\<close>

datatype gss_event =
    Accept u64 bytes u64 "bytes option"
  | Init u64 u64 u64 "bytes option" u32 u64 "bytes option"
  | Display u64 bytes
  | Got gss_obj
  | Freed gss_obj

record accepted =
  ac_major :: u32
  ac_ctx :: u64
  ac_src :: u64
  ac_out :: "bytes option"
  ac_flags :: u32
  ac_time :: u32

record inited =
  in_major :: u32
  in_ctx :: u64
  in_out :: "bytes option"
  in_flags :: u32

record 'w gss_api =
  gss_accept_sec_context :: "u64 \<Rightarrow> bytes \<Rightarrow> 'w \<Rightarrow> accepted \<times> 'w"
  gss_init_sec_context :: "u64 \<Rightarrow> u64 \<Rightarrow> u64 \<Rightarrow> u32 \<Rightarrow> bytes option \<Rightarrow> 'w \<Rightarrow> inited \<times> 'w"
  gss_inquire_context :: "u64 \<Rightarrow> 'w \<Rightarrow> (u32 \<times> u64 \<times> u32) \<times> 'w"
  gss_display_name :: "u64 \<Rightarrow> 'w \<Rightarrow> (u32 \<times> bytes) \<times> 'w"
  gss_import_name :: "bytes \<Rightarrow> 'w \<Rightarrow> (u32 \<times> u64) \<times> 'w"
  gss_acquire_cred :: "u64 \<Rightarrow> 'w \<Rightarrow> (u32 \<times> u64) \<times> 'w"
  gss_unwrap :: "u64 \<Rightarrow> bytes \<Rightarrow> 'w \<Rightarrow> (u32 \<times> bytes option) \<times> 'w"
  gss_verify_mic :: "u64 \<Rightarrow> bytes \<Rightarrow> bytes option \<Rightarrow> 'w \<Rightarrow> u32 \<times> 'w"
  gss_release :: "gss_obj \<Rightarrow> 'w \<Rightarrow> u32 \<times> 'w"
  krr_null :: bool

text \<open>\<open>gss_release\<close> stands for the four functions that release an object, and \<open>krr_null\<close> says whether \<open>krr\<close>, which
  signals an error to q, gives a null pointer.\<close>

type_synonym 'w gss = "('w, gss_event) logged"

definition gss_call :: "('w \<Rightarrow> 'r \<times> 'w) \<Rightarrow> ('r \<Rightarrow> gss_event list) \<Rightarrow> 'w gss \<Rightarrow> 'r \<times> 'w gss" where
  "gss_call f evs s = (case f (fst s) of (r, w) \<Rightarrow> (r, (w, snd s @ evs r)))"

definition new_handle :: "(u64 \<Rightarrow> gss_obj) \<Rightarrow> u64 \<Rightarrow> gss_event list" where
  "new_handle k h = (if h = 0 then [] else [Got (k h)])"

definition new_buffer :: "bytes option \<Rightarrow> gss_event list" where
  "new_buffer b = (case b of None \<Rightarrow> [] | Some bs \<Rightarrow> [Got (GBuf bs)])"

definition accept_events :: "u64 \<Rightarrow> bytes \<Rightarrow> accepted \<Rightarrow> gss_event list" where
  "accept_events ctx input r =
     Accept ctx input (ac_ctx r) (ac_out r) # (if ac_ctx r = ctx then [] else new_handle GCtx (ac_ctx r)) @
     new_handle GName (ac_src r) @ new_buffer (ac_out r)"

definition init_events :: "u64 \<Rightarrow> u64 \<Rightarrow> u64 \<Rightarrow> bytes option \<Rightarrow> u32 \<Rightarrow> inited \<Rightarrow> gss_event list" where
  "init_events cred ctx tgt input flags r =
     Init cred ctx tgt input flags (in_ctx r) (in_out r) # (if in_ctx r = ctx then [] else new_handle GCtx (in_ctx r)) @
     new_buffer (in_out r)"

definition release :: "'w gss_api \<Rightarrow> gss_obj \<Rightarrow> 'w gss \<Rightarrow> 'w gss" where
  "release g ob s = snd (gss_call (gss_release g ob) (\<lambda>err. if GSS_ERROR err \<noteq> 0 then [] else [Freed ob]) s)"

definition mg_release_buffer :: "'w gss_api \<Rightarrow> bytes option \<Rightarrow> 'w gss \<Rightarrow> 'w gss" where
  "mg_release_buffer g b s = (case b of None \<Rightarrow> s | Some bs \<Rightarrow> release g (GBuf bs) s)"

definition mg_release_name :: "'w gss_api \<Rightarrow> u64 \<Rightarrow> 'w gss \<Rightarrow> 'w gss" where
  "mg_release_name g name = release g (GName name)"

definition mg_release_cred :: "'w gss_api \<Rightarrow> u64 \<Rightarrow> 'w gss \<Rightarrow> 'w gss" where
  "mg_release_cred g cred = release g (GCred cred)"

definition mg_delete_sec_context :: "'w gss_api \<Rightarrow> u64 \<Rightarrow> 'w gss \<Rightarrow> 'w gss" where
  "mg_delete_sec_context g ctx s = (if ctx \<noteq> 0 then release g (GCtx ctx) s else s)"

definition mg_delete_ctx_return_err_xk :: "'w gss_api \<Rightarrow> u64 \<Rightarrow> kres \<Rightarrow> 'w gss \<Rightarrow> kres \<times> 'w gss" where
  "mg_delete_ctx_return_err_xk g ctx err s = (err, mg_delete_sec_context g ctx s)"

definition mg_delete_ctx_return_err_xs :: "'w gss_api \<Rightarrow> u64 \<Rightarrow> string \<Rightarrow> 'w gss \<Rightarrow> kres \<times> 'w gss" where
  "mg_delete_ctx_return_err_xs g ctx msg = mg_delete_ctx_return_err_xk g ctx (KErr msg)"

text \<open>The name of thirteen characters has the terminator of the literal in it. The buffer with the name stays.\<close>

definition unresolved :: bytes where
  "unresolved = [95, 85, 78, 82, 69, 83, 79, 76, 86, 69, 68, 95, 0]"

definition mg_get_display_name :: "'w gss_api \<Rightarrow> u64 \<Rightarrow> 'w gss \<Rightarrow> kx \<times> 'w gss" where
  "mg_get_display_name g name s =
     (if name = 0 then (KxNullPtr, s)
      else case gss_call (gss_display_name g name) (\<lambda>(err, b). if GSS_ERROR err \<noteq> 0 then [] else [Display name b, Got (GBuf b)]) s of
             ((err, b), s1) \<Rightarrow> (KxChars (if GSS_ERROR err \<noteq> 0 then unresolved else b), s1))"

definition mg_inquire_service_target :: "'w gss_api \<Rightarrow> u64 \<Rightarrow> 'w gss \<Rightarrow> (u64 \<times> u32) option \<times> 'w gss" where
  "mg_inquire_service_target g ctx s =
     (case gss_call (gss_inquire_context g ctx) (\<lambda>(res, name, ttl). if GSS_ERROR res \<noteq> 0 then [] else new_handle GName name) s of
        ((res, name, ttl), s1) \<Rightarrow> (if GSS_ERROR res \<noteq> 0 then None else Some (name, ttl), s1))"

section \<open>Handles as objects of q\<close>

definition mg_export_pointer :: "u64 \<Rightarrow> kx" where
  "mg_export_pointer p = KxBytes (to_mem p)"

text \<open>Eight bytes are copied from the data of any vector, whatever its type and length.\<close>

definition mg_import_pointer :: "kx \<Rightarrow> u64 outcome" where
  "mg_import_pointer k =
     (case k of
        KxBytes bs \<Rightarrow> if 8 \<le> length bs then Ret (of_mem (take 8 bs)) else Undef
      | KxChars bs \<Rightarrow> if 8 \<le> length bs then Ret (of_mem (take 8 bs)) else Undef
      | _ \<Rightarrow> Undef)"

definition cred_handle_key :: bytes where "cred_handle_key = [99, 114, 101, 100, 95, 104, 97, 110, 100, 108, 101]"
definition context_handle_key :: bytes where "context_handle_key = [99, 111, 110, 116, 101, 120, 116, 95, 104, 97, 110, 100, 108, 101]"
definition tgt_name_key :: bytes where "tgt_name_key = [116, 103, 116, 95, 110, 97, 109, 101]"
definition req_flags_key :: bytes where "req_flags_key = [114, 101, 113, 95, 102, 108, 97, 103, 115]"

definition mg_init_ctx_pointers_to_dict :: "u64 \<Rightarrow> u64 \<Rightarrow> u64 \<Rightarrow> u32 \<Rightarrow> kx" where
  "mg_init_ctx_pointers_to_dict ctx cred tgt req_flags =
     KxDict (KxSyms [cred_handle_key, context_handle_key, tgt_name_key, req_flags_key])
       (KxList [mg_export_pointer cred, mg_export_pointer ctx, mg_export_pointer tgt, KxInt req_flags])"

section \<open>The acceptor\<close>

definition mg_validate :: "'w gss_api \<Rightarrow> u32 \<Rightarrow> u64 \<Rightarrow> bytes \<Rightarrow> bytes option \<Rightarrow> 'w gss \<Rightarrow> bytes option \<times> 'w gss" where
  "mg_validate g res ctx input out s =
     (if res AND GSS_C_CONF_FLAG \<noteq> 0
      then case gss_call (gss_unwrap g ctx input) (\<lambda>(err, b). new_buffer b) s of ((err, b), s1) \<Rightarrow> (b, s1)
      else if res AND GSS_C_INTEG_FLAG \<noteq> 0
      then (out, snd (gss_call (gss_verify_mic g ctx input out) (\<lambda>_. []) s))
      else (out, s))"

text \<open>\<open>stk\<close> is the address of the local variable of the caller that holds the handle of the context: it is what is given to q
  when the handshake is to go on.\<close>

definition accept_result :: "'w gss_api \<Rightarrow> u64 \<Rightarrow> accepted \<Rightarrow> kx \<Rightarrow> kx \<Rightarrow> kx \<Rightarrow> 'w gss \<Rightarrow> kres \<times> 'w gss" where
  "accept_result g stk r k_src_name k_tgt_name k_out_tkn s =
     (let done = (\<lambda>workflow k_ctx s. (KVal (KxList [KxInt workflow, k_src_name, k_tgt_name, KxInt (ac_time r), k_ctx, k_out_tkn]), s))
      in if GSS_SUPPLEMENTARY_INFO (ac_major r) \<noteq> 0 then done 2 (mg_export_pointer stk) s
         else if ac_major r = GSS_S_COMPLETE then done 1 KxNull (mg_delete_sec_context g (ac_ctx r) s)
         else done 1 (mg_export_pointer stk) s)"

definition accept_target :: "'w gss_api \<Rightarrow> u64 \<Rightarrow> accepted \<Rightarrow> kx \<Rightarrow> kx \<Rightarrow> 'w gss \<Rightarrow> (kres \<times> 'w gss) outcome" where
  "accept_target g stk r k_src_name k_out_tkn s =
     (case mg_inquire_service_target g (ac_ctx r) s of
        (None, s1) \<Rightarrow> Ret (KErr ''failed to retrieve peer data'', s1)
      | (Some (tgt_name, ttl), s1) \<Rightarrow>
          (case mg_get_display_name g tgt_name s1 of
             (k_tgt_name, s2) \<Rightarrow>
               if k_tgt_name = KxNullPtr then Undef
               else Ret (accept_result g stk r k_src_name k_tgt_name k_out_tkn (mg_release_name g tgt_name s2))))"

definition accept_token :: "'w gss_api \<Rightarrow> (u64 \<Rightarrow> bool) \<Rightarrow> u64 \<Rightarrow> accepted \<Rightarrow> kx \<Rightarrow> bytes option \<Rightarrow> 'w gss \<Rightarrow> (kres \<times> 'w gss) outcome" where
  "accept_token g alloc stk r k_src_name out s =
     (case out of
        None \<Rightarrow> accept_target g stk r k_src_name (KxChars []) s
      | Some [] \<Rightarrow> accept_target g stk r k_src_name (KxChars []) s
      | Some bs \<Rightarrow>
          obind (base64_encode alloc bs) (\<lambda>b64.
          let s1 = mg_release_buffer g out s
          in case b64 of
               None \<Rightarrow> Ret (mg_delete_ctx_return_err_xs g (ac_ctx r)
                         ''GSSAPI provided additional data for the Client but base-64 encoding failed'' s1)
             | Some txt \<Rightarrow> accept_target g stk r k_src_name (KxChars txt) s1))"

text \<open>Whether the flag \<open>PROT_READY\<close> is set is asked of the status code, not of the flags of the context.\<close>

definition mg_accept_sec_context_1 :: "'w gss_api \<Rightarrow> (u64 \<Rightarrow> bool) \<Rightarrow> u64 \<Rightarrow> u64 \<Rightarrow> bytes \<Rightarrow> 'w gss \<Rightarrow> (kres \<times> 'w gss) outcome" where
  "mg_accept_sec_context_1 g alloc stk ctx input s =
     (case gss_call (gss_accept_sec_context g ctx input)
             (accept_events ctx input) s of
        (r, s1) \<Rightarrow>
          if GSS_ERROR (ac_major r) \<noteq> 0 then Ret (mg_delete_ctx_return_err_xs g (ac_ctx r) ''failed in accept-sec-context'' s1)
          else case mg_get_display_name g (ac_src r) s1 of
            (k_src_name, s2) \<Rightarrow>
              let s3 = mg_release_name g (ac_src r) s2
              in if k_src_name = KxNullPtr then Undef
                 else if ac_flags r \<noteq> 0 \<and> ac_major r AND GSS_C_PROT_READY_FLAG \<noteq> 0
                 then (case mg_validate g (ac_major r) (ac_ctx r) input (ac_out r) s3 of
                         (out, s4) \<Rightarrow> accept_token g alloc stk r k_src_name out s4)
                 else accept_token g alloc stk r k_src_name (ac_out r) s3)"

definition accept_decoded :: "'w gss_api \<Rightarrow> (u64 \<Rightarrow> bool) \<Rightarrow> u64 \<Rightarrow> u64 \<Rightarrow> bytes \<Rightarrow> 'w gss \<Rightarrow> (kres \<times> 'w gss) outcome" where
  "accept_decoded g alloc stk ctx txt s =
     obind (base64_decode alloc txt) (\<lambda>b64.
       case b64 of
         None \<Rightarrow> Ret (KErr ''failed in base64_decode'', s)
       | Some [] \<Rightarrow> Ret (KErr ''failed in base64_decode'', s)
       | Some bs \<Rightarrow> mg_accept_sec_context_1 g alloc stk ctx bs s)"

definition mg_accept_sec_context :: "'w gss_api \<Rightarrow> (u64 \<Rightarrow> bool) \<Rightarrow> u64 \<Rightarrow> kx \<Rightarrow> 'w gss \<Rightarrow> (kres \<times> 'w gss) outcome" where
  "mg_accept_sec_context g alloc stk k_token s =
     (case k_token of
        KxChars txt \<Rightarrow> accept_decoded g alloc stk 0 txt s
      | _ \<Rightarrow> Ret (KErr ''bad k_token.type'', s))"

definition mg_accept_sec_context_cont :: "'w gss_api \<Rightarrow> (u64 \<Rightarrow> bool) \<Rightarrow> u64 \<Rightarrow> kx \<Rightarrow> kx \<Rightarrow> 'w gss \<Rightarrow> (kres \<times> 'w gss) outcome" where
  "mg_accept_sec_context_cont g alloc stk k_ctx k_token s =
     obind (case k_ctx of
              KxBytes bs \<Rightarrow> if length bs = 8 then obind (mg_import_pointer k_ctx) (\<lambda>h. Ret (Some h)) else Ret None
            | _ \<Rightarrow> Ret None) (\<lambda>imported.
       if imported = Some 0 then Ret (KErr ''failed to import accept-context'', s)
       else case k_token of
              KxChars txt \<Rightarrow>
                if txt = [] then Ret (KErr ''bad k_token'', s)
                else accept_decoded g alloc stk (case imported of None \<Rightarrow> 0 | Some h \<Rightarrow> h) txt s
            | _ \<Rightarrow> Ret (KErr ''bad k_token'', s))"

section \<open>The initiator\<close>

text \<open>\<open>None\<close> is \<open>(K)0\<close>. An error is taken for one only where \<open>krr\<close> does not give a null pointer.\<close>

definition kfail :: "'w gss_api \<Rightarrow> string option \<Rightarrow> bool" where
  "kfail g k_err \<longleftrightarrow> k_err \<noteq> None \<and> \<not> krr_null g"

definition mg_import_name :: "'w gss_api \<Rightarrow> bytes \<Rightarrow> 'w gss \<Rightarrow> (string option \<times> u64) \<times> 'w gss" where
  "mg_import_name g k_name s =
     (case gss_call (gss_import_name g k_name) (\<lambda>(res, name). new_handle GName name) s of
        ((res, name), s1) \<Rightarrow> ((if GSS_ERROR res \<noteq> 0 then Some ''failed to import tgt_name'' else None, name), s1))"

definition mg_acquire_cred :: "'w gss_api \<Rightarrow> bytes \<Rightarrow> 'w gss \<Rightarrow> (string option \<times> u64) \<times> 'w gss" where
  "mg_acquire_cred g k_name s =
     (case mg_import_name g k_name s of
        ((k_err, name), s1) \<Rightarrow>
          if kfail g k_err \<or> name = 0 then ((k_err, 0), s1)
          else case gss_call (gss_acquire_cred g name) (\<lambda>(res, cred). new_handle GCred cred) s1 of
                 ((res, cred), s2) \<Rightarrow>
                   let s3 = mg_release_name g name s2
                   in ((if GSS_ERROR res \<noteq> 0 then Some ''failed to acquire credentials'' else k_err, cred), s3))"

text \<open>\<open>k_token\<close>: \<open>None\<close> when it cannot be encoded.\<close>

definition token_text :: "(u64 \<Rightarrow> bool) \<Rightarrow> bytes option \<Rightarrow> bytes option outcome" where
  "token_text alloc out = (case out of None \<Rightarrow> Ret (Some []) | Some [] \<Rightarrow> Ret (Some []) | Some bs \<Rightarrow> base64_encode alloc bs)"

definition init_finish :: "'w gss_api \<Rightarrow> u64 \<Rightarrow> u64 \<Rightarrow> u32 \<Rightarrow> inited \<Rightarrow> u32 \<Rightarrow> kx \<Rightarrow> kx \<Rightarrow> 'w gss \<Rightarrow> kres \<times> 'w gss" where
  "init_finish g cred tgt req_flags r ttl k_peer_name k_token s =
     (let s1 = mg_release_buffer g (in_out r) s
      in if GSS_SUPPLEMENTARY_INFO (in_major r) \<noteq> 0 \<and> in_major r = GSS_S_CONTINUE_NEEDED
         then (KVal (KxList [KxInt 1, k_peer_name, mg_init_ctx_pointers_to_dict (in_ctx r) cred tgt req_flags, k_token, KxInt ttl]), s1)
         else (KVal (KxList [KxInt 2, k_peer_name, k_token]),
               mg_delete_sec_context g (in_ctx r) (mg_release_name g tgt (mg_release_cred g cred s1))))"

definition mg_init_sec_context_1 :: "'w gss_api \<Rightarrow> (u64 \<Rightarrow> bool) \<Rightarrow> u64 \<Rightarrow> u64 \<Rightarrow> u64 \<Rightarrow> bytes option \<Rightarrow> u32 \<Rightarrow> 'w gss \<Rightarrow>
    (kres \<times> 'w gss) outcome" where
  "mg_init_sec_context_1 g alloc ctx cred tgt input req_flags s =
     (case gss_call (gss_init_sec_context g cred ctx tgt req_flags input)
             (init_events cred ctx tgt input req_flags) s of
        (r, s1) \<Rightarrow>
          if GSS_ERROR (in_major r) \<noteq> 0 then Ret (KErr ''failed when continuing gss_init_sec_context'', s1)
          else case mg_inquire_service_target g (in_ctx r) s1 of
            (None, s2) \<Rightarrow> Ret (KErr ''failed in inquire-service'', s2)
          | (Some (peer_name, ttl), s2) \<Rightarrow>
              (case mg_get_display_name g peer_name s2 of
                 (k_peer_name, s3) \<Rightarrow>
                   let s4 = mg_release_name g peer_name s3
                   in obind (token_text alloc (in_out r)) (\<lambda>b64.
                        case b64 of
                          None \<Rightarrow> Ret (KErr ''failed in base64_encode'', s4)
                        | Some txt \<Rightarrow> Ret (init_finish g cred tgt req_flags r ttl k_peer_name (KxChars txt) s4))))"

text \<open>The handles in the dictionary, in the order of the keys: \<open>None\<close> is the error of an unknown key.\<close>

record handles =
  h_cred :: u64
  h_ctx :: u64
  h_tgt :: u64
  h_flags :: u32

fun read_handles :: "bytes list \<Rightarrow> kx list \<Rightarrow> handles \<Rightarrow> handles option outcome" where
  "read_handles [] vals h = Ret (Some h)"
| "read_handles (key # keys) [] h =
     (if key \<in> {cred_handle_key, context_handle_key, tgt_name_key, req_flags_key} then Undef else Ret None)"
| "read_handles (key # keys) (v # vals) h =
     (if key = cred_handle_key then obind (mg_import_pointer v) (\<lambda>p. read_handles keys vals (h\<lparr>h_cred := p\<rparr>))
      else if key = context_handle_key then obind (mg_import_pointer v) (\<lambda>p. read_handles keys vals (h\<lparr>h_ctx := p\<rparr>))
      else if key = tgt_name_key then obind (mg_import_pointer v) (\<lambda>p. read_handles keys vals (h\<lparr>h_tgt := p\<rparr>))
      else if key = req_flags_key
      then (case v of KxInt i \<Rightarrow> read_handles keys vals (h\<lparr>h_flags := i\<rparr>) | _ \<Rightarrow> Undef)
      else Ret None)"

definition no_handles :: handles where
  "no_handles = \<lparr>h_cred = 0, h_ctx = 0, h_tgt = 0, h_flags = 0\<rparr>"

definition mg_init_sec_context_cont :: "'w gss_api \<Rightarrow> (u64 \<Rightarrow> bool) \<Rightarrow> kx \<Rightarrow> kx \<Rightarrow> 'w gss \<Rightarrow> (kres \<times> 'w gss) outcome" where
  "mg_init_sec_context_cont g alloc k_dict k_token s =
     (case k_dict of
        KxDict keys vals \<Rightarrow>
          (case k_token of
             KxChars txt \<Rightarrow>
               if txt = [] then Ret (KErr ''bad token.type'', s)
               else (case (keys, vals) of
                       (KxSyms ks, KxList vs) \<Rightarrow>
                         obind (read_handles ks vs no_handles) (\<lambda>hs.
                         case hs of
                           None \<Rightarrow> Ret (KErr ''bad dict.key'', s)
                         | Some h \<Rightarrow>
                             obind (base64_decode alloc txt) (\<lambda>b64.
                             case b64 of
                               None \<Rightarrow> Ret (KErr ''failed to decode input-token'', s)
                             | Some bs \<Rightarrow> mg_init_sec_context_1 g alloc (h_ctx h) (h_cred h) (h_tgt h) (Some bs) (h_flags h) s))
                     | _ \<Rightarrow> Undef)
           | _ \<Rightarrow> Ret (KErr ''bad token.type'', s))
      | _ \<Rightarrow> Ret (KErr ''bad dict.type'', s))"

definition init_flags :: u32 where
  "init_flags = GSS_C_CONF_FLAG OR GSS_C_INTEG_FLAG OR GSS_C_REPLAY_FLAG OR GSS_C_MUTUAL_FLAG"

definition mg_init_sec_context :: "'w gss_api \<Rightarrow> (u64 \<Rightarrow> bool) \<Rightarrow> kx \<Rightarrow> kx \<Rightarrow> 'w gss \<Rightarrow> (kres \<times> 'w gss) outcome" where
  "mg_init_sec_context g alloc k_src_name k_tgt_name s =
     (case k_src_name of
        KxChars src \<Rightarrow>
          (case k_tgt_name of
             KxChars tgt \<Rightarrow>
               (case mg_acquire_cred g src s of
                  ((k_err, cred), s1) \<Rightarrow>
                    if kfail g k_err then Ret (KErr (the k_err), s1)
                    else if cred = 0 then Ret (KErr ''failed to acquire credentials for source principal'', s1)
                    else case mg_import_name g tgt s1 of
                           ((k_err, name), s2) \<Rightarrow>
                             if kfail g k_err then Ret (KErr (the k_err), s2)
                             else if name = 0 then Ret (KErr ''failed to resolve target service'', s2)
                             else mg_init_sec_context_1 g alloc 0 cred name None init_flags s2)
           | _ \<Rightarrow> Ret (KErr ''Bad k_tgt_name.type'', s))
      | _ \<Rightarrow> Ret (KErr ''Bad k_src_name.type'', s))"

section \<open>What is held\<close>

fun null_obj :: "gss_obj \<Rightarrow> bool" where
  "null_obj (GCtx h) = (h = 0)"
| "null_obj (GCred h) = (h = 0)"
| "null_obj (GName h) = (h = 0)"
| "null_obj (GBuf b) = False"

text \<open>What has been obtained and not released, buffers by their contents; and the buffers that \<open>gss_display_name\<close>
  has filled.\<close>

definition obj :: "gss_obj \<Rightarrow> gss_obj multiset" where
  "obj ob = (if null_obj ob then {#} else {#ob#})"

fun held_step :: "gss_event \<Rightarrow> gss_obj multiset \<Rightarrow> gss_obj multiset" where
  "held_step (Got ob) M = M + obj ob"
| "held_step (Freed ob) M = M - obj ob"
| "held_step _ M = M"

definition held :: "'w gss \<Rightarrow> gss_obj multiset" where
  "held s = fold held_step (snd s) {#}"

fun display_step :: "gss_event \<Rightarrow> gss_obj multiset \<Rightarrow> gss_obj multiset" where
  "display_step (Display name b) M = M + obj (GBuf b)"
| "display_step _ M = M"

definition displayed :: "'w gss \<Rightarrow> gss_obj multiset" where
  "displayed s = fold display_step (snd s) {#}"

definition buffer_obj :: "bytes option \<Rightarrow> gss_obj multiset" where
  "buffer_obj b = (case b of None \<Rightarrow> {#} | Some bs \<Rightarrow> obj (GBuf bs))"

definition releases :: "'w gss_api \<Rightarrow> bool" where
  "releases g \<longleftrightarrow> (\<forall>ob w. GSS_ERROR (fst (gss_release g ob w)) = 0)"

lemma gss_call_held:
  "gss_call f evs s = (r, s1) \<Longrightarrow> held s1 = fold held_step (evs r) (held s) \<and> displayed s1 = fold display_step (evs r) (displayed s)"
  by (auto simp: gss_call_def held_def displayed_def split: prod.splits)

lemma gss_call_result: "gss_call f evs s = (r, s1) \<Longrightarrow> r = fst (f (fst s))"
  by (auto simp: gss_call_def split: prod.splits)

lemma gss_call_log: "gss_call f evs s = (r, s1) \<Longrightarrow> snd s1 = snd s @ evs r"
  by (auto simp: gss_call_def split: prod.splits)

lemma held_release: "releases g \<Longrightarrow> held (release g ob s) = held s - obj ob"
  by (simp add: release_def gss_call_def held_def releases_def case_prod_beta)

lemma displayed_release: "displayed (release g ob s) = displayed s"
  by (simp add: release_def gss_call_def displayed_def case_prod_beta)

lemma held_events [simp]:
  "fold held_step (new_handle k h) M = M + (if h = 0 then {#} else obj (k h))"
  "fold held_step (new_buffer b) M = M + buffer_obj b"
  "fold display_step (new_handle k h) M = M" "fold display_step (new_buffer b) M = M"
  by (auto simp: new_handle_def new_buffer_def buffer_obj_def obj_def split: option.splits)

lemma held_releases:
  assumes "releases g"
  shows "held (mg_release_buffer g b s) = held s - buffer_obj b" "held (mg_release_name g n s) = held s - obj (GName n)"
    "held (mg_release_cred g c s) = held s - obj (GCred c)" "held (mg_delete_sec_context g x s) = held s - obj (GCtx x)"
  using assms held_release [OF assms]
  by (auto simp: mg_release_buffer_def mg_release_name_def mg_release_cred_def mg_delete_sec_context_def buffer_obj_def obj_def
      split: option.splits)

lemma displayed_releases [simp]:
  "displayed (mg_release_buffer g b s) = displayed s" "displayed (mg_release_name g n s) = displayed s"
  "displayed (mg_release_cred g c s) = displayed s" "displayed (mg_delete_sec_context g x s) = displayed s"
  by (auto simp: mg_release_buffer_def mg_release_name_def mg_release_cred_def mg_delete_sec_context_def displayed_release
      split: option.splits)

lemma held_display: "mg_get_display_name g n s = (k, s1) \<Longrightarrow> \<exists>B. held s1 = held s + B \<and> displayed s1 = displayed s + B"
  by (auto simp: mg_get_display_name_def split: if_splits prod.splits dest!: gss_call_held)

lemma held_inquire:
  "mg_inquire_service_target g c s = (Some (n, ttl), s1) \<Longrightarrow> held s1 = held s + obj (GName n) \<and> displayed s1 = displayed s"
  by (auto simp: mg_inquire_service_target_def obj_def split: if_splits prod.splits dest!: gss_call_held)

lemma held_import: "mg_import_name g k s = ((e, n), s1) \<Longrightarrow> held s1 = held s + obj (GName n) \<and> displayed s1 = displayed s"
  by (auto simp: mg_import_name_def obj_def split: if_splits prod.splits dest!: gss_call_held)

lemma held_acquire:
  assumes "releases g" "mg_acquire_cred g k s = ((e, c), s1)" "c \<noteq> 0"
  shows "held s1 = held s + obj (GCred c) \<and> displayed s1 = displayed s"
  using assms
  by (auto simp: mg_acquire_cred_def Let_def held_releases obj_def split: if_splits prod.splits
      dest!: gss_call_held held_import)

section \<open>The initiator's results\<close>

fun name_typed :: "kx \<Rightarrow> bool" where
  "name_typed (KxChars _) = True"
| "name_typed KxNullPtr = True"
| "name_typed _ = False"

fun chars_typed :: "kx \<Rightarrow> bool" where
  "chars_typed (KxChars _) = True"
| "chars_typed _ = False"

fun int_typed :: "kx \<Rightarrow> bool" where
  "int_typed (KxInt _) = True"
| "int_typed _ = False"

fun ptr_typed :: "kx \<Rightarrow> bool" where
  "ptr_typed (KxBytes bs) = (length bs = 8)"
| "ptr_typed _ = False"

fun dict_typed :: "kx \<Rightarrow> bool" where
  "dict_typed (KxDict (KxSyms ks) (KxList vs)) =
     (ks = [cred_handle_key, context_handle_key, tgt_name_key, req_flags_key] \<and> length vs = 4 \<and>
      list_all ptr_typed (take 3 vs) \<and> int_typed (vs ! 3))"
| "dict_typed _ = False"

fun init_typed :: "kx \<Rightarrow> bool" where
  "init_typed (KxList xs) =
     ((length xs = 3 \<and> xs ! 0 = KxInt 2 \<and> name_typed (xs ! 1) \<and> chars_typed (xs ! 2)) \<or>
      (length xs = 5 \<and> xs ! 0 = KxInt 1 \<and> name_typed (xs ! 1) \<and> dict_typed (xs ! 2) \<and> chars_typed (xs ! 3) \<and> int_typed (xs ! 4)))"
| "init_typed _ = False"

lemma typed_iff:
  "ptr_typed v \<longleftrightarrow> (\<exists>a. v = KxBytes a \<and> length a = 8)" "int_typed v \<longleftrightarrow> (\<exists>i. v = KxInt i)"
  "chars_typed v \<longleftrightarrow> (\<exists>a. v = KxChars a)"
  by (cases v; simp)+

lemma dict_typedE:
  assumes "dict_typed d"
  obtains a b c f where "length a = 8" "length b = 8" "length c = 8"
    "d = KxDict (KxSyms [cred_handle_key, context_handle_key, tgt_name_key, req_flags_key]) (KxList [KxBytes a, KxBytes b, KxBytes c, KxInt f])"
proof -
  obtain vs where d: "d = KxDict (KxSyms [cred_handle_key, context_handle_key, tgt_name_key, req_flags_key]) (KxList vs)"
    "length vs = 4" "list_all ptr_typed (take 3 vs)" "int_typed (vs ! 3)"
    using assms by (cases d rule: dict_typed.cases) auto
  obtain v0 v1 v2 v3 where vs: "vs = [v0, v1, v2, v3]" using d(2) by (auto simp: length_Suc_conv numeral_eq_Suc)
  have "ptr_typed v0" "ptr_typed v1" "ptr_typed v2" "int_typed v3" using d(3,4) by (simp_all add: vs)
  then show ?thesis using that d(1) by (auto simp: vs typed_iff)
qed

fun res_typed :: "kres \<Rightarrow> bool" where
  "res_typed (KErr _) = True"
| "res_typed (KVal k) = init_typed k"

text \<open>Lengths are of type \<open>size_t\<close>.\<close>

definition sized :: "bytes option \<Rightarrow> bool" where
  "sized b = (\<forall>bs. b = Some bs \<longrightarrow> length bs < 2 ^ 64)"

definition init_sized :: "'w gss_api \<Rightarrow> bool" where
  "init_sized g \<longleftrightarrow> (\<forall>cred ctx tgt flags input w. sized (in_out (fst (gss_init_sec_context g cred ctx tgt flags input w))))"

definition accept_sized :: "'w gss_api \<Rightarrow> bool" where
  "accept_sized g \<longleftrightarrow> (\<forall>ctx tok w. sized (ac_out (fst (gss_accept_sec_context g ctx tok w))))"

lemma display_typed: "mg_get_display_name g n s = (k, s1) \<Longrightarrow> name_typed k"
  by (auto simp: mg_get_display_name_def split: if_splits prod.splits)

lemma init_finish_typed:
  "name_typed peer \<Longrightarrow> res_typed (fst (init_finish g cred tgt fl r ttl peer (KxChars tok) s))"
  by (simp add: init_finish_def Let_def mg_init_ctx_pointers_to_dict_def mg_export_pointer_def)

lemma token_text_total: "sized b \<Longrightarrow> \<exists>r. token_text alloc b = Ret r"
  using base64_encode_text by (auto simp: token_text_def sized_def split: option.splits list.splits)

lemma init_1_typed:
  assumes "init_sized g"
  shows "\<exists>res s1. mg_init_sec_context_1 g alloc ctx cred tgt input fl s = Ret (res, s1) \<and> res_typed res"
proof -
  obtain r s1 where call: "gss_call (gss_init_sec_context g cred ctx tgt fl input) (init_events cred ctx tgt input fl) s = (r, s1)"
    by (meson surj_pair)
  have "r = fst (gss_init_sec_context g cred ctx tgt fl input (fst s))" using gss_call_result [OF call] by simp
  then obtain tx where tx: "token_text alloc (in_out r) = Ret tx"
    using assms token_text_total [of "in_out r" alloc] by (auto simp: init_sized_def)
  obtain q s2 where q: "mg_inquire_service_target g (in_ctx r) s1 = (q, s2)" by (meson surj_pair)
  note unfold = mg_init_sec_context_1_def call q prod.case
  show ?thesis
  proof (cases q)
    case None
    then show ?thesis unfolding unfold by simp
  next
    case (Some pt)
    obtain peer ttl where pt: "pt = (peer, ttl)" by (cases pt)
    obtain k s3 where k: "mg_get_display_name g peer s2 = (k, s3)" by (meson surj_pair)
    have fin: "\<exists>res s1. Ret (init_finish g cred tgt fl r ttl k (KxChars tok) s') = Ret (res, s1) \<and> res_typed res" for tok and s' :: "'a gss"
      using init_finish_typed [OF display_typed [OF k], of g cred tgt fl r ttl tok s'] by (metis prod.exhaust_sel)
    show ?thesis
      unfolding unfold Some pt option.case k Let_def tx obind.simps using fin by (cases tx) simp_all
  qed
qed

lemma read_dict:
  "length a = 8 \<Longrightarrow> length b = 8 \<Longrightarrow> length c = 8 \<Longrightarrow>
   read_handles [cred_handle_key, context_handle_key, tgt_name_key, req_flags_key] [KxBytes a, KxBytes b, KxBytes c, KxInt f] no_handles =
     Ret (Some \<lparr>h_cred = of_mem a, h_ctx = of_mem b, h_tgt = of_mem c, h_flags = f\<rparr>)"
  by (simp add: mg_import_pointer_def no_handles_def cred_handle_key_def context_handle_key_def tgt_name_key_def req_flags_key_def)

declare read_handles.simps [simp del]

lemma cont_typed:
  assumes "init_sized g" "dict_typed d"
  shows "\<exists>res s1. mg_init_sec_context_cont g alloc d (KxChars txt) s = Ret (res, s1) \<and> res_typed res"
proof -
  obtain a b c f where d: "length a = 8" "length b = 8" "length c = 8"
    "d = KxDict (KxSyms [cred_handle_key, context_handle_key, tgt_name_key, req_flags_key]) (KxList [KxBytes a, KxBytes b, KxBytes c, KxInt f])"
    using dict_typedE [OF assms(2)] by metis
  obtain o1 where o1: "base64_decode alloc txt = Ret o1" using base64_decode_total by blast
  show ?thesis
    using init_1_typed [OF assms(1)] o1
    by (auto simp: mg_init_sec_context_cont_def d(4) read_dict [OF d(1-3)] split: option.splits)
qed

lemma init_typed_start:
  assumes "init_sized g"
  shows "\<exists>res s1. mg_init_sec_context g alloc (KxChars a) (KxChars b) s = Ret (res, s1) \<and> res_typed res"
  using init_1_typed [OF assms] by (auto simp: mg_init_sec_context_def split: prod.splits)

section \<open>What the initiator holds\<close>

text \<open>Once there is a context, it is the one the initiator goes on with.\<close>

definition keeps_context :: "'w gss_api \<Rightarrow> bool" where
  "keeps_context g \<longleftrightarrow> (\<forall>cred ctx tgt fl input w. let r = fst (gss_init_sec_context g cred ctx tgt fl input w) in
     ctx \<noteq> 0 \<and> GSS_ERROR (in_major r) = 0 \<longrightarrow> in_ctx r = ctx)"

lemma init_1_value:
  assumes "mg_init_sec_context_1 g alloc ctx cred tgt input fl s = Ret (KVal k, s')"
  obtains r s1 peer ttl s2 kp s3 tx where
    "gss_call (gss_init_sec_context g cred ctx tgt fl input) (init_events cred ctx tgt input fl) s = (r, s1)"
    "GSS_ERROR (in_major r) = 0" "mg_inquire_service_target g (in_ctx r) s1 = (Some (peer, ttl), s2)"
    "mg_get_display_name g peer s2 = (kp, s3)" "token_text alloc (in_out r) = Ret (Some tx)"
    "init_finish g cred tgt fl r ttl kp (KxChars tx) (mg_release_name g peer s3) = (KVal k, s')"
  using assms by (auto simp: mg_init_sec_context_1_def Let_def split: prod.splits if_splits option.splits)

text \<open>The handles in a dictionary that is given to q.\<close>

definition pending :: "kx \<Rightarrow> gss_obj multiset" where
  "pending k =
     (case k of
        KxList [_, _, KxDict (KxSyms ks) (KxList vs), _, _] \<Rightarrow>
          (case read_handles ks vs no_handles of
             Ret (Some h) \<Rightarrow> obj (GCred (h_cred h)) + obj (GName (h_tgt h)) + obj (GCtx (h_ctx h))
           | _ \<Rightarrow> {#})
      | _ \<Rightarrow> {#})"

lemma pending_done: "pending (KxList [a, b, c]) = {#}"
  by (simp add: pending_def split: kx.splits)

lemma read_own_dict:
  "read_handles [cred_handle_key, context_handle_key, tgt_name_key, req_flags_key]
     [mg_export_pointer cred, mg_export_pointer ctx, mg_export_pointer tgt, KxInt fl] no_handles =
   Ret (Some \<lparr>h_cred = cred, h_ctx = ctx, h_tgt = tgt, h_flags = fl\<rparr>)"
  by (simp add: mg_export_pointer_def read_dict)

lemma init_finish_held:
  assumes "releases g" "init_finish g cred tgt fl r ttl kp (KxChars tok) s = (KVal k, s')"
    and "held s = M + obj (GCred cred) + obj (GName tgt) + obj (GCtx (in_ctx r)) + buffer_obj (in_out r)"
  shows "held s' = M + pending k \<and> displayed s' = displayed s"
  using assms(2,3)
  by (auto simp: init_finish_def Let_def held_releases [OF assms(1)] pending_def mg_init_ctx_pointers_to_dict_def read_own_dict
      split: if_splits)

lemma init_1_held:
  assumes g: "releases g" "keeps_context g"
    and run: "mg_init_sec_context_1 g alloc ctx cred tgt input fl s = Ret (KVal k, s')"
    and M: "held s = M + obj (GCred cred) + obj (GName tgt) + obj (GCtx ctx)"
  shows "\<exists>B. held s' = M + B + pending k \<and> displayed s' = displayed s + B"
proof -
  obtain r s1 peer ttl s2 kp s3 tx where
    call: "gss_call (gss_init_sec_context g cred ctx tgt fl input) (init_events cred ctx tgt input fl) s = (r, s1)"
    and ok: "GSS_ERROR (in_major r) = 0" and inq: "mg_inquire_service_target g (in_ctx r) s1 = (Some (peer, ttl), s2)"
    and disp: "mg_get_display_name g peer s2 = (kp, s3)"
    and fin: "init_finish g cred tgt fl r ttl kp (KxChars tx) (mg_release_name g peer s3) = (KVal k, s')"
    using init_1_value [OF run] by metis
  have "r = fst (gss_init_sec_context g cred ctx tgt fl input (fst s))" by (rule gss_call_result [OF call])
  then have same: "ctx \<noteq> 0 \<Longrightarrow> in_ctx r = ctx" using g(2) ok by (auto simp: keeps_context_def Let_def)
  have s1: "held s1 = M + obj (GCred cred) + obj (GName tgt) + obj (GCtx (in_ctx r)) + buffer_obj (in_out r)"
    "displayed s1 = displayed s"
    using gss_call_held [OF call] M same by (auto simp: init_events_def obj_def)
  obtain B where B: "held s3 = held s2 + B" "displayed s3 = displayed s2 + B" using held_display [OF disp] by blast
  have "held (mg_release_name g peer s3) =
      M + B + obj (GCred cred) + obj (GName tgt) + obj (GCtx (in_ctx r)) + buffer_obj (in_out r)"
    using held_inquire [OF inq] s1 B by (simp add: held_releases [OF g(1)])
  from init_finish_held [OF g(1) fin this] show ?thesis using held_inquire [OF inq] s1 B by auto
qed

text \<open>A handshake from the side of the initiator; other things may happen to the world between its calls.\<close>

inductive initiates :: "'w gss_api \<Rightarrow> (u64 \<Rightarrow> bool) \<Rightarrow> 'w gss \<Rightarrow> kx \<Rightarrow> 'w gss \<Rightarrow> bool" for g alloc s0 where
  first: "mg_init_sec_context g alloc k_src k_tgt s0 = Ret (KVal k, s) \<Longrightarrow> initiates g alloc s0 k s"
| more: "initiates g alloc s0 (KxList [tag, peer, d, tok, ttl]) s \<Longrightarrow> snd s1 = snd s \<Longrightarrow>
     mg_init_sec_context_cont g alloc d k_token s1 = Ret (KVal k, s2) \<Longrightarrow> initiates g alloc s0 k s2"

lemma start_value:
  assumes "mg_init_sec_context g alloc k_src k_tgt s0 = Ret (KVal k, s)"
  obtains src tgt e1 cred s1 e2 name s2 where "k_src = KxChars src" "k_tgt = KxChars tgt"
    "mg_acquire_cred g src s0 = ((e1, cred), s1)" "cred \<noteq> 0" "mg_import_name g tgt s1 = ((e2, name), s2)" "name \<noteq> 0"
    "mg_init_sec_context_1 g alloc 0 cred name None init_flags s2 = Ret (KVal k, s)"
  using assms by (auto simp: mg_init_sec_context_def split: kx.splits prod.splits if_splits)

lemma cont_value:
  assumes "mg_init_sec_context_cont g alloc d k_token s = Ret (KVal k, s')"
  obtains ks vs tt h bs where "d = KxDict (KxSyms ks) (KxList vs)" "k_token = KxChars tt" "tt \<noteq> []"
    "read_handles ks vs no_handles = Ret (Some h)" "base64_decode alloc tt = Ret (Some bs)"
    "mg_init_sec_context_1 g alloc (h_ctx h) (h_cred h) (h_tgt h) (Some bs) (h_flags h) s = Ret (KVal k, s')"
  using assms
  by (auto simp: mg_init_sec_context_cont_def split: kx.splits if_splits option.splits)

lemma initiates_held:
  assumes "initiates g alloc s0 k s" "releases g" "keeps_context g"
  shows "\<exists>B. held s = held s0 + B + pending k \<and> displayed s = displayed s0 + B"
  using assms
proof (induction rule: initiates.induct)
  case (first k_src k_tgt k s)
  obtain src tgt e1 cred s1 e2 name s2 where
    a: "mg_acquire_cred g src s0 = ((e1, cred), s1)" "cred \<noteq> 0" and n: "mg_import_name g tgt s1 = ((e2, name), s2)"
    and run: "mg_init_sec_context_1 g alloc 0 cred name None init_flags s2 = Ret (KVal k, s)"
    using start_value [OF first.hyps] by metis
  have "held s2 = held s0 + obj (GCred cred) + obj (GName name) + obj (GCtx 0)" "displayed s2 = displayed s0"
    using held_acquire [OF first.prems(1) a] held_import [OF n] by (simp_all add: obj_def)
  with init_1_held [OF first.prems run this(1)] show ?case by simp
next
  case (more tag peer d tok ttl s s1 k_token k s2)
  obtain ks vs h bs where d: "d = KxDict (KxSyms ks) (KxList vs)" and h: "read_handles ks vs no_handles = Ret (Some h)"
    and run: "mg_init_sec_context_1 g alloc (h_ctx h) (h_cred h) (h_tgt h) (Some bs) (h_flags h) s1 = Ret (KVal k, s2)"
    using cont_value [OF more.hyps(3)] by metis
  obtain B where B: "held s = held s0 + B + pending (KxList [tag, peer, d, tok, ttl])" "displayed s = displayed s0 + B"
    using more.IH [OF more.prems] by blast
  have same: "held s1 = held s" "displayed s1 = displayed s" using more.hyps(2) by (simp_all add: held_def displayed_def)
  then have "held s1 = held s0 + B + obj (GCred (h_cred h)) + obj (GName (h_tgt h)) + obj (GCtx (h_ctx h))"
    using B d h by (simp add: pending_def)
  from init_1_held [OF more.prems run this] same B(2) show ?case by (auto simp: add.assoc)
qed

lemma initiates_typed:
  assumes "initiates g alloc s0 k s" "init_sized g"
  shows "init_typed k"
  using assms
proof (induction rule: initiates.induct)
  case (first k_src k_tgt k s)
  obtain src tgt where "k_src = KxChars src" "k_tgt = KxChars tgt" using start_value [OF first.hyps] by metis
  then show ?case using init_typed_start [OF first.prems, of alloc src tgt s0] first.hyps by auto
next
  case (more tag peer d tok ttl s s1 k_token k s2)
  have "dict_typed d" using more.IH [OF more.prems] by simp
  moreover obtain tt where "k_token = KxChars tt" using cont_value [OF more.hyps(3)] by metis
  ultimately show ?case using cont_typed [OF more.prems, of d alloc tt s1] more.hyps(3) by auto
qed

section \<open>Tokens\<close>

definition extends :: "'w gss \<Rightarrow> 'w gss \<Rightarrow> bool" where
  "extends s s' \<longleftrightarrow> (\<exists>es. snd s' = snd s @ es)"

lemma extends_trans: "extends s s1 \<Longrightarrow> extends s1 s2 \<Longrightarrow> extends s s2"
  by (auto simp: extends_def)

lemma extends_refl: "extends s s"
  by (simp add: extends_def)

lemma extends_call: "gss_call f evs s = (r, s1) \<Longrightarrow> extends s s1"
  by (auto simp: extends_def dest: gss_call_log)

lemma extends_release: "extends s (release g ob s)"
  using extends_call [of "gss_release g ob" _ s] by (simp add: release_def gss_call_def extends_def case_prod_beta)

lemma extends_releases:
  "extends s (mg_release_buffer g b s)" "extends s (mg_release_name g n s)" "extends s (mg_release_cred g c s)"
  "extends s (mg_delete_sec_context g x s)"
  by (auto simp: mg_release_buffer_def mg_release_name_def mg_release_cred_def mg_delete_sec_context_def
      extends_release extends_refl split: option.splits)

lemma extends_steps:
  "extends s s1 \<Longrightarrow> extends s (mg_release_buffer g b s1)" "extends s s1 \<Longrightarrow> extends s (mg_release_name g n s1)"
  "extends s s1 \<Longrightarrow> extends s (mg_release_cred g c s1)" "extends s s1 \<Longrightarrow> extends s (mg_delete_sec_context g x s1)"
  by (rule extends_trans, assumption, rule extends_releases)+

lemma extends_back: "extends (mg_release_name g n s) s1 \<Longrightarrow> extends s s1"
  by (rule extends_trans [OF extends_releases(2)])

lemma extends_display: "mg_get_display_name g n s = (k, s1) \<Longrightarrow> extends s s1"
  by (auto simp: mg_get_display_name_def extends_refl split: if_splits prod.splits dest: extends_call)

lemma extends_inquire: "mg_inquire_service_target g c s = (q, s1) \<Longrightarrow> extends s s1"
  by (auto simp: mg_inquire_service_target_def split: prod.splits dest: extends_call)

lemma extends_import: "mg_import_name g k s = (q, s1) \<Longrightarrow> extends s s1"
  by (auto simp: mg_import_name_def split: prod.splits dest: extends_call)

lemma extends_acquire: "mg_acquire_cred g k s = (q, s1) \<Longrightarrow> extends s s1"
  by (auto simp: mg_acquire_cred_def Let_def split: prod.splits if_splits
      dest!: extends_call extends_import intro: extends_trans extends_steps)

lemma extends_finish: "init_finish g cred tgt fl r ttl kp tok s = (res, s1) \<Longrightarrow> extends s s1"
  by (auto simp: init_finish_def Let_def split: if_splits intro!: extends_steps extends_refl)

lemma init_1_calls:
  assumes "mg_init_sec_context_1 g alloc ctx cred tgt input fl s = Ret (res, s')"
  shows "\<exists>c out es. snd s' = snd s @ Init cred ctx tgt input fl c out # es"
proof -
  obtain r s1 where call: "gss_call (gss_init_sec_context g cred ctx tgt fl input) (init_events cred ctx tgt input fl) s = (r, s1)"
    by (meson surj_pair)
  have "extends s1 s'"
    using assms
    by (auto simp: mg_init_sec_context_1_def call Let_def extends_refl split: prod.splits if_splits option.splits
        dest!: extends_inquire extends_display extends_finish extends_back intro: extends_trans extends_steps)
  then show ?thesis using gss_call_log [OF call] by (auto simp: extends_def init_events_def)
qed

lemma init_1_tokens:
  assumes "mg_init_sec_context_1 g alloc ctx cred tgt input fl s = Ret (KVal k, s')"
  shows "\<exists>c out es kp tx. snd s' = snd s @ Init cred ctx tgt input fl c out # es \<and> (init_sized g \<longrightarrow> sized out) \<and>
    token_text alloc out = Ret (Some tx) \<and>
    (k = KxList [KxInt 2, kp, KxChars tx] \<or>
     (\<exists>ttl. k = KxList [KxInt 1, kp, mg_init_ctx_pointers_to_dict c cred tgt fl, KxChars tx, KxInt ttl]))"
proof -
  obtain r s1 peer ttl s2 kp s3 tx where
    call: "gss_call (gss_init_sec_context g cred ctx tgt fl input) (init_events cred ctx tgt input fl) s = (r, s1)"
    and inq: "mg_inquire_service_target g (in_ctx r) s1 = (Some (peer, ttl), s2)"
    and disp: "mg_get_display_name g peer s2 = (kp, s3)" and tx: "token_text alloc (in_out r) = Ret (Some tx)"
    and fin: "init_finish g cred tgt fl r ttl kp (KxChars tx) (mg_release_name g peer s3) = (KVal k, s')"
    using init_1_value [OF assms] by metis
  have "extends s1 s'"
    using extends_inquire [OF inq] extends_display [OF disp] extends_back [OF extends_finish [OF fin]] by (blast intro: extends_trans)
  then obtain es where "snd s' = snd s @ Init cred ctx tgt input fl (in_ctx r) (in_out r) # es"
    using gss_call_log [OF call] by (auto simp: extends_def init_events_def)
  moreover have "k = KxList [KxInt 2, kp, KxChars tx] \<or>
      k = KxList [KxInt 1, kp, mg_init_ctx_pointers_to_dict (in_ctx r) cred tgt fl, KxChars tx, KxInt ttl]"
    using fin by (auto simp: init_finish_def Let_def split: if_splits)
  moreover have "init_sized g \<longrightarrow> sized (in_out r)" using gss_call_result [OF call] by (simp add: init_sized_def)
  ultimately show ?thesis using tx by blast
qed

text \<open>The supplementary information of a status code is in its lowest five bits.\<close>

definition plain_codes :: "'w gss_api \<Rightarrow> bool" where
  "plain_codes g \<longleftrightarrow> (\<forall>ctx tok w. ac_major (fst (gss_accept_sec_context g ctx tok w)) AND GSS_C_PROT_READY_FLAG = 0)"

lemma accept_target_tokens:
  assumes "accept_target g stk r kn ko s = Ret (res, s')"
  shows "extends s s' \<and> (\<forall>k. res = KVal k \<longrightarrow> (\<exists>wf kt kc. k = KxList [KxInt wf, kn, kt, KxInt (ac_time r), kc, ko] \<and>
    (kc = KxNull \<or> kc = mg_export_pointer stk) \<and> (wf = 2 \<longrightarrow> kc = mg_export_pointer stk)))"
  using assms
  by (auto simp: accept_target_def accept_result_def Let_def split: prod.splits option.splits if_splits
      dest!: extends_inquire extends_display intro!: extends_steps intro: extends_trans)

lemma accept_1_calls:
  assumes "mg_accept_sec_context_1 g alloc stk ctx tok s = Ret (res, s')" "plain_codes g"
  shows "\<exists>c out es. snd s' = snd s @ Accept ctx tok c out # es \<and> (accept_sized g \<longrightarrow> sized out) \<and>
    (\<forall>k. res = KVal k \<longrightarrow> (\<exists>wf kn kt tm kc tx. k = KxList [KxInt wf, kn, kt, tm, kc, KxChars tx] \<and>
       token_text alloc out = Ret (Some tx) \<and> (wf = 2 \<longrightarrow> kc = mg_export_pointer stk)))"
proof -
  obtain r s1 where call: "gss_call (gss_accept_sec_context g ctx tok) (accept_events ctx tok) s = (r, s1)"
    by (meson surj_pair)
  have "ac_major r AND GSS_C_PROT_READY_FLAG = 0"
    using assms(2) gss_call_result [OF call] by (simp add: plain_codes_def)
  then have plain: "ac_flags r \<noteq> 0 \<and> ac_major r AND GSS_C_PROT_READY_FLAG \<noteq> 0 \<longleftrightarrow> False" by simp
  have "extends s1 s' \<and> (\<forall>k. res = KVal k \<longrightarrow> (\<exists>wf kn kt tm kc tx. k = KxList [KxInt wf, kn, kt, tm, kc, KxChars tx] \<and>
       token_text alloc (ac_out r) = Ret (Some tx) \<and> (wf = 2 \<longrightarrow> kc = mg_export_pointer stk)))"
  proof (cases "GSS_ERROR (ac_major r) = 0")
    case False
    then show ?thesis
      using assms(1) by (auto simp: mg_accept_sec_context_1_def call mg_delete_ctx_return_err_xs_def mg_delete_ctx_return_err_xk_def
          intro!: extends_steps extends_refl)
  next
    case True
    obtain kn s2 where disp: "mg_get_display_name g (ac_src r) s1 = (kn, s2)" by (meson surj_pair)
    let ?s3 = "mg_release_name g (ac_src r) s2"
    have tok: "accept_token g alloc stk r kn (ac_out r) ?s3 = Ret (res, s')"
      using assms(1) True unfolding mg_accept_sec_context_1_def call prod.case disp Let_def plain by (simp split: if_splits)
    have s3: "extends s1 ?s3" using extends_display [OF disp] by (rule extends_steps)
    show ?thesis
    proof (cases "ac_out r = None \<or> ac_out r = Some []")
      case True
      then have "accept_target g stk r kn (KxChars []) ?s3 = Ret (res, s')" "token_text alloc (ac_out r) = Ret (Some [])"
        using tok by (auto simp: accept_token_def token_text_def)
      with accept_target_tokens [OF this(1)] s3 show ?thesis by (blast intro: extends_trans)
    next
      case False
      then obtain b bs where b: "ac_out r = Some (b # bs)" by (metis list.exhaust option.exhaust)
      then obtain t where t: "base64_encode alloc (b # bs) = Ret t" using tok by (auto simp: accept_token_def)
      show ?thesis
      proof (cases t)
        case None
        then show ?thesis using tok t b s3
          by (auto simp: accept_token_def Let_def mg_delete_ctx_return_err_xs_def mg_delete_ctx_return_err_xk_def intro!: extends_steps)
      next
        case (Some tx)
        then have "accept_target g stk r kn (KxChars tx) (mg_release_buffer g (ac_out r) ?s3) = Ret (res, s')"
          "token_text alloc (ac_out r) = Ret (Some tx)"
          using tok t b by (auto simp: accept_token_def Let_def token_text_def)
        with accept_target_tokens [OF this(1)] s3 extends_steps(1) [OF s3] show ?thesis by (blast intro: extends_trans)
      qed
    qed
  qed
  moreover have "accept_sized g \<longrightarrow> sized (ac_out r)" using gss_call_result [OF call] by (simp add: accept_sized_def)
  ultimately show ?thesis using gss_call_log [OF call] by (fastforce simp: extends_def accept_events_def)
qed

text \<open>A token that came out of GSSAPI is what the other side decodes.\<close>

lemma token_decoded:
  assumes "token_text alloc out = Ret (Some tx)" "tx \<noteq> []" "sized out" "\<forall>n. alloc' n"
  obtains bs where "out = Some bs" "bs \<noteq> []" "base64_decode alloc' tx = Ret (Some bs)"
proof -
  obtain b bs where b: "out = Some (b # bs)" "base64_encode alloc (b # bs) = Ret (Some tx)"
    using assms(1,2) by (auto simp: token_text_def split: option.splits list.splits)
  then have "base64_decode alloc' tx = Ret (Some (b # bs))"
    using assms(3,4) by (intro base64_decode_encoded) (simp_all add: sized_def)
  then show ?thesis using that b(1) by blast
qed

lemma accept_decoded_calls:
  assumes "accept_decoded h alloc stk ctx tx s = Ret (res, s')" "base64_decode alloc tx = Ret (Some bs)" "plain_codes h"
  shows "\<exists>c out es. snd s' = snd s @ Accept ctx bs c out # es \<and> (accept_sized h \<longrightarrow> sized out) \<and>
    (\<forall>k. res = KVal k \<longrightarrow> (\<exists>wf kn kt tm kc tx. k = KxList [KxInt wf, kn, kt, tm, kc, KxChars tx] \<and>
       token_text alloc out = Ret (Some tx) \<and> (wf = 2 \<longrightarrow> kc = mg_export_pointer stk)))"
proof -
  have "bs \<noteq> []" using base64_decode_total [of alloc tx] assms(2) by auto
  then have "mg_accept_sec_context_1 h alloc stk ctx bs s = Ret (res, s')"
    using assms(1,2) by (cases bs) (simp_all add: accept_decoded_def)
  from accept_1_calls [OF this assms(3)] show ?thesis .
qed

section \<open>Properties\<close>

text \<open>C16. 
  The initiator's functions are used well-typed by q: whatever GSSAPI does, what they give, in a first call or
  a later one, is either final or has a dictionary of handles that the next call accepts. It is never undefined.
\<close>

theorem initiator_typed:
  assumes "initiates g alloc s0 k s" "init_sized g"
  shows "init_typed k \<and> (\<forall>tag peer d tok ttl reply s1. k = KxList [tag, peer, d, tok, ttl] \<longrightarrow>
    (\<exists>res s2. mg_init_sec_context_cont g alloc d (KxChars reply) s1 = Ret (res, s2) \<and> res_typed res))"
  using initiates_typed [OF assms] cont_typed [OF assms(2)] by auto

text \<open>C17. What a handshake of the initiator holds, as long as its calls succeed and so does every release: beside what
  was held before, the credentials, the target name and the context of its dictionary until it is complete, and none
  of them then; and the buffers that \<open>gss_display_name\<close> has filled, which are never released. The tokens are.\<close>

theorem initiator_releases:
  assumes "initiates g alloc s0 k s" "releases g" "keeps_context g"
  shows "(\<exists>B. displayed s = displayed s0 + B \<and> held s = held s0 + pending k + B) \<and>
    (\<forall>peer tok. k = KxList [KxInt 2, peer, tok] \<longrightarrow> pending k = {#})"
  using initiates_held [OF assms] by (auto simp: pending_done add_ac)

text \<open>C10. 
  Mutual authentication: the acceptor's GSSAPI is given the token that the initiator's has made, the
  initiator's is given the acceptor's reply, and it goes on with the credentials, the context and the target it began with.
\<close>

theorem tokens_pass_through:
  assumes "init_sized g" "accept_sized h" "plain_codes h" "\<forall>n. alloc n"
    and "mg_init_sec_context g alloc src tgt s = Ret (KVal (KxList [tag, peer, d, KxChars tok, ttl]), s1)" "tok \<noteq> []"
    and "mg_accept_sec_context h alloc stk (KxChars tok) r = Ret (KVal (KxList [wk, cn, tn, tm, kc, KxChars reply]), r1)" "reply \<noteq> []"
    and "mg_init_sec_context_cont g alloc d (KxChars reply) s2 = Ret (res, s3)"
  shows "\<exists>cred name ctx t ctx1 u es es1 es2 c out.
    snd s1 = snd s @ es @ [Init cred 0 name None init_flags ctx (Some t)] @ es1 \<and>
    (\<exists>es3. snd r1 = snd r @ Accept 0 t ctx1 (Some u) # es3) \<and>
    snd s3 = snd s2 @ Init cred ctx name (Some u) init_flags c out # es2"
proof -
  obtain a1 e1 cred sa e2 name sb where acq: "mg_acquire_cred g a1 s = ((e1, cred), sa)" and imp: "\<exists>b1. mg_import_name g b1 sa = ((e2, name), sb)"
    and run: "mg_init_sec_context_1 g alloc 0 cred name None init_flags sb = Ret (KVal (KxList [tag, peer, d, KxChars tok, ttl]), s1)"
    using start_value [OF assms(5)] by metis
  obtain ctx out es tx where init: "snd s1 = snd sb @ Init cred 0 name None init_flags ctx out # es" "token_text alloc out = Ret (Some tx)"
    "d = mg_init_ctx_pointers_to_dict ctx cred name init_flags" "tok = tx" "sized out"
    using init_1_tokens [OF run] assms(1) by auto
  obtain t where t: "out = Some t" "t \<noteq> []" "base64_decode alloc tok = Ret (Some t)"
    using token_decoded [OF init(2) _ init(5) assms(4)] assms(6) init(4) by metis
  have "extends s sb" using extends_acquire [OF acq] imp extends_import extends_trans by blast
  then obtain es0 where sb: "snd sb = snd s @ es0" by (auto simp: extends_def)
  have "accept_decoded h alloc stk 0 tok r = Ret (KVal (KxList [wk, cn, tn, tm, kc, KxChars reply]), r1)"
    using assms(7) by (simp add: mg_accept_sec_context_def)
  from accept_decoded_calls [OF this t(3) assms(3)] obtain ctx1 out1 es3 where
    acc: "snd r1 = snd r @ Accept 0 t ctx1 out1 # es3" "token_text alloc out1 = Ret (Some reply)" "sized out1"
    using assms(2) by auto
  obtain u where u: "out1 = Some u" "u \<noteq> []" "base64_decode alloc reply = Ret (Some u)"
    using token_decoded [OF acc(2) assms(8) acc(3) assms(4)] by metis
  have "mg_init_sec_context_1 g alloc ctx cred name (Some u) init_flags s2 = Ret (res, s3)"
    using assms(8,9) u(3) by (simp add: init(3) mg_init_sec_context_cont_def mg_init_ctx_pointers_to_dict_def read_own_dict)
  from init_1_calls [OF this] obtain c out2 es2 where "snd s3 = snd s2 @ Init cred ctx name (Some u) init_flags c out2 # es2" by blast
  moreover have "snd s1 = snd s @ es0 @ [Init cred 0 name None init_flags ctx (Some t)] @ es" using init(1) sb t(1) by simp
  moreover have "snd r1 = snd r @ Accept 0 t ctx1 (Some u) # es3" using acc(1) u(1) by simp
  ultimately show ?thesis by blast
qed

text \<open>C40. 
  The acceptor cannot go on with a handshake: where GSSAPI asks for more data, q is given the address of a
  local variable in place of the context, and the next call hands that address to GSSAPI as a context.
\<close>

theorem accept_goes_on_from_stack:
  assumes "plain_codes h" "stk \<noteq> 0"
    and "mg_accept_sec_context h alloc stk k_token r = Ret (KVal (KxList [KxInt 2, cn, tn, tm, k_ctx, k_out]), r1)"
    and "mg_accept_sec_context_cont h alloc stk1 k_ctx (KxChars reply) r2 = Ret (res, r3)" "base64_decode alloc reply = Ret (Some u)"
  shows "\<exists>ctx out es. snd r3 = snd r2 @ Accept stk u ctx out # es"
proof -
  obtain tok where tok: "k_token = KxChars tok" "accept_decoded h alloc stk 0 tok r = Ret (KVal (KxList [KxInt 2, cn, tn, tm, k_ctx, k_out]), r1)"
    using assms(3) by (auto simp: mg_accept_sec_context_def split: kx.splits)
  then obtain bs where "base64_decode alloc tok = Ret (Some bs)"
    by (auto simp: accept_decoded_def split: option.splits)
  from accept_decoded_calls [OF tok(2) this assms(1)] have k: "k_ctx = mg_export_pointer stk" by auto
  have "reply \<noteq> []" using assms(5) by (auto simp: base64_decode_def)
  moreover have "mg_import_pointer (mg_export_pointer stk) = Ret stk" by (simp add: mg_export_pointer_def mg_import_pointer_def)
  ultimately have "accept_decoded h alloc stk1 stk reply r2 = Ret (res, r3)"
    using assms(2,4) by (simp add: mg_accept_sec_context_cont_def k mg_export_pointer_def)
  from accept_decoded_calls [OF this assms(5,1)] show ?thesis by blast
qed

section \<open>An instance\<close>

text \<open>An initiator that needs one reply, and an acceptor that is content with a token of one byte.\<close>

definition sample_gss :: "unit gss_api" where
  "sample_gss =
     \<lparr>gss_accept_sec_context = (\<lambda>ctx tok w.
        (\<lparr>ac_major = (if length tok = 1 then 0 else 1), ac_ctx = 21, ac_src = 31, ac_out = Some [9, 8], ac_flags = 2, ac_time = 600\<rparr>, w)),
      gss_init_sec_context = (\<lambda>cred ctx tgt fl input w.
        (if ctx = 0 then \<lparr>in_major = 1, in_ctx = 11, in_out = Some [7], in_flags = 2\<rparr>
         else \<lparr>in_major = 0, in_ctx = ctx, in_out = None, in_flags = 2\<rparr>, w)),
      gss_inquire_context = (\<lambda>ctx w. ((0, 41, 600), w)),
      gss_display_name = (\<lambda>name w. ((0, [65]), w)),
      gss_import_name = (\<lambda>b w. ((0, 61), w)),
      gss_acquire_cred = (\<lambda>name w. ((0, 51), w)),
      gss_unwrap = (\<lambda>ctx tok w. ((0, None), w)),
      gss_verify_mic = (\<lambda>ctx tok out w. (0, w)),
      gss_release = (\<lambda>ob w. (0, w)),
      krr_null = True\<rparr>"

lemma sample_laws: "init_sized sample_gss" "accept_sized sample_gss" "plain_codes sample_gss" "releases sample_gss" "keeps_context sample_gss"
  by (auto simp: init_sized_def accept_sized_def sized_def plain_codes_def releases_def keeps_context_def sample_gss_def
      GSS_ERROR_def GSS_C_PROT_READY_FLAG_def)

definition sample_dict :: kx where
  "sample_dict = mg_init_ctx_pointers_to_dict 11 51 61 54"

definition init_log :: "gss_event list" where
  "init_log = [Got (GName 61), Got (GCred 51), Freed (GName 61), Got (GName 61), Init 51 0 61 None 54 11 (Some [7]), Got (GCtx 11),
     Got (GBuf [7]), Got (GName 41), Display 41 [65], Got (GBuf [65]), Freed (GName 41), Freed (GBuf [7])]"

definition cont_log :: "gss_event list" where
  "cont_log =
     [Init 51 11 61 (Some [9, 8]) 54 11 None, Got (GName 41), Display 41 [65], Got (GBuf [65]), Freed (GName 41), Freed (GCred 51), Freed (GName 61), Freed (GCtx 11)]"

lemma sample_init:
  "mg_init_sec_context sample_gss (\<lambda>_. True) (KxChars [97]) (KxChars [98]) ((), []) =
     Ret (KVal (KxList [KxInt 1, KxChars [65], sample_dict, KxChars [66, 119, 61, 61, 10], KxInt 600]), ((), init_log))"
  by code_simp

lemma sample_accept:
  "mg_accept_sec_context sample_gss (\<lambda>_. True) 99 (KxChars [66, 119, 61, 61, 10]) ((), []) =
     Ret (KVal (KxList [KxInt 1, KxChars [65], KxChars [65], KxInt 600, KxNull, KxChars [67, 81, 103, 61, 10]]), ((),
       [Accept 0 [7] 21 (Some [9, 8]), Got (GCtx 21), Got (GName 31), Got (GBuf [9, 8]), Display 31 [65], Got (GBuf [65]), Freed (GName 31),
        Freed (GBuf [9, 8]), Got (GName 41), Display 41 [65], Got (GBuf [65]), Freed (GName 41), Freed (GCtx 21)]))"
  by code_simp

lemma sample_cont:
  "mg_init_sec_context_cont sample_gss (\<lambda>_. True) sample_dict (KxChars [67, 81, 103, 61, 10]) ((), init_log) =
     Ret (KVal (KxList [KxInt 2, KxChars [65], KxChars []]), ((), init_log @ cont_log))"
  by code_simp

lemma sample_accept_more:
  "mg_accept_sec_context sample_gss (\<lambda>_. True) 99 (KxChars [67, 81, 103, 61, 10]) ((), []) =
     Ret (KVal (KxList [KxInt 2, KxChars [65], KxChars [65], KxInt 600, KxBytes [99, 0, 0, 0, 0, 0, 0, 0], KxChars [67, 81, 103, 61, 10]]), ((),
       [Accept 0 [9, 8] 21 (Some [9, 8]), Got (GCtx 21), Got (GName 31), Got (GBuf [9, 8]), Display 31 [65], Got (GBuf [65]), Freed (GName 31),
        Freed (GBuf [9, 8]), Got (GName 41), Display 41 [65], Got (GBuf [65]), Freed (GName 41)]))"
  "\<exists>res log. mg_accept_sec_context_cont sample_gss (\<lambda>_. True) 98 (KxBytes [99, 0, 0, 0, 0, 0, 0, 0]) (KxChars [66, 119, 61, 61, 10]) ((), []) =
     Ret (res, ((), log))"
  "base64_decode (\<lambda>_. True) [66, 119, 61, 61, 10] = Ret (Some [7])"
proof -
  show "\<exists>res log. mg_accept_sec_context_cont sample_gss (\<lambda>_. True) 98 (KxBytes [99, 0, 0, 0, 0, 0, 0, 0]) (KxChars [66, 119, 61, 61, 10]) ((), []) =
      Ret (res, ((), log))"
    by (rule exI [of _ "KVal (KxList [KxInt 1, KxChars [65], KxChars [65], KxInt 600, KxNull, KxChars [67, 81, 103, 61, 10]])"],
        rule exI [of _ "[Accept 99 [7] 21 (Some [9, 8]), Got (GCtx 21), Got (GName 31), Got (GBuf [9, 8]), Display 31 [65], Got (GBuf [65]), Freed (GName 31),
          Freed (GBuf [9, 8]), Got (GName 41), Display 41 [65], Got (GBuf [65]), Freed (GName 41), Freed (GCtx 21)]"]) code_simp
qed code_simp+

lemma sample_initiates:
  "initiates sample_gss (\<lambda>_. True) ((), []) (KxList [KxInt 1, KxChars [65], sample_dict, KxChars [66, 119, 61, 61, 10], KxInt 600])
     ((), init_log)"
  "initiates sample_gss (\<lambda>_. True) ((), []) (KxList [KxInt 2, KxChars [65], KxChars []]) ((), init_log @ cont_log)"
  using initiates.first [OF sample_init] initiates.more [OF initiates.first [OF sample_init] refl sample_cont] by blast+

lemma initiator_typed_witness:
  "\<exists>res s2. mg_init_sec_context_cont sample_gss (\<lambda>_. True) sample_dict (KxChars [65, 65, 65]) ((), []) = Ret (res, s2) \<and> res_typed res"
  using initiator_typed [OF sample_initiates(1) sample_laws(1)] by blast

lemma initiator_releases_witness:
  "\<exists>s. initiates sample_gss (\<lambda>_. True) ((), []) (KxList [KxInt 2, KxChars [65], KxChars []]) s \<and>
     held s = {#GBuf [65], GBuf [65]#} \<and> held s = displayed s"
proof -
  from initiator_releases [OF sample_initiates(2) sample_laws(4,5)]
  have "held ((), init_log @ cont_log) = displayed ((), init_log @ cont_log)" by (auto simp: held_def displayed_def)
  moreover have "displayed ((), init_log @ cont_log) = {#GBuf [65], GBuf [65]#}"
    by (simp add: displayed_def init_log_def cont_log_def obj_def)
  ultimately show ?thesis using sample_initiates(2) by (intro exI conjI) (assumption, simp_all)
qed

lemma tokens_pass_through_witness:
  "\<exists>cred name ctx t ctx1 u es3.
     Init cred 0 name None init_flags ctx (Some t) \<in> set init_log \<and>
     [Accept 0 [7] 21 (Some [9, 8]), Got (GCtx 21), Got (GName 31), Got (GBuf [9, 8]), Display 31 [65], Got (GBuf [65]), Freed (GName 31),
        Freed (GBuf [9, 8]), Got (GName 41), Display 41 [65], Got (GBuf [65]), Freed (GName 41), Freed (GCtx 21)] = Accept 0 t ctx1 (Some u) # es3"
proof -
  have "\<forall>n :: u64. True" "[66, 119, 61, 61, 10 :: u8] \<noteq> []" "[67, 81, 103, 61, 10 :: u8] \<noteq> []" by simp_all
  from tokens_pass_through [OF sample_laws(1,2,3) this(1) sample_init this(2) sample_accept this(3) sample_cont]
  obtain cred name ctx t ctx1 u es es1 es3 where
    i: "init_log = es @ [Init cred 0 name None init_flags ctx (Some t)] @ es1" and
    a: "[Accept 0 [7] 21 (Some [9, 8]), Got (GCtx 21), Got (GName 31), Got (GBuf [9, 8]), Display 31 [65], Got (GBuf [65]), Freed (GName 31),
        Freed (GBuf [9, 8]), Got (GName 41), Display 41 [65], Got (GBuf [65]), Freed (GName 41), Freed (GCtx 21)] = Accept 0 t ctx1 (Some u) # es3"
    unfolding snd_conv append_Nil by (elim exE conjE) (rule that)
  have "Init cred 0 name None init_flags ctx (Some t) \<in> set init_log" unfolding i by simp
  with a show ?thesis by blast
qed

lemma accept_goes_on_from_stack_witness:
  "\<exists>ctx out es res r3. mg_accept_sec_context_cont sample_gss (\<lambda>_. True) 98 (KxBytes [99, 0, 0, 0, 0, 0, 0, 0])
      (KxChars [66, 119, 61, 61, 10]) ((), []) = Ret (res, r3) \<and> snd r3 = Accept 99 [7] ctx out # es"
proof -
  obtain res lg where c: "mg_accept_sec_context_cont sample_gss (\<lambda>_. True) 98 (KxBytes [99, 0, 0, 0, 0, 0, 0, 0])
      (KxChars [66, 119, 61, 61, 10]) ((), []) = Ret (res, ((), lg))"
    using sample_accept_more(2) by blast
  have "(99 :: u64) \<noteq> 0" by simp
  from accept_goes_on_from_stack [OF sample_laws(3) this sample_accept_more(1) c sample_accept_more(3)] c show ?thesis by auto
qed

text \<open>What \<open>mg_print_gss_error\<close> says of a code with one field set, and of one with both.\<close>

lemma gss_error_names:
  "mg_print_gss_error 0x00070000 = [(''routine error'', ''GSS_S_NO_CRED'')]"
  "mg_print_gss_error 0x01070000 = [(''calling error'', ''No mapping''), (''routine error'', ''No mapping'')]"
  by code_simp+

end
