(* ===== verification/Spec2Isabelle.thy ===== *)
theory Spec2Isabelle
  imports Mg_CircBuf Mg_FreeList Kdb_Unzip Kdb_Payload Log_Filter Ex_Reader Tp_App Tp_Main Krb_Gss
begin

text \<open>
  A model of the C++ library \<^verbatim>\<open>mgkdb\<close>: the kdb+ IPC protocol
  (\<^verbatim>\<open>ipc++/include/MgKdbType.H\<close>, \<^verbatim>\<open>ipc++/src/KdbType.C\<close>, below called ipc++), the core utilities it
  rests on (\<^verbatim>\<open>core/include\<close>, \<^verbatim>\<open>core/src\<close>), the program \<^verbatim>\<open>tpmux\<close> that is built with both, and the plug-in
  \<^verbatim>\<open>krb5\<close> that gives q the functions of GSSAPI.

  \<^bold>\<open>The program.\<close> A client of ipc++ holds a buffer of bytes from a socket or a file. \<open>ReadBuf\<close> and
  \<open>WriteBuf\<close> are cursors over such a buffer. Every kdb+ object can write itself into a \<open>WriteBuf\<close> and
  read itself from a \<open>ReadBuf\<close> \<^emph>\<open>in parts\<close>: the buffer may end anywhere, and the next call continues
  from what was sent or received before. \<open>KdbIpcMessageWriter\<close> and \<open>KdbIpcMessageReader\<close> add the message
  header and the compression of messages; \<open>KdbUtil::ipcPayloadLen\<close> measures an image without building
  the object, \<open>KdbUpdMsgFilter\<close> picks update messages without building them, and \<open>KdbJournal\<close> replays a
  log file through such filters.

  \<^verbatim>\<open>tpmux\<close> is one thread of coroutines over \<open>epoll\<close>. Each subscription is a task: it connects to a
  tickerplant (\<open>tcp_connect\<close>, \<open>kdb_connect\<close>), asks for the tables and copies what it wants from the
  tickerplant's log (\<open>kdb_subscribe_and_replay\<close>, which awaits \<open>kdb_read_message\<close>), and then filters the
  messages that arrive into a journal of its own (\<open>kdb_read_tcp_messages\<close>).

  The functions of \<^verbatim>\<open>mg_krb5.c\<close> are called by q code on both sides of a connection, which carries the tokens
  they make as text in base-64: the initiator's functions keep their handles in a dictionary of q, the
  acceptor's give the context back as a vector of bytes.

  \<^bold>\<open>The theories\<close>, in the order of their imports:
  \<^item> \<open>Mg_Prelude\<close>: bytes, little-endian images of machine integers, \<open>strnlen\<close>, truncating division, and
    \<open>outcome\<close>, the three ends of a C++ call (\<open>Ret\<close>, \<open>Throw\<close>, \<open>Undef\<close> for undefined behaviour).
  \<^item> \<open>Mg_Core\<close>: \<^verbatim>\<open>MgCore.H\<close>, alignment, \<open>Extent\<close>, \<open>PageCount\<close>, \<open>Address\<close> on 64-bit words.
  \<^item> \<open>Mg_FreeList\<close>: \<^verbatim>\<open>FreeList.C\<close>, the slot allocator; \<open>fl_run\<close> is a client of it.
  \<^item> \<open>Mg_Io\<close>: the wrappers of system calls, \<open>read_fully\<close>, \<open>write_fully\<close>, \<open>FileDesc\<close>.
  \<^item> \<open>Mg_Map\<close>, \<open>Mg_CircBuf\<close>: \<^verbatim>\<open>MapTypes.C\<close> and \<^verbatim>\<open>CircularBuffer.C\<close>; the ring buffer is an interpretation of
    the locale of a queue of bytes. Its memory is what the logged calls of \<open>mmap\<close> have mapped: that the two copies
    show the same bytes is proved of the calls of \<open>init_circ_buffer\<close>.
  \<^item> \<open>Kdb_Types\<close>: the classes derived from \<open>KdbBase\<close> as one datatype \<open>kobj\<close>, the vectors with the
    capacity that differs from the number of elements while they are being read, the symbol vector with
    its table of positions, construction, lookup and \<open>wireSz\<close>.
  \<^item> \<open>Kdb_Buf\<close>: \<open>ReadBuf\<close> and \<open>WriteBuf\<close>. The field \<open>rb_src\<close> is all the caller's memory from the start of
    the buffer, and an access behind it is \<open>Undef\<close>.
  \<^item> \<open>Kdb_Write\<close>: the \<open>write\<close> methods (\<open>kwrite\<close>); \<open>pieces\<close> is the specification, the list of the
    indivisible byte strings of an object's wire image, and \<open>enc\<close> their concatenation.
  \<^item> \<open>Kdb_Writer\<close>: \<open>KdbIpcMessageWriter\<close> over the locale \<open>wire_object\<close>, interpreted on \<open>kobj\<close>.
  \<^item> \<open>Kdb_Read\<close>, \<open>Kdb_Resume\<close>: \<open>newInstance\<close> and the \<open>read\<close> methods (\<open>kread\<close>), and the proof that a
    read that was interrupted continues where it stopped.
  \<^item> \<open>Kdb_Inflate\<close>: \<open>KdbIpcDecompressor\<close>, which continues where its input ended, and how far behind its allocation
    it can write: the code has no test.
  \<^item> \<open>Kdb_Message\<close>: \<open>KdbIpcMessageReader\<close> with and without compression.
  \<^item> \<open>Kdb_Unzip\<close>: the format of compressed messages as a relation between data and items, plain bytes and back
    references; the decompressor restores the data, and the reader the object, from any stream of the format.
  \<^item> \<open>Kdb_Payload\<close>: \<open>KdbUtil::ipcPayloadLen\<close> and the \<open>msg_len\<close> functions.
  \<^item> \<open>Kdb_Journal\<close>: \<open>KdbUpdMsgFilter\<close>, \<open>KdbJournal\<close>.
  \<^item> \<open>Log_Filter\<close>: \<^verbatim>\<open>log_filter/src/log_filter.c\<close>, the library that replays a journal inside a q process.
  \<^item> \<open>Kdb_Time\<close>: dates, times and timestamps and their text.
  \<^item> \<open>Kdb_Format\<close>: the text of objects, \<open>KdbQuirks\<close>, \<open>vectorPrint\<close> and the \<open>std::formatter\<close>s, with a reader of vectors
    of numbers as their specification.
  \<^item> \<open>Tp_Epoll\<close>: the objects the coroutines share, and the registration of descriptors. A coroutine is a
    function of the events it is woken by; it ends with \<open>Awaits\<close> when they run out.
  \<^item> \<open>Tp_Recv\<close>, \<open>Tp_Read\<close>, \<open>Tp_Connect\<close>, \<open>Tp_Subscribe\<close>: the four coroutines, one file of
    \<^verbatim>\<open>tpmux/src\<close> each (\<open>Tp_Connect\<close> has two).
  \<^item> \<open>Tp_App\<close>: \<open>subscribe\<close> of \<^verbatim>\<open>mg_coro_app.cpp\<close>, which awaits them in turn, and what one subscription journals
    when its connection is made and its events bring whole messages.
  \<^item> \<open>Tp_Task\<close>: \<^verbatim>\<open>mg_coro_task.h\<close>, how frames of coroutines resume each other when events come; it is what allows
    the other theories to take a coroutine for a function of its own events. A body is a tree of awaits over events of
    any type, with finitely many on each path: a loop that awaits for ever stands there unfolded as far as the events go.
    An event for a task that has returned is undefined: the awaiter was in its frame.
  \<^item> \<open>Tp_Main\<close>: the main loop with its tests of \<open>complete\<close>: the tasks run as they would alone up to the events with
    which the first of them returns, and what follows is undefined.
  \<^item> \<open>Ex_Reader\<close>: the program \<^verbatim>\<open>examples/src/journal_reader.C\<close>, from the bytes of a journal to the text on the screen.
  \<^item> \<open>Krb_Base64\<close>, \<open>Krb_Gss\<close>: \<^verbatim>\<open>krb5/src/mg_krb5.c\<close>, its base-64 in both directions, and the two sides of the
    handshake over a record of GSSAPI's functions. Their log says which handles and which buffers are made and released.

  \<^bold>\<open>Parameters.\<close> Memory allocation that can fail is a \<open>bool\<close> or a function of the size. The calls of
  the operating system are functions on a world of any type, in the records \<open>os\<close> (files) and \<open>posix\<close>
  (sockets, mappings, \<open>epoll\<close>), and a log of the calls is part of the result, so that what is opened,
  closed and written can be stated. The lookup of a host is a function of the world, the functions of q's
  own library that \<open>Log_Filter\<close> calls are the record \<open>kapi\<close>, those of GSSAPI the record \<open>gss_api\<close>, the text of
  floating point numbers the record \<open>float_text\<close>, and an event is its flags with what has happened to the
  world before it.

  \<^bold>\<open>Bounds.\<close> There is no fuel. Loops are structural recursions or functions with a measure (the bytes
  left in the buffer or the input, the records left to replay). A loop over system calls
  that may never end is \<open>until_inl\<close>, whose value is then \<open>None\<close>; where such a loop ends, that is proved. Sizes that C++ holds in
  32 or 64 bits are words where the wrap-around matters (\<open>Mg_Core\<close>, \<open>Mg_FreeList\<close>, the decompressor, the
  counters of the message reader, the payload length, the filter) and natural numbers in the cursors,
  whose sizes come from memory that exists.

  \<^bold>\<open>Not modelled.\<close> Logging, the error texts of GSSAPI, the functions of \<^verbatim>\<open>mg_krb5.c\<close> that nothing calls
  (\<open>mg_export_sec_context\<close>, \<open>mg_import_sec_context\<close>), the other example programs, the mocks, the JavaScript and the q code.
  \<^verbatim>\<open>ring/include/MgCoro.H\<close> is a copy of \<^verbatim>\<open>mg_coro_task.h\<close>.
\<close>

section \<open>Properties that span components\<close>

lemma upd_call_table: "upd_call x = Some (f, t) \<Longrightarrow> msg_table x = Some t"
  by (cases x rule: upd_call.cases) auto

text \<open>C24. Three functions walk over the image of a message without building it: \<open>ipcPayloadLen\<close>, the
  update filter of ipc++ and \<open>mg_chk_msg\<close> of log_filter. On an update call of which \<open>ipcPayloadLen\<close> knows all parts, the
  first gives its length, the filter its length with the verdict as sign, and \<open>mg_chk_msg\<close> its length and
  the same verdict about the table (it does not look at the name of the function), or it aborts: when there is
  a vector of guids.\<close>

theorem filters_agree:
  assumes "kcan x" "counted x" "upd_call x = Some (f, t)" "length (enc x) < 2 ^ 31" "\<forall>u \<in> set tbls. 0 \<notin> set u"
  shows "ipcPayloadLen (enc x @ rest) (word_of_nat (length (enc x))) = Ret (int (length (enc x))) \<and>
    filter_upd_msg (enc x @ rest) (word_of_nat (length (enc x))) fn (set tbls) =
      Ret (if f = fn \<and> t \<in> set tbls then int (length (enc x)) else - int (length (enc x))) \<and>
    (if lf_known x then \<exists>c. mg_chk_msg (enc x @ rest) tbls = Ret (length (enc x), c) \<and> (relevant c \<longleftrightarrow> t \<in> set tbls)
     else mg_chk_msg (enc x @ rest) tbls = Throw Abort)"
proof (intro conjI)
  have "unat (word_of_nat (length (enc x)) :: u64) = length (enc x)"
    using assms(4) by (intro unat_word_of_nat64) simp
  then show "ipcPayloadLen (enc x @ rest) (word_of_nat (length (enc x))) = Ret (int (length (enc x)))"
    using assms by (intro payload_len_counted(1)) simp_all
  show "filter_upd_msg (enc x @ rest) (word_of_nat (length (enc x))) fn (set tbls) =
      Ret (if f = fn \<and> t \<in> set tbls then int (length (enc x)) else - int (length (enc x)))"
    by (rule filter_upd_msg_call [OF assms(1,3,4)])
  show "if lf_known x then \<exists>c. mg_chk_msg (enc x @ rest) tbls = Ret (length (enc x), c) \<and> (relevant c \<longleftrightarrow> t \<in> set tbls)
     else mg_chk_msg (enc x @ rest) tbls = Throw Abort"
    using mg_chk_msg_known [OF assms(5,1) _ assms(4), of rest] upd_call_table [OF assms(3)]
      unknown_aborts(1) [OF assms(5,1,2) _ assms(4), of rest] by (simp add: mg_chk_msg_def)
qed

text \<open>An update whose third element is a vector of guids, beside the one of theory \<open>Log_Filter\<close>.\<close>

definition guid_upd :: kobj where
  "guid_upd = KdbList 0 3 [KdbSymbolAtom [102], KdbSymbolAtom [116], KdbVector (KdbGuidVector ATTR_NONE \<lparr>v_cap = 0, v_vals = []\<rparr>)]"

theorem filters_agree_witness:
  "(\<exists>c. mg_chk_msg (enc (sample_upd 116)) [[116]] = Ret (14, c) \<and> relevant c) \<and>
    filter_upd_msg (enc (sample_upd 116)) 14 [102] {[116]} = Ret 14 \<and>
    filter_upd_msg (enc (sample_upd 116)) 14 [103] {[116]} = Ret (- 14) \<and>
    mg_chk_msg (enc guid_upd) [[116]] = Throw Abort"
proof -
  have c: "lf_known (sample_upd 116)" "counted (sample_upd 116)" by (simp_all add: sample_upd_def)
  have g: "kcan guid_upd" "counted guid_upd" "upd_call guid_upd = Some ([102], [116])" "length (enc guid_upd) < 2 ^ 31" "\<not> lf_known guid_upd"
    by (simp_all add: guid_upd_def vec_hdr_def)
  show ?thesis
    using filters_agree [of "sample_upd 116" "[102]" "[116]" "[[116]]" "[]" "[102]"]
      filters_agree [of "sample_upd 116" "[102]" "[116]" "[[116]]" "[]" "[103]"]
      filters_agree [of guid_upd "[102]" "[116]" "[[116]]" "[]" "[102]"] sample_upd_facts [of 116] c g by auto
qed

end
